(* ===== verification/Prelude.thy ===== *)
theory Prelude
  imports Main "HOL-Library.Word" "HOL-Library.Char_ord" "HOL-Library.List_Lexorder"
    "HOL-Library.Product_Lexorder"
begin

section \<open>Shared vocabulary of the development\<close>

text \<open>
  The reading of Rust that every component theory uses.

  \<^item> \<open>Result<T, E>\<close> is the sum \<open>'e + 'a\<close> with \<open>Inl\<close> for \<open>Err\<close> and \<open>Inr\<close> for \<open>Ok\<close>; the
    question-mark operator is \<open>and_then\<close>, an early \<open>return Err(e)\<close> is an \<open>if\<close> branch or
    \<open>require\<close>, and a loop whose body uses the question mark is \<open>try_fold\<close>.
  \<^item> \<open>str\<close> and \<open>String\<close> are their UTF-8 bytes, an Isabelle \<open>string\<close> (a list of the 256 values
    of type \<open>char\<close>): \<open>length\<close> is \<open>len()\<close>, the order of \<open>List_Lexorder\<close> is the byte order of
    \<open>Ord for str\<close>, and \<open>utf8_chars\<close> below reads the scalar values as \<open>chars()\<close> does.
  \<^item> Unsigned integers are \<open>nat\<close>; a \<open>checked_add\<close> is \<open>checked_add\<close> at its width. Where the code
    uses plain \<open>+\<close> an invariant bounds the operands. Packed words are \<open>64 word\<close>.
  \<^item> \<open>binary_search_by\<close> is the search loop of the standard library, not a membership test.
\<close>

named_theorems inv_intros \<open>introduction of well-formedness invariants, one per operation\<close>
named_theorems frame_simps \<open>fields an operation leaves unchanged\<close>

subsection \<open>Results\<close>

definition and_then :: "'e + 'a \<Rightarrow> ('a \<Rightarrow> 'e + 'b) \<Rightarrow> 'e + 'b" where
  "and_then r f = (case r of Inl e \<Rightarrow> Inl e | Inr x \<Rightarrow> f x)"

definition require :: "bool \<Rightarrow> 'e \<Rightarrow> 'e + unit" where
  "require c e = (if c then Inr () else Inl e)"

definition ok_or :: "'a option \<Rightarrow> 'e \<Rightarrow> 'e + 'a" where
  "ok_or x e = (case x of None \<Rightarrow> Inl e | Some v \<Rightarrow> Inr v)"

definition is_ok :: "'e + 'a \<Rightarrow> bool" where
  "is_ok r = (case r of Inl _ \<Rightarrow> False | Inr _ \<Rightarrow> True)"

fun try_fold :: "('s \<Rightarrow> 'x \<Rightarrow> 'e + 's) \<Rightarrow> 's \<Rightarrow> 'x list \<Rightarrow> 'e + 's" where
  "try_fold f s [] = Inr s"
| "try_fold f s (x # xs) = and_then (f s x) (\<lambda>t. try_fold f t xs)"

lemma and_then_simps [simp]:
  "and_then (Inl e) f = Inl e"
  "and_then (Inr x) f = f x"
  by (simp_all add: and_then_def)

lemma and_then_eq_Inr [simp]:
  "and_then r f = Inr y \<longleftrightarrow> (\<exists>x. r = Inr x \<and> f x = Inr y)"
  by (cases r) auto

lemma and_then_eq_Inl:
  "and_then r f = Inl e \<longleftrightarrow> r = Inl e \<or> (\<exists>x. r = Inr x \<and> f x = Inl e)"
  by (cases r) auto

lemma and_then_cong [fundef_cong]:
  assumes "r = r'" and "\<And>x. r' = Inr x \<Longrightarrow> f x = f' x"
  shows "and_then r f = and_then r' f'"
  using assms by (cases r') auto

lemma require_eq_Inr [simp]: "require c e = Inr u \<longleftrightarrow> c"
  by (simp add: require_def)

lemma require_eq_Inl [simp]: "require c e = Inl e' \<longleftrightarrow> \<not> c \<and> e = e'"
  by (auto simp: require_def)

lemma require_simps [simp]: "require True e = Inr ()" "require False e = Inl e"
  by (simp_all add: require_def)

lemma ok_or_simps [simp]: "ok_or None e = Inl e" "ok_or (Some x) e = Inr x"
  by (simp_all add: ok_or_def)

lemma ok_or_eq_Inr [simp]: "ok_or x e = Inr y \<longleftrightarrow> x = Some y"
  by (cases x) auto

lemma ok_or_eq_Inl [simp]: "ok_or x e = Inl e' \<longleftrightarrow> x = None \<and> e = e'"
  by (cases x) auto

lemma is_ok_simps [simp]: "is_ok (Inl e) = False" "is_ok (Inr x) = True"
  by (simp_all add: is_ok_def)

lemma is_ok_iff: "is_ok r \<longleftrightarrow> (\<exists>x. r = Inr x)"
  by (cases r) auto

text \<open>An invariant of the body is an invariant of the loop.\<close>

lemma try_fold_invariant:
  assumes "try_fold f s xs = Inr t" and "P s"
    and "\<And>s x t. x \<in> set xs \<Longrightarrow> P s \<Longrightarrow> f s x = Inr t \<Longrightarrow> P t"
  shows "P t"
  using assms
proof (induction xs arbitrary: s)
  case Nil
  then show ?case by simp
next
  case (Cons x xs)
  from Cons.prems(1) obtain u where u: "f s x = Inr u" "try_fold f u xs = Inr t"
    by auto
  have "P u" using Cons.prems(2) u(1) by (rule Cons.prems(3) [of x s u, rotated]) simp
  with u(2) show ?case by (rule Cons.IH) (auto intro: Cons.prems(3))
qed

lemma try_fold_append:
  "try_fold f s (xs @ ys) = and_then (try_fold f s xs) (\<lambda>t. try_fold f t ys)"
proof (induction xs arbitrary: s)
  case Nil
  then show ?case by simp
next
  case (Cons x xs)
  then show ?case by (cases "f s x") auto
qed

text \<open>The same with the processed prefix, or its length, in the invariant.\<close>

lemma try_fold_prefix:
  assumes "try_fold f s xs = Inr t" and "P [] s"
    and "\<And>ys x s t. x \<in> set xs \<Longrightarrow> P ys s \<Longrightarrow> f s x = Inr t \<Longrightarrow> P (ys @ [x]) t"
  shows "P xs t"
  using assms
proof (induction xs arbitrary: t rule: rev_induct)
  case Nil
  then show ?case by simp
next
  case (snoc x xs)
  from snoc.prems(1) obtain u where u: "try_fold f s xs = Inr u" "f u x = Inr t"
    by (auto simp: try_fold_append)
  have "P xs u" by (rule snoc.IH [OF u(1) snoc.prems(2)]) (use snoc.prems(3) in auto)
  then show ?case using u(2) snoc.prems(3) by simp
qed

lemma try_fold_enumerate:
  assumes "try_fold f s (List.enumerate 0 xs) = Inr t" and "P 0 s"
    and "\<And>k s t. k < length xs \<Longrightarrow> P k s \<Longrightarrow> f s (k, xs ! k) = Inr t \<Longrightarrow> P (Suc k) t"
  shows "P (length xs) t"
  using assms
proof (induction xs arbitrary: t rule: rev_induct)
  case Nil
  then show ?case by simp
next
  case (snoc x xs)
  from snoc.prems(1) obtain u
    where u: "try_fold f s (List.enumerate 0 xs) = Inr u" "f u (length xs, x) = Inr t"
    by (auto simp: try_fold_append enumerate_append_eq)
  have step: "P (Suc k) t" if "k < length xs" "P k s" "f s (k, xs ! k) = Inr t" for k s t
    using snoc.prems(3) [of k s t] that by (simp add: nth_append)
  have "P (length xs) u" by (rule snoc.IH [OF u(1) snoc.prems(2) step])
  then show ?case using u(2) snoc.prems(3) [of "length xs" u t] by simp
qed

text \<open>
  A recursion that is modelled with fuel returns \<open>None\<close> when the fuel is spent or the code would
  panic, and \<open>Some\<close> of the code's own result otherwise.
\<close>

definition fuel_then :: "('e + 'a) option \<Rightarrow> ('a \<Rightarrow> ('e + 'b) option) \<Rightarrow> ('e + 'b) option" where
  "fuel_then r f = (case r of None \<Rightarrow> None | Some (Inl e) \<Rightarrow> Some (Inl e) | Some (Inr x) \<Rightarrow> f x)"

lemma fuel_then_simps [simp]:
  "fuel_then None f = None"
  "fuel_then (Some (Inl e)) f = Some (Inl e)"
  "fuel_then (Some (Inr x)) f = f x"
  by (simp_all add: fuel_then_def)

lemma fuel_then_eq_Some_Inr [simp]:
  "fuel_then r f = Some (Inr y) \<longleftrightarrow> (\<exists>x. r = Some (Inr x) \<and> f x = Some (Inr y))"
  by (auto simp: fuel_then_def split: option.splits sum.splits)

lemma fuel_then_eq_None [simp]:
  "fuel_then r f = None \<longleftrightarrow> r = None \<or> (\<exists>x. r = Some (Inr x) \<and> f x = None)"
  by (auto simp: fuel_then_def split: option.splits sum.splits)

lemma fuel_then_cong [fundef_cong]:
  assumes "r = r'" and "\<And>x. r' = Some (Inr x) \<Longrightarrow> f x = f' x"
  shows "fuel_then r f = fuel_then r' f'"
  using assms by (auto simp: fuel_then_def split: option.splits sum.splits)

text \<open>Indexing that panics out of range, and loops over a vector whose body may panic.\<close>

definition nth_opt :: "'a list \<Rightarrow> nat \<Rightarrow> 'a option" where
  "nth_opt xs i = (if i < length xs then Some (xs ! i) else None)"

lemma nth_opt_eq_Some [simp]: "nth_opt xs i = Some x \<longleftrightarrow> i < length xs \<and> x = xs ! i"
  by (auto simp: nth_opt_def)

lemma nth_opt_eq_None [simp]: "nth_opt xs i = None \<longleftrightarrow> length xs \<le> i"
  by (auto simp: nth_opt_def)

fun fold_opt :: "('s \<Rightarrow> 'x \<Rightarrow> 's option) \<Rightarrow> 's \<Rightarrow> 'x list \<Rightarrow> 's option" where
  "fold_opt f s [] = Some s"
| "fold_opt f s (x # xs) = (case f s x of None \<Rightarrow> None | Some t \<Rightarrow> fold_opt f t xs)"

fun fuel_fold :: "('s \<Rightarrow> 'x \<Rightarrow> ('e + 's) option) \<Rightarrow> 's \<Rightarrow> 'x list \<Rightarrow> ('e + 's) option" where
  "fuel_fold f s [] = Some (Inr s)"
| "fuel_fold f s (x # xs) = fuel_then (f s x) (\<lambda>t. fuel_fold f t xs)"

lemma fuel_fold_not_None:
  assumes "\<And>s x. x \<in> set xs \<Longrightarrow> f s x \<noteq> None"
  shows "fuel_fold f s xs \<noteq> None"
  using assms by (induction xs arbitrary: s) auto

subsection \<open>Computations that keep their state on failure\<close>

text \<open>
  A method of \<open>&mut self\<close> that returns \<open>Err\<close> leaves the fields it has already written. \<open>sx\<close> is
  a state and error monad that returns the state on both branches.
\<close>

type_synonym ('s, 'e, 'a) sx = "'s \<Rightarrow> ('e + 'a) \<times> 's"

definition sx_return :: "'a \<Rightarrow> ('s, 'e, 'a) sx" where
  "sx_return x s = (Inr x, s)"

definition sx_fail :: "'e \<Rightarrow> ('s, 'e, 'a) sx" where
  "sx_fail e s = (Inl e, s)"

definition sx_bind :: "('s, 'e, 'a) sx \<Rightarrow> ('a \<Rightarrow> ('s, 'e, 'b) sx) \<Rightarrow> ('s, 'e, 'b) sx" where
  "sx_bind m f s = (case m s of (Inl e, t) \<Rightarrow> (Inl e, t) | (Inr x, t) \<Rightarrow> f x t)"

definition sx_get :: "('s, 'e, 's) sx" where
  "sx_get s = (Inr s, s)"

definition sx_put :: "'s \<Rightarrow> ('s, 'e, unit) sx" where
  "sx_put t s = (Inr (), t)"

definition sx_lift :: "'e + 'a \<Rightarrow> ('s, 'e, 'a) sx" where
  "sx_lift r s = (r, s)"

lemmas sx_defs = sx_return_def sx_fail_def sx_get_def sx_put_def sx_lift_def

lemma sx_bind_run [simp]:
  "sx_bind m f s = (Inr y, u) \<longleftrightarrow> (\<exists>x t. m s = (Inr x, t) \<and> f x t = (Inr y, u))"
  by (auto simp: sx_bind_def split: prod.splits sum.splits)

lemma sx_run_simps [simp]:
  "sx_return x s = (Inr y, t) \<longleftrightarrow> y = x \<and> t = s"
  "sx_fail e s = (Inr y, t) \<longleftrightarrow> False"
  "sx_get s = (Inr s', t) \<longleftrightarrow> s' = s \<and> t = s"
  "sx_put v s = (Inr w, t) \<longleftrightarrow> t = v"
  "sx_lift r s = (Inr y, t) \<longleftrightarrow> r = Inr y \<and> t = s"
  by (auto simp: sx_defs)

text \<open>A loop over a vector whose body may fail with the state already changed.\<close>

fun sx_fold :: "('b \<Rightarrow> 'x \<Rightarrow> ('s, 'e, 'b) sx) \<Rightarrow> 'b \<Rightarrow> 'x list \<Rightarrow> ('s, 'e, 'b) sx" where
  "sx_fold f b [] = sx_return b"
| "sx_fold f b (x # xs) = sx_bind (f b x) (\<lambda>c. sx_fold f c xs)"

lemma sx_fold_append:
  "sx_fold f b (xs @ ys) s = (Inr c, u) \<longleftrightarrow>
     (\<exists>d t. sx_fold f b xs s = (Inr d, t) \<and> sx_fold f d ys t = (Inr c, u))"
  by (induction xs arbitrary: b s) auto

lemma sx_fold_prefix:
  assumes "sx_fold f b xs s = (Inr c, t)" and "P [] b s"
    and "\<And>ys x b s c t. P ys b s \<Longrightarrow> x \<in> set xs \<Longrightarrow> f b x s = (Inr c, t) \<Longrightarrow> P (ys @ [x]) c t"
  shows "P xs c t"
proof -
  have "P (ys @ xs) c t"
    if "sx_fold f b xs s = (Inr c, t)" "P ys b s"
      "\<And>ys x b s c t. P ys b s \<Longrightarrow> x \<in> set xs \<Longrightarrow> f b x s = (Inr c, t) \<Longrightarrow> P (ys @ [x]) c t" for ys
    using that
  proof (induction xs arbitrary: b s ys)
    case Nil
    then show ?case by simp
  next
    case (Cons x xs)
    from Cons.prems(1) obtain d u where d: "f b x s = (Inr d, u)" "sx_fold f d xs u = (Inr c, t)" by auto
    have "P (ys @ [x]) d u" by (rule Cons.prems(3) [OF Cons.prems(2) _ d(1)]) simp
    then have "P ((ys @ [x]) @ xs) c t" by (rule Cons.IH [OF d(2)]) (rule Cons.prems(3), auto)
    then show ?case by simp
  qed
  from this [of "[]"] assms show ?thesis by simp
qed

subsection \<open>Checked arithmetic\<close>

definition checked_add :: "nat \<Rightarrow> nat \<Rightarrow> nat \<Rightarrow> nat option" where
  "checked_add w a b = (if a + b < 2 ^ w then Some (a + b) else None)"

lemma checked_add_eq_Some [simp]:
  "checked_add w a b = Some c \<longleftrightarrow> c = a + b \<and> a + b < 2 ^ w"
  by (auto simp: checked_add_def)

lemma checked_add_eq_None [simp]: "checked_add w a b = None \<longleftrightarrow> 2 ^ w \<le> a + b"
  by (auto simp: checked_add_def)

text \<open>\<open>i64::MAX as u64\<close>, the bound of every revision, version and token count.\<close>

definition i64_max :: nat where
  "i64_max = 9223372036854775807"

lemma i64_max_lt: "i64_max < 2 ^ 64" "i64_max + 1 < 2 ^ 64"
  by (simp_all add: i64_max_def)

subsection \<open>Bytes and text\<close>

definition is_ascii_lowercase :: "char \<Rightarrow> bool" where
  "is_ascii_lowercase c \<longleftrightarrow> CHR ''a'' \<le> c \<and> c \<le> CHR ''z''"

definition is_ascii_uppercase :: "char \<Rightarrow> bool" where
  "is_ascii_uppercase c \<longleftrightarrow> CHR ''A'' \<le> c \<and> c \<le> CHR ''Z''"

definition is_ascii_digit :: "char \<Rightarrow> bool" where
  "is_ascii_digit c \<longleftrightarrow> CHR ''0'' \<le> c \<and> c \<le> CHR ''9''"

definition is_ascii_alphabetic :: "char \<Rightarrow> bool" where
  "is_ascii_alphabetic c \<longleftrightarrow> is_ascii_lowercase c \<or> is_ascii_uppercase c"

definition is_ascii_alphanumeric :: "char \<Rightarrow> bool" where
  "is_ascii_alphanumeric c \<longleftrightarrow> is_ascii_alphabetic c \<or> is_ascii_digit c"

lemmas ascii_defs = is_ascii_lowercase_def is_ascii_uppercase_def is_ascii_digit_def
  is_ascii_alphabetic_def is_ascii_alphanumeric_def less_eq_char_def less_char_def

definition is_ascii_byte :: "char \<Rightarrow> bool" where
  "is_ascii_byte c \<longleftrightarrow> (of_char c :: nat) < 128"

lemma ascii_classes_are_ascii:
  "is_ascii_alphanumeric c \<Longrightarrow> is_ascii_byte c"
  "is_ascii_lowercase c \<Longrightarrow> is_ascii_byte c"
  "is_ascii_digit c \<Longrightarrow> is_ascii_byte c"
  by (auto simp: ascii_defs is_ascii_byte_def)

text \<open>\<open>windows(2).any(..)\<close> of the slice API.\<close>

fun any_window2 :: "('a \<Rightarrow> 'a \<Rightarrow> bool) \<Rightarrow> 'a list \<Rightarrow> bool" where
  "any_window2 P (x # y # r) = (P x y \<or> any_window2 P (y # r))"
| "any_window2 P _ = False"

lemma not_any_window2_sorted:
  fixes f :: "'a \<Rightarrow> 'k::linorder"
  shows "\<not> any_window2 (\<lambda>x y. f x \<ge> f y) xs \<longleftrightarrow> sorted_wrt (<) (map f xs)"
  by (induction "\<lambda>x y. f x \<ge> f y" xs rule: any_window2.induct) fastforce+

text \<open>
  Decoding as \<open>core::str::next_code_point\<close> does it: the lead byte gives the width, every
  continuation byte its low six bits. The input is UTF-8 by the invariant of \<open>str\<close>.
\<close>

definition utf8_width :: "nat \<Rightarrow> nat" where
  "utf8_width x = (if x < 128 then 1 else if x < 224 then 2 else if x < 240 then 3 else 4)"

definition next_code_point :: "char \<Rightarrow> string \<Rightarrow> nat" where
  "next_code_point a r =
     (let x = of_char a; w = utf8_width x in
      if w = 1 then x
      else foldl (\<lambda>acc c. acc * 64 + of_char c mod 64) (x mod 2 ^ (7 - w)) (take (w - 1) r))"

fun utf8_chars :: "string \<Rightarrow> nat list" where
  "utf8_chars [] = []"
| "utf8_chars (a # r) =
     next_code_point a r # utf8_chars (drop (utf8_width (of_char a) - 1) r)"

definition utf8_encode :: "nat \<Rightarrow> string" where
  "utf8_encode n = map char_of
     (if n < 128 then [n]
      else if n < 2048 then [192 + n div 64, 128 + n mod 64]
      else if n < 65536 then [224 + n div 4096, 128 + n div 64 mod 64, 128 + n mod 64]
      else [240 + n div 262144, 128 + n div 4096 mod 64, 128 + n div 64 mod 64, 128 + n mod 64])"

lemma utf8_chars_ascii: "list_all is_ascii_byte s \<Longrightarrow> utf8_chars s = map of_char s"
  by (induction s) (simp_all add: is_ascii_byte_def utf8_width_def next_code_point_def)

lemma utf8_encode_ascii: "n < 128 \<Longrightarrow> utf8_encode n = [char_of n]"
  by (simp add: utf8_encode_def)

text \<open>ASCII case folding, and slices: Rust panics unless both ends of \<open>&s[a..b]\<close> are character
  boundaries.\<close>

definition to_ascii_lowercase :: "char \<Rightarrow> char" where
  "to_ascii_lowercase b = (if is_ascii_uppercase b then char_of (of_char b + 32 :: nat) else b)"

definition eq_ignore_ascii_case :: "string \<Rightarrow> string \<Rightarrow> bool" where
  "eq_ignore_ascii_case s t \<longleftrightarrow> map to_ascii_lowercase s = map to_ascii_lowercase t"

definition is_continuation :: "char \<Rightarrow> bool" where
  "is_continuation b \<longleftrightarrow> 128 \<le> (of_char b :: nat) \<and> (of_char b :: nat) < 192"

definition is_char_boundary :: "string \<Rightarrow> nat \<Rightarrow> bool" where
  "is_char_boundary m i \<longleftrightarrow> i = 0 \<or> i = length m \<or> (i < length m \<and> \<not> is_continuation (m ! i))"

definition str_slice :: "string \<Rightarrow> nat \<Rightarrow> nat \<Rightarrow> string" where
  "str_slice m a b = take (b - a) (drop a m)"

subsection \<open>Binary search and tables sorted by key\<close>

datatype ordering = Less | Equal | Greater

definition cmp :: "'k::linorder \<Rightarrow> 'k \<Rightarrow> ordering" where
  "cmp a b = (if a < b then Less else if a = b then Equal else Greater)"

text \<open>
  \<open>slice::binary_search_by\<close>: halve the window until one element is left, then compare it.
  \<open>Inr i\<close> is \<open>Ok(i)\<close>, \<open>Inl i\<close> is \<open>Err(i)\<close>.
\<close>

function bs_loop :: "('a \<Rightarrow> ordering) \<Rightarrow> 'a list \<Rightarrow> nat \<Rightarrow> nat \<Rightarrow> nat" where
  "bs_loop f xs base n =
     (if 1 < n then
        let half = n div 2; mid = base + half in
        bs_loop f xs (if f (xs ! mid) = Greater then base else mid) (n - half)
      else base)"
  by pat_completeness auto
termination
  by (relation "measure (\<lambda>(f, xs, base, n). n)") auto

declare bs_loop.simps [simp del]

definition binary_search_by :: "('a \<Rightarrow> ordering) \<Rightarrow> 'a list \<Rightarrow> nat + nat" where
  "binary_search_by f xs =
     (if xs = [] then Inl 0
      else let base = bs_loop f xs 0 (length xs) in
           case f (xs ! base) of Equal \<Rightarrow> Inr base | Less \<Rightarrow> Inl (Suc base) | Greater \<Rightarrow> Inl base)"

lemma cmp_simps [simp]:
  "cmp a b = Less \<longleftrightarrow> a < b" "cmp a b = Equal \<longleftrightarrow> a = b" "cmp a b = Greater \<longleftrightarrow> b < a"
  by (auto simp: cmp_def)

text \<open>What the loop keeps: everything from the end of the window on is too large, and the first
  element of the window is not (unless the window still starts at 0).\<close>

definition bs_window :: "('a \<Rightarrow> 'k::linorder) \<Rightarrow> 'k \<Rightarrow> 'a list \<Rightarrow> nat \<Rightarrow> nat \<Rightarrow> bool" where
  "bs_window key k xs base n \<longleftrightarrow>
     0 < n \<and> base + n \<le> length xs \<and> (base = 0 \<or> key (xs ! base) \<le> k) \<and>
     (\<forall>j. base + n \<le> j \<and> j < length xs \<longrightarrow> k < key (xs ! j))"

lemma sorted_keys_nth:
  fixes key :: "'a \<Rightarrow> 'k::linorder"
  assumes "sorted_wrt (<) (map key xs)" and "i \<le> j" and "j < length xs"
  shows "key (xs ! i) \<le> key (xs ! j)"
  using assms by (cases "i = j") (auto simp: sorted_wrt_iff_nth_less intro: less_imp_le)

lemma bs_window_step:
  fixes key :: "'a \<Rightarrow> 'k::linorder"
  assumes sorted: "sorted_wrt (<) (map key xs)" and win: "bs_window key k xs base n" and "1 < n"
  defines "mid \<equiv> base + n div 2"
  shows "bs_window key k xs (if k < key (xs ! mid) then base else mid) (n - n div 2)"
proof (cases "k < key (xs ! mid)")
  case True
  have "k < key (xs ! j)" if "base + (n - n div 2) \<le> j" "j < length xs" for j
  proof -
    have "mid \<le> j" using that(1) by (simp add: mid_def)
    with sorted that(2) have "key (xs ! mid) \<le> key (xs ! j)" by (intro sorted_keys_nth)
    with True show ?thesis by simp
  qed
  with True win \<open>1 < n\<close> show ?thesis by (auto simp: bs_window_def)
next
  case False
  with win \<open>1 < n\<close> show ?thesis by (auto simp: bs_window_def mid_def not_less)
qed

lemma bs_loop_window:
  fixes key :: "'a \<Rightarrow> 'k::linorder"
  assumes sorted: "sorted_wrt (<) (map key xs)" and win: "bs_window key k xs base n"
  shows "bs_window key k xs (bs_loop (\<lambda>x. cmp (key x) k) xs base n) 1"
  using win
proof (induction n arbitrary: base rule: less_induct)
  case (less n)
  show ?case
  proof (cases "1 < n")
    case True
    have "n - n div 2 < n" using True by simp
    from less.IH [OF this bs_window_step [OF sorted less.prems True]] True show ?thesis
      by (subst bs_loop.simps) (simp add: Let_def)
  next
    case False
    with less.prems have "n = 1" by (simp add: bs_window_def)
    with less.prems show ?thesis by (simp add: bs_loop.simps [of _ xs base])
  qed
qed

lemma binary_search_correct:
  fixes key :: "'a \<Rightarrow> 'k::linorder"
  assumes sorted: "sorted_wrt (<) (map key xs)"
  shows "case binary_search_by (\<lambda>x. cmp (key x) k) xs of
           Inr i \<Rightarrow> i < length xs \<and> key (xs ! i) = k
         | Inl i \<Rightarrow> k \<notin> key ` set xs"
proof (cases "xs = []")
  case True
  then show ?thesis by (simp add: binary_search_by_def)
next
  case False
  define r where "r = bs_loop (\<lambda>x. cmp (key x) k) xs 0 (length xs)"
  have "bs_window key k xs 0 (length xs)" using False by (auto simp: bs_window_def)
  then have win: "bs_window key k xs r 1"
    unfolding r_def by (rule bs_loop_window [OF sorted])
  have absent: "k \<notin> key ` set xs" if "key (xs ! r) \<noteq> k"
  proof
    assume "k \<in> key ` set xs"
    then obtain j where j: "j < length xs" "key (xs ! j) = k" by (auto simp: in_set_conv_nth)
    have "\<not> Suc r \<le> j" using win j by (auto simp: bs_window_def)
    moreover have "j \<noteq> r" using j(2) that by auto
    ultimately have "j < r" by simp
    with win sorted have "key (xs ! j) < key (xs ! r)" "key (xs ! r) \<le> k"
      by (auto simp: bs_window_def sorted_wrt_iff_nth_less)
    with j that show False by simp
  qed
  have "r < length xs" using win by (auto simp: bs_window_def)
  moreover have "binary_search_by (\<lambda>x. cmp (key x) k) xs =
      (case cmp (key (xs ! r)) k of Equal \<Rightarrow> Inr r | Less \<Rightarrow> Inl (Suc r) | Greater \<Rightarrow> Inl r)"
    using False by (simp only: binary_search_by_def r_def Let_def if_False)
  ultimately show ?thesis using absent by (auto split: ordering.split)
qed

text \<open>
  The contract of a vector kept strictly sorted by a key and searched by that key: the credential
  table and the grant table of the Host vault are its two instances.
\<close>

locale sorted_table =
  fixes key :: "'a \<Rightarrow> 'k::linorder" and find :: "'a list \<Rightarrow> 'k \<Rightarrow> nat + nat"
  assumes find_eq: "find xs k = binary_search_by (\<lambda>x. cmp (key x) k) xs"
begin

lemma find_Inr:
  assumes "sorted_wrt (<) (map key xs)" and "find xs k = Inr i"
  shows "i < length xs" and "key (xs ! i) = k"
  using binary_search_correct [OF assms(1), of k] assms(2) by (simp_all add: find_eq)

lemma find_Inl:
  assumes "sorted_wrt (<) (map key xs)" and "find xs k = Inl i"
  shows "k \<notin> key ` set xs"
  using binary_search_correct [OF assms(1), of k] assms(2) by (simp add: find_eq)

lemma is_ok_find:
  assumes "sorted_wrt (<) (map key xs)"
  shows "is_ok (find xs k) \<longleftrightarrow> k \<in> key ` set xs"
  using binary_search_correct [OF assms, of k]
  by (cases "find xs k") (auto simp: find_eq)

lemma sort_insert:
  assumes "sorted_wrt (<) (map key xs)" and "distinct (map key ys)"
    and "key ` set xs \<inter> key ` set ys = {}"
  shows "sorted_wrt (<) (map key (sort_key key (xs @ ys)))"
proof -
  have "distinct (map key (xs @ ys))"
    using assms by (auto simp: strict_sorted_iff)
  then have "distinct (map key (sort_key key (xs @ ys)))"
    by (metis distinct_map distinct_sort set_sort)
  then show ?thesis by (simp add: strict_sorted_iff)
qed

lemma sort_same:
  assumes "sorted_wrt (<) (map key xs)"
  shows "sort_key key xs = xs"
  using assms by (simp add: strict_sorted_iff sort_key_id_if_sorted)

lemma sorted_update:
  assumes "sorted_wrt (<) (map key xs)" and "i < length xs" and "key y = key (xs ! i)"
  shows "sorted_wrt (<) (map key (xs[i := y]))"
proof -
  have "map key (xs[i := y]) = map key xs"
    using assms(2,3) by (simp add: map_update list_update_same_conv)
  with assms(1) show ?thesis by simp
qed

lemma sorted_filter_key:
  assumes "sorted_wrt (<) (map key xs)"
  shows "sorted_wrt (<) (map key (filter P xs))"
  using assms by (auto simp: sorted_wrt_map sorted_wrt_filter)

lemma find_unique:
  assumes "sorted_wrt (<) (map key xs)" and "x \<in> set xs" and "y \<in> set xs" and "key x = key y"
  shows "x = y"
  using assms by (metis distinct_map inj_onD strict_sorted_iff)

end

text \<open>How many elements have a property changes by what the replaced element contributes.\<close>

lemma length_filter_update:
  assumes "i < length xs"
  shows "length (filter P (xs[i := x])) + (if P (xs ! i) then 1 else 0) =
    length (filter P xs) + (if P x then 1 else 0)"
proof -
  have "length (filter P xs) = length (filter P (take i xs @ xs ! i # drop (Suc i) xs))"
    using assms by (simp add: id_take_nth_drop [symmetric])
  moreover have "length (filter P (xs[i := x])) = length (filter P (take i xs @ x # drop (Suc i) xs))"
    using assms by (simp add: upd_conv_take_nth_drop)
  ultimately show ?thesis by simp
qed

text \<open>\<open>Vec::remove\<close>.\<close>

definition remove_at :: "nat \<Rightarrow> 'a list \<Rightarrow> 'a list" where
  "remove_at i xs = take i xs @ drop (Suc i) xs"

lemma set_remove_at_subset: "set (remove_at i xs) \<subseteq> set xs"
  by (auto simp: remove_at_def dest: in_set_takeD in_set_dropD)

lemma length_remove_at: "i < length xs \<Longrightarrow> length (remove_at i xs) = length xs - 1"
  by (simp add: remove_at_def)

lemma sorted_wrt_remove_at:
  assumes "sorted_wrt P (map f xs)"
  shows "sorted_wrt P (map f (remove_at i xs))"
proof -
  have "sorted_wrt P (map f (take i xs @ drop i xs))" using assms by simp
  then have "sorted_wrt P (map f (take i xs) @ map f (drop i xs))" by (simp only: map_append)
  moreover have "drop (Suc i) xs = tl (drop i xs)" by (simp add: drop_Suc tl_drop)
  ultimately show ?thesis
    by (cases "drop i xs") (auto simp: remove_at_def sorted_wrt_append)
qed

subsection \<open>Reachable states\<close>

inductive reach :: "('s \<Rightarrow> bool) \<Rightarrow> ('s \<Rightarrow> 's \<Rightarrow> bool) \<Rightarrow> 's \<Rightarrow> bool"
  for init :: "'s \<Rightarrow> bool" and step :: "'s \<Rightarrow> 's \<Rightarrow> bool"
where
  reach_init: "init s \<Longrightarrow> reach init step s"
| reach_step: "reach init step s \<Longrightarrow> step s t \<Longrightarrow> reach init step t"

locale invariant_system =
  fixes init :: "'s \<Rightarrow> bool" and step :: "'s \<Rightarrow> 's \<Rightarrow> bool" and inv :: "'s \<Rightarrow> bool"
  assumes inv_init: "init s \<Longrightarrow> inv s"
    and inv_step: "inv s \<Longrightarrow> step s t \<Longrightarrow> inv t"
begin

lemma reach_inv: "reach init step s \<Longrightarrow> inv s"
  by (induction rule: reach.induct) (auto intro: inv_init inv_step)

lemma steps_inv: "step\<^sup>*\<^sup>* s t \<Longrightarrow> inv s \<Longrightarrow> inv t"
  by (induction rule: rtranclp_induct) (auto intro: inv_step)

end

subsection \<open>Bounded reservations\<close>

text \<open>
  The contract of a counter of live permits: acquiring takes one unit below a bound or fails,
  releasing gives one back and panics (\<open>None\<close>) when nothing is held. The two admission classes of
  a plugin Store are its instances.
\<close>

datatype permit_op = Acquire | Release

fun run_permits :: "('s \<Rightarrow> 's option) \<Rightarrow> ('s \<Rightarrow> 's option) \<Rightarrow> 's \<Rightarrow> permit_op list \<Rightarrow> 's option" where
  "run_permits acq rel s [] = Some s"
| "run_permits acq rel s (Acquire # ops) =
     run_permits acq rel (case acq s of None \<Rightarrow> s | Some t \<Rightarrow> t) ops"
| "run_permits acq rel s (Release # ops) =
     (case rel s of None \<Rightarrow> None | Some t \<Rightarrow> run_permits acq rel t ops)"

locale reservation =
  fixes live :: "'s \<Rightarrow> nat" and cap :: nat
    and acquire :: "'s \<Rightarrow> 's option" and release :: "'s \<Rightarrow> 's option"
  assumes acquire_Some: "acquire s = Some t \<Longrightarrow> live s < cap \<and> live t = Suc (live s)"
    and acquire_None: "live s \<le> cap \<Longrightarrow> acquire s = None \<Longrightarrow> live s = cap"
    and release_Some: "release s = Some t \<Longrightarrow> live s = Suc (live t)"
    and release_None: "release s = None \<Longrightarrow> live s = 0"
begin

lemma run_bounded: "run_permits acquire release s ops = Some t \<Longrightarrow> live s \<le> cap \<Longrightarrow> live t \<le> cap"
proof (induction ops arbitrary: s)
  case Nil
  then show ?case by simp
next
  case (Cons op ops)
  then show ?case
    by (cases op) (fastforce split: option.splits dest: acquire_Some release_Some)+
qed

lemma saturated_iff: "live s \<le> cap \<Longrightarrow> acquire s = None \<longleftrightarrow> live s = cap"
  using acquire_None acquire_Some by (cases "acquire s") fastforce+

lemma balanced:
  assumes "acquire s = Some t" and "release t = Some u"
  shows "live u = live s"
  using acquire_Some [OF assms(1)] release_Some [OF assms(2)] by simp

lemma held_release_succeeds: "0 < live s \<Longrightarrow> \<exists>t. release s = Some t"
  using release_None by fastforce

end

end
