(* ===== verification/Messages.thy ===== *)
theory Messages
  imports Prelude
begin

section \<open>The message vocabulary\<close>

text \<open>
  The data exchanged between the Agent, the providers and the tools: \<open>mcode-core\<close>
  (\<open>message.rs\<close>, \<open>events.rs\<close>, \<open>error.rs\<close>, \<open>tool.rs\<close>), the request and stream events of
  \<open>mcode-provider-api\<close> and the results of \<open>mcode-tools\<close>. A \<open>CallId\<close> is a transparent newtype
  over a string and is that string here. \<open>serde\_json::Value\<close> is the datatype \<open>json\_value\<close> of the
  library's own constructors; a number is kept as its text, an object as its entries in order.
\<close>

datatype json_value =
    VNull
  | VBool bool
  | VNumber string
  | VString string
  | VArray "json_value list"
  | VObject "(string \<times> json_value) list"

text \<open>\<open>Value::get\<close> with a string index and \<open>Value::as\_str\<close>.\<close>

definition value_get :: "json_value \<Rightarrow> string \<Rightarrow> json_value option" where
  "value_get v k = (case v of VObject entries \<Rightarrow> map_of entries k | _ \<Rightarrow> None)"

definition value_as_str :: "json_value \<Rightarrow> string option" where
  "value_as_str v = (case v of VString s \<Rightarrow> Some s | _ \<Rightarrow> None)"

subsection \<open>Messages (message.rs)\<close>

record tool_call =
  tc_id :: string
  tc_name :: string
  tc_arguments :: json_value

record binary_data =
  bd_data :: string
  bd_mime_type :: string

datatype content_block =
    TextB string
  | ThinkingB string
  | ToolCallB tool_call
  | ImageB binary_data

datatype stop_reason = Stop | ToolUse | Length | StopError

record usage =
  us_input_tokens :: nat
  us_output_tokens :: nat

record assistant_message =
  am_blocks :: "content_block list"
  am_usage :: "usage option"
  am_stop_reason :: stop_reason

record tool_result_message =
  tr_tool_call_id :: string
  tr_content :: "content_block list"
  tr_is_error :: bool
  tr_details :: "json_value option"

record user_message =
  um_content :: "content_block list"

record custom_message =
  cm_kind :: string
  cm_data :: json_value

datatype message =
    User user_message
  | Assistant assistant_message
  | ToolResult tool_result_message
  | Custom custom_message

subsection \<open>Errors and events (error.rs, events.rs)\<close>

datatype mcode_error =
    EIo string
  | ESerde string
  | EProvider string
  | ETool string
  | EPlugin string

datatype message_delta =
    DText string
  | DThinking string
  | DToolCall string string

datatype turn_outcome = Completed | Steered | Aborted

datatype agent_event =
    TurnStarted
  | EvDelta message_delta
  | MessageAdded message
  | ToolStarted string string
  | ToolProgress string string
  | ToolCompleted string tool_result_message
  | TurnEnded turn_outcome
  | EvError mcode_error

subsection \<open>Tool specifications, requests and provider events (tool.rs, provider.rs)\<close>

record tool_spec =
  sp_name :: string
  sp_description :: string
  sp_params_schema :: json_value

record request =
  rq_system_prompt :: "string list"
  rq_messages :: "message list"
  rq_tools :: "tool_spec list"

datatype provider_error_kind = Cancelled | Unavailable | Timeout | Rejected | Protocol

record provider_error =
  pe_kind :: provider_error_kind
  pe_message :: "string option"

datatype stream_event =
    SText string
  | SThinking string
  | SToolCall string string
  | SDone assistant_message
  | SError provider_error

fun is_terminal :: "stream_event \<Rightarrow> bool" where
  "is_terminal (SDone _) = True"
| "is_terminal (SError _) = True"
| "is_terminal _ = False"

subsection \<open>Tool results (mcode-tools/src/tool.rs)\<close>

record tool_result =
  rs_content :: "content_block list"
  rs_is_error :: bool
  rs_details :: "json_value option"

definition tool_result_text :: "string \<Rightarrow> tool_result" where
  "tool_result_text content = \<lparr>rs_content = [TextB content], rs_is_error = False, rs_details = None\<rparr>"

definition tool_result_error :: "string \<Rightarrow> tool_result" where
  "tool_result_error m = \<lparr>rs_content = [TextB m], rs_is_error = True, rs_details = None\<rparr>"

datatype tool_error =
    InvalidArgs string
  | Execution string
  | PluginTrap string

fun tool_error_display :: "tool_error \<Rightarrow> string" where
  "tool_error_display (InvalidArgs m) = ''invalid arguments: '' @ m"
| "tool_error_display (Execution m) = m"
| "tool_error_display (PluginTrap m) = ''plugin trap: '' @ m"

subsection \<open>The tool calls of a message and their answers\<close>

fun tool_call_of :: "content_block \<Rightarrow> tool_call option" where
  "tool_call_of (ToolCallB c) = Some c"
| "tool_call_of _ = None"

text \<open>The \<open>filter\_map\<close> of the inner loop.\<close>

definition tool_calls :: "assistant_message \<Rightarrow> tool_call list" where
  "tool_calls m = List.map_filter tool_call_of (am_blocks m)"

end
