(* ===== verification/Provider_Error.thy ===== *)
theory Provider_Error
  imports Messages
begin

section \<open>Bounded, redacted provider errors\<close>

text \<open>
  \<open>mcode-provider-api/src/error.rs\<close>. A message is scanned by byte offset: a cursor is a \<open>nat\<close>, a
  \<open>Range\<close> a pair of offsets. A slice \<open>\&s[a..b]\<close> is \<open>str_slice s a b\<close>; Rust panics unless both ends
  are character boundaries, which the theorem on the kept ranges below proves they always are. The
  JSON parser and printer of \<open>serde\_json\<close> are the arguments \<open>parse\<close> and \<open>print\<close>.
\<close>

definition MAX_ERROR_MESSAGE_CHARS :: nat where "MAX_ERROR_MESSAGE_CHARS = 512"
definition MAX_ERROR_SCAN_BYTES :: nat where "MAX_ERROR_SCAN_BYTES = 64 * 1024"
definition REDACTED :: string where "REDACTED = ''[REDACTED]''"

fun kind_summary :: "provider_error_kind \<Rightarrow> string" where
  "kind_summary Cancelled = ''provider request cancelled''"
| "kind_summary Unavailable = ''provider unavailable''"
| "kind_summary Timeout = ''provider request timed out''"
| "kind_summary Rejected = ''provider request rejected''"
| "kind_summary Protocol = ''provider protocol error''"

definition provider_error_new :: "provider_error_kind \<Rightarrow> provider_error" where
  "provider_error_new k = \<lparr>pe_kind = k, pe_message = None\<rparr>"

definition is_cancelled_error :: "provider_error \<Rightarrow> bool" where
  "is_cancelled_error e \<longleftrightarrow> pe_kind e = Cancelled"

definition provider_error_display :: "provider_error \<Rightarrow> string" where
  "provider_error_display e =
     kind_summary (pe_kind e) @ (case pe_message e of None \<Rightarrow> [] | Some m \<Rightarrow> '': '' @ m)"

definition mcode_error_from_provider :: "provider_error \<Rightarrow> mcode_error" where
  "mcode_error_from_provider e = EProvider (provider_error_display e)"

subsection \<open>Byte classes and text\<close>

definition is_ascii_whitespace :: "char \<Rightarrow> bool" where
  "is_ascii_whitespace b \<longleftrightarrow> b \<in> {CHR '' '', CHR 0x09, CHR 0x0A, CHR 0x0C, CHR 0x0D}"

definition is_ascii_control :: "char \<Rightarrow> bool" where
  "is_ascii_control b \<longleftrightarrow> (of_char b :: nat) < 32 \<or> (of_char b :: nat) = 127"

definition ends_with :: "string \<Rightarrow> string \<Rightarrow> bool" where
  "ends_with s t \<longleftrightarrow> length t \<le> length s \<and> drop (length s - length t) s = t"

definition contains_str :: "string \<Rightarrow> string \<Rightarrow> bool" where
  "contains_str s t \<longleftrightarrow> list_ex (\<lambda>i. take (length t) (drop i s) = t) [0..<Suc (length s)]"

definition str_get :: "string \<Rightarrow> nat \<Rightarrow> nat \<Rightarrow> string option" where
  "str_get m a b = (if a \<le> b \<and> is_char_boundary m a \<and> is_char_boundary m b then Some (str_slice m a b) else None)"

text \<open>\<open>bytes.get(i).is\_some\_and(P)\<close>.\<close>

definition byte_is :: "(char \<Rightarrow> bool) \<Rightarrow> string \<Rightarrow> nat \<Rightarrow> bool" where
  "byte_is P m i \<longleftrightarrow> i < length m \<and> P (m ! i)"

definition is_key_byte :: "char \<Rightarrow> bool" where
  "is_key_byte b \<longleftrightarrow> is_ascii_alphanumeric b \<or> b \<in> set ''-_.''"

definition is_word_byte :: "char \<Rightarrow> bool" where
  "is_word_byte b \<longleftrightarrow> is_ascii_alphanumeric b \<or> b = CHR ''_''"

definition is_quote :: "char \<Rightarrow> bool" where
  "is_quote b \<longleftrightarrow> b = CHR 0x22 \<or> b = CHR 0x27"

definition is_value_delimiter :: "char \<Rightarrow> bool" where
  "is_value_delimiter b \<longleftrightarrow> is_ascii_whitespace b \<or> is_ascii_control b \<or>
     b \<in> {CHR ''&'', CHR '';'', CHR '','', CHR 0x22, CHR 0x27, CHR ''}'', CHR '']'', CHR ''|'', CHR ''#''}"

definition next_char_boundary :: "string \<Rightarrow> nat \<Rightarrow> nat" where
  "next_char_boundary m cursor = cursor + utf8_width (of_char (m ! cursor))"

lemma next_char_boundary_gt: "cursor < next_char_boundary m cursor"
  by (simp add: next_char_boundary_def utf8_width_def)

subsection \<open>Cursor loops\<close>

text \<open>The two shapes of scanning loop: byte by byte while a class holds, and character by character
  until a stop byte.\<close>

function skip_bytes :: "(char \<Rightarrow> bool) \<Rightarrow> string \<Rightarrow> nat \<Rightarrow> nat" where
  "skip_bytes P m cursor = (if byte_is P m cursor then skip_bytes P m (cursor + 1) else cursor)"
  by pat_completeness auto
termination
  by (relation "measure (\<lambda>(P, m, cursor). length m - cursor)") (auto simp: byte_is_def)

function scan_chars :: "(char \<Rightarrow> bool) \<Rightarrow> string \<Rightarrow> nat \<Rightarrow> nat" where
  "scan_chars stop m cursor =
     (if cursor < length m \<and> \<not> stop (m ! cursor)
      then scan_chars stop m (next_char_boundary m cursor) else cursor)"
  by pat_completeness auto
termination
  by (relation "measure (\<lambda>(P, m, cursor). length m - cursor)")
    (auto simp: next_char_boundary_def utf8_width_def)

declare skip_bytes.simps [simp del] scan_chars.simps [simp del]

definition skip_ascii_whitespace :: "string \<Rightarrow> nat \<Rightarrow> nat" where
  "skip_ascii_whitespace m cursor = skip_bytes is_ascii_whitespace m cursor"

definition credential_token_end :: "string \<Rightarrow> nat \<Rightarrow> nat" where
  "credential_token_end m start = scan_chars is_value_delimiter m start"

definition line_value_end :: "string \<Rightarrow> nat \<Rightarrow> nat" where
  "line_value_end m start =
     scan_chars (\<lambda>b. is_ascii_control b \<or>
       b \<in> {CHR ''&'', CHR ''}'', CHR '']'', CHR ''|'', CHR ''#''}) m start"

function closing_quote_loop :: "string \<Rightarrow> char \<Rightarrow> nat \<Rightarrow> bool \<Rightarrow> nat option" where
  "closing_quote_loop m quote cursor escaped =
     (if cursor < length m then
        let byte = m ! cursor in
        if escaped then closing_quote_loop m quote (cursor + 1) False
        else if byte = CHR 0x5C then closing_quote_loop m quote (cursor + 1) True
        else if byte = quote then Some cursor
        else closing_quote_loop m quote (cursor + 1) escaped
      else None)"
  by pat_completeness auto
termination
  by (relation "measure (\<lambda>(m, quote, cursor, escaped). length m - cursor)") auto

declare closing_quote_loop.simps [simp del]

definition find_closing_quote :: "string \<Rightarrow> nat \<Rightarrow> char \<Rightarrow> nat option" where
  "find_closing_quote m open quote = closing_quote_loop m quote (open + 1) False"

lemma skip_bytes_ge: "cursor \<le> skip_bytes P m cursor"
proof (induction P m cursor rule: skip_bytes.induct)
  case (1 P m cursor)
  then show ?case by (subst skip_bytes.simps) (auto dest: Suc_leD)
qed

lemma skip_bytes_gt: "byte_is P m cursor \<Longrightarrow> cursor < skip_bytes P m cursor"
  using skip_bytes_ge [of "cursor + 1" P m] by (subst skip_bytes.simps) simp

lemma scan_chars_ge: "cursor \<le> scan_chars stop m cursor"
proof (induction stop m cursor rule: scan_chars.induct)
  case (1 stop m cursor)
  then show ?case
    using next_char_boundary_gt [of cursor m] by (subst scan_chars.simps) (auto intro: le_trans)
qed

lemma closing_quote_loop_cases:
  assumes "closing_quote_loop m q cursor e = Some i"
  shows "cursor < length m \<and>
    ((\<exists>b. closing_quote_loop m q (cursor + 1) b = Some i) \<or> i = cursor \<and> m ! cursor = q)"
  using assms unfolding closing_quote_loop.simps [of m q cursor e] Let_def
  by (cases "cursor < length m"; cases e; cases "m ! cursor = CHR 0x5C"; cases "m ! cursor = q") auto

lemma closing_quote_loop_ge:
  "closing_quote_loop m q cursor e = Some i \<Longrightarrow> cursor \<le> i \<and> i < length m \<and> m ! i = q"
proof (induction "length m - cursor" arbitrary: cursor e)
  case 0
  then show ?case using closing_quote_loop_cases by fastforce
next
  case (Suc n)
  from closing_quote_loop_cases [OF Suc.prems]
  consider (skip) b where "cursor < length m" "closing_quote_loop m q (cursor + 1) b = Some i"
    | (found) "cursor < length m" "i = cursor" "m ! cursor = q" by blast
  then show ?case
  proof cases
    case skip
    then have "n = length m - (cursor + 1)" using Suc.hyps(2) by simp
    from Suc.hyps(1) [OF this skip(2)] show ?thesis by simp
  qed simp
qed

subsection \<open>Keys\<close>

definition normalize_key :: "string \<Rightarrow> string" where
  "normalize_key key = filter (\<lambda>c. c \<noteq> CHR ''-'' \<and> c \<noteq> CHR ''_'') (map to_ascii_lowercase key)"

definition is_sensitive_key :: "string \<Rightarrow> bool" where
  "is_sensitive_key key \<longleftrightarrow>
     (let normalized = normalize_key key in
      ends_with normalized ''authorization'' \<or> ends_with normalized ''apikey'' \<or>
      ends_with normalized ''authkey'' \<or> ends_with normalized ''accesskey'' \<or>
      ends_with normalized ''subscriptionkey'' \<or> normalized = ''token'' \<or>
      ends_with normalized ''token'' \<or> contains_str normalized ''secret'' \<or>
      contains_str normalized ''credential'' \<or> contains_str normalized ''password'' \<or>
      normalized = ''cookie'' \<or> normalized = ''setcookie'')"

definition is_cookie_key :: "string \<Rightarrow> bool" where
  "is_cookie_key key \<longleftrightarrow> normalize_key key = ''cookie'' \<or> normalize_key key = ''setcookie''"

definition is_authorization_key :: "string \<Rightarrow> bool" where
  "is_authorization_key key \<longleftrightarrow> ends_with (normalize_key key) ''authorization''"

subsection \<open>Detectors\<close>

text \<open>Whether an assignment starts at an offset: a key, or a quoted key, then \<open>=\<close> or a colon.\<close>

definition is_assign_byte :: "char \<Rightarrow> bool" where
  "is_assign_byte b \<longleftrightarrow> b = CHR ''='' \<or> b = CHR '':''"

definition starts_assignment :: "string \<Rightarrow> nat \<Rightarrow> bool" where
  "starts_assignment m start =
     (if \<not> start < length m then False
      else
        let first = m ! start;
            key_end = (if is_quote first then
                let closing = skip_bytes is_key_byte m (start + 1) in
                if \<not> byte_is (\<lambda>b. b = first) m closing then None else Some (closing + 1)
              else if is_key_byte first then Some (skip_bytes is_key_byte m (start + 1))
              else None) in
        (case key_end of
           None \<Rightarrow> False
         | Some cursor \<Rightarrow> byte_is is_assign_byte m (skip_ascii_whitespace m cursor)))"

definition is_field_delimiter :: "char \<Rightarrow> bool" where
  "is_field_delimiter b \<longleftrightarrow> b \<in> {CHR 0x0D, CHR 0x0A} \<or>
     (is_ascii_control b \<and> \<not> is_ascii_whitespace b) \<or>
     b \<in> {CHR ''&'', CHR '','', CHR '';'', CHR 0x22, CHR 0x27, CHR ''}'', CHR '']'', CHR ''|'', CHR ''#''}"

function field_value_end :: "string \<Rightarrow> nat \<Rightarrow> nat" where
  "field_value_end m cursor =
     (if cursor < length m then
        if is_field_delimiter (m ! cursor) then cursor
        else if is_ascii_whitespace (m ! cursor) then
          let n = skip_ascii_whitespace m cursor in
          if starts_assignment m n then cursor else field_value_end m n
        else field_value_end m (next_char_boundary m cursor)
      else cursor)"
  by pat_completeness auto
termination
proof (relation "measure (\<lambda>(m, cursor). length m - cursor)", goal_cases)
  case (2 m cursor n)
  then have "cursor < n"
    by (simp add: skip_ascii_whitespace_def byte_is_def skip_bytes_gt)
  with 2 show ?case by simp
next
  case (3 m cursor)
  then show ?case using next_char_boundary_gt [of cursor m] by simp
qed simp

declare field_value_end.simps [simp del]

definition assignment_value :: "string \<Rightarrow> nat \<Rightarrow> string \<Rightarrow> (nat \<times> nat) option" where
  "assignment_value m after_key key =
     (let cursor = skip_ascii_whitespace m after_key in
      if \<not> byte_is is_assign_byte m cursor then None
      else
        let cursor = skip_ascii_whitespace m (cursor + 1) in
        if byte_is is_quote m cursor then
          let start = cursor + 1;
              end' = (case find_closing_quote m cursor (m ! cursor) of
                        Some i \<Rightarrow> i | None \<Rightarrow> length m) in
          Some (start, end')
        else
          let end' = (if is_cookie_key key \<or> is_authorization_key key
                      then line_value_end m cursor else field_value_end m cursor) in
          Some (cursor, end'))"

definition bare_sensitive_assignment_value :: "string \<Rightarrow> nat \<Rightarrow> (nat \<times> nat) option" where
  "bare_sensitive_assignment_value m start =
     (if \<not> byte_is is_key_byte m start \<or> (start > 0 \<and> is_key_byte (m ! (start - 1))) then None
      else
        let key_end = skip_bytes is_key_byte m (start + 1);
            key = str_slice m start key_end in
        if is_sensitive_key key then assignment_value m key_end key else None)"

fun key_start_loop :: "string \<Rightarrow> nat \<Rightarrow> nat" where
  "key_start_loop m 0 = 0"
| "key_start_loop m (Suc k) = (if is_key_byte (m ! k) then key_start_loop m k else Suc k)"

definition quoted_sensitive_assignment_value :: "string \<Rightarrow> nat \<Rightarrow> (nat \<times> nat) option" where
  "quoted_sensitive_assignment_value m closing =
     (if \<not> byte_is is_quote m closing then None
      else
        let quote = m ! closing; key_start = key_start_loop m closing in
        if key_start = 0 then None
        else
          let opening = key_start - 1 in
          if m ! opening \<noteq> quote then None
          else
            let key = str_slice m key_start closing in
            if is_sensitive_key key then assignment_value m (closing + 1) key else None)"

definition bearer_value_end :: "string \<Rightarrow> nat \<Rightarrow> nat option" where
  "bearer_value_end m start =
     (let scheme_end = start + 6 in
      case str_get m start scheme_end of
        None \<Rightarrow> None
      | Some scheme \<Rightarrow>
          if \<not> eq_ignore_ascii_case scheme ''Bearer'' \<or> \<not> byte_is is_ascii_whitespace m scheme_end
          then None
          else
            let credential_start = skip_ascii_whitespace m scheme_end in
            if \<not> credential_start < length m then Some credential_start
            else if is_quote (m ! credential_start) then
              Some (case find_closing_quote m credential_start (m ! credential_start) of
                      None \<Rightarrow> length m | Some i \<Rightarrow> i + 1)
            else Some (credential_token_end m credential_start))"

definition standalone_bearer_value :: "string \<Rightarrow> nat \<Rightarrow> (nat \<times> nat) option" where
  "standalone_bearer_value m start =
     (if start > 0 \<and> is_word_byte (m ! (start - 1)) then None
      else map_option (Pair start) (bearer_value_end m start))"

definition prefixed_api_key :: "string \<Rightarrow> nat \<Rightarrow> (nat \<times> nat) option" where
  "prefixed_api_key m start =
     (case str_get m start (start + 3) of
        None \<Rightarrow> None
      | Some prefix \<Rightarrow>
          if \<not> eq_ignore_ascii_case prefix ''sk-'' \<and> \<not> eq_ignore_ascii_case prefix ''sk_'' then None
          else Some (start, credential_token_end m start))"

definition or_else :: "'a option \<Rightarrow> 'a option \<Rightarrow> 'a option" where
  "or_else x y = (case x of None \<Rightarrow> y | Some _ \<Rightarrow> x)"

definition redaction_at :: "string \<Rightarrow> nat \<Rightarrow> (nat \<times> nat) option" where
  "redaction_at m cursor =
     or_else (or_else (or_else (bare_sensitive_assignment_value m cursor)
       (quoted_sensitive_assignment_value m cursor)) (standalone_bearer_value m cursor))
       (prefixed_api_key m cursor)"

subsection \<open>A redaction starts at or after the cursor and ends after it\<close>

lemma field_value_end_ge: "cursor \<le> field_value_end m cursor"
proof (induction m cursor rule: field_value_end.induct)
  case (1 m cursor)
  then show ?case
    using next_char_boundary_gt [of cursor m] skip_bytes_ge [of cursor is_ascii_whitespace m]
    by (subst field_value_end.simps) (auto simp: skip_ascii_whitespace_def Let_def intro: le_trans)
qed

lemma assignment_value_bounds:
  assumes "assignment_value m after_key key = Some (a, b)"
  shows "after_key < a \<and> a \<le> b"
proof -
  let ?c = "skip_ascii_whitespace m after_key" and ?d = "skip_ascii_whitespace m (skip_ascii_whitespace m after_key + 1)"
  have "after_key \<le> ?c" "?c + 1 \<le> ?d"
    by (simp_all only: skip_ascii_whitespace_def skip_bytes_ge)
  then show ?thesis
    using assms field_value_end_ge [of ?d m] scan_chars_ge [of ?d _ m]
      closing_quote_loop_ge [of m "m ! ?d" "?d + 1" False]
    by (auto simp: assignment_value_def Let_def line_value_end_def find_closing_quote_def byte_is_def
        split: if_splits option.splits)
qed

lemma redaction_at_bounds:
  assumes "redaction_at m cursor = Some (a, b)" and "cursor < length m"
  shows "cursor \<le> a \<and> a \<le> b \<and> cursor < b"
proof -
  from assms(1) consider
      (bare) "bare_sensitive_assignment_value m cursor = Some (a, b)"
    | (quoted) "quoted_sensitive_assignment_value m cursor = Some (a, b)"
    | (bearer) "standalone_bearer_value m cursor = Some (a, b)"
    | (prefixed) "prefixed_api_key m cursor = Some (a, b)"
    by (auto simp: redaction_at_def or_else_def split: option.splits)
  then show ?thesis
  proof cases
    case bare
    let ?k = "skip_bytes is_key_byte m (cursor + 1)"
    from bare have "assignment_value m ?k (str_slice m cursor ?k) = Some (a, b)"
      by (auto simp: bare_sensitive_assignment_value_def Let_def split: if_splits)
    moreover have "cursor + 1 \<le> ?k" by (rule skip_bytes_ge)
    ultimately show ?thesis using assignment_value_bounds by fastforce
  next
    case quoted
    then obtain key where "assignment_value m (cursor + 1) key = Some (a, b)"
      by (auto simp: quoted_sensitive_assignment_value_def Let_def split: if_splits)
    then show ?thesis using assignment_value_bounds by fastforce
  next
    case bearer
    let ?s = "skip_ascii_whitespace m (cursor + 6)"
    have s: "cursor + 6 \<le> ?s" by (simp only: skip_ascii_whitespace_def skip_bytes_ge)
    moreover have "?s \<le> credential_token_end m ?s" by (simp add: credential_token_end_def scan_chars_ge)
    ultimately show ?thesis using bearer closing_quote_loop_ge [of m "m ! ?s" "?s + 1" False]
      by (auto simp: standalone_bearer_value_def bearer_value_end_def Let_def find_closing_quote_def
          split: if_splits option.splits)
  next
    case prefixed
    then have ab: "a = cursor" "b = credential_token_end m cursor"
      and sk: "eq_ignore_ascii_case (str_slice m cursor (cursor + 3)) ''sk-'' \<or>
        eq_ignore_ascii_case (str_slice m cursor (cursor + 3)) ''sk_''"
      by (auto simp: prefixed_api_key_def str_get_def split: if_splits option.splits)
    obtain r where "str_slice m cursor (cursor + 3) = m ! cursor # r"
      using assms(2) by (simp add: str_slice_def Cons_nth_drop_Suc [symmetric])
    moreover have "to_ascii_lowercase CHR ''s'' = CHR ''s''"
      by (simp add: to_ascii_lowercase_def ascii_defs)
    ultimately have "to_ascii_lowercase (m ! cursor) = CHR ''s''"
      using sk by (auto simp: eq_ignore_ascii_case_def)
    then have "\<not> is_value_delimiter (m ! cursor)"
      by (auto simp: is_value_delimiter_def is_ascii_whitespace_def is_ascii_control_def
          to_ascii_lowercase_def ascii_defs split: if_splits)
    then have "next_char_boundary m cursor \<le> credential_token_end m cursor"
      using assms(2) scan_chars_ge
      by (subst credential_token_end_def, subst scan_chars.simps) simp
    then show ?thesis using ab next_char_boundary_gt [of cursor m] by simp
  qed
qed

subsection \<open>Redaction\<close>

function redact_loop :: "string \<Rightarrow> string \<Rightarrow> nat \<Rightarrow> nat \<Rightarrow> string" where
  "redact_loop m out copied_until cursor =
     (if cursor < length m then
        (case redaction_at m cursor of
           Some (a, b) \<Rightarrow> redact_loop m (out @ str_slice m copied_until a @ REDACTED) b b
         | None \<Rightarrow> redact_loop m out copied_until (next_char_boundary m cursor))
      else out @ str_slice m copied_until (length m))"
  by pat_completeness auto
termination
  by (relation "measure (\<lambda>(m, out, copied, cursor). length m - cursor)")
    (auto simp: next_char_boundary_gt dest!: redaction_at_bounds intro: diff_less_mono2)

declare redact_loop.simps [simp del]

definition redact_plain_text :: "string \<Rightarrow> string" where
  "redact_plain_text m = redact_loop m [] 0 0"

fun redact_json :: "json_value \<Rightarrow> json_value" where
  "redact_json (VObject entries) = VObject (map (\<lambda>(key, v).
     (key, if is_sensitive_key key then VString REDACTED else redact_json v)) entries)"
| "redact_json (VArray vs) = VArray (map redact_json vs)"
| "redact_json (VString text) = VString (redact_plain_text text)"
| "redact_json v = v"

definition redact_sensitive ::
  "(string \<Rightarrow> json_value option) \<Rightarrow> (json_value \<Rightarrow> string) \<Rightarrow> string \<Rightarrow> string" where
  "redact_sensitive parse print m =
     (case parse m of Some v \<Rightarrow> print (redact_json v) | None \<Rightarrow> redact_plain_text m)"

fun floor_char_boundary :: "string \<Rightarrow> nat \<Rightarrow> nat" where
  "floor_char_boundary m 0 = 0"
| "floor_char_boundary m (Suc i) =
     (if is_char_boundary m (Suc i) then Suc i else floor_char_boundary m i)"

text \<open>\<open>chars().take(n).collect()\<close> and \<open>chars().count()\<close>.\<close>

function take_chars :: "nat \<Rightarrow> string \<Rightarrow> string" where
  "take_chars 0 m = []"
| "take_chars (Suc n) [] = []"
| "take_chars (Suc n) (b # r) =
     b # take (utf8_width (of_char b) - 1) r @ take_chars n (drop (utf8_width (of_char b) - 1) r)"
  by pat_completeness auto
termination by lexicographic_order

definition char_count :: "string \<Rightarrow> nat" where
  "char_count m = length (utf8_chars m)"

definition truncation_suffix :: string where
  "truncation_suffix = utf8_encode 8230 @ '' [truncated]''"

definition sanitize_message ::
  "(string \<Rightarrow> json_value option) \<Rightarrow> (json_value \<Rightarrow> string) \<Rightarrow> string \<Rightarrow> string" where
  "sanitize_message parse print raw =
     (let input_end = floor_char_boundary raw (min (length raw) MAX_ERROR_SCAN_BYTES);
          redacted = redact_sensitive parse print (str_slice raw 0 input_end) in
      if char_count redacted \<le> MAX_ERROR_MESSAGE_CHARS then redacted
      else take_chars MAX_ERROR_MESSAGE_CHARS redacted @ truncation_suffix)"

definition provider_error_with_message ::
  "(string \<Rightarrow> json_value option) \<Rightarrow> (json_value \<Rightarrow> string) \<Rightarrow>
   provider_error_kind \<Rightarrow> string \<Rightarrow> provider_error" where
  "provider_error_with_message parse print k message =
     (let message = sanitize_message parse print message in
      \<lparr>pe_kind = k, pe_message = (if message \<noteq> [] then Some message else None)\<rparr>)"

subsection \<open>UTF-8 and character boundaries\<close>

text \<open>The structure of UTF-8 that the scanner relies on; every Rust \<open>str\<close> has it.\<close>

function is_utf8 :: "string \<Rightarrow> bool" where
  "is_utf8 [] \<longleftrightarrow> True"
| "is_utf8 (b # r) \<longleftrightarrow>
     (let w = utf8_width (of_char b) - 1 in
      \<not> is_continuation b \<and> w \<le> length r \<and> list_all is_continuation (take w r) \<and> is_utf8 (drop w r))"
  by pat_completeness auto
termination by (relation "measure length") auto

declare is_utf8.simps(2) [simp del]

lemma is_utf8_append: "is_utf8 s \<Longrightarrow> is_utf8 t \<Longrightarrow> is_utf8 (s @ t)"
  by (induction s rule: is_utf8.induct) (auto simp: is_utf8.simps(2) Let_def)

lemma utf8_split:
  assumes "is_utf8 m" and "is_char_boundary m c"
  shows "is_utf8 (take c m) \<and> is_utf8 (drop c m)"
  using assms
proof (induction m arbitrary: c rule: is_utf8.induct)
  case 1
  then show ?case by simp
next
  case (2 b r)
  let ?w = "utf8_width (of_char b) - 1"
  from 2(2) have u: "\<not> is_continuation b" "?w \<le> length r" "list_all is_continuation (take ?w r)"
    "is_utf8 (drop ?w r)" by (simp_all add: is_utf8.simps(2) Let_def)
  show ?case
  proof (cases c)
    case 0
    then show ?thesis using 2(2) by simp
  next
    case (Suc d)
    have "\<not> d < ?w"
    proof
      assume d: "d < ?w"
      then have "is_continuation (r ! d)" using u(2,3) by (auto simp: list_all_length)
      then show False using 2(3) Suc d u(2) by (auto simp: is_char_boundary_def)
    qed
    then have "is_char_boundary (drop ?w r) (d - ?w)"
      using 2(3) Suc \<open>\<not> d < ?w\<close> by (auto simp: is_char_boundary_def intro: diff_less_mono)
    from 2(1) [OF refl u(4) this]
    have "is_utf8 (take (d - ?w) (drop ?w r)) \<and> is_utf8 (drop d r)"
      using \<open>\<not> d < ?w\<close> by simp
    then show ?thesis
      using u \<open>\<not> d < ?w\<close> by (simp add: Suc is_utf8.simps(2) Let_def drop_take min_def)
  qed
qed

lemma utf8_next_boundary:
  assumes "is_utf8 m" and "is_char_boundary m c" and "c < length m"
  shows "is_char_boundary m (next_char_boundary m c)"
    and "c < i \<Longrightarrow> i < next_char_boundary m c \<Longrightarrow> \<not> is_char_boundary m i"
proof -
  let ?w = "utf8_width (of_char (m ! c)) - 1" and ?r = "drop (Suc c) m"
  have "is_utf8 (m ! c # ?r)" using utf8_split [OF assms(1,2)] assms(3) by (simp add: Cons_nth_drop_Suc)
  then have u: "?w \<le> length ?r" "list_all is_continuation (take ?w ?r)" "is_utf8 (drop ?w ?r)"
    by (simp_all add: is_utf8.simps(2) Let_def)
  have n: "next_char_boundary m c = Suc c + ?w" by (simp add: next_char_boundary_def utf8_width_def)
  show "is_char_boundary m (next_char_boundary m c)"
  proof (cases "Suc c + ?w < length m")
    case True
    then have "drop ?w ?r = m ! (Suc c + ?w) # drop (Suc (Suc c + ?w)) m"
      by (simp add: Cons_nth_drop_Suc add.commute)
    then have "is_utf8 (m ! (Suc c + ?w) # drop (Suc (Suc c + ?w)) m)" using u(3) by (simp only:)
    then have "\<not> is_continuation (m ! (Suc c + ?w))"
      by (simp add: is_utf8.simps(2) Let_def)
    then show ?thesis using True n by (simp add: is_char_boundary_def)
  next
    case False
    then show ?thesis using u(1) n assms(3) by (simp add: is_char_boundary_def)
  qed
  assume i: "c < i" "i < next_char_boundary m c"
  then have "i - Suc c < ?w" "Suc c + (i - Suc c) = i" using n by auto
  moreover from this have "take ?w ?r ! (i - Suc c) = m ! i" using u(1) assms(3) by simp
  ultimately have "is_continuation (m ! i)"
    using u(1,2) by (metis length_take list_all_length min.absorb2)
  moreover have "i < length m" using i n u(1) assms(3) by simp
  ultimately show "\<not> is_char_boundary m i" using i by (auto simp: is_char_boundary_def)
qed

subsection \<open>Every slice is taken at character boundaries\<close>

lemma ascii_boundary:
  assumes "is_utf8 m" and "byte_is P m i" and "\<And>b. P b \<Longrightarrow> is_ascii_byte b"
  shows "is_char_boundary m i" and "is_char_boundary m (i + 1)"
proof -
  have i: "i < length m" "(of_char (m ! i) :: nat) < 128"
    using assms(2,3) by (auto simp: byte_is_def is_ascii_byte_def)
  then show 1: "is_char_boundary m i" by (auto simp: is_char_boundary_def is_continuation_def)
  show "is_char_boundary m (i + 1)"
    using utf8_next_boundary(1) [OF assms(1) 1 i(1)] i(2) by (simp add: next_char_boundary_def utf8_width_def)
qed

lemma skip_bytes_boundary:
  assumes "is_utf8 m" and "\<And>b. P b \<Longrightarrow> is_ascii_byte b"
  shows "is_char_boundary m c \<Longrightarrow> is_char_boundary m (skip_bytes P m c)"
proof (induction "length m - c" arbitrary: c)
  case 0
  then show ?case by (subst skip_bytes.simps) (simp add: byte_is_def)
next
  case (Suc n)
  show ?case
  proof (cases "byte_is P m c")
    case True
    from ascii_boundary(2) [OF assms(1) True assms(2)] Suc.hyps(1) [of "c + 1"] Suc.hyps(2)
    have "is_char_boundary m (skip_bytes P m (c + 1))" by simp
    then show ?thesis using True by (subst skip_bytes.simps) simp
  qed (use Suc.prems in \<open>subst skip_bytes.simps, simp\<close>)
qed

lemma scan_chars_boundary:
  assumes "is_utf8 m"
  shows "is_char_boundary m c \<Longrightarrow> is_char_boundary m (scan_chars stop m c)"
proof (induction "length m - c" arbitrary: c rule: less_induct)
  case less
  show ?case
  proof (cases "c < length m \<and> \<not> stop (m ! c)")
    case True
    then have "is_char_boundary m (scan_chars stop m (next_char_boundary m c))"
      using utf8_next_boundary(1) [OF assms less.prems] next_char_boundary_gt [of c m]
      by (intro less.hyps) (auto intro: diff_less_mono2)
    then show ?thesis using True by (subst scan_chars.simps) simp
  qed (use less.prems in \<open>subst scan_chars.simps, auto\<close>)
qed

lemma class_ascii:
  "is_ascii_whitespace b \<Longrightarrow> is_ascii_byte b" "is_quote b \<Longrightarrow> is_ascii_byte b"
  "is_key_byte b \<Longrightarrow> is_ascii_byte b" "is_assign_byte b \<Longrightarrow> is_ascii_byte b"
  by (auto simp: is_ascii_whitespace_def is_quote_def is_key_byte_def is_assign_byte_def
      is_ascii_byte_def ascii_defs)

lemma skip_ws_boundary:
  "is_utf8 m \<Longrightarrow> is_char_boundary m c \<Longrightarrow> is_char_boundary m (skip_ascii_whitespace m c)"
  unfolding skip_ascii_whitespace_def by (intro skip_bytes_boundary class_ascii)

lemma field_value_end_boundary:
  assumes "is_utf8 m"
  shows "is_char_boundary m c \<Longrightarrow> is_char_boundary m (field_value_end m c)"
proof (induction "length m - c" arbitrary: c rule: less_induct)
  case less
  consider (stop) "field_value_end m c = c"
    | (white) "c < length m" "is_ascii_whitespace (m ! c)"
        "field_value_end m c = field_value_end m (skip_ascii_whitespace m c)"
    | (step) "c < length m" "field_value_end m c = field_value_end m (next_char_boundary m c)"
    using field_value_end.simps [of m c] by (auto simp: Let_def split: if_splits)
  then show ?case
  proof cases
    case stop
    then show ?thesis using less.prems by simp
  next
    case white
    then have "c < skip_ascii_whitespace m c"
      by (simp add: skip_ascii_whitespace_def byte_is_def skip_bytes_gt)
    moreover have "is_char_boundary m (skip_ascii_whitespace m c)"
      using less.prems by (rule skip_ws_boundary [OF assms])
    ultimately show ?thesis using white less.hyps [of "skip_ascii_whitespace m c"] by simp
  next
    case step
    then show ?thesis
      using utf8_next_boundary(1) [OF assms less.prems] next_char_boundary_gt [of c m]
        less.hyps [of "next_char_boundary m c"] by simp
  qed
qed

lemma closing_quote_boundary:
  assumes "is_utf8 m" and "find_closing_quote m c q = Some i" and "is_quote q"
  shows "is_char_boundary m i" and "is_char_boundary m (i + 1)"
proof -
  have "byte_is is_quote m i"
    using assms(2,3) by (auto simp: find_closing_quote_def byte_is_def dest!: closing_quote_loop_ge)
  then show "is_char_boundary m i" "is_char_boundary m (i + 1)"
    using ascii_boundary [OF assms(1)] class_ascii(2) by blast+
qed

lemma length_boundary [simp]: "is_char_boundary m (length m)"
  by (simp add: is_char_boundary_def)

lemma assignment_value_boundary:
  assumes u: "is_utf8 m" and "is_char_boundary m k" and "assignment_value m k key = Some (a, b)"
  shows "is_char_boundary m a \<and> is_char_boundary m b"
proof -
  let ?c = "skip_ascii_whitespace m k" and ?d = "skip_ascii_whitespace m (skip_ascii_whitespace m k + 1)"
  have "byte_is is_assign_byte m ?c" using assms(3) by (auto simp: assignment_value_def Let_def split: if_splits)
  then have d: "is_char_boundary m ?d"
    using ascii_boundary(2) [OF u _ class_ascii(4)] skip_ws_boundary [OF u] by blast
  show ?thesis
  proof (cases "byte_is is_quote m ?d")
    case True
    then have "is_char_boundary m (?d + 1)" using ascii_boundary(2) [OF u _ class_ascii(2)] by blast
    moreover have "is_quote (m ! ?d)" using True by (simp add: byte_is_def)
    ultimately show ?thesis
      using assms(3) True closing_quote_boundary(1) [OF u]
      by (auto simp: assignment_value_def Let_def split: if_splits option.splits)
  next
    case False
    then show ?thesis
      using assms(3) d scan_chars_boundary [OF u d] field_value_end_boundary [OF u d]
      by (auto simp: assignment_value_def Let_def line_value_end_def split: if_splits)
  qed
qed

lemma redaction_at_boundary:
  assumes u: "is_utf8 m" and c: "is_char_boundary m cursor" "cursor < length m"
    and r: "redaction_at m cursor = Some (a, b)"
  shows "is_char_boundary m a \<and> is_char_boundary m b"
proof -
  from r consider
      (bare) "bare_sensitive_assignment_value m cursor = Some (a, b)"
    | (quoted) "quoted_sensitive_assignment_value m cursor = Some (a, b)"
    | (bearer) "standalone_bearer_value m cursor = Some (a, b)"
    | (prefixed) "prefixed_api_key m cursor = Some (a, b)"
    by (auto simp: redaction_at_def or_else_def split: option.splits)
  then show ?thesis
  proof cases
    case bare
    let ?k = "skip_bytes is_key_byte m (cursor + 1)"
    from bare have key: "byte_is is_key_byte m cursor"
      and v: "assignment_value m ?k (str_slice m cursor ?k) = Some (a, b)"
      by (auto simp: bare_sensitive_assignment_value_def Let_def split: if_splits)
    have "is_char_boundary m (cursor + 1)" using ascii_boundary(2) [OF u key class_ascii(3)] .
    then have "is_char_boundary m ?k" using skip_bytes_boundary [OF u] class_ascii(3) by blast
    then show ?thesis using assignment_value_boundary [OF u _ v] by blast
  next
    case quoted
    then obtain key where q: "byte_is is_quote m cursor"
      and v: "assignment_value m (cursor + 1) key = Some (a, b)"
      by (auto simp: quoted_sensitive_assignment_value_def Let_def split: if_splits)
    have "is_char_boundary m (cursor + 1)" using ascii_boundary(2) [OF u q class_ascii(2)] .
    then show ?thesis using assignment_value_boundary [OF u _ v] by blast
  next
    case bearer
    let ?s = "skip_ascii_whitespace m (cursor + 6)"
    have "is_char_boundary m (cursor + 6)"
      using bearer by (auto simp: standalone_bearer_value_def bearer_value_end_def str_get_def Let_def
          split: if_splits option.splits)
    then have s: "is_char_boundary m ?s" by (rule skip_ws_boundary [OF u])
    show ?thesis
      using bearer c(1) s scan_chars_boundary [OF u s] closing_quote_boundary(2) [OF u]
      by (auto simp: standalone_bearer_value_def bearer_value_end_def Let_def credential_token_end_def
          split: if_splits option.splits)
  next
    case prefixed
    then show ?thesis using c(1) scan_chars_boundary [OF u c(1)]
      by (auto simp: prefixed_api_key_def credential_token_end_def split: if_splits option.splits)
  qed
qed

subsection \<open>The redactions performed, and the text kept between them\<close>

function redactions :: "string \<Rightarrow> nat \<Rightarrow> (nat \<times> nat \<times> nat) list" where
  "redactions m cursor =
     (if cursor < length m then
        (case redaction_at m cursor of
           Some (a, b) \<Rightarrow> (cursor, a, b) # redactions m b
         | None \<Rightarrow> redactions m (next_char_boundary m cursor))
      else [])"
  by pat_completeness auto
termination
  by (relation "measure (\<lambda>(m, cursor). length m - cursor)")
    (auto simp: next_char_boundary_gt dest!: redaction_at_bounds intro: diff_less_mono2)

declare redactions.simps [simp del]

fun replace_ranges :: "string \<Rightarrow> nat \<Rightarrow> (nat \<times> nat \<times> nat) list \<Rightarrow> string" where
  "replace_ranges m copied [] = str_slice m copied (length m)"
| "replace_ranges m copied ((d, a, b) # rs) = str_slice m copied a @ REDACTED @ replace_ranges m b rs"

text \<open>Ranges in order, each found by a detector at the first component, all ends on boundaries.\<close>

fun range_chain :: "string \<Rightarrow> nat \<Rightarrow> (nat \<times> nat \<times> nat) list \<Rightarrow> bool" where
  "range_chain m c [] \<longleftrightarrow> True"
| "range_chain m c ((d, a, b) # rs) \<longleftrightarrow>
     c \<le> d \<and> d \<le> a \<and> a \<le> b \<and> d < b \<and> redaction_at m d = Some (a, b) \<and>
     is_char_boundary m a \<and> is_char_boundary m b \<and> range_chain m b rs"

lemma range_chain_mono: "range_chain m c rs \<Longrightarrow> c' \<le> c \<Longrightarrow> range_chain m c' rs"
  by (cases rs) auto

lemma redact_loop_ranges:
  "redact_loop m out copied cursor = out @ replace_ranges m copied (redactions m cursor)"
proof (induction "length m - cursor" arbitrary: out copied cursor rule: less_induct)
  case less
  show ?case
  proof (cases "cursor < length m")
    case True
    show ?thesis
    proof (cases "redaction_at m cursor")
      case None
      then show ?thesis
        using True less.hyps [of "next_char_boundary m cursor" out copied] next_char_boundary_gt [of cursor m]
        by (subst redact_loop.simps, subst redactions.simps) (simp add: diff_less_mono2)
    next
      case (Some r)
      obtain a b where r: "r = (a, b)" by (cases r)
      then have "cursor < b" using redaction_at_bounds Some True by blast
      then show ?thesis
        using True Some r less.hyps [of b "out @ str_slice m copied a @ REDACTED" b]
        by (subst redact_loop.simps, subst redactions.simps) (simp add: diff_less_mono2)
    qed
  next
    case False
    then show ?thesis by (subst redact_loop.simps, subst redactions.simps) simp
  qed
qed

lemma redactions_chain:
  assumes "is_utf8 m"
  shows "is_char_boundary m cursor \<Longrightarrow> range_chain m cursor (redactions m cursor)"
proof (induction "length m - cursor" arbitrary: cursor rule: less_induct)
  case less
  show ?case
  proof (cases "cursor < length m")
    case True
    show ?thesis
    proof (cases "redaction_at m cursor")
      case None
      note gt = next_char_boundary_gt [of cursor m]
      have "range_chain m (next_char_boundary m cursor) (redactions m (next_char_boundary m cursor))"
        using utf8_next_boundary(1) [OF assms less.prems True] True gt
        by (intro less.hyps) (auto intro: diff_less_mono2)
      then have "range_chain m cursor (redactions m (next_char_boundary m cursor))"
        using gt by (auto intro: range_chain_mono)
      then show ?thesis using None True by (subst redactions.simps) simp
    next
      case (Some r)
      obtain a b where r: "r = (a, b)" by (cases r)
      have bounds: "cursor \<le> a \<and> a \<le> b \<and> cursor < b" using redaction_at_bounds Some True r by blast
      have bnd: "is_char_boundary m a \<and> is_char_boundary m b"
        using redaction_at_boundary [OF assms less.prems True] Some r by blast
      have "range_chain m b (redactions m b)"
        using bounds bnd True by (intro less.hyps) (auto intro: diff_less_mono2)
      then show ?thesis using Some True r bounds bnd by (subst redactions.simps) simp
    qed
  qed (simp add: redactions.simps)
qed

lemma redactions_complete:
  assumes "is_utf8 m"
  shows "is_char_boundary m cursor \<Longrightarrow> is_char_boundary m c \<Longrightarrow> cursor \<le> c \<Longrightarrow> c < length m \<Longrightarrow>
    redaction_at m c = None \<or> (\<exists>(d, a, b)\<in>set (redactions m cursor). d \<le> c \<and> c < b)"
proof (induction "length m - cursor" arbitrary: cursor rule: less_induct)
  case less
  have lt: "cursor < length m" using less.prems by simp
  show ?case
  proof (cases "redaction_at m cursor")
    case None
    note next' = utf8_next_boundary [OF assms less.prems(1) lt]
    show ?thesis
    proof (cases "c = cursor")
      case False
      then have "next_char_boundary m cursor \<le> c"
        using next'(2) [of c] less.prems(2,3) by (metis le_neq_implies_less not_le_imp_less)
      then show ?thesis
        using less.hyps [OF _ next'(1) less.prems(2) _ less.prems(4)] None lt next_char_boundary_gt [of cursor m]
        by (subst redactions.simps) (simp add: diff_less_mono2)
    qed (use None in simp)
  next
    case (Some r)
    obtain a b where r: "r = (a, b)" by (cases r)
    have "cursor < b" using redaction_at_bounds Some lt r by blast
    moreover have "is_char_boundary m b"
      using redaction_at_boundary [OF assms less.prems(1) lt] Some r by blast
    ultimately show ?thesis
      using less.hyps [of b] less.prems lt Some r
      by (cases "b \<le> c"; subst redactions.simps) (auto simp: diff_less_mono2 not_le)
  qed
qed

lemma utf8_slice:
  assumes "is_utf8 m" and "is_char_boundary m a" and "is_char_boundary m b" and "a \<le> b"
  shows "is_utf8 (str_slice m a b)"
proof -
  have "is_utf8 (drop a m)" using utf8_split [OF assms(1,2)] ..
  moreover have "is_char_boundary (drop a m) (b - a)"
    using assms(3,4) by (auto simp: is_char_boundary_def intro: diff_less_mono)
  ultimately show ?thesis unfolding str_slice_def by (rule utf8_split [THEN conjunct1])
qed

lemma boundary_le: "is_char_boundary m i \<Longrightarrow> i \<le> length m"
  by (auto simp: is_char_boundary_def)

lemma utf8_replace_ranges:
  assumes "is_utf8 m"
  shows "range_chain m copied rs \<Longrightarrow> is_char_boundary m copied \<Longrightarrow> is_utf8 (replace_ranges m copied rs)"
proof (induction rs arbitrary: copied)
  case Nil
  then show ?case using utf8_slice [OF assms _ length_boundary] boundary_le by simp
next
  case (Cons r rs)
  obtain d a b where r: "r = (d, a, b)" by (cases r)
  have "is_utf8 REDACTED"
    by (simp add: REDACTED_def is_utf8.simps(2) is_continuation_def utf8_width_def)
  moreover have "is_utf8 (str_slice m copied a)"
    using Cons.prems r by (intro utf8_slice [OF assms]) auto
  moreover have "is_utf8 (replace_ranges m b rs)" using Cons r by simp
  ultimately show ?case using r by (simp add: is_utf8_append)
qed

subsection \<open>Bounds\<close>

lemma utf8_chars_append: "is_utf8 s \<Longrightarrow> utf8_chars (s @ t) = utf8_chars s @ utf8_chars t"
proof (induction s rule: is_utf8.induct)
  case 1
  then show ?case by simp
next
  case (2 b r)
  let ?w = "utf8_width (of_char b) - 1"
  have u: "?w \<le> length r" "is_utf8 (drop ?w r)" using 2(2) by (simp_all add: is_utf8.simps(2) Let_def)
  have "next_code_point b (r @ t) = next_code_point b r"
    using u(1) by (simp add: next_code_point_def Let_def)
  then show ?case using 2(1) [OF refl u(2)] u(1) by simp
qed

lemma take_chars_utf8:
  "is_utf8 m \<Longrightarrow> is_utf8 (take_chars n m) \<and> char_count (take_chars n m) \<le> n"
proof (induction n m rule: take_chars.induct)
  case (3 n b r)
  let ?w = "utf8_width (of_char b) - 1"
  let ?h = "b # take ?w r"
  have u: "\<not> is_continuation b" "?w \<le> length r" "list_all is_continuation (take ?w r)" "is_utf8 (drop ?w r)"
    using 3(2) by (simp_all add: is_utf8.simps(2) Let_def)
  then have h: "is_utf8 ?h" by (simp add: is_utf8.simps(2) Let_def)
  have "char_count ?h = 1" using u(2) by (simp add: char_count_def)
  then show ?case
    using 3(1) [OF u(4)] is_utf8_append [OF h, of "take_chars n (drop ?w r)"]
      utf8_chars_append [OF h, of "take_chars n (drop ?w r)"]
    by (simp add: char_count_def)
qed (simp_all add: char_count_def)

lemma floor_char_boundary: "is_char_boundary m (floor_char_boundary m i) \<and> floor_char_boundary m i \<le> i"
proof (induction i)
  case 0
  show ?case by (simp add: is_char_boundary_def)
next
  case (Suc i)
  then show ?case by simp
qed

lemma redact_plain_text_utf8: "is_utf8 m \<Longrightarrow> is_utf8 (redact_plain_text m)"
  using utf8_replace_ranges [of m 0 "redactions m 0"] redactions_chain [of m 0]
  by (simp add: redact_plain_text_def redact_loop_ranges is_char_boundary_def)

lemma char_count_suffix: "char_count truncation_suffix = 13"
  by (simp add: truncation_suffix_def utf8_encode_def char_count_def utf8_width_def)

lemma sanitize_message_bounded:
  assumes "is_utf8 raw" and "\<And>v. is_utf8 (print v)"
  shows "char_count (sanitize_message parse print raw) \<le> 525"
proof -
  let ?n = "floor_char_boundary raw (min (length raw) MAX_ERROR_SCAN_BYTES)"
  let ?r = "redact_sensitive parse print (str_slice raw 0 ?n)"
  have "is_char_boundary raw 0" by (simp add: is_char_boundary_def)
  then have "is_utf8 (str_slice raw 0 ?n)"
    using floor_char_boundary by (intro utf8_slice [OF assms(1)]) blast+
  then have "is_utf8 ?r"
    using assms(2) redact_plain_text_utf8 by (simp add: redact_sensitive_def split: option.split)
  from take_chars_utf8 [OF this, of 512]
  have t: "is_utf8 (take_chars 512 ?r)" "char_count (take_chars 512 ?r) \<le> 512" by simp_all
  have "char_count (take_chars 512 ?r @ truncation_suffix)
      = char_count (take_chars 512 ?r) + char_count truncation_suffix"
    using utf8_chars_append [OF t(1)] by (simp add: char_count_def)
  then show ?thesis
    using t(2) char_count_suffix
    by (simp add: sanitize_message_def Let_def MAX_ERROR_MESSAGE_CHARS_def)
qed

subsection \<open>What is kept of a detected credential\<close>

text \<open>In front of a replaced range only its key, its quotes, white space and the assignment sign stay.\<close>

definition kept_byte :: "char \<Rightarrow> bool" where
  "kept_byte x \<longleftrightarrow> is_key_byte x \<or> is_quote x \<or> is_ascii_whitespace x \<or> is_assign_byte x"

lemma skip_bytes_all: "c \<le> i \<Longrightarrow> i < skip_bytes P m c \<Longrightarrow> P (m ! i)"
proof (induction P m c rule: skip_bytes.induct)
  case (1 P m c)
  show ?case
  proof (cases "byte_is P m c")
    case True
    then have "i < skip_bytes P m (c + 1)" using "1.prems"(2) by (subst (asm) skip_bytes.simps) simp
    then show ?thesis using "1.IH" [OF True] "1.prems"(1) True by (cases "i = c") (auto simp: byte_is_def)
  next
    case False
    then show ?thesis using "1.prems" by (subst (asm) skip_bytes.simps) simp
  qed
qed

lemma assignment_value_kept:
  assumes "assignment_value m after_key key = Some (a, b)" and "after_key \<le> i" and "i < a"
  shows "kept_byte (m ! i)"
proof -
  let ?c = "skip_bytes is_ascii_whitespace m after_key"
  let ?d = "skip_bytes is_ascii_whitespace m (?c + 1)"
  from assms(1) have sign: "byte_is is_assign_byte m ?c"
    and a: "a = ?d \<or> (byte_is is_quote m ?d \<and> a = ?d + 1)"
    by (auto simp: assignment_value_def skip_ascii_whitespace_def Let_def split: if_splits)
  consider "i < ?c" | "i = ?c" | "?c + 1 \<le> i" "i < ?d" | "i = ?d" "byte_is is_quote m ?d"
    using a assms(3) by linarith
  then show ?thesis
  proof cases
    case 1
    from skip_bytes_all [OF assms(2) this] show ?thesis by (simp add: kept_byte_def)
  next
    case 3
    from skip_bytes_all [OF this] show ?thesis by (simp add: kept_byte_def)
  qed (use sign in \<open>auto simp: kept_byte_def byte_is_def\<close>)
qed

lemma redaction_kept:
  assumes "redaction_at m d = Some (a, b)" and "d \<le> i" and "i < a"
  shows "kept_byte (m ! i)"
proof -
  from assms(1) consider
      (bare) "bare_sensitive_assignment_value m d = Some (a, b)"
    | (quoted) "quoted_sensitive_assignment_value m d = Some (a, b)"
    | (start) "a = d"
    by (auto simp: redaction_at_def or_else_def standalone_bearer_value_def prefixed_api_key_def
        split: option.splits if_splits)
  then show ?thesis
  proof cases
    case bare
    let ?k = "skip_bytes is_key_byte m (d + 1)"
    from bare have key: "is_key_byte (m ! d)"
      and val: "assignment_value m ?k (str_slice m d ?k) = Some (a, b)"
      by (auto simp: bare_sensitive_assignment_value_def byte_is_def Let_def split: if_splits)
    consider "i = d" | "d + 1 \<le> i" "i < ?k" | "?k \<le> i" using assms(2) by linarith
    then show ?thesis
    proof cases
      case 2
      from skip_bytes_all [OF this] show ?thesis by (simp add: kept_byte_def)
    qed (use key val assignment_value_kept assms(3) in \<open>auto simp: kept_byte_def\<close>)
  next
    case quoted
    then obtain key where "is_quote (m ! d)" and val: "assignment_value m (d + 1) key = Some (a, b)"
      by (auto simp: quoted_sensitive_assignment_value_def byte_is_def Let_def split: if_splits)
    then show ?thesis using assignment_value_kept [OF val _ assms(3)] assms(2)
      by (cases "i = d") (auto simp: kept_byte_def)
  qed (use assms in simp)
qed

lemma range_chain_kept:
  "range_chain m c rs \<Longrightarrow> (d, a, b) \<in> set rs \<Longrightarrow> d \<le> i \<Longrightarrow> i < a \<Longrightarrow> kept_byte (m ! i)"
  by (induction m c rs rule: range_chain.induct) (auto intro: redaction_kept)

subsection \<open>Properties\<close>

text \<open>C4. Redaction of plain text never slices inside a character and misses nothing it looks for: on
  UTF-8 input the output is the input with a list of ranges replaced by \<open>[REDACTED]\<close>; the ranges are
  disjoint, in order, with both ends on character boundaries, each found by one of the four
  detectors. Every character boundary at which a detector fires lies in the span of a replaced range,
  which goes from the offset where the range was detected to its end; of a span only the part in
  front of the range stays in the output, and that part consists of the bytes of a key, quotes, white
  space and the assignment sign. The output is UTF-8.\<close>

theorem redact_plain_text_spec:
  assumes "is_utf8 m"
  shows "redact_plain_text m = replace_ranges m 0 (redactions m 0) \<and>
    range_chain m 0 (redactions m 0) \<and>
    (\<forall>c<length m. is_char_boundary m c \<longrightarrow>
       redaction_at m c = None \<or> (\<exists>(d, a, b)\<in>set (redactions m 0). d \<le> c \<and> c < b)) \<and>
    (\<forall>(d, a, b)\<in>set (redactions m 0). \<forall>i\<in>{d..<a}. kept_byte (m ! i)) \<and>
    is_utf8 (redact_plain_text m)"
proof -
  have 0: "is_char_boundary m 0" by (simp add: is_char_boundary_def)
  note chain = redactions_chain [OF assms 0]
  have "\<forall>(d, a, b)\<in>set (redactions m 0). \<forall>i\<in>{d..<a}. kept_byte (m ! i)"
    using range_chain_kept [OF chain] by auto
  moreover have "redact_plain_text m = replace_ranges m 0 (redactions m 0)"
    by (simp add: redact_plain_text_def redact_loop_ranges)
  ultimately show ?thesis
    using chain redactions_complete [OF assms 0 _ le0] redact_plain_text_utf8 [OF assms] by blast
qed

theorem redact_plain_text_spec_witness:
  "redact_plain_text ''a sk-1 b'' = replace_ranges ''a sk-1 b'' 0 (redactions ''a sk-1 b'' 0) \<and>
   (\<exists>(d, a, b)\<in>set (redactions ''a sk-1 b'' 0). d \<le> 2 \<and> 2 < b)"
proof -
  have "is_utf8 ''a sk-1 b''"
    by (simp add: is_utf8.simps(2) is_continuation_def utf8_width_def)
  note spec = redact_plain_text_spec [OF this]
  note covers = spec [THEN conjunct2, THEN conjunct2, THEN conjunct1, rule_format]
  have "prefixed_api_key ''a sk-1 b'' 2 \<noteq> None"
    by (simp add: prefixed_api_key_def str_get_def is_char_boundary_def is_continuation_def str_slice_def
        eq_ignore_ascii_case_def to_ascii_lowercase_def ascii_defs)
  then have fires: "redaction_at ''a sk-1 b'' 2 \<noteq> None" by (auto simp: redaction_at_def or_else_def split: option.split)
  have bd: "is_char_boundary ''a sk-1 b'' 2" by (simp add: is_char_boundary_def is_continuation_def)
  have lt: "2 < length ''a sk-1 b''" by simp
  from covers [OF lt bd] fires have "\<exists>(d, a, b)\<in>set (redactions ''a sk-1 b'' 0). d \<le> 2 \<and> 2 < b"
    by (elim disjE) (erule (1) notE)
  then show ?thesis by (rule conjI [OF spec [THEN conjunct1]])
qed

text \<open>Every message a \<open>ProviderError\<close> retains is bounded: whatever the input, it has at most 512
  characters plus the 13 of the truncation mark, also when the input parsed as JSON and was printed
  back.\<close>

theorem provider_error_message_bounded:
  assumes "is_utf8 raw" and "\<And>v. is_utf8 (print v)"
    and "pe_message (provider_error_with_message parse print k raw) = Some m"
  shows "char_count m \<le> 512 + 13 \<and> m \<noteq> []"
  using assms sanitize_message_bounded [OF assms(1,2)]
  by (auto simp: provider_error_with_message_def Let_def split: if_splits)

theorem provider_error_message_bounded_witness:
  "\<exists>m. pe_message (provider_error_with_message (\<lambda>_. Some VNull) (\<lambda>_. ''null'') Rejected ''null'') = Some m
    \<and> char_count m \<le> 512 + 13 \<and> m \<noteq> []"
proof -
  have u: "is_utf8 ''null''" by (simp add: is_utf8.simps(2) is_continuation_def utf8_width_def)
  have "pe_message (provider_error_with_message (\<lambda>_. Some VNull) (\<lambda>_. ''null'') Rejected ''null'') = Some ''null''"
    by (simp add: provider_error_with_message_def sanitize_message_def redact_sensitive_def Let_def
        char_count_def utf8_width_def MAX_ERROR_MESSAGE_CHARS_def)
  from provider_error_message_bounded [OF u u this] this show ?thesis by blast
qed

end
