(* ===== verification/Streams.thy ===== *)
theory Streams
  imports Provider_Error
begin

section \<open>Single-terminal streams\<close>

text \<open>
  The provider event stream (\<open>mcode-provider-api/src/stream.rs\<close>) and the tool stream
  (\<open>mcode-tools/src/stream.rs\<close>). Both let any number of cloned senders race; each send is one
  critical section of the code, so a run is a list of operations in the order of their critical
  sections. A send that waits for capacity leaves the state unchanged and is retried: \<open>None\<close> is
  \<open>Poll::Pending\<close>.
\<close>

subsection \<open>The provider event stream\<close>

definition EVENT_STREAM_CAPACITY :: nat where "EVENT_STREAM_CAPACITY = 16"
definition MAX_EVENT_ENCODED_BYTES :: nat where "MAX_EVENT_ENCODED_BYTES = 1024 * 1024"

record event_stream =
  es_queue :: "stream_event list"
  es_terminal_claimed :: bool
  es_closed :: bool
  es_senders :: nat
  es_cancelled :: bool
  es_terminal_seen :: bool

definition event_stream_channel :: "bool \<Rightarrow> event_stream" where
  "event_stream_channel cancelled =
     \<lparr>es_queue = [], es_terminal_claimed = False, es_closed = False, es_senders = 1,
      es_cancelled = cancelled, es_terminal_seen = False\<rparr>"

text \<open>The messages of \<open>protocol\_terminal\<close> are constants without anything to redact; \<open>mk\<close> is
  \<open>ProviderError::with\_message(Protocol, \_)\<close>.\<close>

definition protocol_terminal :: "(string \<Rightarrow> provider_error) \<Rightarrow> string \<Rightarrow> stream_event" where
  "protocol_terminal mk message = SError (mk message)"

text \<open>\<open>encoded\<close> is the length \<open>serde\_json::to\_vec\<close> reports for an event, \<open>None\<close> when it fails.\<close>

definition bounded_event ::
  "(string \<Rightarrow> provider_error) \<Rightarrow> (stream_event \<Rightarrow> nat option) \<Rightarrow> stream_event \<Rightarrow> stream_event" where
  "bounded_event mk encoded event =
     (case encoded event of
        Some n \<Rightarrow> if n \<le> MAX_EVENT_ENCODED_BYTES then event
                 else protocol_terminal mk ''provider event exceeds the encoded size limit''
      | None \<Rightarrow> protocol_terminal mk ''provider event could not be encoded'')"

definition event_send ::
  "(string \<Rightarrow> provider_error) \<Rightarrow> (stream_event \<Rightarrow> nat option) \<Rightarrow> stream_event \<Rightarrow> event_stream \<Rightarrow>
   bool option \<times> event_stream" where
  "event_send mk encoded event s =
     (if es_terminal_claimed s \<or> es_closed s then (Some False, s)
      else
        let event = bounded_event mk encoded event in
        if \<not> length (es_queue s) < EVENT_STREAM_CAPACITY then (None, s)
        else
          let s = (if is_terminal event then s\<lparr>es_terminal_claimed := True\<rparr> else s) in
          (Some True, s\<lparr>es_queue := es_queue s @ [event]\<rparr>))"

definition stream_finish :: "event_stream \<Rightarrow> event_stream" where
  "stream_finish s = s\<lparr>es_terminal_seen := True, es_closed := True\<rparr>"

definition stream_accept :: "stream_event \<Rightarrow> event_stream \<Rightarrow> stream_event option \<times> event_stream" where
  "stream_accept event s = (Some event, if is_terminal event then stream_finish s else s)"

definition synthesize :: "stream_event \<Rightarrow> event_stream \<Rightarrow> stream_event option \<times> event_stream" where
  "synthesize event s = (Some event, stream_finish s)"

definition cancelled_terminal :: stream_event where
  "cancelled_terminal = SError (provider_error_new Cancelled)"

definition closed_terminal :: "(string \<Rightarrow> provider_error) \<Rightarrow> event_stream \<Rightarrow> stream_event" where
  "closed_terminal mk s =
     (if es_cancelled s then cancelled_terminal
      else protocol_terminal mk ''provider producer ended without a terminal event'')"

text \<open>\<open>next\<close>: the outer \<open>None\<close> is a receiver that still waits. The first \<open>try\_recv\<close> and the poll
  agree on the queue, so one look at it decides.\<close>

definition event_next ::
  "(string \<Rightarrow> provider_error) \<Rightarrow> event_stream \<Rightarrow> stream_event option option \<times> event_stream" where
  "event_next mk s =
     (if es_terminal_seen s then (Some None, s)
      else case es_queue s of
          event # rest \<Rightarrow> (let (r, s) = stream_accept event (s\<lparr>es_queue := rest\<rparr>) in (Some r, s))
        | [] \<Rightarrow>
            if es_senders s = 0 then (let (r, s) = synthesize (closed_terminal mk s) s in (Some r, s))
            else if es_cancelled s then (let (r, s) = synthesize cancelled_terminal s in (Some r, s))
            else (None, s))"

definition receiver_drop :: "event_stream \<Rightarrow> event_stream" where
  "receiver_drop s = s\<lparr>es_cancelled := True, es_closed := True, es_terminal_seen := True, es_queue := []\<rparr>"

datatype stream_op =
    OpSend stream_event
  | OpNext
  | OpCloneSender
  | OpDropSender
  | OpCancel
  | OpDropReceiver

text \<open>One operation: what it delivers to the receiver, what it accepts from a sender. A sender is
  only used while one is alive; dropping the receiver ends the calls of \<open>next\<close>, which the closed
  flags of \<open>receiver\_drop\<close> express.\<close>

definition stream_step ::
  "(string \<Rightarrow> provider_error) \<Rightarrow> (stream_event \<Rightarrow> nat option) \<Rightarrow> stream_op \<Rightarrow> event_stream \<Rightarrow>
   stream_event list \<times> stream_event list \<times> event_stream" where
  "stream_step mk encoded opn s =
     (case opn of
        OpSend event \<Rightarrow>
          if es_senders s = 0 then ([], [], s)
          else (case event_send mk encoded event s of
                  (Some True, s') \<Rightarrow> ([], [bounded_event mk encoded event], s')
                | (_, s') \<Rightarrow> ([], [], s'))
      | OpNext \<Rightarrow> (case event_next mk s of
            (Some (Some event), s') \<Rightarrow> ([event], [], s')
          | (_, s') \<Rightarrow> ([], [], s'))
      | OpCloneSender \<Rightarrow>
          ([], [], if es_senders s = 0 then s else s\<lparr>es_senders := es_senders s + 1\<rparr>)
      | OpDropSender \<Rightarrow> ([], [], s\<lparr>es_senders := es_senders s - 1\<rparr>)
      | OpCancel \<Rightarrow> ([], [], s\<lparr>es_cancelled := True\<rparr>)
      | OpDropReceiver \<Rightarrow> ([], [], receiver_drop s))"

fun stream_run ::
  "(string \<Rightarrow> provider_error) \<Rightarrow> (stream_event \<Rightarrow> nat option) \<Rightarrow> stream_op list \<Rightarrow> event_stream \<Rightarrow>
   stream_event list \<times> stream_event list \<times> event_stream" where
  "stream_run mk encoded [] s = ([], [], s)"
| "stream_run mk encoded (opn # ops) s =
     (let (d, a, s) = stream_step mk encoded opn s; (ds, as, s) = stream_run mk encoded ops s
      in (d @ ds, a @ as, s))"

text \<open>At most one terminal, and nothing after it.\<close>

fun single_terminal :: "stream_event list \<Rightarrow> bool" where
  "single_terminal [] \<longleftrightarrow> True"
| "single_terminal (e # es) \<longleftrightarrow> (if is_terminal e then es = [] else single_terminal es)"

text \<open>The stream between runs: what is queued is what was accepted and not yet delivered.\<close>

definition stream_inv :: "event_stream \<Rightarrow> bool" where
  "stream_inv s \<longleftrightarrow>
     length (es_queue s) \<le> EVENT_STREAM_CAPACITY \<and>
     (es_terminal_seen s \<longrightarrow> es_closed s) \<and>
     (es_closed s \<longrightarrow> es_terminal_seen s) \<and>
     (\<not> es_terminal_claimed s \<longrightarrow> list_all (\<lambda>e. \<not> is_terminal e) (es_queue s))"

lemma stream_step_inv [inv_intros]:
  assumes "stream_inv s" and "stream_step mk encoded opn s = (d, a, s')"
  shows "stream_inv s'"
  using assms
  by (auto simp: stream_step_def stream_inv_def event_send_def event_next_def stream_accept_def
      synthesize_def stream_finish_def receiver_drop_def Let_def
      split: stream_op.splits if_splits option.splits bool.splits list.splits prod.splits)

lemma stream_step_cases:
  assumes "stream_step mk encoded opn s = (d, a, s1)"
  obtains (quiet) "d = []" "a = []" "es_queue s1 = es_queue s"
      "es_terminal_claimed s1 = es_terminal_claimed s" "es_terminal_seen s1 = es_terminal_seen s"
    | (accepted) e where "d = []" "a = [e]" "es_queue s1 = es_queue s @ [e]" "\<not> es_terminal_claimed s"
      "es_terminal_claimed s1 = is_terminal e" "es_terminal_seen s1 = es_terminal_seen s"
    | (delivered) e where "d = [e]" "a = []" "es_queue s = e # es_queue s1"
      "es_terminal_claimed s1 = es_terminal_claimed s" "\<not> es_terminal_seen s"
      "es_terminal_seen s1 = is_terminal e"
    | (synthetic) e where "d = [e]" "a = []" "is_terminal e" "\<not> es_terminal_seen s"
      "es_terminal_seen s1" "es_terminal_claimed s1 = es_terminal_claimed s"
      "e = cancelled_terminal \<or> e = protocol_terminal mk ''provider producer ended without a terminal event''"
    | (dropped) "d = []" "a = []" "es_terminal_seen s1" "es_terminal_claimed s1 = es_terminal_claimed s"
proof (cases opn)
  case (OpSend e)
  then show ?thesis using assms quiet accepted
    by (auto simp: stream_step_def event_send_def Let_def split: if_splits)
next
  case OpNext
  then show ?thesis using assms quiet delivered synthetic
    by (auto simp: stream_step_def event_next_def stream_accept_def synthesize_def stream_finish_def
        closed_terminal_def cancelled_terminal_def protocol_terminal_def Let_def
        split: if_splits list.splits)
qed (use assms quiet dropped in \<open>auto simp: stream_step_def receiver_drop_def split: if_splits\<close>)

lemma stream_run_seen:
  "stream_run mk encoded ops s = (d, a, s') \<Longrightarrow> es_terminal_seen s \<Longrightarrow> d = []"
proof (induction ops arbitrary: s d a)
  case Nil
  then show ?case by simp
next
  case (Cons opn ops)
  obtain d1 a1 s1 where step: "stream_step mk encoded opn s = (d1, a1, s1)" by (cases "stream_step mk encoded opn s")
  obtain d2 a2 where run: "stream_run mk encoded ops s1 = (d2, a2, s')" and d: "d = d1 @ d2"
    using Cons.prems(1) step by (auto split: prod.splits)
  from step have "d1 = [] \<and> es_terminal_seen s1"
    by (rule stream_step_cases) (use Cons.prems(2) in auto)
  with Cons.IH [OF run] d show ?case by simp
qed

lemma stream_run_accepted:
  "stream_run mk encoded ops s = (d, a, s') \<Longrightarrow> single_terminal a \<and> (es_terminal_claimed s \<longrightarrow> a = [])"
proof (induction ops arbitrary: s d a)
  case Nil
  then show ?case by simp
next
  case (Cons opn ops)
  obtain d1 a1 s1 where step: "stream_step mk encoded opn s = (d1, a1, s1)" by (cases "stream_step mk encoded opn s")
  obtain d2 a2 where run: "stream_run mk encoded ops s1 = (d2, a2, s')" and a: "a = a1 @ a2"
    using Cons.prems(1) step by (auto split: prod.splits)
  from step Cons.IH [OF run] a show ?case by (cases rule: stream_step_cases) auto
qed

lemma stream_run_fifo:
  "stream_run mk encoded ops s = (d, a, s') \<Longrightarrow> single_terminal d \<and>
     (\<exists>k. d = take k (es_queue s @ a) \<or>
          (\<exists>e. (e = cancelled_terminal \<or>
              e = protocol_terminal mk ''provider producer ended without a terminal event'') \<and>
            d = take k (es_queue s @ a) @ [e]))"
proof (induction ops arbitrary: s d a)
  case Nil
  then show ?case by (auto intro: exI [of _ 0])
next
  case (Cons opn ops)
  obtain d1 a1 s1 where step: "stream_step mk encoded opn s = (d1, a1, s1)" by (cases "stream_step mk encoded opn s")
  obtain d2 a2 where run: "stream_run mk encoded ops s1 = (d2, a2, s')" and da: "d = d1 @ d2" "a = a1 @ a2"
    using Cons.prems(1) step by (auto split: prod.splits)
  note IH = Cons.IH [OF run]
  from step show ?case
  proof (cases rule: stream_step_cases)
    case quiet
    then show ?thesis using IH da by simp
  next
    case (accepted e)
    then show ?thesis using IH da by simp
  next
    case (delivered e)
    obtain k where k: "d2 = take k (es_queue s1 @ a2) \<or>
        (\<exists>e. (e = cancelled_terminal \<or>
            e = protocol_terminal mk ''provider producer ended without a terminal event'') \<and>
          d2 = take k (es_queue s1 @ a2) @ [e])" using IH by blast
    have "single_terminal d" using IH delivered da stream_run_seen [OF run] by simp
    then show ?thesis using k delivered da by (intro conjI exI [of _ "Suc k"]) auto
  next
    case (synthetic e)
    then have "d = [e]" using da stream_run_seen [OF run] by simp
    then show ?thesis using synthetic by (intro conjI exI [of _ 0]) auto
  next
    case dropped
    then have "d = []" using da stream_run_seen [OF run] by simp
    then show ?thesis by (intro conjI exI [of _ 0]) auto
  qed
qed

lemma stream_run_inv [inv_intros]:
  "stream_run mk encoded ops s = (d, a, s') \<Longrightarrow> stream_inv s \<Longrightarrow> stream_inv s'"
proof (induction ops arbitrary: s d a)
  case (Cons opn ops)
  obtain d1 a1 s1 where step: "stream_step mk encoded opn s = (d1, a1, s1)" by (cases "stream_step mk encoded opn s")
  then show ?case using Cons stream_step_inv [OF Cons.prems(2) step] by (auto split: prod.splits)
qed simp

text \<open>C3. The provider event stream, under any interleaving of sends from any number of cloned
  senders, receives, sender drops, cancellation and dropping the receiver: the senders are told
  \<open>true\<close> for at most one terminal event and for nothing after it; the receiver gets at most one
  terminal event and nothing after it; what it gets is a prefix of the accepted events in order,
  followed by at most one synthesized cancellation or protocol error; and the channel never holds
  more than 16 events.\<close>

theorem event_stream_single_terminal:
  assumes "stream_run mk encoded ops (event_stream_channel cancelled) = (delivered, accepted, s)"
  shows "single_terminal accepted \<and> single_terminal delivered \<and>
    (\<exists>k. delivered = take k accepted \<or>
       (\<exists>e. (e = cancelled_terminal \<or>
           e = protocol_terminal mk ''provider producer ended without a terminal event'') \<and>
         delivered = take k accepted @ [e])) \<and>
    length (es_queue s) \<le> 16"
proof -
  have "stream_inv (event_stream_channel cancelled)" by (simp add: stream_inv_def event_stream_channel_def)
  from stream_run_inv [OF assms this] have "length (es_queue s) \<le> 16"
    by (simp add: stream_inv_def EVENT_STREAM_CAPACITY_def)
  then show ?thesis
    using stream_run_fifo [OF assms] stream_run_accepted [OF assms] by (simp add: event_stream_channel_def)
qed

theorem event_stream_single_terminal_witness:
  "\<exists>delivered accepted s. stream_run (\<lambda>m. provider_error_new Protocol) (\<lambda>_. Some 10)
      [OpCloneSender, OpSend (SText ''a''), OpCancel, OpSend (SText ''b''), OpNext, OpNext, OpNext,
       OpSend (SText ''late'')]
      (event_stream_channel False) = (delivered, accepted, s) \<and>
    delivered = [SText ''a'', SText ''b'', cancelled_terminal] \<and> single_terminal delivered \<and>
    accepted = [SText ''a'', SText ''b'']"
proof -
  obtain s where run: "stream_run (\<lambda>m. provider_error_new Protocol) (\<lambda>_. Some 10)
      [OpCloneSender, OpSend (SText ''a''), OpCancel, OpSend (SText ''b''), OpNext, OpNext, OpNext,
       OpSend (SText ''late'')]
      (event_stream_channel False) = ([SText ''a'', SText ''b'', cancelled_terminal], [SText ''a'', SText ''b''], s)"
    by (simp add: stream_step_def event_stream_channel_def event_send_def bounded_event_def event_next_def
        stream_accept_def synthesize_def stream_finish_def cancelled_terminal_def
        EVENT_STREAM_CAPACITY_def MAX_EVENT_ENCODED_BYTES_def)
  from event_stream_single_terminal [OF this] run show ?thesis by blast
qed

subsection \<open>The tool stream\<close>

datatype tool_stream_item =
    Progress string
  | Terminal tool_result

record tool_stream =
  tst_queue :: "tool_stream_item list"
  tst_terminated :: bool
  tst_receiver :: bool

definition tool_stream_channel :: tool_stream where
  "tool_stream_channel = \<lparr>tst_queue = [], tst_terminated = False, tst_receiver = True\<rparr>"

definition tool_stream_closed :: tool_stream where
  "tool_stream_closed = tool_stream_channel\<lparr>tst_receiver := False\<rparr>"

definition tool_stream_is_done :: "tool_stream \<Rightarrow> bool" where
  "tool_stream_is_done s \<longleftrightarrow> tst_terminated s \<or> \<not> tst_receiver s"

definition is_terminal_item :: "tool_stream_item \<Rightarrow> bool" where
  "is_terminal_item i = (case i of Terminal _ \<Rightarrow> True | Progress _ \<Rightarrow> False)"

definition tool_stream_send :: "tool_stream_item \<Rightarrow> tool_stream \<Rightarrow> bool \<times> tool_stream" where
  "tool_stream_send item s =
     (if tst_terminated s then (False, s)
      else
        let s = (if is_terminal_item item then s\<lparr>tst_terminated := True\<rparr> else s) in
        if tst_receiver s then (True, s\<lparr>tst_queue := tst_queue s @ [item]\<rparr>) else (False, s))"

definition tool_stream_progress :: "string \<Rightarrow> tool_stream \<Rightarrow> bool \<times> tool_stream" where
  "tool_stream_progress m = tool_stream_send (Progress m)"

definition tool_stream_terminal :: "tool_result \<Rightarrow> tool_stream \<Rightarrow> bool \<times> tool_stream" where
  "tool_stream_terminal r = tool_stream_send (Terminal r)"

text \<open>\<open>drain\<close> on the items a receiver will get before the senders are gone.\<close>

fun tool_stream_drain :: "tool_stream_item list \<Rightarrow> tool_stream_item list" where
  "tool_stream_drain [] = []"
| "tool_stream_drain (i # is) = (if is_terminal_item i then [i] else i # tool_stream_drain is)"

definition tool_stream_sends :: "tool_stream_item list \<Rightarrow> tool_stream \<Rightarrow> tool_stream" where
  "tool_stream_sends items s = fold (\<lambda>i s. snd (tool_stream_send i s)) items s"

lemma tool_stream_sends_terminated:
  "tst_terminated s \<Longrightarrow> tool_stream_sends items s = s"
  by (induction items) (simp_all add: tool_stream_sends_def tool_stream_send_def)

lemma tool_stream_sends_queue:
  "\<not> tst_terminated s \<Longrightarrow> tst_receiver s \<Longrightarrow>
     tst_queue (tool_stream_sends items s) = tst_queue s @ tool_stream_drain items \<and>
     tst_receiver (tool_stream_sends items s) \<and>
     tst_terminated (tool_stream_sends items s) = list_ex is_terminal_item items"
proof (induction items arbitrary: s)
  case Nil
  then show ?case by (simp add: tool_stream_sends_def)
next
  case (Cons i items)
  let ?s = "snd (tool_stream_send i s)"
  have unfold: "tool_stream_sends (i # items) s = tool_stream_sends items ?s"
    by (simp add: tool_stream_sends_def)
  show ?case
  proof (cases "is_terminal_item i")
    case True
    then have "tst_terminated ?s" using Cons.prems by (simp add: tool_stream_send_def)
    then show ?thesis using Cons.prems True
      by (simp add: unfold tool_stream_sends_terminated) (simp add: tool_stream_send_def)
  next
    case False
    then have "tst_queue ?s = tst_queue s @ [i]" "\<not> tst_terminated ?s" "tst_receiver ?s"
      using Cons.prems by (simp_all add: tool_stream_send_def)
    then show ?thesis using Cons.IH [of ?s] False by (simp add: unfold)
  qed
qed

lemma tool_stream_drain_append:
  "tool_stream_drain (xs @ ys) = (if list_ex is_terminal_item xs then tool_stream_drain xs
     else xs @ tool_stream_drain ys)"
  by (induction xs) auto

text \<open>C13. First terminal wins: whatever items the clones of a tool stream try to send, in whatever
  order their critical sections run, the receiver gets exactly the items up to and including the
  first terminal, in order, and \<open>drain\<close> returns all of them.\<close>

theorem tool_stream_first_terminal_wins:
  "tst_queue (tool_stream_sends items tool_stream_channel) = tool_stream_drain items \<and>
   tool_stream_drain (tst_queue (tool_stream_sends items tool_stream_channel)) =
     tst_queue (tool_stream_sends items tool_stream_channel)"
proof -
  have "tool_stream_drain (tool_stream_drain items) = tool_stream_drain items"
    by (induction items) auto
  then show ?thesis
    using tool_stream_sends_queue [of tool_stream_channel items] by (simp add: tool_stream_channel_def)
qed

end
