(* ===== verification/Agent.thy ===== *)
theory Agent
  imports Streams "HOL-Library.Multiset"
begin

section \<open>The Agent: queues, turn mechanics and the double loop\<close>

text \<open>
  \<open>mcode-agent\<close> (\<open>agent.rs\<close>, \<open>turn.rs\<close>, \<open>hooks.rs\<close>, \<open>prompt.rs\<close>, \<open>env.rs\<close>) with the tool
  registry of \<open>mcode-tools/src/registry.rs\<close>.

  A turn shares its queues and its cancellation token with other tasks. What the other tasks do is a
  schedule: \<open>ts\_sched\<close> holds, for each time the turn looks at shared state (\<open>is\_cancelled\<close>, a
  drain of a queue), the control operations that other tasks ran since the previous look; an
  exhausted schedule is a world in which nobody interferes any more. Only at such looks can the turn
  notice another task, so every interleaving is a schedule.

  The provider, the tools and the file-system preparation are functions of an arbitrary state \<open>'w\<close>
  of the outside world: a provider call gives a setup error or the finite list of events that
  \<open>EventStream::next\<close> yields, a tool gives the items its stream clones send before and after the
  dispatcher claims the terminal, and its return value or panic message. Text that the code formats
  from constants is kept.
\<close>

subsection \<open>Hooks (hooks.rs)\<close>

datatype gate_result = GPass | GBlock string

datatype hook_event =
    HTurnStart | HTurnEnd | HUserPrompt | HBeforeProviderRequest | HMessageStart | HMessageEnd
  | HToolCall | HToolResult | HStopGate

type_synonym test_gate = "json_value \<Rightarrow> gate_result \<times> json_value"

definition hook_transform :: "hook_event \<Rightarrow> 'a \<Rightarrow> 'a" where
  "hook_transform event v = v"

definition hook_gate :: "test_gate option \<Rightarrow> hook_event \<Rightarrow> json_value \<Rightarrow> gate_result \<times> json_value" where
  "hook_gate gate event payload =
     (case gate of
        Some g \<Rightarrow> if event = HToolCall then g payload else (GPass, payload)
      | None \<Rightarrow> (GPass, payload))"

subsection \<open>The tool registry (registry.rs)\<close>

datatype search_access = SearchContent | SearchMetadata
datatype file_access = ExistingContent | ExistingOrMissing

record tool_dyn =
  td_spec :: tool_spec
  td_prompt_snippet :: "string option"
  td_search_access :: "search_access option"
  td_file_access :: "file_access option"

text \<open>A \<open>BTreeMap\<close> as its entries in key order.\<close>

type_synonym tool_registry = "(string \<times> tool_dyn) list"

fun registry_insert :: "string \<Rightarrow> tool_dyn \<Rightarrow> tool_registry \<Rightarrow> tool_registry" where
  "registry_insert n t [] = [(n, t)]"
| "registry_insert n t ((k, u) # reg) =
     (if n < k then (n, t) # (k, u) # reg
      else if n = k then (n, t) # reg
      else (k, u) # registry_insert n t reg)"

definition registry_register :: "tool_dyn \<Rightarrow> tool_registry \<Rightarrow> tool_registry" where
  "registry_register t reg = registry_insert (sp_name (td_spec t)) t reg"

definition registry_get :: "tool_registry \<Rightarrow> string \<Rightarrow> tool_dyn option" where
  "registry_get reg n = map_of reg n"

definition registry_specs :: "tool_registry \<Rightarrow> tool_spec list" where
  "registry_specs reg = map (\<lambda>(_, t). td_spec t) reg"

definition registry_prompt_entries :: "tool_registry \<Rightarrow> (string \<times> string option) list" where
  "registry_prompt_entries reg = map (\<lambda>(n, t). (n, td_prompt_snippet t)) reg"

definition registry_names :: "tool_registry \<Rightarrow> string list" where
  "registry_names reg = map fst reg"

subsection \<open>The default system prompt (prompt.rs)\<close>

text \<open>\<open>str::trim\<close> by the characters of the string.\<close>

function utf8_segments :: "string \<Rightarrow> string list" where
  "utf8_segments [] = []"
| "utf8_segments (b # r) =
     (let w = utf8_width (of_char b) - 1 in (b # take w r) # utf8_segments (drop w r))"
  by pat_completeness auto
termination by (relation "measure length") auto

definition is_white_space :: "nat \<Rightarrow> bool" where
  "is_white_space c \<longleftrightarrow> (9 \<le> c \<and> c \<le> 13) \<or> c \<in> {32, 133, 160, 5760, 8232, 8233, 8239, 8287, 12288} \<or>
     (8192 \<le> c \<and> c \<le> 8202)"

definition white_segment :: "string \<Rightarrow> bool" where
  "white_segment s \<longleftrightarrow> (case s of [] \<Rightarrow> False | b # r \<Rightarrow> is_white_space (next_code_point b r))"

definition str_trim :: "string \<Rightarrow> string" where
  "str_trim s =
     concat (rev (dropWhile white_segment (rev (dropWhile white_segment (utf8_segments s)))))"

definition strip_prefix :: "string \<Rightarrow> string \<Rightarrow> string option" where
  "strip_prefix s p = (if take (length p) s = p then Some (drop (length p) s) else None)"

definition nl :: string where "nl = [CHR 0x0A]"

definition IDENTITY :: string where
  "IDENTITY = ''You are MCode Agent, a terminal coding agent that completes software-engineering tasks using the available tools.''"

definition RULES :: "string list" where
  "RULES =
     [''Read existing content before changing it.'',
      ''Prefer `read/write/edit/find/grep` over `exec/shell` for file and search work.'',
      ''Use `exec` for one direct program with explicit arguments and no shell parsing.'',
      ''Use `shell` only for pipelines, redirection, expansion, or a compound script.'']"

definition prompt_entry :: "string \<times> string option \<Rightarrow> string" where
  "prompt_entry e = (case e of (name, snippet) \<Rightarrow>
     nl @ ''- '' @ name @
     (case Option.bind snippet (\<lambda>s. let t = str_trim s in if t = [] then None else Some t) of
        None \<Rightarrow> []
      | Some detail \<Rightarrow>
          '': '' @
          (case Option.bind (strip_prefix detail name) (\<lambda>t. strip_prefix t '':'') of
             Some t \<Rightarrow> str_trim t | None \<Rightarrow> detail)))"

definition build_system_prompt :: "tool_registry \<Rightarrow> string" where
  "build_system_prompt tools =
     (let entries = registry_prompt_entries tools in
      IDENTITY @ nl @ nl @ ''Available tools:'' @
      (if entries = [] then nl @ ''(none)'' else concat (map prompt_entry entries)) @
      nl @ nl @ ''Rules:'' @
      concat (map (\<lambda>(index, rule). nl @ [char_of (49 + index)] @ ''. '' @ rule)
        (List.enumerate 0 RULES)))"

subsection \<open>The turn's environment and state (env.rs, agent.rs)\<close>

record bound_prepared =
  bp_search :: bool
  bp_file :: bool

text \<open>What one execution does: items sent on the tool stream before it is done, its result (a panic
  message on the left), and sends by clones that outlive it.\<close>

record tool_run =
  tn_sends :: "tool_stream_item list"
  tn_result :: "string + (tool_error + tool_result)"
  tn_late :: "tool_stream_item list"

record 'w turn_env =
  te_provider :: "'w \<Rightarrow> request \<Rightarrow> (provider_error + stream_event list) \<times> 'w"
  te_tools :: tool_registry
  te_gate :: "test_gate option"
  te_prepare_search :: "'w \<Rightarrow> string option \<Rightarrow> search_access \<Rightarrow> (string + unit) \<times> 'w"
  te_prepare_file :: "'w \<Rightarrow> string \<Rightarrow> file_access \<Rightarrow> (string + unit) \<times> 'w"
  te_execute :: "'w \<Rightarrow> tool_dyn \<Rightarrow> json_value \<Rightarrow> bound_prepared \<Rightarrow> tool_run \<times> 'w"
  te_encoded :: "request \<Rightarrow> nat option"
  te_json_parse :: "string \<Rightarrow> json_value option"
  te_json_print :: "json_value \<Rightarrow> string"

datatype queue_mode = QAll | QOneAtATime

text \<open>What another task does through an \<open>AgentHandle\<close>, or with the caller's token.\<close>

datatype control_op = CSteer message | CFollowUp message | CAbort | CClear | CEnvCancel

record 'w turn_state =
  ts_messages :: "message list"
  ts_is_streaming :: bool
  ts_steer :: "message list"
  ts_followup :: "message list"
  ts_active :: bool
  ts_cancelled :: bool
  ts_events :: "agent_event list"
  ts_sched :: "control_op list list"
  ts_world :: 'w

definition steer :: "message \<Rightarrow> 'w turn_state \<Rightarrow> 'w turn_state" where
  "steer msg s = s\<lparr>ts_steer := ts_steer s @ [msg]\<rparr>"

definition follow_up :: "message \<Rightarrow> 'w turn_state \<Rightarrow> 'w turn_state" where
  "follow_up msg s = s\<lparr>ts_followup := ts_followup s @ [msg]\<rparr>"

definition abort :: "'w turn_state \<Rightarrow> 'w turn_state" where
  "abort s = (if ts_active s then s\<lparr>ts_cancelled := True\<rparr> else s)"

definition has_queued :: "'w turn_state \<Rightarrow> bool" where
  "has_queued s \<longleftrightarrow> ts_steer s \<noteq> [] \<or> ts_followup s \<noteq> []"

definition clear_queues :: "'w turn_state \<Rightarrow> 'w turn_state" where
  "clear_queues s = s\<lparr>ts_steer := [], ts_followup := []\<rparr>"

fun control_step :: "control_op \<Rightarrow> 'w turn_state \<Rightarrow> 'w turn_state" where
  "control_step (CSteer m) s = steer m s"
| "control_step (CFollowUp m) s = follow_up m s"
| "control_step CAbort s = abort s"
| "control_step CClear s = clear_queues s"
| "control_step CEnvCancel s = s\<lparr>ts_cancelled := True\<rparr>"

definition interfere :: "'w turn_state \<Rightarrow> 'w turn_state" where
  "interfere s = (case ts_sched s of [] \<Rightarrow> s | ops # rest \<Rightarrow> fold control_step ops (s\<lparr>ts_sched := rest\<rparr>))"

definition is_cancelled :: "'w turn_state \<Rightarrow> bool \<times> 'w turn_state" where
  "is_cancelled s = (let s = interfere s in (ts_cancelled s, s))"

definition drain_queue :: "queue_mode \<Rightarrow> message list \<Rightarrow> message list \<times> message list" where
  "drain_queue mode q = (case mode of QAll \<Rightarrow> (q, []) | QOneAtATime \<Rightarrow> (take 1 q, drop 1 q))"

definition drain_steer :: "queue_mode \<Rightarrow> 'w turn_state \<Rightarrow> message list \<times> 'w turn_state" where
  "drain_steer mode s =
     (let s = interfere s; (taken, rest) = drain_queue mode (ts_steer s)
      in (taken, s\<lparr>ts_steer := rest\<rparr>))"

definition drain_followup :: "queue_mode \<Rightarrow> 'w turn_state \<Rightarrow> message list \<times> 'w turn_state" where
  "drain_followup mode s =
     (let s = interfere s; (taken, rest) = drain_queue mode (ts_followup s)
      in (taken, s\<lparr>ts_followup := rest\<rparr>))"

definition emit :: "agent_event \<Rightarrow> 'w turn_state \<Rightarrow> 'w turn_state" where
  "emit e s = s\<lparr>ts_events := ts_events s @ [e]\<rparr>"

definition push_message :: "message \<Rightarrow> 'w turn_state \<Rightarrow> 'w turn_state" where
  "push_message m s = emit (MessageAdded m) (s\<lparr>ts_messages := ts_messages s @ [m]\<rparr>)"

subsection \<open>One response (turn.rs)\<close>

datatype turn_failure = TFAborted | TFError mcode_error

definition MAX_REQUEST_ENCODED_BYTES :: nat where "MAX_REQUEST_ENCODED_BYTES = 8 * 1024 * 1024"

definition with_message :: "'w turn_env \<Rightarrow> provider_error_kind \<Rightarrow> string \<Rightarrow> provider_error" where
  "with_message env k m = provider_error_with_message (te_json_parse env) (te_json_print env) k m"

definition request_validate :: "'w turn_env \<Rightarrow> request \<Rightarrow> provider_error + unit" where
  "request_validate env rq =
     (case te_encoded env rq of
        None \<Rightarrow> Inl (with_message env Protocol ''provider request could not be encoded'')
      | Some n \<Rightarrow>
          if n > MAX_REQUEST_ENCODED_BYTES
          then Inl (with_message env Rejected ''provider request exceeds the encoded size limit'')
          else Inr ())"

definition fail_with :: "provider_error \<Rightarrow> 'w turn_state \<Rightarrow> (turn_failure + 'a) \<times> 'w turn_state" where
  "fail_with e s =
     (let error = mcode_error_from_provider e in (Inl (TFError error), emit (EvError error) s))"

fun stream_events ::
  "'w turn_env \<Rightarrow> stream_event list \<Rightarrow> 'w turn_state \<Rightarrow>
   (turn_failure + assistant_message) \<times> 'w turn_state" where
  "stream_events env [] s =
     (let (c, s) = is_cancelled s in
      if c then (Inl TFAborted, s)
      else fail_with (with_message env Protocol ''provider stream ended without a terminal event'') s)"
| "stream_events env (SText d # es) s = stream_events env es (emit (EvDelta (DText d)) s)"
| "stream_events env (SThinking d # es) s = stream_events env es (emit (EvDelta (DThinking d)) s)"
| "stream_events env (SToolCall i d # es) s = stream_events env es (emit (EvDelta (DToolCall i d)) s)"
| "stream_events env (SDone message # es) s =
     (let message = hook_transform HMessageEnd message in
      (Inr message, push_message (Assistant message) s))"
| "stream_events env (SError e # es) s =
     (if is_cancelled_error e then (Inl TFAborted, s) else fail_with e s)"

definition build_request :: "'w turn_env \<Rightarrow> string list \<Rightarrow> 'w turn_state \<Rightarrow> request" where
  "build_request env config s =
     \<lparr>rq_system_prompt = (if config = [] then [build_system_prompt (te_tools env)] else config),
      rq_messages = ts_messages s, rq_tools = registry_specs (te_tools env)\<rparr>"

definition stream_assistant ::
  "'w turn_env \<Rightarrow> string list \<Rightarrow> 'w turn_state \<Rightarrow> (turn_failure + assistant_message) \<times> 'w turn_state" where
  "stream_assistant env config s =
     (let rq = hook_transform HBeforeProviderRequest (build_request env config s);
          (c, s) = is_cancelled s in
      if c then (Inl TFAborted, s)
      else case request_validate env rq of
          Inl e \<Rightarrow> fail_with e s
        | Inr _ \<Rightarrow>
            let (c, s) = is_cancelled s in
            if c then (Inl TFAborted, s)
            else
              let (r, w) = te_provider env (ts_world s) rq; s = s\<lparr>ts_world := w\<rparr> in
              (case r of
                 Inl e \<Rightarrow> if is_cancelled_error e then (Inl TFAborted, s) else fail_with e s
               | Inr es \<Rightarrow> stream_events env es s))"

subsection \<open>One tool call (turn.rs)\<close>

definition completed_error :: "tool_call \<Rightarrow> string \<Rightarrow> 'w turn_state \<Rightarrow> tool_result_message \<times> 'w turn_state" where
  "completed_error call reason s =
     (let message = \<lparr>tr_tool_call_id = tc_id call, tr_content = [TextB reason],
                     tr_is_error = True, tr_details = None\<rparr>
      in (message, emit (ToolCompleted (tc_id call) message) s))"

definition truncated_reason :: string where
  "truncated_reason = ''tool call was not executed: the response hit the output token limit, so its arguments may be truncated; re-issue the call with complete arguments''"

definition cancelled_reason :: string where
  "cancelled_reason = ''tool call was not executed: the turn was aborted before this call was dispatched''"

definition fail_truncated_call :: "tool_call \<Rightarrow> 'w turn_state \<Rightarrow> tool_result_message \<times> 'w turn_state" where
  "fail_truncated_call call s =
     completed_error call truncated_reason (emit (ToolStarted (tc_id call) (tc_name call)) s)"

definition fail_cancelled_call :: "tool_call \<Rightarrow> 'w turn_state \<Rightarrow> tool_result_message \<times> 'w turn_state" where
  "fail_cancelled_call call s =
     completed_error call cancelled_reason (emit (ToolStarted (tc_id call) (tc_name call)) s)"

definition panic_tool_result :: "string \<Rightarrow> tool_result" where
  "panic_tool_result m = tool_result_error (tool_error_display (PluginTrap m))"

definition bind_prepared ::
  "'w turn_env \<Rightarrow> tool_dyn \<Rightarrow> json_value \<Rightarrow> 'w turn_state \<Rightarrow> (string + bound_prepared) \<times> 'w turn_state" where
  "bind_prepared env tool args s =
     (let path = Option.bind (value_get args ''path'') value_as_str in
      case td_search_access tool of
        Some access \<Rightarrow>
          (let (r, w) = te_prepare_search env (ts_world s) path access in
           (and_then r (\<lambda>_. Inr \<lparr>bp_search = True, bp_file = False\<rparr>), s\<lparr>ts_world := w\<rparr>))
      | None \<Rightarrow>
          (case td_file_access tool of
             Some access \<Rightarrow>
               (case path of
                  None \<Rightarrow> (Inl ''file tool is missing a path argument'', s)
                | Some path \<Rightarrow>
                    (let (r, w) = te_prepare_file env (ts_world s) path access in
                     (and_then r (\<lambda>_. Inr \<lparr>bp_search = False, bp_file = True\<rparr>), s\<lparr>ts_world := w\<rparr>)))
           | None \<Rightarrow> (Inr \<lparr>bp_search = False, bp_file = False\<rparr>, s)))"

definition execution_result :: "string + (tool_error + tool_result) \<Rightarrow> tool_result" where
  "execution_result r =
     (case r of
        Inl m \<Rightarrow> panic_tool_result m
      | Inr (Inl e) \<Rightarrow> tool_result_error (tool_error_display e)
      | Inr (Inr v) \<Rightarrow> v)"

text \<open>The items the receiver gets: what the tool sent, the dispatcher's own terminal (refused when
  the tool already sent one), and what outlives it (always refused).\<close>

definition run_items :: "tool_run \<Rightarrow> tool_stream_item list" where
  "run_items run =
     (let stream = tool_stream_sends (tn_sends run) tool_stream_channel;
          (_, stream) = tool_stream_terminal (execution_result (tn_result run)) stream;
          stream = tool_stream_sends (tn_late run) stream
      in tst_queue stream)"

fun consume_items ::
  "string \<Rightarrow> tool_stream_item list \<Rightarrow> tool_result option \<Rightarrow> 'w turn_state \<Rightarrow>
   tool_result option \<times> 'w turn_state" where
  "consume_items call_id [] streamed s = (streamed, s)"
| "consume_items call_id (Progress m # items) streamed s =
     consume_items call_id items streamed (emit (ToolProgress call_id m) s)"
| "consume_items call_id (Terminal r # items) streamed s = consume_items call_id items (Some r) s"

definition dispatch_tool_call ::
  "'w turn_env \<Rightarrow> tool_call \<Rightarrow> 'w turn_state \<Rightarrow> tool_result_message \<times> 'w turn_state" where
  "dispatch_tool_call env call s =
     (let s = emit (ToolStarted (tc_id call) (tc_name call)) s in
      case registry_get (te_tools env) (tc_name call) of
        None \<Rightarrow> completed_error call (''unknown tool: '' @ tc_name call) s
      | Some tool \<Rightarrow>
          let (g, args) = hook_gate (te_gate env) HToolCall (tc_arguments call) in
          (case g of
             GBlock reason \<Rightarrow> completed_error call (''blocked by hook: '' @ reason) s
           | GPass \<Rightarrow>
               let (b, s) = bind_prepared env tool args s in
               (case b of
                  Inl message \<Rightarrow> completed_error call message s
                | Inr prepared \<Rightarrow>
                    let (run, w) = te_execute env (ts_world s) tool args prepared;
                        s = s\<lparr>ts_world := w\<rparr>;
                        (streamed, s) = consume_items (tc_id call) (run_items run) None s;
                        result = (case streamed of Some r \<Rightarrow> r
                                  | None \<Rightarrow> execution_result (tn_result run));
                        result = hook_transform HToolResult result;
                        message = \<lparr>tr_tool_call_id = tc_id call, tr_content = rs_content result,
                                   tr_is_error = rs_is_error result, tr_details = rs_details result\<rparr>
                    in (message, emit (ToolCompleted (tc_id call) message) s))))"

subsection \<open>The double loop (agent.rs)\<close>

definition push_result ::
  "('w turn_state \<Rightarrow> tool_result_message \<times> 'w turn_state) \<Rightarrow> 'w turn_state \<Rightarrow> 'w turn_state" where
  "push_result f s = (let (message, s) = f s in push_message (ToolResult message) s)"

text \<open>The dispatch loop; \<open>True\<close> is the \<open>break 'outer\<close> of an abort between two calls.\<close>

fun dispatch_calls :: "'w turn_env \<Rightarrow> tool_call list \<Rightarrow> 'w turn_state \<Rightarrow> bool \<times> 'w turn_state" where
  "dispatch_calls env [] s = (False, s)"
| "dispatch_calls env (call # calls) s =
     (let (c, s) = is_cancelled s in
      if c then (True, fold (\<lambda>call. push_result (fail_cancelled_call call)) (call # calls) s)
      else dispatch_calls env calls (push_result (dispatch_tool_call env call) s))"

datatype inner_exit = Broke | FailedWith mcode_error

text \<open>One iteration of the inner loop. On the right: \<open>has\_tool\_calls\<close>, \<open>pending\<close>, \<open>steered\<close>.\<close>

definition after_calls ::
  "'w turn_env \<Rightarrow> queue_mode \<Rightarrow> bool \<Rightarrow> bool \<Rightarrow> 'w turn_state \<Rightarrow>
   (inner_exit + bool \<times> message list \<times> bool) \<times> 'w turn_state" where
  "after_calls env mode steered has_tool_calls s =
     (let has_tool_calls =
            (if \<not> has_tool_calls \<and> fst (hook_gate (te_gate env) HStopGate VNull) \<noteq> GPass
             then True else has_tool_calls);
          (steered_now, s) = drain_steer mode s
      in (Inr (has_tool_calls, steered_now, steered \<or> steered_now \<noteq> []), s))"

definition inner_step ::
  "'w turn_env \<Rightarrow> string list \<Rightarrow> queue_mode \<Rightarrow> message list \<Rightarrow> bool \<Rightarrow> 'w turn_state \<Rightarrow>
   (inner_exit + bool \<times> message list \<times> bool) \<times> 'w turn_state" where
  "inner_step env config mode pending steered s =
     (let s = fold (\<lambda>msg. push_message (hook_transform HUserPrompt msg)) pending s;
          (c, s) = is_cancelled s in
      if c then (Inl Broke, s)
      else
        let (r, s) = stream_assistant env config s in
        (case r of
           Inl TFAborted \<Rightarrow> (Inl Broke, s)
         | Inl (TFError e) \<Rightarrow> (Inl (FailedWith e), s)
         | Inr assistant \<Rightarrow>
             let calls = tool_calls assistant in
             if calls = [] then after_calls env mode steered False s
             else if am_stop_reason assistant = Length then
               after_calls env mode steered True
                 (fold (\<lambda>call. push_result (fail_truncated_call call)) calls s)
             else
               let (aborted, s) = dispatch_calls env calls s in
               if aborted then (Inl Broke, s) else after_calls env mode steered True s))"

text \<open>The loops take fuel: a model that never stops calling tools keeps the turn running. \<open>None\<close> is
  spent fuel.\<close>

fun inner_loop ::
  "nat \<Rightarrow> 'w turn_env \<Rightarrow> string list \<Rightarrow> queue_mode \<Rightarrow> bool \<Rightarrow> message list \<Rightarrow> bool \<Rightarrow> 'w turn_state \<Rightarrow>
   ((inner_exit + bool) \<times> 'w turn_state) option" where
  "inner_loop fuel env config mode has_tool_calls pending steered s =
     (if has_tool_calls \<or> pending \<noteq> [] then
        (case fuel of
           0 \<Rightarrow> None
         | Suc fuel \<Rightarrow>
             (case inner_step env config mode pending steered s of
                (Inl e, s) \<Rightarrow> Some (Inl e, s)
              | (Inr (has_tool_calls, pending, steered), s) \<Rightarrow>
                  inner_loop fuel env config mode has_tool_calls pending steered s))
      else Some (Inr steered, s))"

fun outer_loop ::
  "nat \<Rightarrow> 'w turn_env \<Rightarrow> string list \<Rightarrow> queue_mode \<Rightarrow> message list \<Rightarrow> bool \<Rightarrow> 'w turn_state \<Rightarrow>
   ((inner_exit + bool) \<times> 'w turn_state) option" where
  "outer_loop 0 env config mode pending steered s = None"
| "outer_loop (Suc fuel) env config mode pending steered s =
     (case inner_loop fuel env config mode True pending steered s of
        None \<Rightarrow> None
      | Some (Inl e, s) \<Rightarrow> Some (Inl e, s)
      | Some (Inr steered, s) \<Rightarrow>
          let (followups, s) = drain_followup mode s in
          if followups = [] then Some (Inr steered, s)
          else outer_loop fuel env config mode followups steered s)"

definition loop_outcome :: "inner_exit + bool \<Rightarrow> mcode_error + turn_outcome" where
  "loop_outcome r =
     (case r of
        Inl Broke \<Rightarrow> Inr Aborted
      | Inl (FailedWith e) \<Rightarrow> Inl e
      | Inr steered \<Rightarrow> Inr (if steered then Steered else Completed))"

definition double_loop ::
  "nat \<Rightarrow> 'w turn_env \<Rightarrow> string list \<Rightarrow> queue_mode \<Rightarrow> message \<Rightarrow> 'w turn_state \<Rightarrow>
   ((mcode_error + turn_outcome) \<times> 'w turn_state) option" where
  "double_loop fuel env config mode msg s =
     (let s = push_message (hook_transform HUserPrompt msg) s;
          (pending, s) = drain_steer mode s in
      map_option (\<lambda>(r, s). (loop_outcome r, s))
        (outer_loop fuel env config mode pending (pending \<noteq> []) s))"

definition run_turn ::
  "nat \<Rightarrow> 'w turn_env \<Rightarrow> string list \<Rightarrow> queue_mode \<Rightarrow> message \<Rightarrow> 'w turn_state \<Rightarrow>
   ((mcode_error + turn_outcome) \<times> 'w turn_state) option" where
  "run_turn fuel env config mode msg s =
     (case double_loop fuel env config mode msg (emit TurnStarted s) of
        None \<Rightarrow> None
      | Some (outcome, s) \<Rightarrow>
          Some (outcome, emit (TurnEnded (case outcome of Inr o' \<Rightarrow> o' | Inl _ \<Rightarrow> Aborted)) s))"

text \<open>\<open>prompt\<close>: the turn's token is a child of the caller's, so it starts cancelled when the caller's
  token is.\<close>

definition prompt ::
  "nat \<Rightarrow> 'w turn_env \<Rightarrow> string list \<Rightarrow> queue_mode \<Rightarrow> bool \<Rightarrow> message \<Rightarrow> 'w turn_state \<Rightarrow>
   ((mcode_error + turn_outcome) \<times> 'w turn_state) option" where
  "prompt fuel env config mode env_cancelled msg s =
     (case run_turn fuel env config mode msg
             (s\<lparr>ts_active := True, ts_cancelled := env_cancelled, ts_is_streaming := True\<rparr>) of
        None \<Rightarrow> None
      | Some (r, s) \<Rightarrow> Some (r, s\<lparr>ts_is_streaming := False, ts_active := False\<rparr>))"

section \<open>What a turn does\<close>

subsection \<open>Interference touches only the queues and the token\<close>

text \<open>The messages that wait to be delivered: both queues, and what other tasks will still queue.\<close>

fun op_inputs :: "control_op \<Rightarrow> message list" where
  "op_inputs (CSteer m) = [m]"
| "op_inputs (CFollowUp m) = [m]"
| "op_inputs _ = []"

definition waiting :: "'w turn_state \<Rightarrow> message multiset" where
  "waiting s = mset (ts_steer s) + mset (ts_followup s) +
     mset (concat (map (\<lambda>ops. concat (map op_inputs ops)) (ts_sched s)))"

definition clear_free :: "'w turn_state \<Rightarrow> bool" where
  "clear_free s \<longleftrightarrow> (\<forall>ops\<in>set (ts_sched s). CClear \<notin> set ops)"

text \<open>Nobody has cancelled the turn and nobody will.\<close>

definition calm :: "'w turn_state \<Rightarrow> bool" where
  "calm s \<longleftrightarrow> \<not> ts_cancelled s \<and> (\<forall>ops\<in>set (ts_sched s). CAbort \<notin> set ops \<and> CEnvCancel \<notin> set ops)"

text \<open>From \<open>s\<close> to \<open>t\<close> the messages \<open>ms\<close> were taken from those waiting; nothing appeared from nowhere,
  and nothing was lost unless another task cleared the queues. A cancelled token stays cancelled and
  a calm turn stays calm.\<close>

definition keeps :: "message list \<Rightarrow> 'w turn_state \<Rightarrow> 'w turn_state \<Rightarrow> bool" where
  "keeps ms s t \<longleftrightarrow> mset ms + waiting t \<subseteq># waiting s \<and>
     (clear_free s \<longrightarrow> clear_free t \<and> mset ms + waiting t = waiting s) \<and>
     (calm s \<longrightarrow> calm t) \<and> (ts_cancelled s \<longrightarrow> ts_cancelled t)"

lemma keeps_size:
  assumes "keeps p s t"
  shows "length p + size (waiting t) \<le> size (waiting s)"
proof -
  have "mset p + waiting t \<subseteq># waiting s" using assms by (simp add: keeps_def)
  from size_mset_mono [OF this] show ?thesis by simp
qed

lemma keeps_refl [simp]: "keeps [] s s"
  by (simp add: keeps_def)

lemma keeps_trans: "keeps xs s t \<Longrightarrow> keeps ys t u \<Longrightarrow> keeps (xs @ ys) s u"
  unfolding keeps_def
  by (auto simp: add.assoc intro: subset_mset.order_trans [OF subset_mset.add_left_mono])

lemma keeps_same: "ts_steer t = ts_steer s \<Longrightarrow> ts_followup t = ts_followup s \<Longrightarrow> ts_sched t = ts_sched s \<Longrightarrow>
    ts_cancelled t = ts_cancelled s \<Longrightarrow> keeps [] s t"
  by (simp add: keeps_def waiting_def clear_free_def calm_def)

definition same_log :: "'w turn_state \<Rightarrow> 'w turn_state \<Rightarrow> bool" where
  "same_log s t \<longleftrightarrow> ts_messages t = ts_messages s \<and> ts_events t = ts_events s \<and>
     ts_is_streaming t = ts_is_streaming s \<and> ts_active t = ts_active s \<and> keeps [] s t"

lemma same_log_refl [simp]: "same_log s s"
  by (simp add: same_log_def)

lemma same_log_trans: "same_log s t \<Longrightarrow> same_log t u \<Longrightarrow> same_log s u"
  using keeps_trans [of "[]" s t "[]" u] by (simp add: same_log_def)

lemma control_step_frame:
  "ts_messages (control_step opn s) = ts_messages s" "ts_events (control_step opn s) = ts_events s"
  "ts_is_streaming (control_step opn s) = ts_is_streaming s"
  "ts_active (control_step opn s) = ts_active s"
  "ts_world (control_step opn s) = ts_world s" "ts_sched (control_step opn s) = ts_sched s"
  by (cases opn; simp add: steer_def follow_up_def abort_def clear_queues_def)+

lemma control_step_queues:
  "mset (ts_steer (control_step opn s)) + mset (ts_followup (control_step opn s))
     \<subseteq># mset (ts_steer s) + mset (ts_followup s) + mset (op_inputs opn)"
  "opn \<noteq> CClear \<Longrightarrow> mset (ts_steer (control_step opn s)) + mset (ts_followup (control_step opn s))
     = mset (ts_steer s) + mset (ts_followup s) + mset (op_inputs opn)"
  by (cases opn; simp add: steer_def follow_up_def abort_def clear_queues_def)+

lemma fold_control_frame:
  "ts_messages (fold control_step ops s) = ts_messages s \<and> ts_events (fold control_step ops s) = ts_events s \<and>
   ts_is_streaming (fold control_step ops s) = ts_is_streaming s \<and>
   ts_active (fold control_step ops s) = ts_active s \<and>
   ts_world (fold control_step ops s) = ts_world s \<and> ts_sched (fold control_step ops s) = ts_sched s"
  by (induction ops arbitrary: s) (simp_all add: control_step_frame)

lemma fold_control_queues:
  "mset (ts_steer (fold control_step ops s)) + mset (ts_followup (fold control_step ops s))
     \<subseteq># mset (ts_steer s) + mset (ts_followup s) + mset (concat (map op_inputs ops)) \<and>
   (CClear \<notin> set ops \<longrightarrow>
     mset (ts_steer (fold control_step ops s)) + mset (ts_followup (fold control_step ops s))
     = mset (ts_steer s) + mset (ts_followup s) + mset (concat (map op_inputs ops)))"
proof (induction ops arbitrary: s)
  case (Cons opn ops)
  let ?s = "control_step opn s" and ?r = "mset (concat (map op_inputs ops))"
  have "mset (ts_steer ?s) + mset (ts_followup ?s) + ?r
      \<subseteq># mset (ts_steer s) + mset (ts_followup s) + mset (op_inputs opn) + ?r"
    using control_step_queues(1) by (rule subset_mset.add_right_mono)
  then show ?case
    using Cons.IH [of ?s] control_step_queues(2) [of opn s]
    by (auto simp: add.assoc intro: subset_mset.order_trans)
qed simp

lemma fold_control_cancelled:
  "(ts_cancelled s \<longrightarrow> ts_cancelled (fold control_step ops s)) \<and>
   (\<not> ts_cancelled s \<and> CAbort \<notin> set ops \<and> CEnvCancel \<notin> set ops \<longrightarrow>
      \<not> ts_cancelled (fold control_step ops s))"
proof (induction ops arbitrary: s)
  case (Cons opn ops)
  have "ts_cancelled s \<longrightarrow> ts_cancelled (control_step opn s)"
    "\<not> ts_cancelled s \<and> opn \<noteq> CAbort \<and> opn \<noteq> CEnvCancel \<longrightarrow> \<not> ts_cancelled (control_step opn s)"
    by (cases opn; simp add: steer_def follow_up_def abort_def clear_queues_def)+
  then show ?case using Cons.IH [of "control_step opn s"] by auto
qed simp

lemma interfere_frame [frame_simps]:
  "same_log s (interfere s)" "ts_world (interfere s) = ts_world s"
proof -
  show "same_log s (interfere s)"
  proof (cases "ts_sched s")
    case Nil
    then show ?thesis by (simp add: interfere_def)
  next
    case (Cons ops rest)
    let ?r = "mset (concat (map (\<lambda>ops. concat (map op_inputs ops)) rest))"
    let ?t = "fold control_step ops (s\<lparr>ts_sched := rest\<rparr>)"
    have "mset (ts_steer ?t) + mset (ts_followup ?t) + ?r
        \<subseteq># mset (ts_steer s) + mset (ts_followup s) + mset (concat (map op_inputs ops)) + ?r"
      using fold_control_queues [of ops "s\<lparr>ts_sched := rest\<rparr>"]
      by (intro subset_mset.add_right_mono) simp
    then show ?thesis
      using Cons fold_control_frame [of ops "s\<lparr>ts_sched := rest\<rparr>"]
        fold_control_queues [of ops "s\<lparr>ts_sched := rest\<rparr>"]
        fold_control_cancelled [of "s\<lparr>ts_sched := rest\<rparr>" ops]
      by (simp add: interfere_def same_log_def keeps_def waiting_def clear_free_def calm_def add.assoc)
  qed
  show "ts_world (interfere s) = ts_world s"
    using fold_control_frame [of "hd (ts_sched s)" "s\<lparr>ts_sched := tl (ts_sched s)\<rparr>"]
    by (cases "ts_sched s") (simp_all add: interfere_def)
qed

lemma drain_queue_mset: "drain_queue mode q = (taken, rest) \<Longrightarrow> mset q = mset taken + mset rest"
  by (auto simp: drain_queue_def mset_append [symmetric] simp del: mset_append split: queue_mode.splits)

text \<open>A drain changes nothing but the queue it takes from.\<close>

definition drained :: "message list \<Rightarrow> 'w turn_state \<Rightarrow> 'w turn_state \<Rightarrow> bool" where
  "drained taken s t \<longleftrightarrow> ts_messages t = ts_messages s \<and> ts_events t = ts_events s \<and>
     ts_is_streaming t = ts_is_streaming s \<and> ts_active t = ts_active s \<and> keeps taken s t"

lemma drain_frame [frame_simps]:
  assumes "drain_steer mode s = (taken, t) \<or> drain_followup mode s = (taken, t)"
  shows "drained taken s t \<and> ts_world t = ts_world s"
proof -
  let ?i = "interfere s"
  from assms have t: "mset taken + (waiting t) = waiting ?i" "ts_sched t = ts_sched ?i"
    "ts_messages t = ts_messages ?i" "ts_events t = ts_events ?i" "ts_world t = ts_world ?i"
    "ts_is_streaming t = ts_is_streaming ?i" "ts_active t = ts_active ?i" "ts_cancelled t = ts_cancelled ?i"
    by (auto simp: drain_steer_def drain_followup_def Let_def waiting_def ac_simps
        split: prod.splits dest!: drain_queue_mset)
  then have "keeps taken ?i t" by (simp add: keeps_def clear_free_def calm_def)
  then have "keeps taken s t"
    using keeps_trans [of "[]" s ?i taken t] interfere_frame(1) [of s] by (simp add: same_log_def)
  then show ?thesis using t interfere_frame [of s] by (simp add: drained_def same_log_def)
qed

lemma is_cancelled_frame [frame_simps]:
  "is_cancelled s = (c, t) \<Longrightarrow> same_log s t" "is_cancelled s = (c, t) \<Longrightarrow> ts_world t = ts_world s"
  using interfere_frame [of s] by (auto simp: is_cancelled_def Let_def)

subsection \<open>The event protocol\<close>

text \<open>Inside a turn: outside tool calls come deltas, errors and added messages that are no tool
  results; a tool call runs from its start through its progress to its completion, and the completed
  result is the next thing added to the history. Turn brackets do not occur.\<close>

datatype log_state = Idle | Running string | Finished tool_result_message

fun is_tool_result :: "message \<Rightarrow> bool" where
  "is_tool_result (ToolResult _) = True"
| "is_tool_result _ = False"

fun log_step :: "log_state \<Rightarrow> agent_event \<Rightarrow> log_state option" where
  "log_step Idle (EvDelta _) = Some Idle"
| "log_step Idle (EvError _) = Some Idle"
| "log_step Idle (MessageAdded m) = (if is_tool_result m then None else Some Idle)"
| "log_step Idle (ToolStarted i _) = Some (Running i)"
| "log_step (Running i) (ToolProgress j _) = (if i = j then Some (Running i) else None)"
| "log_step (Running i) (ToolCompleted j r) =
     (if i = j \<and> tr_tool_call_id r = i then Some (Finished r) else None)"
| "log_step (Finished r) (MessageAdded m) = (if m = ToolResult r then Some Idle else None)"
| "log_step _ _ = None"

fun added_message :: "agent_event \<Rightarrow> message option" where
  "added_message (MessageAdded m) = Some m"
| "added_message _ = None"

definition added :: "agent_event list \<Rightarrow> message list" where
  "added evs = List.map_filter added_message evs"

text \<open>From \<open>s\<close> to \<open>t\<close> the turn emitted events that take the protocol from \<open>p\<close> to \<open>q\<close>, and appended to
  the history exactly the messages those events announced.\<close>

definition logs :: "log_state \<Rightarrow> log_state \<Rightarrow> 'w turn_state \<Rightarrow> 'w turn_state \<Rightarrow> bool" where
  "logs p q s t \<longleftrightarrow> keeps [] s t \<and> (\<exists>evs. ts_events t = ts_events s @ evs \<and>
     ts_messages t = ts_messages s @ added evs \<and> fold_opt log_step p evs = Some q)"

lemma added_append [simp]: "added (xs @ ys) = added xs @ added ys"
  by (simp add: added_def map_filter_def)

lemma added_simps [simp]:
  "added [] = []"
  "added (e # es) = (case added_message e of None \<Rightarrow> added es | Some m \<Rightarrow> m # added es)"
  by (simp_all add: added_def map_filter_simps split: option.split)

lemma fold_opt_append: "fold_opt f s (xs @ ys) = Option.bind (fold_opt f s xs) (\<lambda>t. fold_opt f t ys)"
  by (induction xs arbitrary: s) (auto split: option.split)

lemma logs_same: "same_log s t \<Longrightarrow> logs p p s t"
  by (auto simp: logs_def same_log_def intro!: exI [of _ "[]"])

lemma logs_trans:
  assumes "logs p q s t" and "logs q r t u"
  shows "logs p r s u"
proof -
  obtain xs where "ts_events t = ts_events s @ xs" "ts_messages t = ts_messages s @ added xs"
    "fold_opt log_step p xs = Some q" using assms(1) unfolding logs_def by blast
  moreover obtain ys where "ts_events u = ts_events t @ ys" "ts_messages u = ts_messages t @ added ys"
    "fold_opt log_step q ys = Some r" using assms(2) unfolding logs_def by blast
  moreover have "keeps [] s u" using assms keeps_trans [of "[]" s t "[]" u] by (simp add: logs_def)
  ultimately show ?thesis
    unfolding logs_def by (intro conjI exI [of _ "xs @ ys"]) (simp_all add: fold_opt_append)
qed

lemma logs_emit: "log_step p e = Some q \<Longrightarrow> added_message e = None \<Longrightarrow> logs p q s (emit e s)"
  by (auto simp: logs_def emit_def intro!: exI [of _ "[e]"] keeps_same)

lemma logs_push: "log_step p (MessageAdded m) = Some q \<Longrightarrow> logs p q s (push_message m s)"
  by (auto simp: logs_def emit_def push_message_def intro!: exI [of _ "[MessageAdded m]"] keeps_same)

lemma logs_world: "logs p q s t \<Longrightarrow> logs p q s (t\<lparr>ts_world := w\<rparr>)"
  using keeps_trans [of "[]" s t "[]" "t\<lparr>ts_world := w\<rparr>"] keeps_same [of "t\<lparr>ts_world := w\<rparr>" t]
  by (simp add: logs_def)

lemma messages_emit [simp]: "ts_messages (emit e s) = ts_messages s"
  by (simp add: emit_def)

lemma messages_push [simp]: "ts_messages (push_message m s) = ts_messages s @ [m]"
  by (simp add: push_message_def emit_def)

subsection \<open>Responses\<close>

text \<open>The outcome of streaming: a completed message is appended, a failure appends nothing.\<close>

definition response_added ::
  "turn_failure + assistant_message \<Rightarrow> 'w turn_state \<Rightarrow> 'w turn_state \<Rightarrow> bool" where
  "response_added r s t \<longleftrightarrow> logs Idle Idle s t \<and>
     ts_messages t = ts_messages s @ (case r of Inl _ \<Rightarrow> [] | Inr a \<Rightarrow> [Assistant a])"

lemma response_after:
  assumes "response_added r t u" and "logs Idle Idle s t" and "ts_messages t = ts_messages s"
  shows "response_added r s u"
  using assms logs_trans unfolding response_added_def by (metis)

lemma response_after_same:
  assumes "same_log s t" and "response_added r t u"
  shows "response_added r s u"
  using response_after [OF assms(2) logs_same [OF assms(1)]] assms(1) by (simp add: same_log_def)

lemma same_log_world: "same_log s t \<Longrightarrow> same_log s (t\<lparr>ts_world := w\<rparr>)"
  by (rule same_log_trans) (auto simp: same_log_def intro: keeps_same)

lemma fail_with_added: "fail_with e s = (r, t) \<Longrightarrow> response_added r s t"
  by (auto simp: fail_with_def Let_def response_added_def intro!: logs_emit)

lemma same_log_added: "same_log s t \<Longrightarrow> response_added (Inl e) s t"
  by (auto simp: response_added_def intro: logs_same) (simp add: same_log_def)

lemma stream_events_added: "stream_events env es s = (r, t) \<Longrightarrow> response_added r s t"
proof (induction env es s rule: stream_events.induct)
  case (1 env s)
  obtain c u where u: "is_cancelled s = (c, u)" by (cases "is_cancelled s")
  then have "same_log s u" by (rule is_cancelled_frame)
  with 1 u show ?case
    by (auto simp: Let_def split: if_splits
        intro: same_log_added response_after_same fail_with_added)
next
  case (2 env d es s)
  then have "response_added r (emit (EvDelta (DText d)) s) t" by simp
  then show ?case by (rule response_after) (auto intro: logs_emit)
next
  case (3 env d es s)
  then have "response_added r (emit (EvDelta (DThinking d)) s) t" by simp
  then show ?case by (rule response_after) (auto intro: logs_emit)
next
  case (4 env i d es s)
  then have "response_added r (emit (EvDelta (DToolCall i d)) s) t" by simp
  then show ?case by (rule response_after) (auto intro: logs_emit)
next
  case (5 env m es s)
  then show ?case by (auto simp: hook_transform_def response_added_def intro: logs_push)
next
  case (6 env e es s)
  then show ?case by (auto split: if_splits intro: same_log_added fail_with_added)
qed

lemma stream_assistant_added:
  assumes "stream_assistant env config s = (r, t)"
  shows "response_added r s t"
proof -
  obtain c1 s1 where s1: "is_cancelled s = (c1, s1)" by (cases "is_cancelled s")
  obtain c2 s2 where s2: "is_cancelled s1 = (c2, s2)" by (cases "is_cancelled s1")
  have same1: "same_log s s1" and same2: "same_log s s2"
    using is_cancelled_frame(1) [OF s1] is_cancelled_frame(1) [OF s2] same_log_trans by blast+
  note from1 = response_after_same [OF same1]
  note from2 = response_after_same [OF same_log_world [OF same2]]
  note fail2 = same_log_added [OF same_log_world [OF same2]]
  show ?thesis
    using assms s1 s2 same1 same2
    by (auto simp: stream_assistant_def Let_def
        intro: same_log_added fail2 from1 [OF fail_with_added] from2 [OF fail_with_added]
          from2 [OF stream_events_added]
        split: if_splits sum.splits prod.splits)
qed

subsection \<open>Tool calls\<close>

text \<open>From just after the start event to the completed result, nothing is added to the history.\<close>

definition call_done :: "tool_call \<Rightarrow> tool_result_message \<Rightarrow> 'w turn_state \<Rightarrow> 'w turn_state \<Rightarrow> bool" where
  "call_done call m s t \<longleftrightarrow> tr_tool_call_id m = tc_id call \<and> ts_messages t = ts_messages s \<and>
     logs (Running (tc_id call)) (Finished m) s t"

lemma call_done_after:
  assumes "call_done call m t u" and "logs (Running (tc_id call)) (Running (tc_id call)) s t"
    and "ts_messages t = ts_messages s"
  shows "call_done call m s u"
  using assms logs_trans unfolding call_done_def by metis

lemma completed_error_done: "completed_error call reason s = (m, t) \<Longrightarrow> call_done call m s t"
  by (auto simp: completed_error_def Let_def call_done_def intro!: logs_emit)

definition call_answered :: "tool_call \<Rightarrow> tool_result_message \<Rightarrow> 'w turn_state \<Rightarrow> 'w turn_state \<Rightarrow> bool" where
  "call_answered call m s t \<longleftrightarrow> tr_tool_call_id m = tc_id call \<and> ts_messages t = ts_messages s \<and>
     logs Idle (Finished m) s t"

lemma call_answered_start:
  "call_done call m (emit (ToolStarted (tc_id call) n) s) t \<Longrightarrow> call_answered call m s t"
proof -
  let ?s = "emit (ToolStarted (tc_id call) n) s"
  have "logs Idle (Running (tc_id call)) s ?s" by (rule logs_emit) simp_all
  from logs_trans [OF this] show "call_done call m ?s t \<Longrightarrow> call_answered call m s t"
    by (auto simp: call_done_def call_answered_def)
qed

lemma fail_truncated_answered: "fail_truncated_call call s = (m, t) \<Longrightarrow> call_answered call m s t"
  unfolding fail_truncated_call_def by (intro call_answered_start completed_error_done)

lemma fail_cancelled_answered: "fail_cancelled_call call s = (m, t) \<Longrightarrow> call_answered call m s t"
  unfolding fail_cancelled_call_def by (intro call_answered_start completed_error_done)

lemma consume_items_logs:
  "consume_items i items r0 s = (r, t) \<Longrightarrow>
     logs (Running i) (Running i) s t \<and> ts_messages t = ts_messages s"
proof (induction i items r0 s rule: consume_items.induct)
  case (1 i r0 s)
  then show ?case by (auto intro: logs_same)
next
  case (2 i m items r0 s)
  then have "logs (Running i) (Running i) (emit (ToolProgress i m) s) t \<and> ts_messages t = ts_messages s"
    by simp
  moreover have "logs (Running i) (Running i) s (emit (ToolProgress i m) s)" by (rule logs_emit) simp_all
  ultimately show ?case using logs_trans by blast
next
  case (3 i x items r0 s)
  then show ?case by simp
qed

lemma bind_prepared_same: "bind_prepared env tool args s = (r, t) \<Longrightarrow> same_log s t"
  by (auto simp: bind_prepared_def Let_def intro: same_log_world split: option.splits prod.splits)

lemma dispatch_answered:
  assumes "dispatch_tool_call env call s = (m, t)"
  shows "call_answered call m s t"
proof (rule call_answered_start)
  let ?i = "tc_id call" and ?s = "emit (ToolStarted (tc_id call) (tc_name call)) s"
  show "call_done call m ?s t"
  proof (cases "registry_get (te_tools env) (tc_name call)")
    case None
    with assms show ?thesis by (auto simp: dispatch_tool_call_def Let_def intro: completed_error_done)
  next
    case (Some tool)
    obtain g args where g: "hook_gate (te_gate env) HToolCall (tc_arguments call) = (g, args)"
      by (cases "hook_gate (te_gate env) HToolCall (tc_arguments call)")
    show ?thesis
    proof (cases g)
      case (GBlock reason)
      with assms Some g show ?thesis
        by (auto simp: dispatch_tool_call_def Let_def intro: completed_error_done)
    next
      case GPass
      obtain b s1 where b: "bind_prepared env tool args ?s = (b, s1)"
        by (cases "bind_prepared env tool args ?s")
      note same = bind_prepared_same [OF b]
      have from1: "call_done call m ?s t" if "call_done call m s1 t"
        by (rule call_done_after [OF that logs_same [OF same]]) (use same in \<open>simp add: same_log_def\<close>)
      show ?thesis
      proof (cases b)
        case (Inl message)
        with assms Some g GPass b have "completed_error call message s1 = (m, t)"
          by (simp add: dispatch_tool_call_def Let_def)
        then show ?thesis by (intro from1 completed_error_done)
      next
        case (Inr prepared)
        obtain run w where run: "te_execute env (ts_world s1) tool args prepared = (run, w)"
          by (cases "te_execute env (ts_world s1) tool args prepared")
        obtain streamed s2 where s2: "consume_items ?i (run_items run) None (s1\<lparr>ts_world := w\<rparr>) = (streamed, s2)"
          by (cases "consume_items ?i (run_items run) None (s1\<lparr>ts_world := w\<rparr>)")
        have l: "logs (Running ?i) (Running ?i) ?s s2"
          using logs_trans [OF logs_same [OF same_log_world [OF same]]] consume_items_logs [OF s2] by blast
        have m: "ts_messages s2 = ts_messages ?s"
          using consume_items_logs [OF s2] same by (simp add: same_log_def)
        have t: "tr_tool_call_id m = ?i" "t = emit (ToolCompleted ?i m) s2"
          using assms Some g GPass b Inr run s2 by (auto simp: dispatch_tool_call_def Let_def)
        then have "logs (Running ?i) (Finished m) s2 t" by (auto intro: logs_emit)
        then show ?thesis using logs_trans [OF l] m t by (simp add: call_done_def)
      qed
    qed
  qed
qed

text \<open>A pushed result closes the block.\<close>

definition adds :: "message list \<Rightarrow> 'w turn_state \<Rightarrow> 'w turn_state \<Rightarrow> bool" where
  "adds ms s t \<longleftrightarrow> logs Idle Idle s t \<and> ts_messages t = ts_messages s @ ms"

lemma adds_trans: "adds xs s t \<Longrightarrow> adds ys t u \<Longrightarrow> adds (xs @ ys) s u"
  using logs_trans [of Idle Idle s t Idle u] by (simp add: adds_def)

lemma adds_same: "same_log s t \<Longrightarrow> adds [] s t"
  by (auto simp: adds_def intro: logs_same) (simp add: same_log_def)

lemma adds_same_left: "same_log s t \<Longrightarrow> adds ms t u \<Longrightarrow> adds ms s u"
  using adds_trans [OF adds_same] by fastforce

lemma adds_same_right: "adds ms s t \<Longrightarrow> same_log t u \<Longrightarrow> adds ms s u"
  using adds_trans [OF _ adds_same] by fastforce

definition answers :: "tool_call list \<Rightarrow> message list \<Rightarrow> bool" where
  "answers calls ms \<longleftrightarrow> list_all2 (\<lambda>call m. \<exists>r. m = ToolResult r \<and> tr_tool_call_id r = tc_id call) calls ms"

lemma push_result_adds:
  assumes "\<And>m t. f s = (m, t) \<Longrightarrow> call_answered call m s t"
  shows "\<exists>ms. adds ms s (push_result f s) \<and> answers [call] ms"
proof -
  obtain m t where f: "f s = (m, t)" by (cases "f s")
  from assms [OF this] have "tr_tool_call_id m = tc_id call" "ts_messages t = ts_messages s"
    and "logs Idle (Finished m) s t" by (auto simp: call_answered_def)
  moreover have "logs (Finished m) Idle t (push_message (ToolResult m) t)" by (rule logs_push) simp
  ultimately have "adds [ToolResult m] s (push_result f s)" "answers [call] [ToolResult m]"
    using logs_trans [of Idle "Finished m" s t Idle] by (simp_all add: push_result_def f adds_def answers_def)
  then show ?thesis by blast
qed

lemma push_results_adds:
  assumes "\<And>call s m t. f call s = (m, t) \<Longrightarrow> call_answered call m s t"
  shows "\<exists>ms. adds ms s (fold (\<lambda>call. push_result (f call)) calls s) \<and> answers calls ms"
proof (induction calls arbitrary: s)
  case Nil
  then show ?case by (auto simp: answers_def intro: adds_same)
next
  case (Cons call calls)
  obtain xs where xs: "adds xs s (push_result (f call) s)" "answers [call] xs"
    using push_result_adds [of "f call" s call] assms by blast
  obtain ys where ys: "adds ys (push_result (f call) s) (fold (\<lambda>call. push_result (f call)) calls (push_result (f call) s))"
    "answers calls ys" using Cons.IH by blast
  have "answers (call # calls) (xs @ ys)"
    using xs(2) ys(2) unfolding answers_def by (auto simp: list_all2_Cons1)
  then show ?case using adds_trans [OF xs(1) ys(1)] by auto
qed

lemma dispatch_calls_adds:
  "dispatch_calls env calls s = (aborted, t) \<Longrightarrow> \<exists>ms. adds ms s t \<and> answers calls ms"
proof (induction calls arbitrary: s)
  case Nil
  then show ?case by (auto simp: answers_def intro: adds_same)
next
  case (Cons call calls)
  obtain c s1 where c: "is_cancelled s = (c, s1)" by (cases "is_cancelled s")
  note same = is_cancelled_frame(1) [OF c]
  show ?case
  proof (cases c)
    case True
    then have "t = fold (\<lambda>call. push_result (fail_cancelled_call call)) (call # calls) s1"
      using Cons.prems c by simp
    then show ?thesis
      using push_results_adds [of fail_cancelled_call, OF fail_cancelled_answered] adds_same_left [OF same]
      by metis
  next
    case False
    obtain xs where xs: "adds xs s1 (push_result (dispatch_tool_call env call) s1)" "answers [call] xs"
      using push_result_adds [of "dispatch_tool_call env call" s1 call] dispatch_answered by blast
    obtain ys where ys: "adds ys (push_result (dispatch_tool_call env call) s1) t" "answers calls ys"
      using Cons.IH [of "push_result (dispatch_tool_call env call) s1"] Cons.prems c False by auto
    have "answers (call # calls) (xs @ ys)"
      using xs(2) ys(2) unfolding answers_def by (auto simp: list_all2_Cons1)
    then show ?thesis using adds_same_left [OF same adds_trans [OF xs(1) ys(1)]] by auto
  qed
qed

subsection \<open>Histories in which every tool call is answered\<close>

text \<open>Each assistant message is followed at once by one result per tool call, in the order of the
  calls; there are no other tool results.\<close>

function answered :: "message list \<Rightarrow> bool" where
  "answered [] \<longleftrightarrow> True"
| "answered (User u # ms) \<longleftrightarrow> answered ms"
| "answered (Custom c # ms) \<longleftrightarrow> answered ms"
| "answered (ToolResult r # ms) \<longleftrightarrow> False"
| "answered (Assistant a # ms) \<longleftrightarrow>
     (let n = length (tool_calls a) in
      n \<le> length ms \<and> answers (tool_calls a) (take n ms) \<and> answered (drop n ms))"
  by pat_completeness auto
termination by (relation "measure length") auto

fun is_input :: "message \<Rightarrow> bool" where
  "is_input (User _) = True"
| "is_input (Custom _) = True"
| "is_input _ = False"

lemma answered_append: "answered xs \<Longrightarrow> answered ys \<Longrightarrow> answered (xs @ ys)"
  by (induction xs rule: answered.induct) (auto simp: Let_def)

lemma answered_inputs: "list_all is_input ms \<Longrightarrow> answered ms"
proof (induction ms)
  case (Cons m ms)
  then show ?case by (cases m) auto
qed simp

lemma answers_length: "answers calls ms \<Longrightarrow> length ms = length calls"
  by (simp add: answers_def list_all2_lengthD)

lemma answered_assistant: "answers (tool_calls a) ms \<Longrightarrow> answered (Assistant a # ms)"
  by (simp add: answers_length)

lemma answers_no_inputs: "answers calls ms \<Longrightarrow> filter is_input ms = []"
  unfolding answers_def by (induction rule: list_all2_induct) auto

subsection \<open>One iteration\<close>

definition advances :: "message list \<Rightarrow> message list \<Rightarrow> 'w turn_state \<Rightarrow> 'w turn_state \<Rightarrow> bool" where
  "advances ms taken s t \<longleftrightarrow>
     (\<exists>evs. ts_events t = ts_events s @ evs \<and> added evs = ms \<and> fold_opt log_step Idle evs = Some Idle) \<and>
     ts_messages t = ts_messages s @ ms \<and> keeps taken s t"

lemma advances_adds: "adds ms s t \<Longrightarrow> advances ms [] s t"
  by (auto simp: adds_def logs_def advances_def)

lemma advances_drained: "drained taken s t \<Longrightarrow> advances [] taken s t"
  by (auto simp: drained_def advances_def intro!: exI [of _ "[]"])

lemma advances_trans:
  assumes "advances xs a s t" and "advances ys b t u"
  shows "advances (xs @ ys) (a @ b) s u"
proof -
  obtain e1 where "ts_events t = ts_events s @ e1" "added e1 = xs" "fold_opt log_step Idle e1 = Some Idle"
    using assms(1) by (auto simp: advances_def)
  moreover obtain e2 where "ts_events u = ts_events t @ e2" "added e2 = ys" "fold_opt log_step Idle e2 = Some Idle"
    using assms(2) by (auto simp: advances_def)
  ultimately show ?thesis
    using assms keeps_trans [of a s t b u] unfolding advances_def
    by (intro conjI exI [of _ "e1 @ e2"]) (simp_all add: fold_opt_append)
qed

lemma advances_adds_trans: "adds xs s t \<Longrightarrow> advances ys b t u \<Longrightarrow> advances (xs @ ys) b s u"
  using advances_trans [OF advances_adds] by fastforce

lemma push_inputs_adds:
  "list_all is_input pending \<Longrightarrow>
     adds pending s (fold (\<lambda>msg. push_message (hook_transform HUserPrompt msg)) pending s)"
proof (induction pending arbitrary: s)
  case Nil
  then show ?case by (simp add: adds_same)
next
  case (Cons m ms)
  have "\<not> is_tool_result m" using Cons.prems by (cases m) auto
  then have "adds [m] s (push_message m s)" by (auto simp: adds_def intro!: logs_push)
  from adds_trans [OF this Cons.IH] Cons.prems show ?case by (simp add: hook_transform_def)
qed

lemma after_calls_advances:
  assumes "after_calls env mode steered h s = (r, t)"
  shows "\<exists>h' p. r = Inr (h', p, steered \<or> p \<noteq> []) \<and> advances [] p s t \<and> h' = h"
proof -
  obtain p u where d: "drain_steer mode s = (p, u)" by (cases "drain_steer mode s")
  have "drained p s u" using drain_frame [of mode s p u] d by blast
  moreover have "fst (hook_gate (te_gate env) HStopGate VNull) = GPass"
    by (simp add: hook_gate_def split: option.split)
  ultimately show ?thesis
    using assms d by (auto simp: after_calls_def Let_def intro: advances_drained)
qed

text \<open>What an iteration appends: the pending input, then nothing, or a response with its answers. It
  asks for another iteration exactly when the response called tools.\<close>

lemma inner_step_advances:
  assumes step: "inner_step env config mode pending steered s = (r, t)" and inputs: "list_all is_input pending"
  shows "\<exists>new. answered new \<and> filter is_input new = [] \<and>
    (case r of
       Inl _ \<Rightarrow> advances (pending @ new) [] s t
     | Inr (h, p, st) \<Rightarrow> advances (pending @ new) p s t \<and> st = (steered \<or> p \<noteq> []) \<and>
         (\<exists>a results. new = Assistant a # results \<and> h = (tool_calls a \<noteq> []) \<and>
            answers (tool_calls a) results))"
proof -
  let ?s0 = "fold (\<lambda>msg. push_message (hook_transform HUserPrompt msg)) pending s"
  obtain c s1 where c: "is_cancelled ?s0 = (c, s1)" by (cases "is_cancelled ?s0")
  have a1: "adds pending s s1"
    using adds_same_right [OF push_inputs_adds [OF inputs] is_cancelled_frame(1) [OF c]] .
  obtain q s2 where q: "stream_assistant env config s1 = (q, s2)" by (cases "stream_assistant env config s1")
  note ra = stream_assistant_added [OF q]
  show ?thesis
  proof (cases "c \<or> (\<exists>e. q = Inl e)")
    case True
    then have "t = (if c then s1 else s2)" "\<exists>e. r = Inl e"
      using step c q True by (auto simp: inner_step_def Let_def split: turn_failure.splits if_splits)
    moreover have "adds [] s1 s2" if "q = Inl e" for e using ra that by (simp add: response_added_def adds_def)
    ultimately show ?thesis
      using True a1 adds_trans [OF a1, of "[]" s2] by (auto intro!: exI [of _ "[]"] advances_adds)
  next
    case False
    then obtain a where a: "q = Inr a" by (cases q) auto
    let ?calls = "tool_calls a"
    have a2: "adds (pending @ [Assistant a]) s s2"
      using adds_trans [OF a1, of "[Assistant a]" s2] ra a by (simp add: response_added_def adds_def)
    have result: ?thesis
      if "adds results s2 s3" "answers ?calls results"
        "if r = Inl Broke then t = s3 else after_calls env mode steered (?calls \<noteq> []) s3 = (r, t)"
      for results s3
    proof (intro exI [of _ "Assistant a # results"] conjI)
      show "answered (Assistant a # results)" using that(2) by (rule answered_assistant)
      show "filter is_input (Assistant a # results) = []" using answers_no_inputs [OF that(2)] by simp
      have a3: "adds (pending @ Assistant a # results) s s3" using adds_trans [OF a2 that(1)] by simp
      show "case r of Inl _ \<Rightarrow> advances (pending @ Assistant a # results) [] s t
         | Inr (h, p, st) \<Rightarrow> advances (pending @ Assistant a # results) p s t \<and> st = (steered \<or> p \<noteq> []) \<and>
             (\<exists>a' results'. Assistant a # results = Assistant a' # results' \<and> h = (tool_calls a' \<noteq> []) \<and>
                answers (tool_calls a') results')"
      proof (cases "r = Inl Broke")
        case True
        then show ?thesis using that(3) advances_adds [OF a3] by simp
      next
        case False
        then have "after_calls env mode steered (?calls \<noteq> []) s3 = (r, t)" using that(3) by simp
        from after_calls_advances [OF this] obtain p
          where "r = Inr (?calls \<noteq> [], p, steered \<or> p \<noteq> [])" "advances [] p s3 t" by blast
        then show ?thesis using advances_adds_trans [OF a3] that(2) by fastforce
      qed
    qed
    consider (none) "?calls = []" | (trunc) "?calls \<noteq> []" "am_stop_reason a = Length"
      | (run) "?calls \<noteq> []" "am_stop_reason a \<noteq> Length" by blast
    then show ?thesis
    proof cases
      case none
      then have "after_calls env mode steered False s2 = (r, t)"
        using step c q False a by (simp add: inner_step_def Let_def)
      moreover from this have "r \<noteq> Inl Broke" using after_calls_advances by blast
      ultimately show ?thesis using none by (intro result [OF adds_same]) (simp_all add: answers_def)
    next
      case trunc
      let ?s3 = "fold (\<lambda>call. push_result (fail_truncated_call call)) ?calls s2"
      obtain results where "adds results s2 ?s3" "answers ?calls results"
        using push_results_adds [of fail_truncated_call, OF fail_truncated_answered] by blast
      moreover have "after_calls env mode steered True ?s3 = (r, t)"
        using step c q False a trunc by (simp add: inner_step_def Let_def)
      moreover from this have "r \<noteq> Inl Broke" using after_calls_advances by blast
      ultimately show ?thesis using trunc by (intro result [of results ?s3]) simp_all
    next
      case run
      obtain aborted s3 where d: "dispatch_calls env ?calls s2 = (aborted, s3)"
        by (cases "dispatch_calls env ?calls s2")
      obtain results where "adds results s2 s3" "answers ?calls results"
        using dispatch_calls_adds [OF d] by blast
      moreover have "if aborted then r = Inl Broke \<and> t = s3 else after_calls env mode steered True s3 = (r, t)"
        using step c q False a run d by (cases aborted) (simp_all add: inner_step_def Let_def)
      ultimately show ?thesis
        using run after_calls_advances [of env mode steered True s3 r t]
        by (intro result [of results s3]) (auto split: if_splits)
    qed
  qed
qed

subsection \<open>The loops\<close>

text \<open>What a loop does with the input it was handed: \<open>ms\<close> is appended; every input message in it was
  pending or waiting, and all that was pending and waiting is in it or still waits, unless another
  task cleared the queues.\<close>

definition loop_ok :: "message list \<Rightarrow> message list \<Rightarrow> 'w turn_state \<Rightarrow> 'w turn_state \<Rightarrow> bool" where
  "loop_ok pending ms s t \<longleftrightarrow>
     (\<exists>evs. ts_events t = ts_events s @ evs \<and> added evs = ms \<and> fold_opt log_step Idle evs = Some Idle) \<and>
     ts_messages t = ts_messages s @ ms \<and> answered ms \<and>
     mset (filter is_input ms) + waiting t \<subseteq># mset pending + waiting s \<and>
     (clear_free s \<longrightarrow> clear_free t \<and> mset (filter is_input ms) + waiting t = mset pending + waiting s)"

definition input_only :: "message list \<Rightarrow> 'w turn_state \<Rightarrow> bool" where
  "input_only pending s \<longleftrightarrow> (\<forall>m\<in>#mset pending + waiting s. is_input m)"

lemma input_only_keeps: "input_only pending s \<Longrightarrow> keeps p s t \<Longrightarrow> input_only p t"
proof -
  assume inp: "input_only pending s" and "keeps p s t"
  then have "mset p + waiting t \<subseteq># waiting s" by (simp add: keeps_def)
  from mset_subset_eqD [OF this] inp show "input_only p t" unfolding input_only_def by simp
qed

lemma input_only_pending: "input_only pending s \<Longrightarrow> list_all is_input pending"
  by (auto simp: input_only_def list_all_iff)

lemma filter_inputs: "list_all is_input ms \<Longrightarrow> filter is_input ms = ms"
  by (induction ms) auto

lemma loop_ok_advances:
  assumes "advances (pending @ new) p s t" and "list_all is_input pending" and "answered new"
    and "filter is_input new = []" and "loop_ok p ms t u"
  shows "loop_ok pending (pending @ new @ ms) s u"
proof -
  obtain e1 where e1: "ts_events t = ts_events s @ e1" "added e1 = pending @ new" "fold_opt log_step Idle e1 = Some Idle"
    using assms(1) by (auto simp: advances_def)
  obtain e2 where e2: "ts_events u = ts_events t @ e2" "added e2 = ms" "fold_opt log_step Idle e2 = Some Idle"
    using assms(5) by (auto simp: loop_ok_def)
  have sub: "mset (filter is_input ms) + waiting u \<subseteq># waiting s"
    using assms(1,5) unfolding advances_def keeps_def loop_ok_def by (meson subset_mset.order_trans)
  have "answered (pending @ new @ ms)"
    using answered_append [OF answered_inputs [OF assms(2)] answered_append [OF assms(3)]] assms(5)
    by (simp add: loop_ok_def)
  moreover have "\<exists>evs. ts_events u = ts_events s @ evs \<and> added evs = pending @ new @ ms \<and>
      fold_opt log_step Idle evs = Some Idle"
    using e1 e2 by (intro exI [of _ "e1 @ e2"]) (simp add: fold_opt_append)
  ultimately show ?thesis
    using assms sub filter_inputs [OF assms(2)]
    by (simp add: loop_ok_def advances_def keeps_def add.assoc)
qed

lemma loop_ok_exit:
  assumes "advances (pending @ new) [] s t" and "list_all is_input pending" and "answered new"
    and "filter is_input new = []"
  shows "loop_ok pending (pending @ new) s t"
  using loop_ok_advances [OF assms, of "[]" t] by (simp add: loop_ok_def)

definition natural_stop :: "message list \<Rightarrow> bool" where
  "natural_stop ms \<longleftrightarrow> (\<exists>pre a. ms = pre @ [Assistant a] \<and> tool_calls a = [])"

lemma natural_stop_append: "natural_stop ms \<Longrightarrow> natural_stop (xs @ ms)"
  unfolding natural_stop_def by (metis append.assoc)

declare inner_loop.simps [simp del] outer_loop.simps [simp del]

lemma inner_loop_ok:
  "inner_loop fuel env config mode h pending steered s = Some (r, t) \<Longrightarrow> input_only pending s \<Longrightarrow>
     \<exists>ms. loop_ok pending ms s t \<and> input_only [] t \<and>
       ((h \<or> pending \<noteq> []) \<and> (\<exists>st. r = Inr st) \<longrightarrow> natural_stop ms)"
proof (induction fuel arbitrary: h pending steered s)
  case 0
  then have "\<not> h" "pending = []" "t = s" by (auto simp: inner_loop.simps split: if_splits)
  then show ?case using 0(2) by (intro exI [of _ "[]"]) (simp add: loop_ok_def)
next
  case (Suc fuel)
  show ?case
  proof (cases "h \<or> pending \<noteq> []")
    case False
    then have "t = s" using Suc.prems(1) by (simp add: inner_loop.simps)
    then show ?thesis using False Suc.prems(2) by (intro exI [of _ "[]"]) (simp add: loop_ok_def)
  next
    case True
    obtain q u where q: "inner_step env config mode pending steered s = (q, u)"
      by (cases "inner_step env config mode pending steered s")
    note inputs = input_only_pending [OF Suc.prems(2)]
    from inner_step_advances [OF q inputs] obtain new where new: "answered new" "filter is_input new = []"
      and adv: "case q of Inl _ \<Rightarrow> advances (pending @ new) [] s u
       | Inr (h, p, st) \<Rightarrow> advances (pending @ new) p s u \<and> st = (steered \<or> p \<noteq> []) \<and>
         (\<exists>a results. new = Assistant a # results \<and> h = (tool_calls a \<noteq> []) \<and> answers (tool_calls a) results)"
      by blast
    show ?thesis
    proof (cases q)
      case (Inl e)
      then have "t = u" "r = Inl e" using Suc.prems(1) q True by (simp_all add: inner_loop.simps)
      moreover have "advances (pending @ new) [] s u" using adv Inl by simp
      ultimately show ?thesis
        using loop_ok_exit [OF _ inputs new] input_only_keeps [OF Suc.prems(2), of "[]" u]
        by (auto simp: advances_def)
    next
      case (Inr x)
      obtain h' p st where x: "x = (h', p, st)" by (cases x)
      then have rec: "inner_loop fuel env config mode h' p st u = Some (r, t)"
        using Suc.prems(1) q True Inr by (simp add: inner_loop.simps)
      have adv': "advances (pending @ new) p s u" and shape: "\<exists>a results. new = Assistant a # results \<and>
          h' = (tool_calls a \<noteq> []) \<and> answers (tool_calls a) results"
        using adv Inr x by simp_all
      have "keeps p s u" using adv' by (simp add: advances_def)
      from Suc.IH [OF rec input_only_keeps [OF Suc.prems(2) this]]
      obtain ms where ms: "loop_ok p ms u t" "input_only [] t"
        "(h' \<or> p \<noteq> []) \<and> (\<exists>st. r = Inr st) \<longrightarrow> natural_stop ms" by blast
      have "natural_stop (pending @ new @ ms)" if "\<exists>st. r = Inr st"
      proof (cases "h' \<or> p \<noteq> []")
        case True
        then have "natural_stop ms" using ms(3) that by simp
        then show ?thesis using natural_stop_append [of ms "pending @ new"] by simp
      next
        case False
        then have "t = u" using rec by (cases fuel) (simp_all add: inner_loop.simps)
        then have "ms = []" using ms(1) by (simp add: loop_ok_def)
        moreover obtain a where "new = [Assistant a]" "tool_calls a = []"
          using shape False by (auto simp: answers_def)
        ultimately show ?thesis by (auto simp: natural_stop_def)
      qed
      then show ?thesis using loop_ok_advances [OF adv' inputs new ms(1)] ms(2) by blast
    qed
  qed
qed

lemma loop_ok_trans_drained:
  assumes "loop_ok pending xs s t" and "drained p t u" and "loop_ok p ys u v"
  shows "loop_ok pending (xs @ ys) s v"
proof -
  obtain e1 where e1: "ts_events t = ts_events s @ e1" "added e1 = xs" "fold_opt log_step Idle e1 = Some Idle"
    using assms(1) by (auto simp: loop_ok_def)
  obtain e2 where e2: "ts_events v = ts_events u @ e2" "added e2 = ys" "fold_opt log_step Idle e2 = Some Idle"
    using assms(3) by (auto simp: loop_ok_def)
  have "mset (filter is_input ys) + waiting v \<subseteq># waiting t"
    using assms(2,3) unfolding drained_def keeps_def loop_ok_def by (meson subset_mset.order_trans)
  then have "mset (filter is_input xs) + (mset (filter is_input ys) + waiting v) \<subseteq># mset pending + waiting s"
    using assms(1) unfolding loop_ok_def
    by (meson subset_mset.add_left_mono subset_mset.order_trans)
  moreover have "\<exists>evs. ts_events v = ts_events s @ evs \<and> added evs = xs @ ys \<and>
      fold_opt log_step Idle evs = Some Idle"
    using e1 e2 assms(2) by (intro exI [of _ "e1 @ e2"]) (simp add: fold_opt_append drained_def)
  ultimately show ?thesis
    using assms by (simp add: loop_ok_def drained_def keeps_def answered_append add.assoc)
qed

lemma outer_loop_ok:
  "outer_loop fuel env config mode pending steered s = Some (r, t) \<Longrightarrow> input_only pending s \<Longrightarrow>
     \<exists>ms. loop_ok pending ms s t \<and> ((\<exists>st. r = Inr st) \<longrightarrow> natural_stop ms)"
proof (induction fuel arbitrary: pending steered s)
  case 0
  then show ?case by (simp add: outer_loop.simps)
next
  case (Suc fuel)
  obtain q u where q: "inner_loop fuel env config mode True pending steered s = Some (q, u)"
    using Suc.prems(1) by (auto simp: outer_loop.simps split: option.splits)
  from inner_loop_ok [OF q Suc.prems(2)] obtain ms where ms: "loop_ok pending ms s u" "input_only [] u"
    "(\<exists>st. q = Inr st) \<longrightarrow> natural_stop ms" by blast
  show ?case
  proof (cases q)
    case (Inl e)
    then show ?thesis using Suc.prems(1) q ms by (auto simp: outer_loop.simps)
  next
    case (Inr st)
    obtain p v where d: "drain_followup mode u = (p, v)" by (cases "drain_followup mode u")
    then have dr: "drained p u v" using drain_frame by blast
    show ?thesis
    proof (cases "p = []")
      case True
      then have "t = v" using Suc.prems(1) q Inr d by (simp add: outer_loop.simps)
      moreover have "loop_ok pending (ms @ []) s v"
        by (rule loop_ok_trans_drained [OF ms(1) dr]) (simp add: True loop_ok_def)
      ultimately show ?thesis using ms(3) Inr by auto
    next
      case False
      then have rec: "outer_loop fuel env config mode p st v = Some (r, t)"
        using Suc.prems(1) q Inr d by (simp add: outer_loop.simps)
      have "input_only p v" using input_only_keeps [OF ms(2)] dr by (simp add: drained_def)
      from Suc.IH [OF rec this] obtain ys where ys: "loop_ok p ys v t" "(\<exists>st. r = Inr st) \<longrightarrow> natural_stop ys"
        by blast
      show ?thesis using loop_ok_trans_drained [OF ms(1) dr ys(1)] ys(2) natural_stop_append by blast
    qed
  qed
qed

subsection \<open>Fuel and termination\<close>

lemma inner_loop_mono:
  "inner_loop fuel env config mode h pending steered s = Some x \<Longrightarrow> fuel \<le> fuel' \<Longrightarrow>
     inner_loop fuel' env config mode h pending steered s = Some x"
proof (induction fuel arbitrary: fuel' h pending steered s)
  case 0
  then show ?case by (auto simp: inner_loop.simps split: if_splits)
next
  case (Suc fuel)
  then obtain f where f: "fuel' = Suc f" "fuel \<le> f" by (cases fuel') auto
  obtain q u where q: "inner_step env config mode pending steered s = (q, u)"
    by (cases "inner_step env config mode pending steered s")
  show ?case
    using Suc.prems(1) f q Suc.IH [OF _ f(2)]
    by (auto simp: inner_loop.simps [of "Suc _"] split: if_splits sum.splits)
qed

lemma outer_loop_mono:
  "outer_loop fuel env config mode pending steered s = Some x \<Longrightarrow> fuel \<le> fuel' \<Longrightarrow>
     outer_loop fuel' env config mode pending steered s = Some x"
proof (induction fuel arbitrary: fuel' pending steered s)
  case 0
  then show ?case by (simp add: outer_loop.simps)
next
  case (Suc fuel)
  then obtain f where f: "fuel' = Suc f" "fuel \<le> f" by (cases fuel') auto
  obtain q u where q: "inner_loop fuel env config mode True pending steered s = Some (q, u)"
    using Suc.prems(1) by (auto simp: outer_loop.simps split: option.splits)
  show ?case
    using Suc.prems(1) f q inner_loop_mono [OF q f(2)] Suc.IH [OF _ f(2)]
    by (auto simp: outer_loop.simps split: sum.splits prod.splits if_splits)
qed

text \<open>A rank of the outside world that every response with tool calls lowers and nothing raises: the
  provider will not call tools forever.\<close>

definition calls_run_out :: "'w turn_env \<Rightarrow> ('w \<Rightarrow> nat) \<Rightarrow> bool" where
  "calls_run_out env rank \<longleftrightarrow>
     (\<forall>w rq r w'. te_provider env w rq = (r, w') \<longrightarrow> rank w' \<le> rank w \<and>
        (\<forall>es m. r = Inr es \<and> SDone m \<in> set es \<and> tool_calls m \<noteq> [] \<longrightarrow> rank w' < rank w)) \<and>
     (\<forall>w path access. rank (snd (te_prepare_search env w path access)) \<le> rank w) \<and>
     (\<forall>w path access. rank (snd (te_prepare_file env w path access)) \<le> rank w) \<and>
     (\<forall>w tool args b. rank (snd (te_execute env w tool args b)) \<le> rank w)"

lemma run_out_provider:
  "calls_run_out env rank \<Longrightarrow> te_provider env w rq = (r, w') \<Longrightarrow> rank w' \<le> rank w"
  "calls_run_out env rank \<Longrightarrow> te_provider env w rq = (Inr es, w') \<Longrightarrow> SDone a \<in> set es \<Longrightarrow>
     tool_calls a \<noteq> [] \<Longrightarrow> rank w' < rank w"
  unfolding calls_run_out_def by blast+

lemma world_emit [simp]: "ts_world (emit e s) = ts_world s" "ts_world (push_message m s) = ts_world s"
  by (simp_all add: emit_def push_message_def)

lemma world_fail_with: "fail_with e s = (r, t) \<Longrightarrow> ts_world t = ts_world s"
  by (auto simp: fail_with_def Let_def)

lemma stream_events_world:
  "stream_events env es s = (r, t) \<Longrightarrow> ts_world t = ts_world s \<and> (\<forall>a. r = Inr a \<longrightarrow> SDone a \<in> set es)"
proof (induction env es s rule: stream_events.induct)
  case (1 env s)
  then show ?case
    by (auto simp: fail_with_def Let_def split: prod.splits if_splits dest: is_cancelled_frame(2))
qed (auto simp: hook_transform_def fail_with_def Let_def split: if_splits)

lemma stream_assistant_world:
  assumes "stream_assistant env config s = (r, t)"
  shows "ts_world t = ts_world s \<and> (\<forall>a. r \<noteq> Inr a) \<or>
    (\<exists>rq p. te_provider env (ts_world s) rq = (p, ts_world t) \<and>
       (\<forall>a. r = Inr a \<longrightarrow> (\<exists>es. p = Inr es \<and> SDone a \<in> set es)))"
proof -
  obtain c1 s1 where s1: "is_cancelled s = (c1, s1)" by (cases "is_cancelled s")
  obtain c2 s2 where s2: "is_cancelled s1 = (c2, s2)" by (cases "is_cancelled s1")
  let ?rq = "hook_transform HBeforeProviderRequest (build_request env config s)"
  obtain p w where p: "te_provider env (ts_world s) ?rq = (p, w)" by (cases "te_provider env (ts_world s) ?rq")
  have w: "ts_world s1 = ts_world s" "ts_world s2 = ts_world s"
    using is_cancelled_frame(2) [OF s1] is_cancelled_frame(2) [OF s2] by simp_all
  show ?thesis
  proof (cases "c1 \<or> c2 \<or> \<not> is_ok (request_validate env ?rq)")
    case True
    then have "ts_world t = ts_world s \<and> (\<forall>a. r \<noteq> Inr a)"
      using assms s1 s2 w
      by (cases "request_validate env ?rq")
        (auto simp: stream_assistant_def Let_def fail_with_def split: if_splits)
    then show ?thesis ..
  next
    case False
    then have "(case p of
         Inl e \<Rightarrow> if is_cancelled_error e then (Inl TFAborted, s2\<lparr>ts_world := w\<rparr>)
           else fail_with e (s2\<lparr>ts_world := w\<rparr>)
       | Inr es \<Rightarrow> stream_events env es (s2\<lparr>ts_world := w\<rparr>)) = (r, t)"
      using assms s1 s2 w p
      by (cases "request_validate env ?rq") (simp_all add: stream_assistant_def Let_def)
    then have "ts_world t = w \<and> (\<forall>a. r = Inr a \<longrightarrow> (\<exists>es. p = Inr es \<and> SDone a \<in> set es))"
      by (auto simp: fail_with_def Let_def split: sum.splits if_splits dest!: stream_events_world)
    then show ?thesis using p by (intro disjI2 exI [of _ ?rq] exI [of _ p]) auto
  qed
qed

lemma world_completed_error: "completed_error call reason s = (m, t) \<Longrightarrow> ts_world t = ts_world s"
  by (auto simp: completed_error_def Let_def)

lemma world_consume_items: "consume_items i items r0 s = (r, t) \<Longrightarrow> ts_world t = ts_world s"
  by (induction i items r0 s rule: consume_items.induct) auto

lemma rank_bind_prepared:
  "calls_run_out env rank \<Longrightarrow> bind_prepared env tool args s = (r, t) \<Longrightarrow> rank (ts_world t) \<le> rank (ts_world s)"
  by (auto simp: bind_prepared_def calls_run_out_def Let_def split: option.splits prod.splits) (metis snd_conv)+

lemma rank_dispatch:
  assumes "calls_run_out env rank" and "dispatch_tool_call env call s = (m, t)"
  shows "rank (ts_world t) \<le> rank (ts_world s)"
proof (cases "registry_get (te_tools env) (tc_name call)")
  case None
  with assms(2) show ?thesis by (auto simp: dispatch_tool_call_def Let_def dest: world_completed_error)
next
  case (Some tool)
  let ?s = "emit (ToolStarted (tc_id call) (tc_name call)) s"
  obtain g args where g: "hook_gate (te_gate env) HToolCall (tc_arguments call) = (g, args)"
    by (cases "hook_gate (te_gate env) HToolCall (tc_arguments call)")
  obtain b s1 where b: "bind_prepared env tool args ?s = (b, s1)" by (cases "bind_prepared env tool args ?s")
  have r1: "rank (ts_world s1) \<le> rank (ts_world s)" using rank_bind_prepared [OF assms(1) b] by simp
  obtain prepared where pr: "\<forall>p. b = Inr p \<longrightarrow> prepared = p" by (cases b) auto
  obtain run w where run: "te_execute env (ts_world s1) tool args prepared = (run, w)"
    by (cases "te_execute env (ts_world s1) tool args prepared")
  have "rank w \<le> rank (ts_world s1)" using assms(1) run unfolding calls_run_out_def by (metis snd_conv)
  then show ?thesis using assms(2) Some g b r1 run pr
    by (auto simp: dispatch_tool_call_def Let_def split: gate_result.splits sum.splits prod.splits
        dest!: world_completed_error world_consume_items)
qed

lemma rank_dispatch_calls:
  assumes "calls_run_out env rank"
  shows "dispatch_calls env calls s = (a, t) \<Longrightarrow> rank (ts_world t) \<le> rank (ts_world s)"
proof (induction calls arbitrary: s)
  case (Cons call calls)
  obtain c s1 where c: "is_cancelled s = (c, s1)" by (cases "is_cancelled s")
  note w = is_cancelled_frame(2) [OF c]
  have "ts_world (fold (\<lambda>call. push_result (fail_cancelled_call call)) cs u) = ts_world u" for cs u
    by (induction cs arbitrary: u)
      (simp_all add: push_result_def fail_cancelled_call_def completed_error_def Let_def)
  from this [of "call # calls" s1]
  have aborted: "c \<Longrightarrow> ts_world t = ts_world s" using Cons.prems c w by simp
  have "rank (ts_world (push_result (dispatch_tool_call env call) s1)) \<le> rank (ts_world s)"
    using rank_dispatch [OF assms, of call s1] w by (simp add: push_result_def split: prod.split)
  then show ?case
    using Cons.prems Cons.IH [of "push_result (dispatch_tool_call env call) s1"] c aborted
    by (cases c) auto
qed simp

lemma world_truncated:
  "ts_world (fold (\<lambda>call. push_result (fail_truncated_call call)) calls s) = ts_world s"
  by (induction calls arbitrary: s)
    (simp_all add: push_result_def fail_truncated_call_def completed_error_def Let_def)

text \<open>What is left to do: the rank of the world and the messages that wait.\<close>

definition work :: "('w \<Rightarrow> nat) \<Rightarrow> 'w turn_state \<Rightarrow> nat" where
  "work rank s = rank (ts_world s) + size (waiting s)"

lemma inner_step_work:
  assumes env: "calls_run_out env rank" and inputs: "list_all is_input pending"
    and step: "inner_step env config mode pending steered s = (Inr (h, p, st), t)"
  shows "work rank t + length p + (if h then 1 else 0) \<le> work rank s"
proof -
  let ?s0 = "fold (\<lambda>msg. push_message (hook_transform HUserPrompt msg)) pending s"
  obtain c s1 where c: "is_cancelled ?s0 = (c, s1)" by (cases "is_cancelled ?s0")
  have "ts_world ?s0 = ts_world s" by (induction pending arbitrary: s) simp_all
  then have w1: "ts_world s1 = ts_world s" using is_cancelled_frame(2) [OF c] by simp
  obtain q s2 where q: "stream_assistant env config s1 = (q, s2)" by (cases "stream_assistant env config s1")
  obtain a where a: "q = Inr a" and nc: "\<not> c"
    using step c q by (auto simp: inner_step_def Let_def split: if_splits sum.splits turn_failure.splits)
  from stream_assistant_world [OF q] a obtain rq es
    where "te_provider env (ts_world s1) rq = (Inr es, ts_world s2)" "SDone a \<in> set es" by auto
  then have w2: "rank (ts_world s2) + (if tool_calls a \<noteq> [] then 1 else 0) \<le> rank (ts_world s)"
    using run_out_provider [OF env] w1 by (auto simp: Suc_le_eq)
  have final: "rank (ts_world t) \<le> rank (ts_world s2) \<and> h = (tool_calls a \<noteq> [])"
    if "after_calls env mode steered (tool_calls a \<noteq> []) s3 = (Inr (h, p, st), t)"
      "rank (ts_world s3) \<le> rank (ts_world s2)" for s3
  proof -
    obtain p' u where d: "drain_steer mode s3 = (p', u)" by (cases "drain_steer mode s3")
    then have "t = u" using that(1) by (auto simp: after_calls_def Let_def)
    moreover have "ts_world u = ts_world s3" using drain_frame [of mode s3 p' u] d by blast
    ultimately show ?thesis using that after_calls_advances [OF that(1)] by auto
  qed
  have "rank (ts_world t) \<le> rank (ts_world s2) \<and> h = (tool_calls a \<noteq> [])"
  proof (cases "tool_calls a = [] \<or> am_stop_reason a = Length")
    case True
    then show ?thesis
      using step c q a nc world_truncated [of "tool_calls a" s2]
        final [of s2] final [of "fold (\<lambda>call. push_result (fail_truncated_call call)) (tool_calls a) s2"]
      by (auto simp: inner_step_def Let_def split: if_splits)
  next
    case False
    obtain aborted s3 where d: "dispatch_calls env (tool_calls a) s2 = (aborted, s3)"
      by (cases "dispatch_calls env (tool_calls a) s2")
    then show ?thesis
      using step c q a nc False rank_dispatch_calls [OF env d] final [of s3]
      by (auto simp: inner_step_def Let_def split: if_splits)
  qed
  moreover have "keeps p s t"
    using inner_step_advances [OF step inputs] by (auto simp: advances_def)
  then have "length p + size (waiting t) \<le> size (waiting s)" by (rule keeps_size)
  ultimately show ?thesis using w2 by (auto simp: work_def split: if_splits)
qed

lemma inner_loop_returns:
  assumes env: "calls_run_out env rank"
  shows "input_only pending s \<Longrightarrow> work rank s < fuel \<Longrightarrow>
    \<exists>r t. inner_loop fuel env config mode h pending steered s = Some (r, t) \<and>
      ((\<exists>st. r = Inr st) \<longrightarrow> work rank t \<le> work rank s)"
proof (induction fuel arbitrary: h pending steered s)
  case 0
  then show ?case by simp
next
  case (Suc fuel)
  show ?case
  proof (cases "h \<or> pending \<noteq> []")
    case False
    then show ?thesis by (simp add: inner_loop.simps)
  next
    case True
    obtain q u where q: "inner_step env config mode pending steered s = (q, u)"
      by (cases "inner_step env config mode pending steered s")
    show ?thesis
    proof (cases q)
      case (Inl e)
      then show ?thesis using q True by (simp add: inner_loop.simps)
    next
      case (Inr x)
      obtain h' p st where x: "x = (h', p, st)" by (cases x)
      note inputs = input_only_pending [OF Suc.prems(1)]
      note step = q [unfolded Inr x]
      note less = inner_step_work [OF env inputs step]
      have keep: "keeps p s u" using inner_step_advances [OF step inputs] by (auto simp: advances_def)
      have loop: "inner_loop (Suc fuel) env config mode h pending steered s
          = inner_loop fuel env config mode h' p st u"
        using q True Inr x by (simp add: inner_loop.simps [of "Suc fuel"])
      show ?thesis
      proof (cases "h' \<or> p \<noteq> []")
        case False
        then show ?thesis using less loop by (simp add: inner_loop.simps [of fuel])
      next
        case True
        then have "work rank u < work rank s" using less by (cases p) (auto split: if_splits)
        then show ?thesis
          using loop Suc.IH [OF input_only_keeps [OF Suc.prems(1) keep], of h' st] Suc.prems(2)
          by (fastforce dest: le_trans)
      qed
    qed
  qed
qed

lemma outer_loop_returns:
  assumes env: "calls_run_out env rank"
  shows "input_only pending s \<Longrightarrow> work rank s + 1 < fuel \<Longrightarrow>
    outer_loop fuel env config mode pending steered s \<noteq> None"
proof (induction fuel arbitrary: pending steered s)
  case 0
  then show ?case by simp
next
  case (Suc fuel)
  have "work rank s < fuel" using Suc.prems(2) by simp
  from inner_loop_returns [OF env Suc.prems(1) this, of config mode True steered] obtain r u
    where r: "inner_loop fuel env config mode True pending steered s = Some (r, u)"
      "(\<exists>st. r = Inr st) \<longrightarrow> work rank u \<le> work rank s" by blast
  show ?case
  proof (cases r)
    case (Inl e)
    then show ?thesis using r(1) by (simp add: outer_loop.simps)
  next
    case (Inr st)
    obtain p v where d: "drain_followup mode u = (p, v)" by (cases "drain_followup mode u")
    have dr: "drained p u v" "ts_world v = ts_world u" using drain_frame d by blast+
    have inp: "input_only [] u" using inner_loop_ok [OF r(1) Suc.prems(1)] by blast
    have "length p + size (waiting v) \<le> size (waiting u)"
      using dr(1) by (intro keeps_size) (simp add: drained_def)
    then have less: "work rank v + length p \<le> work rank u" using dr(2) by (simp add: work_def)
    show ?thesis
    proof (cases "p = []")
      case True
      then show ?thesis using r(1) Inr d by (simp add: outer_loop.simps)
    next
      case False
      then have "work rank v + 1 < fuel" using less r(2) Inr Suc.prems(2) by (cases p) auto
      moreover have "input_only p v" using input_only_keeps [OF inp] dr(1) by (simp add: drained_def)
      ultimately show ?thesis using Suc.IH [of p v st] r(1) Inr d False by (simp add: outer_loop.simps)
    qed
  qed
qed

subsection \<open>A whole turn\<close>

lemma double_loop_ok:
  assumes "double_loop fuel env config mode msg s = Some (r, t)"
    and "is_input msg" and "\<forall>m\<in>#waiting s. is_input m"
  shows "\<exists>ms evs. ts_messages t = ts_messages s @ msg # ms \<and> ts_events t = ts_events s @ evs \<and>
    added evs = msg # ms \<and> fold_opt log_step Idle evs = Some Idle \<and> answered ms \<and>
    mset (filter is_input ms) + waiting t \<subseteq># waiting s \<and>
    (clear_free s \<longrightarrow> mset (filter is_input ms) + waiting t = waiting s) \<and>
    (r = Inr Completed \<or> r = Inr Steered \<longrightarrow> natural_stop ms)"
proof -
  let ?s1 = "push_message (hook_transform HUserPrompt msg) s"
  obtain p s2 where d: "drain_steer mode ?s1 = (p, s2)" by (cases "drain_steer mode ?s1")
  then have dr: "drained p ?s1 s2" using drain_frame by blast
  obtain q where q: "outer_loop fuel env config mode p (p \<noteq> []) s2 = Some (q, t)" "r = loop_outcome q"
    using assms(1) d by (auto simp: double_loop_def Let_def)
  have w1: "waiting ?s1 = waiting s" "clear_free ?s1 = clear_free s"
    by (simp_all add: push_message_def emit_def waiting_def clear_free_def)
  have "input_only [] ?s1" using assms(3) w1 by (simp add: input_only_def)
  moreover have "keeps p ?s1 s2" using dr by (simp add: drained_def)
  ultimately have "input_only p s2" by (rule input_only_keeps)
  from outer_loop_ok [OF q(1) this] obtain ms
    where ms: "loop_ok p ms s2 t" "(\<exists>st. q = Inr st) \<longrightarrow> natural_stop ms" by blast
  have "loop_ok [] ([] @ ms) ?s1 t"
    by (rule loop_ok_trans_drained [OF _ dr ms(1)]) (simp add: loop_ok_def)
  note ok = this [unfolded loop_ok_def w1]
  then obtain evs where evs: "ts_events t = ts_events ?s1 @ evs" "added evs = ms"
    "fold_opt log_step Idle evs = Some Idle" by auto
  have "\<not> is_tool_result msg" using assms(2) by (cases msg) auto
  then have "ts_events t = ts_events s @ MessageAdded msg # evs"
    "added (MessageAdded msg # evs) = msg # ms" "fold_opt log_step Idle (MessageAdded msg # evs) = Some Idle"
    using evs by (simp_all add: push_message_def emit_def hook_transform_def)
  moreover have "r = Inr Completed \<or> r = Inr Steered \<longrightarrow> natural_stop ms"
    using ms(2) q(2) by (auto simp: loop_outcome_def split: sum.splits inner_exit.splits)
  ultimately show ?thesis
    using ok by (intro exI [of _ ms] exI [of _ "MessageAdded msg # evs"]) (simp add: hook_transform_def)
qed

definition end_outcome :: "mcode_error + turn_outcome \<Rightarrow> turn_outcome" where
  "end_outcome r = (case r of Inr o' \<Rightarrow> o' | Inl _ \<Rightarrow> Aborted)"

lemma prompt_unfold:
  assumes "prompt fuel env config mode c msg s = Some (r, t)"
  obtains u where "double_loop fuel env config mode msg (emit TurnStarted
      (s\<lparr>ts_active := True, ts_cancelled := c, ts_is_streaming := True\<rparr>)) = Some (r, u)"
    and "t = (emit (TurnEnded (end_outcome r)) u)\<lparr>ts_is_streaming := False, ts_active := False\<rparr>"
  using assms that by (auto simp: prompt_def run_turn_def end_outcome_def split: option.splits)

lemma prompt_ok:
  assumes run: "prompt fuel env config mode c msg s = Some (r, t)"
    and "is_input msg" and "\<forall>m\<in>#waiting s. is_input m"
  shows "\<exists>ms evs. ts_messages t = ts_messages s @ msg # ms \<and>
    ts_events t = ts_events s @ TurnStarted # evs @ [TurnEnded (end_outcome r)] \<and>
    added evs = msg # ms \<and> fold_opt log_step Idle evs = Some Idle \<and> answered ms \<and>
    mset (filter is_input ms) + waiting t \<subseteq># waiting s \<and>
    (clear_free s \<longrightarrow> mset (filter is_input ms) + waiting t = waiting s) \<and>
    (r = Inr Completed \<or> r = Inr Steered \<longrightarrow> natural_stop ms) \<and>
    \<not> ts_is_streaming t \<and> \<not> ts_active t"
proof -
  let ?s = "emit TurnStarted (s\<lparr>ts_active := True, ts_cancelled := c, ts_is_streaming := True\<rparr>)"
  from run obtain u where u: "double_loop fuel env config mode msg ?s = Some (r, u)"
    "t = (emit (TurnEnded (end_outcome r)) u)\<lparr>ts_is_streaming := False, ts_active := False\<rparr>"
    by (rule prompt_unfold)
  have "waiting ?s = waiting s" "clear_free ?s = clear_free s" "ts_messages ?s = ts_messages s"
    "ts_events ?s = ts_events s @ [TurnStarted]"
    by (simp_all add: emit_def waiting_def clear_free_def)
  moreover have "waiting t = waiting u" "ts_messages t = ts_messages u"
    "ts_events t = ts_events u @ [TurnEnded (end_outcome r)]" "\<not> ts_is_streaming t" "\<not> ts_active t"
    using u(2) by (simp_all add: emit_def waiting_def)
  ultimately show ?thesis
    using double_loop_ok [OF u(1) assms(2)] assms(3) by (metis append.assoc append_Cons append_Nil)
qed

subsection \<open>A sample turn\<close>

text \<open>A provider that calls a registered tool once and then stops; another task steers meanwhile. The
  world counts the provider's responses.\<close>

definition sample_call :: tool_call where
  "sample_call = \<lparr>tc_id = ''c1'', tc_name = ''read'', tc_arguments = VNull\<rparr>"

definition sample_env :: "nat turn_env" where
  "sample_env = \<lparr>
     te_provider = (\<lambda>w _. if w = 0
       then (Inr [SText ''hi'', SDone \<lparr>am_blocks = [ToolCallB sample_call], am_usage = None,
                                     am_stop_reason = ToolUse\<rparr>], 1)
       else (Inr [SDone \<lparr>am_blocks = [TextB ''done''], am_usage = None, am_stop_reason = Stop\<rparr>], w)),
     te_tools = registry_register \<lparr>td_spec = \<lparr>sp_name = ''read'', sp_description = ''d'',
         sp_params_schema = VNull\<rparr>, td_prompt_snippet = None, td_search_access = None,
         td_file_access = None\<rparr> [],
     te_gate = None,
     te_prepare_search = (\<lambda>w _ _. (Inr (), w)), te_prepare_file = (\<lambda>w _ _. (Inr (), w)),
     te_execute = (\<lambda>w _ _ _. (\<lparr>tn_sends = [Progress ''half''], tn_result = Inr (Inr (tool_result_text ''ok'')),
         tn_late = []\<rparr>, w)),
     te_encoded = (\<lambda>_. Some 100), te_json_parse = (\<lambda>_. None), te_json_print = (\<lambda>_. [])\<rparr>"

definition user_text :: "string \<Rightarrow> message" where
  "user_text s = User \<lparr>um_content = [TextB s]\<rparr>"

definition sample_state :: "nat turn_state" where
  "sample_state = \<lparr>ts_messages = [], ts_is_streaming = False, ts_steer = [], ts_followup = [],
     ts_active = False, ts_cancelled = False, ts_events = [],
     ts_sched = [[], [], [CSteer (user_text ''wait'')]], ts_world = 0\<rparr>"

lemmas agent_eval = prompt_def run_turn_def double_loop_def outer_loop.simps inner_loop.simps
  inner_step_def after_calls_def push_result_def dispatch_tool_call_def
  bind_prepared_def run_items_def tool_stream_sends_def tool_stream_terminal_def tool_stream_send_def
  tool_stream_channel_def is_terminal_item_def execution_result_def completed_error_def
  stream_assistant_def build_request_def request_validate_def is_cancelled_def interfere_def
  drain_steer_def drain_followup_def drain_queue_def hook_transform_def hook_gate_def
  push_message_def emit_def steer_def follow_up_def abort_def clear_queues_def
  registry_get_def registry_register_def registry_specs_def tool_calls_def map_filter_simps
  loop_outcome_def MAX_REQUEST_ENCODED_BYTES_def tool_result_text_def Let_def

lemma sample_turn:
  "\<exists>t. prompt (Suc (Suc (Suc (Suc (Suc (Suc 0)))))) sample_env [] QOneAtATime False
     (user_text ''go'') sample_state = Some (Inr Steered, t)"
  by (simp add: agent_eval sample_env_def sample_state_def sample_call_def user_text_def)

lemma sample_waiting: "\<forall>m\<in>#waiting sample_state. is_input m" "clear_free sample_state" "is_input (user_text x)"
  by (simp_all add: waiting_def sample_state_def user_text_def clear_free_def)

section \<open>Properties of a turn\<close>

text \<open>C1. Every tool call is answered. Whatever the provider, the tools, the hooks and concurrent tasks
  do, and however the turn ends (completed, steered, aborted between two calls of one response, or
  failed), a history in which every assistant message is directly followed by one tool result per
  tool call, in call order and with the call's id, and which holds no other tool results, is such a
  history after \<open>prompt\<close>.\<close>

theorem prompt_answers_every_call:
  assumes "prompt fuel env config mode cancelled msg s = Some (r, t)"
    and "is_input msg" and "\<forall>m\<in>#waiting s. is_input m"
    and "answered (ts_messages s)"
  shows "answered (ts_messages t)"
proof -
  from prompt_ok [OF assms(1-3)] obtain ms where "ts_messages t = ts_messages s @ msg # ms" "answered ms"
    by blast
  moreover have "answered (msg # ms)" using assms(2) \<open>answered ms\<close> by (cases msg) auto
  ultimately show ?thesis using assms(4) answered_append by simp
qed

theorem prompt_answers_every_call_witness:
  "\<exists>t. prompt (Suc (Suc (Suc (Suc (Suc (Suc 0)))))) sample_env [] QOneAtATime False
     (user_text ''go'') sample_state = Some (Inr Steered, t) \<and> answered (ts_messages t)"
proof -
  obtain t where t: "prompt (Suc (Suc (Suc (Suc (Suc (Suc 0)))))) sample_env [] QOneAtATime False
     (user_text ''go'') sample_state = Some (Inr Steered, t)" using sample_turn by blast
  have "answered (ts_messages sample_state)" by (simp add: sample_state_def)
  from prompt_answers_every_call [OF t sample_waiting(3,1) this] t show ?thesis by blast
qed

text \<open>C6. The event log of a turn. \<open>prompt\<close> emits \<open>TurnStarted\<close> first and \<open>TurnEnded\<close> last, with
  the outcome it returns (\<open>Aborted\<close> for an error); in between no bracket occurs, the \<open>MessageAdded\<close>
  events are exactly the messages appended to the history in order, starting with the prompt, and
  every tool call is one block: its start, only its own progress, its completion with its own id,
  then the same result entering the history. Afterwards the Agent is idle.\<close>

theorem prompt_event_protocol:
  assumes "prompt fuel env config mode cancelled msg s = Some (r, t)"
    and "is_input msg" and "\<forall>m\<in>#waiting s. is_input m"
  shows "\<exists>ms evs. ts_messages t = ts_messages s @ msg # ms \<and>
    ts_events t = ts_events s @ TurnStarted # evs @ [TurnEnded (case r of Inr o' \<Rightarrow> o' | Inl _ \<Rightarrow> Aborted)] \<and>
    added evs = msg # ms \<and> fold_opt log_step Idle evs = Some Idle \<and>
    \<not> ts_is_streaming t \<and> \<not> ts_active t"
  using prompt_ok [OF assms] unfolding end_outcome_def by blast

theorem prompt_event_protocol_witness:
  "\<exists>t ms evs. prompt (Suc (Suc (Suc (Suc (Suc (Suc 0)))))) sample_env [] QOneAtATime False
     (user_text ''go'') sample_state = Some (Inr Steered, t) \<and>
   ts_events t = TurnStarted # evs @ [TurnEnded Steered] \<and> added evs = user_text ''go'' # ms"
proof -
  obtain t where t: "prompt (Suc (Suc (Suc (Suc (Suc (Suc 0)))))) sample_env [] QOneAtATime False
     (user_text ''go'') sample_state = Some (Inr Steered, t)" using sample_turn by blast
  have "ts_events sample_state = []" by (simp add: sample_state_def)
  with prompt_event_protocol [OF t sample_waiting(3,1)] t show ?thesis by auto
qed

text \<open>C7. No queued message is lost or invented: the user messages that a turn appends after its prompt,
  together with those still waiting in the queues (or still to be queued by other tasks), are
  exactly those that were waiting before, as multisets, on every outcome including abort and error,
  unless another task clears the queues. When the turn was not aborted and did not fail, the model
  had stopped by itself: the last message is a response without tool calls.\<close>

theorem prompt_conserves_queued_messages:
  assumes "prompt fuel env config mode cancelled msg s = Some (r, t)"
    and "is_input msg" and "\<forall>m\<in>#waiting s. is_input m" and "clear_free s"
  shows "\<exists>ms. ts_messages t = ts_messages s @ msg # ms \<and>
    mset (filter is_input ms) + waiting t = waiting s \<and>
    (r = Inr Completed \<or> r = Inr Steered \<longrightarrow> (\<exists>pre a. ms = pre @ [Assistant a] \<and> tool_calls a = []))"
  using prompt_ok [OF assms(1-3)] assms(4) unfolding natural_stop_def by blast

theorem prompt_conserves_queued_messages_witness:
  "\<exists>t ms. prompt (Suc (Suc (Suc (Suc (Suc (Suc 0)))))) sample_env [] QOneAtATime False
     (user_text ''go'') sample_state = Some (Inr Steered, t) \<and>
   ts_messages t = user_text ''go'' # ms \<and> mset (filter is_input ms) + waiting t = {#user_text ''wait''#}"
proof -
  obtain t where t: "prompt (Suc (Suc (Suc (Suc (Suc (Suc 0)))))) sample_env [] QOneAtATime False
     (user_text ''go'') sample_state = Some (Inr Steered, t)" using sample_turn by blast
  have "ts_messages sample_state = []" "waiting sample_state = {#user_text ''wait''#}"
    by (simp_all add: sample_state_def waiting_def)
  with prompt_conserves_queued_messages [OF t sample_waiting(3,1,2)] t show ?thesis by auto
qed

text \<open>C8. A turn returns when the provider does not call tools forever: if some rank of the outside
  world drops with every response that calls tools and never rises, then with fuel for that rank,
  for the messages waiting and for two more rounds, \<open>prompt\<close> returns, and returns the same for any
  larger fuel.\<close>

theorem prompt_returns:
  assumes "calls_run_out env rank" and "is_input msg" and "\<forall>m\<in>#waiting s. is_input m"
    and "rank (ts_world s) + size (waiting s) + 2 \<le> fuel"
  shows "\<exists>r t. \<forall>fuel'\<ge>fuel. prompt fuel' env config mode cancelled msg s = Some (r, t)"
proof -
  let ?s = "emit TurnStarted (s\<lparr>ts_active := True, ts_cancelled := cancelled, ts_is_streaming := True\<rparr>)"
  let ?s1 = "push_message (hook_transform HUserPrompt msg) ?s"
  obtain p s2 where d: "drain_steer mode ?s1 = (p, s2)" by (cases "drain_steer mode ?s1")
  then have dr: "drained p ?s1 s2" "ts_world s2 = ts_world ?s1" using drain_frame by blast+
  have w: "waiting ?s1 = waiting s" "ts_world ?s1 = ts_world s"
    by (simp_all add: push_message_def emit_def waiting_def)
  have k: "keeps p ?s1 s2" using dr by (simp add: drained_def)
  moreover have "input_only [] ?s1" using assms(3) w by (simp add: input_only_def)
  ultimately have inp: "input_only p s2" using input_only_keeps by blast
  have "work rank s2 + 1 < fuel"
    using keeps_size [OF k] w dr(2) assms(4) by (simp add: work_def)
  from outer_loop_returns [OF assms(1) inp this, of config mode "p \<noteq> []"]
  obtain x where "outer_loop fuel env config mode p (p \<noteq> []) s2 = Some x" by blast
  then have "outer_loop fuel' env config mode p (p \<noteq> []) s2 = Some x" if "fuel \<le> fuel'" for fuel'
    using outer_loop_mono that by blast
  then show ?thesis
    using d by (auto simp: prompt_def run_turn_def double_loop_def Let_def split: prod.split)
qed

lemma sample_runs_out: "calls_run_out sample_env (\<lambda>w. 1 - w)"
  by (auto simp: calls_run_out_def sample_env_def split: if_splits)
    (auto simp: tool_calls_def map_filter_simps)

theorem prompt_returns_witness:
  "\<exists>r t. prompt 4 sample_env [] QAll False (user_text ''go'') sample_state = Some (r, t)"
proof -
  have "1 - ts_world sample_state + size (waiting sample_state) + 2 \<le> 4"
    by (simp add: sample_state_def waiting_def)
  from prompt_returns [OF sample_runs_out sample_waiting(3,1) this] show ?thesis by blast
qed

text \<open>C9. Truncated calls never run. When a response hit the output limit, the iteration does not
  dispatch any of its tool calls: the outside world is left as the stream left it, each call is
  answered by the fixed error result, and the loop goes on to let the model re-issue them.\<close>

theorem truncated_calls_never_run:
  assumes "is_cancelled (fold (\<lambda>msg. push_message (hook_transform HUserPrompt msg)) pending s) = (False, s1)"
    and "stream_assistant env config s1 = (Inr a, s2)"
    and "am_stop_reason a = Length" and "tool_calls a \<noteq> []"
  shows "\<exists>p st t. inner_step env config mode pending steered s = (Inr (True, p, st), t) \<and>
    ts_world t = ts_world s2 \<and>
    ts_messages t = ts_messages s2 @ map (\<lambda>call. ToolResult \<lparr>tr_tool_call_id = tc_id call,
      tr_content = [TextB truncated_reason], tr_is_error = True, tr_details = None\<rparr>) (tool_calls a)"
proof -
  let ?s3 = "fold (\<lambda>call. push_result (fail_truncated_call call)) (tool_calls a) s2"
  have msgs: "ts_messages (fold (\<lambda>call. push_result (fail_truncated_call call)) calls u) = ts_messages u @
      map (\<lambda>call. ToolResult \<lparr>tr_tool_call_id = tc_id call,
        tr_content = [TextB truncated_reason], tr_is_error = True, tr_details = None\<rparr>) calls"
    for calls and u :: "'a turn_state"
    by (induction calls arbitrary: u)
      (simp_all add: push_result_def fail_truncated_call_def completed_error_def Let_def)
  obtain x t where x: "after_calls env mode steered True ?s3 = (x, t)"
    by (cases "after_calls env mode steered True ?s3")
  obtain p u where d: "drain_steer mode ?s3 = (p, u)" by (cases "drain_steer mode ?s3")
  then have dr: "drained p ?s3 u" "ts_world u = ts_world ?s3" using drain_frame by blast+
  have "t = u" using x d by (auto simp: after_calls_def Let_def)
  then have "ts_world t = ts_world s2" "ts_messages t = ts_messages ?s3"
    using dr world_truncated [of "tool_calls a" s2] by (simp_all add: drained_def)
  moreover have "inner_step env config mode pending steered s = (x, t)"
    using assms x by (simp add: inner_step_def Let_def)
  moreover obtain p where "x = Inr (True, p, steered \<or> p \<noteq> [])" using after_calls_advances [OF x] by blast
  ultimately show ?thesis using msgs by auto
qed

theorem truncated_calls_never_run_witness:
  "let env = sample_env\<lparr>te_provider := (\<lambda>w _. (Inr [SDone \<lparr>am_blocks = [ToolCallB sample_call],
        am_usage = None, am_stop_reason = Length\<rparr>], Suc w))\<rparr>
   in \<exists>p st t. inner_step env [] QAll [] False sample_state = (Inr (True, p, st), t) \<and> ts_world t = 1"
proof -
  let ?env = "sample_env\<lparr>te_provider := (\<lambda>w _. (Inr [SDone \<lparr>am_blocks = [ToolCallB sample_call],
        am_usage = None, am_stop_reason = Length\<rparr>], Suc w))\<rparr>"
  let ?a = "\<lparr>am_blocks = [ToolCallB sample_call], am_usage = None, am_stop_reason = Length\<rparr>"
  let ?s1 = "sample_state\<lparr>ts_sched := [[], [CSteer (user_text ''wait'')]]\<rparr>"
  have c: "is_cancelled (fold (\<lambda>msg. push_message (hook_transform HUserPrompt msg)) [] sample_state)
      = (False, ?s1)"
    by (simp add: is_cancelled_def interfere_def sample_state_def)
  obtain s2 where s2: "stream_assistant ?env [] ?s1 = (Inr ?a, s2)" "ts_world s2 = 1"
    by (simp add: agent_eval sample_env_def sample_state_def sample_call_def user_text_def)
  have "tool_calls ?a \<noteq> []" by (simp add: tool_calls_def map_filter_simps)
  from truncated_calls_never_run [OF c s2(1) _ this, of QAll False] s2(2) show ?thesis
    by (auto simp: Let_def)
qed

subsection \<open>Abort\<close>

lemma is_cancelled_calm: "is_cancelled s = (c, t) \<Longrightarrow> calm s \<Longrightarrow> \<not> c \<and> calm t"
  using interfere_frame(1) [of s] by (auto simp: is_cancelled_def Let_def same_log_def keeps_def calm_def)

lemma is_cancelled_stays: "is_cancelled s = (c, t) \<Longrightarrow> ts_cancelled s \<Longrightarrow> c"
  using interfere_frame(1) [of s] by (auto simp: is_cancelled_def Let_def same_log_def keeps_def)

definition never_reports_cancelled :: "'w turn_env \<Rightarrow> bool" where
  "never_reports_cancelled env \<longleftrightarrow>
     (\<forall>w rq e. fst (te_provider env w rq) = Inl e \<longrightarrow> \<not> is_cancelled_error e) \<and>
     (\<forall>w rq es e. fst (te_provider env w rq) = Inr es \<and> SError e \<in> set es \<longrightarrow> \<not> is_cancelled_error e)"

lemma stream_events_not_aborted:
  "stream_events env es s = (r, t) \<Longrightarrow> calm s \<Longrightarrow> \<forall>e. SError e \<in> set es \<longrightarrow> \<not> is_cancelled_error e \<Longrightarrow>
     r \<noteq> Inl TFAborted"
proof (induction env es s rule: stream_events.induct)
  case (1 env s)
  obtain c u where u: "is_cancelled s = (c, u)" by (cases "is_cancelled s")
  with 1 is_cancelled_calm [OF u] show ?case by (auto simp: Let_def fail_with_def)
qed (auto simp: hook_transform_def fail_with_def Let_def emit_def calm_def split: if_splits)

lemma stream_assistant_not_aborted:
  assumes "stream_assistant env config s = (r, t)" and "calm s" and "never_reports_cancelled env"
  shows "r \<noteq> Inl TFAborted"
proof -
  obtain c1 s1 where s1: "is_cancelled s = (c1, s1)" by (cases "is_cancelled s")
  obtain c2 s2 where s2: "is_cancelled s1 = (c2, s2)" by (cases "is_cancelled s1")
  have calm: "\<not> c1" "\<not> c2" "calm s2"
    using is_cancelled_calm [OF s1 assms(2)] is_cancelled_calm [OF s2] by blast+
  let ?rq = "hook_transform HBeforeProviderRequest (build_request env config s)"
  obtain p w where p: "te_provider env (ts_world s2) ?rq = (p, w)" by (cases "te_provider env (ts_world s2) ?rq")
  show ?thesis
  proof (cases "request_validate env ?rq")
    case (Inl e)
    then show ?thesis using assms(1) s1 s2 calm by (auto simp: stream_assistant_def Let_def fail_with_def)
  next
    case (Inr u)
    have "calm (s2\<lparr>ts_world := w\<rparr>)" using calm by (simp add: calm_def)
    show ?thesis
    proof (cases p)
      case (Inl e)
      then have "\<not> is_cancelled_error e"
        using assms(3) p unfolding never_reports_cancelled_def by (metis fst_conv)
      then show ?thesis using assms(1) s1 s2 calm(1,2) p Inr Inl
        by (auto simp: stream_assistant_def Let_def fail_with_def)
    next
      case es: (Inr es)
      then have "\<forall>e. SError e \<in> set es \<longrightarrow> \<not> is_cancelled_error e"
        using assms(3) p unfolding never_reports_cancelled_def by (metis fst_conv)
      moreover have "stream_events env es (s2\<lparr>ts_world := w\<rparr>) = (r, t)"
        using assms(1) s1 s2 calm(1,2) p Inr es by (simp add: stream_assistant_def Let_def)
      ultimately show ?thesis using stream_events_not_aborted \<open>calm (s2\<lparr>ts_world := w\<rparr>)\<close> by blast
    qed
  qed
qed

lemma dispatch_calls_not_aborted:
  "dispatch_calls env calls s = (a, t) \<Longrightarrow> calm s \<Longrightarrow> \<not> a"
proof (induction calls arbitrary: s)
  case (Cons call calls)
  obtain c s1 where c: "is_cancelled s = (c, s1)" by (cases "is_cancelled s")
  note calm = is_cancelled_calm [OF c Cons.prems(2)]
  obtain ms where "adds ms s1 (push_result (dispatch_tool_call env call) s1)"
    using push_result_adds [of "dispatch_tool_call env call" s1 call] dispatch_answered by blast
  then have "calm (push_result (dispatch_tool_call env call) s1)"
    using calm by (simp add: adds_def logs_def keeps_def)
  then show ?case using Cons.IH Cons.prems(1) c calm by simp
qed simp

lemma inner_step_not_broke:
  assumes "inner_step env config mode pending steered s = (r, t)" and "list_all is_input pending"
    and "calm s" and "never_reports_cancelled env"
  shows "r \<noteq> Inl Broke"
proof -
  let ?s0 = "fold (\<lambda>msg. push_message (hook_transform HUserPrompt msg)) pending s"
  obtain c s1 where c: "is_cancelled ?s0 = (c, s1)" by (cases "is_cancelled ?s0")
  have "calm ?s0" using push_inputs_adds [OF assms(2), of s] assms(3) by (simp add: adds_def logs_def keeps_def)
  then have calm: "\<not> c" "calm s1" using is_cancelled_calm [OF c] by blast+
  obtain q s2 where q: "stream_assistant env config s1 = (q, s2)" by (cases "stream_assistant env config s1")
  have "calm s2" using stream_assistant_added [OF q] calm by (simp add: response_added_def logs_def keeps_def)
  then have "dispatch_calls env calls s2 = (a, s3) \<Longrightarrow> \<not> a" for calls a s3
    using dispatch_calls_not_aborted by blast
  moreover have "after_calls env mode steered h u \<noteq> (Inl Broke, t)" for h u
    using after_calls_advances [of env mode steered h u "Inl Broke" t] by blast
  ultimately show ?thesis
    using assms(1) c q calm stream_assistant_not_aborted [OF q calm(2) assms(4)]
    by (auto simp: inner_step_def Let_def split: sum.splits turn_failure.splits if_splits prod.splits)
qed

lemma inner_loop_not_broke:
  "inner_loop fuel env config mode h pending steered s = Some (r, t) \<Longrightarrow> input_only pending s \<Longrightarrow> calm s \<Longrightarrow>
     never_reports_cancelled env \<Longrightarrow> r \<noteq> Inl Broke \<and> calm t"
proof (induction fuel arbitrary: h pending steered s)
  case 0
  then show ?case by (auto simp: inner_loop.simps split: if_splits)
next
  case (Suc fuel)
  obtain q u where q: "inner_step env config mode pending steered s = (q, u)"
    by (cases "inner_step env config mode pending steered s")
  note inputs = input_only_pending [OF Suc.prems(2)]
  have keep: "\<exists>p. keeps p s u \<and> (\<forall>h' p' st. q = Inr (h', p', st) \<longrightarrow> p = p')"
    using inner_step_advances [OF q inputs] by (cases q) (auto simp: advances_def)
  then have "calm u" using Suc.prems(3) by (auto simp: keeps_def)
  have nb: "q \<noteq> Inl Broke" using inner_step_not_broke [OF q inputs Suc.prems(3,4)] .
  show ?case
  proof (cases q)
    case (Inl e)
    then show ?thesis
      using Suc.prems(1,3) q nb \<open>calm u\<close> by (auto simp: inner_loop.simps [of "Suc fuel"] split: if_splits)
  next
    case (Inr x)
    obtain h' p st where x: "x = (h', p, st)" by (cases x)
    then have "keeps p s u" using keep Inr by auto
    then have "input_only p u" by (rule input_only_keeps [OF Suc.prems(2)])
    then show ?thesis
      using Suc.prems(1,3,4) q Inr x \<open>calm u\<close> Suc.IH [of h' p st u]
      by (auto simp: inner_loop.simps [of "Suc fuel"] split: if_splits)
  qed
qed

lemma outer_loop_not_broke:
  "outer_loop fuel env config mode pending steered s = Some (r, t) \<Longrightarrow> input_only pending s \<Longrightarrow> calm s \<Longrightarrow>
     never_reports_cancelled env \<Longrightarrow> r \<noteq> Inl Broke"
proof (induction fuel arbitrary: pending steered s)
  case 0
  then show ?case by (simp add: outer_loop.simps)
next
  case (Suc fuel)
  obtain q u where q: "inner_loop fuel env config mode True pending steered s = Some (q, u)"
    using Suc.prems(1) by (auto simp: outer_loop.simps split: option.splits)
  note nb = inner_loop_not_broke [OF q Suc.prems(2,3,4)]
  obtain p v where d: "drain_followup mode u = (p, v)" by (cases "drain_followup mode u")
  then have k: "keeps p u v" using drain_frame by (fastforce simp: drained_def)
  have "input_only [] u" using inner_loop_ok [OF q Suc.prems(2)] by blast
  then have "input_only p v" "calm v" using k nb input_only_keeps by (auto simp: keeps_def)
  then show ?case
    using Suc.prems(1,4) q nb d Suc.IH [of p _ v]
    by (auto simp: outer_loop.simps split: sum.splits if_splits)
qed

text \<open>C10. A turn ends \<open>Aborted\<close> only for a reason: if the caller's token was not cancelled, no task
  aborts or cancels during the turn and the provider never reports a cancellation, the outcome is
  completed, steered or an error.\<close>

theorem no_spurious_abort:
  assumes "prompt fuel env config mode False msg s = Some (r, t)"
    and "is_input msg" and "\<forall>m\<in>#waiting s. is_input m"
    and "\<forall>ops\<in>set (ts_sched s). CAbort \<notin> set ops \<and> CEnvCancel \<notin> set ops"
    and "never_reports_cancelled env"
  shows "r \<noteq> Inr Aborted"
proof -
  let ?s = "emit TurnStarted (s\<lparr>ts_active := True, ts_cancelled := False, ts_is_streaming := True\<rparr>)"
  let ?s1 = "push_message (hook_transform HUserPrompt msg) ?s"
  from assms(1) obtain u where "double_loop fuel env config mode msg ?s = Some (r, u)"
    by (rule prompt_unfold)
  moreover obtain p s2 where d: "drain_steer mode ?s1 = (p, s2)" by (cases "drain_steer mode ?s1")
  ultimately obtain q where q: "outer_loop fuel env config mode p (p \<noteq> []) s2 = Some (q, u)" "r = loop_outcome q"
    by (auto simp: double_loop_def Let_def)
  have "drained p ?s1 s2" using drain_frame d by blast
  then have k: "keeps p ?s1 s2" by (simp add: drained_def)
  have "waiting ?s1 = waiting s" by (simp add: push_message_def emit_def waiting_def)
  then have "input_only [] ?s1" using assms(3) by (simp add: input_only_def)
  then have inp: "input_only p s2" using k input_only_keeps by blast
  have "calm ?s1" using assms(4) by (simp add: calm_def push_message_def emit_def)
  then have "calm s2" using k by (simp add: keeps_def)
  from outer_loop_not_broke [OF q(1) inp this assms(5)] q(2) show ?thesis
    by (auto simp: loop_outcome_def split: sum.splits inner_exit.splits if_splits)
qed

theorem no_spurious_abort_witness:
  "\<exists>r t. prompt (Suc (Suc (Suc (Suc (Suc (Suc 0)))))) sample_env [] QOneAtATime False
     (user_text ''go'') sample_state = Some (r, t) \<and> r \<noteq> Inr Aborted"
proof -
  obtain t where t: "prompt (Suc (Suc (Suc (Suc (Suc (Suc 0)))))) sample_env [] QOneAtATime False
     (user_text ''go'') sample_state = Some (Inr Steered, t)" using sample_turn by blast
  have "\<forall>ops\<in>set (ts_sched sample_state). CAbort \<notin> set ops \<and> CEnvCancel \<notin> set ops"
    by (simp add: sample_state_def)
  moreover have "never_reports_cancelled sample_env"
    by (auto simp: never_reports_cancelled_def sample_env_def split: if_splits)
  ultimately show ?thesis using no_spurious_abort [OF t sample_waiting(3,1)] t by blast
qed

text \<open>The messages a drain takes depend on the steering queue and on what the other tasks do before it
  only.\<close>

lemma fold_control_steer: "ts_steer s = ts_steer t \<Longrightarrow>
    ts_steer (fold control_step ops s) = ts_steer (fold control_step ops t)"
proof (induction ops arbitrary: s t)
  case (Cons opn ops)
  then have "ts_steer (control_step opn s) = ts_steer (control_step opn t)"
    by (cases opn) (simp_all add: steer_def follow_up_def abort_def clear_queues_def)
  then show ?case using Cons.IH by simp
qed simp

lemma drain_steer_taken:
  assumes "ts_steer s = ts_steer t" and "ts_sched s = ts_sched t"
  shows "fst (drain_steer mode s) = fst (drain_steer mode t)"
proof -
  have "ts_steer (interfere s) = ts_steer (interfere t)"
    using assms by (auto simp: interfere_def split: list.split intro: fold_control_steer)
  then show ?thesis by (simp add: drain_steer_def Let_def split: prod.split)
qed

lemma push_inputs_events:
  "ts_events (fold (\<lambda>msg. push_message (hook_transform HUserPrompt msg)) pending s) =
     ts_events s @ map MessageAdded pending"
  by (induction pending arbitrary: s) (simp_all add: push_message_def emit_def hook_transform_def)

text \<open>C11. A turn whose token is already cancelled when it starts never reaches the outside world: no
  provider, tool or file preparation is called. The prompt and the messages that the first drain of
  the steering queue takes (after whatever the other tasks did before it) enter the history, in this
  order, nothing else does, and the turn ends \<open>Aborted\<close>; its events are just these additions between
  the start and the end of the turn.\<close>

theorem cancelled_turn_is_inert:
  assumes "prompt fuel env config mode True msg s = Some (r, t)"
    and "is_input msg" and "\<forall>m\<in>#waiting s. is_input m"
  shows "r = Inr Aborted \<and> ts_world t = ts_world s \<and>
    ts_messages t = ts_messages s @ msg # fst (drain_steer mode s) \<and>
    ts_events t = ts_events s @ TurnStarted # map MessageAdded (msg # fst (drain_steer mode s)) @
      [TurnEnded Aborted]"
proof -
  let ?s = "emit TurnStarted (s\<lparr>ts_active := True, ts_cancelled := True, ts_is_streaming := True\<rparr>)"
  let ?s1 = "push_message (hook_transform HUserPrompt msg) ?s"
  from assms(1) obtain u where u: "double_loop fuel env config mode msg ?s = Some (r, u)"
    "t = (emit (TurnEnded (end_outcome r)) u)\<lparr>ts_is_streaming := False, ts_active := False\<rparr>"
    by (rule prompt_unfold)
  obtain p s2 where d: "drain_steer mode ?s1 = (p, s2)" by (cases "drain_steer mode ?s1")
  have p: "p = fst (drain_steer mode s)"
    using drain_steer_taken [of ?s1 s mode] d by (simp add: push_message_def emit_def)
  obtain q where q: "outer_loop fuel env config mode p (p \<noteq> []) s2 = Some (q, u)" "r = loop_outcome q"
    using u(1) d by (auto simp: double_loop_def Let_def)
  have dr: "drained p ?s1 s2" "ts_world s2 = ts_world ?s1" using drain_frame d by blast+
  then have k: "keeps p ?s1 s2" by (simp add: drained_def)
  have "waiting ?s1 = waiting s" by (simp add: push_message_def emit_def waiting_def)
  then have "input_only [] ?s1" using assms(3) by (simp add: input_only_def)
  then have inp: "list_all is_input p" using k input_only_keeps input_only_pending by blast
  have "ts_cancelled s2" using k by (simp add: keeps_def push_message_def emit_def)
  let ?s3 = "fold (\<lambda>msg. push_message (hook_transform HUserPrompt msg)) p s2"
  obtain c s4 where c: "is_cancelled ?s3 = (c, s4)" by (cases "is_cancelled ?s3")
  note pushed = push_inputs_adds [OF inp, of s2]
  have "ts_cancelled ?s3"
    using pushed \<open>ts_cancelled s2\<close> by (simp add: adds_def logs_def keeps_def)
  then have "c" by (rule is_cancelled_stays [OF c])
  then have "inner_step env config mode p (p \<noteq> []) s2 = (Inl Broke, s4)"
    using c by (simp add: inner_step_def Let_def)
  moreover obtain f where "fuel = Suc (Suc f)"
    using q(1) by (cases fuel; cases "fuel - 1") (auto simp: outer_loop.simps inner_loop.simps)
  ultimately have end': "q = Inl Broke" "u = s4" using q(1) by (simp_all add: outer_loop.simps inner_loop.simps)
  have "ts_messages ?s3 = ts_messages s @ msg # p" "ts_events ?s3 = ts_events s @ TurnStarted # map MessageAdded (msg # p)"
    using pushed dr(1) push_inputs_events [of p s2]
    by (simp_all add: adds_def drained_def push_message_def emit_def hook_transform_def)
  moreover have "ts_messages s4 = ts_messages ?s3" "ts_events s4 = ts_events ?s3"
    using is_cancelled_frame(1) [OF c] by (simp_all add: same_log_def)
  moreover have "ts_world ?s3 = ts_world s2"
    by (induction p arbitrary: s2) simp_all
  ultimately show ?thesis
    using end' q(2) u(2) dr(2) is_cancelled_frame(2) [OF c]
    by (simp add: loop_outcome_def end_outcome_def emit_def p)
qed

theorem cancelled_turn_is_inert_witness:
  "\<exists>t. prompt 4 sample_env [] QAll True (user_text ''go'') sample_state = Some (Inr Aborted, t) \<and>
     ts_world t = 0"
proof -
  have "\<exists>t. prompt (Suc (Suc (Suc (Suc 0)))) sample_env [] QAll True (user_text ''go'') sample_state
      = Some (Inr Aborted, t)"
    by (simp add: agent_eval sample_env_def sample_state_def sample_call_def user_text_def)
  then obtain t where t: "prompt 4 sample_env [] QAll True (user_text ''go'') sample_state = Some (Inr Aborted, t)"
    by (auto simp: eval_nat_numeral)
  from cancelled_turn_is_inert [OF t sample_waiting(3,1)] t show ?thesis by (simp add: sample_state_def)
qed

end
