(* ===== verification/Identifiers.thy ===== *)
theory Identifiers
  imports Prelude
begin

section \<open>Identifier grammars\<close>

text \<open>
  The frozen identifier grammars of the workspace: \<open>mcode-config/src/home.rs\<close> (Plugin families,
  portable Pack ids and path components), \<open>authority.rs\<close> (source bindings, versions, digests,
  revisions), \<open>root_composition.rs\<close> (provider and Pack ids), \<open>host_vault/model.rs\<close> (local and
  operation ids), and \<open>mcode-plugin-host/src/provider_routes/identity.rs\<close> (route, slot, model,
  request and turn ids, generations and token counts). A newtype over \<open>String\<close> is the string its
  \<open>parse\<close> accepted. \<open>ConfigError\<close> is its kind: the path and the backtrace it carries are not
  observed by any operation here.
\<close>

subsection \<open>Errors\<close>

datatype config_error =
    InvalidHome | PathEscape | LinkEscape | AccessControl | Io | Random | NonUtf8 | Oversized
  | TooDeep | TooManyNodes | DuplicateKey | InvalidJson | AuthorityValidation | RevisionConflict
  | RevisionExhausted | Serialization | Lock | AtomicReplace | RecoveryIndeterminate

datatype provider_route_error =
    InvalidRouteId | InvalidAuthSlotId | InvalidModelId | InvalidModelAlias | InvalidRequestId
  | InvalidTurnId | InvalidGeneration | InvalidTokenCount | WrongManagerFamily | EmptyClaimBatch
  | ClaimBatchTooLarge | RouteCapacityExceeded | DuplicateProviderId | DuplicateRouteId
  | DuplicateAuthSlotId | ProviderIdCollision | RouteIdCollision | AuthSlotIdCollision
  | UnknownRoute | OwnerMismatch | StaleGeneration | ForeignStamp | UsageContextCapacityExceeded
  | RequestAlreadyRegistered | RequestMismatch | TurnMismatch | StaleUsageContext
  | ResolvedModelAlreadyRecorded | RequestAlreadyTerminal

subsection \<open>Plugin families\<close>

datatype plugin_family = Providers | Web | Mcp | Usage | Ui

definition all_families :: "plugin_family list" where
  "all_families = [Providers, Web, Mcp, Usage, Ui]"

definition singleton_families :: "plugin_family list" where
  "singleton_families = [Web, Mcp]"

fun family_id :: "plugin_family \<Rightarrow> string" where
  "family_id Providers = ''com.mcode.providers''"
| "family_id Web = ''com.mcode.web''"
| "family_id Mcp = ''com.mcode.mcp''"
| "family_id Usage = ''com.mcode.usage''"
| "family_id Ui = ''com.mcode.ui''"

fun directory_name :: "plugin_family \<Rightarrow> string" where
  "directory_name Providers = ''providers''"
| "directory_name Web = ''web''"
| "directory_name Mcp = ''mcp''"
| "directory_name Usage = ''usage''"
| "directory_name Ui = ''ui''"

subsection \<open>Path components and portable ids (home.rs)\<close>

definition split_ascii_prefix :: "string \<Rightarrow> nat \<Rightarrow> (string \<times> string) option" where
  "split_ascii_prefix value n =
     (if n \<le> length value \<and> is_char_boundary value n then Some (take n value, drop n value) else None)"

definition device_units :: "string list" where
  "device_units = [''1'', ''2'', ''3'', ''4'', ''5'', ''6'', ''7'', ''8'', ''9'']"

definition matches_dos_device_unit :: "string \<Rightarrow> bool" where
  "matches_dos_device_unit unit' \<longleftrightarrow>
     unit' \<in> set device_units \<or>
     unit' = utf8_encode 185 \<or> unit' = utf8_encode 178 \<or> unit' = utf8_encode 179"

definition is_com_or_lpt_device :: "string \<Rightarrow> bool" where
  "is_com_or_lpt_device basename =
     (case split_ascii_prefix basename 3 of
        None \<Rightarrow> False
      | Some (prefix, unit') \<Rightarrow>
          (eq_ignore_ascii_case prefix ''com'' \<or> eq_ignore_ascii_case prefix ''lpt'') \<and>
          matches_dos_device_unit unit')"

definition trim_end_dots_and_spaces :: "string \<Rightarrow> string" where
  "trim_end_dots_and_spaces s = rev (dropWhile (\<lambda>c. c = CHR '' '' \<or> c = CHR ''.'') (rev s))"

definition is_windows_device_name :: "string \<Rightarrow> bool" where
  "is_windows_device_name name =
     (let stripped = trim_end_dots_and_spaces name in
      if stripped = [] then False
      else let basename = takeWhile (\<lambda>c. c \<noteq> CHR ''.'') stripped in
        list_ex (\<lambda>reserved. eq_ignore_ascii_case basename reserved)
          [''con'', ''prn'', ''aux'', ''nul'', ''conin$'', ''conout$'', ''clock$''] \<or>
        is_com_or_lpt_device basename)"

definition is_control_char :: "nat \<Rightarrow> bool" where
  "is_control_char n \<longleftrightarrow> n < 32 \<or> 127 \<le> n \<and> n \<le> 159"

definition unsafe_path_bytes :: string where
  "unsafe_path_bytes =
     [CHR ''/'', CHR 0x5C, CHR 0x00, CHR '':'', CHR ''*'', CHR ''?'', CHR 0x22, CHR ''<'',
      CHR ''>'', CHR ''|'']"

text \<open>The name is a \<open>&str\<close> at every call, so \<open>to_str\<close> succeeds.\<close>

definition is_safe_path_component :: "string \<Rightarrow> bool" where
  "is_safe_path_component name =
     (if name = [] \<or> name = ''.'' \<or> name = ''..'' then False
      else \<not> list_ex (\<lambda>c. c \<in> set unsafe_path_bytes) name \<and>
           \<not> list_ex is_control_char (utf8_chars name) \<and>
           last name \<noteq> CHR ''.'' \<and> last name \<noteq> CHR '' '' \<and>
           \<not> is_windows_device_name name)"

definition validate_path_component :: "string \<Rightarrow> config_error + unit" where
  "validate_path_component name = require (is_safe_path_component name) PathEscape"

definition is_valid_portable_id :: "string \<Rightarrow> bool" where
  "is_valid_portable_id value =
     (case value of
        [] \<Rightarrow> False
      | first # rest \<Rightarrow>
          length value \<le> 128 \<and> is_ascii_lowercase first \<and>
          list_all (\<lambda>b. is_ascii_lowercase b \<or> is_ascii_digit b \<or> b \<in> set ''._-'') rest \<and>
          is_ascii_alphanumeric (last value) \<and> is_safe_path_component value)"

definition validate_portable_id :: "string \<Rightarrow> config_error + unit" where
  "validate_portable_id value = require (is_valid_portable_id value) PathEscape"

text \<open>A path below the owned root, as the components appended to it by \<open>join\<close>.\<close>

definition packs_dir :: "plugin_family \<Rightarrow> string list" where
  "packs_dir f = [''plugins'', directory_name f, ''packs'']"

definition pack_dir :: "plugin_family \<Rightarrow> string \<Rightarrow> config_error + string list" where
  "pack_dir f pack_id = and_then (validate_portable_id pack_id) (\<lambda>_. Inr (packs_dir f @ [pack_id]))"

definition pack_installation_json :: "plugin_family \<Rightarrow> string \<Rightarrow> config_error + string list" where
  "pack_installation_json f pack_id =
     and_then (pack_dir f pack_id) (\<lambda>d. Inr (d @ [''installation.json'']))"

definition pack_data_dir :: "plugin_family \<Rightarrow> string \<Rightarrow> config_error + string list" where
  "pack_data_dir f pack_id = and_then (pack_dir f pack_id) (\<lambda>d. Inr (d @ [''data'']))"

definition pack_versions_dir :: "plugin_family \<Rightarrow> string \<Rightarrow> config_error + string list" where
  "pack_versions_dir f pack_id = and_then (pack_dir f pack_id) (\<lambda>d. Inr (d @ [''versions'']))"

subsection \<open>Authority values (authority.rs)\<close>

definition authority_revision_new :: "nat \<Rightarrow> config_error + nat" where
  "authority_revision_new value = (if value > i64_max then Inl AuthorityValidation else Inr value)"

definition checked_next :: "nat \<Rightarrow> config_error + nat" where
  "checked_next rev' = (if rev' \<ge> i64_max then Inl RevisionExhausted else Inr (rev' + 1))"

definition is_dos_reserved :: "string \<Rightarrow> bool" where
  "is_dos_reserved value \<longleftrightarrow>
     value \<in> set [''con'', ''prn'', ''aux'', ''nul''] \<or>
     (take 3 value = ''com'' \<or> take 3 value = ''lpt'') \<and>
     drop 3 value \<in> set device_units"

definition source_binding_id_parse :: "string \<Rightarrow> config_error + string" where
  "source_binding_id_parse value =
     (let valid_length = (1 \<le> length value \<and> length value \<le> 64);
          valid_first = (value \<noteq> [] \<and> is_ascii_lowercase (hd value));
          valid_tail = (value \<noteq> [] \<and> is_ascii_alphanumeric (last value));
          valid_bytes =
            list_all (\<lambda>b. is_ascii_lowercase b \<or> is_ascii_digit b \<or> b = CHR ''-'') value;
          valid_hyphens = (\<not> any_window2 (\<lambda>a b. a = CHR ''-'' \<and> b = CHR ''-'') value)
      in if \<not> valid_length \<or> \<not> valid_first \<or> \<not> valid_tail \<or> \<not> valid_bytes \<or> \<not> valid_hyphens \<or>
            is_dos_reserved value
         then Inl AuthorityValidation else Inr value)"

text \<open>\<open>semver\<close> is the \<open>semver\<close> crate: \<open>Version::parse\<close> followed by \<open>to_string\<close>.\<close>

definition canonical_version_parse ::
    "(string \<Rightarrow> string option) \<Rightarrow> string \<Rightarrow> config_error + string" where
  "canonical_version_parse semver value =
     (if value = [] \<or> length value > 128 \<or> \<not> list_all is_ascii_byte value then Inl AuthorityValidation
      else and_then (ok_or (semver value) AuthorityValidation) (\<lambda>rendered.
        if rendered \<noteq> value then Inl AuthorityValidation else Inr value))"

definition is_lower_hex :: "char \<Rightarrow> bool" where
  "is_lower_hex b \<longleftrightarrow> is_ascii_digit b \<or> CHR ''a'' \<le> b \<and> b \<le> CHR ''f''"

definition is_valid_sha256_digest :: "string \<Rightarrow> bool" where
  "is_valid_sha256_digest value \<longleftrightarrow>
     take 7 value = ''sha256:'' \<and>
     length (drop 7 value) = 64 \<and> list_all is_lower_hex (drop 7 value)"

definition sha256_digest_parse :: "string \<Rightarrow> config_error + string" where
  "sha256_digest_parse value =
     (if \<not> is_valid_sha256_digest value then Inl AuthorityValidation else Inr value)"

record artifact_ref =
  ar_version :: string
  ar_digest :: string

record trust_high_water =
  th_sequence :: nat
  th_manifest_digest :: string

definition trust_high_water_new :: "nat \<Rightarrow> string \<Rightarrow> config_error + trust_high_water" where
  "trust_high_water_new seq digest =
     (if seq = 0 \<or> seq > i64_max then Inl AuthorityValidation
      else Inr \<lparr>th_sequence = seq, th_manifest_digest = digest\<rparr>)"

subsection \<open>Provider and Pack ids (root_composition.rs)\<close>

definition provider_id_parse :: "string \<Rightarrow> config_error + string" where
  "provider_id_parse value =
     (let valid =
        1 \<le> length value \<and> length value \<le> 64 \<and>
        (value \<noteq> [] \<and> is_ascii_lowercase (hd value)) \<and>
        (value \<noteq> [] \<and> is_ascii_alphanumeric (last value)) \<and>
        list_all (\<lambda>b. is_ascii_lowercase b \<or> is_ascii_digit b \<or> b = CHR ''-'') value \<and>
        \<not> any_window2 (\<lambda>a b. a = CHR ''-'' \<and> b = CHR ''-'') value
      in if \<not> valid then Inl AuthorityValidation else Inr value)"

definition pack_id_parse :: "string \<Rightarrow> config_error + string" where
  "pack_id_parse value =
     (if \<not> is_valid_portable_id value then Inl AuthorityValidation else Inr value)"

definition is_visible_ascii :: "string \<Rightarrow> nat \<Rightarrow> bool" where
  "is_visible_ascii value maximum \<longleftrightarrow>
     1 \<le> length value \<and> length value \<le> maximum \<and>
     list_all (\<lambda>b. CHR ''!'' \<le> b \<and> b \<le> CHR ''~'') value"

definition validate_model_id :: "string \<Rightarrow> config_error + unit" where
  "validate_model_id value =
     (if value = [] \<or> length value > 256 \<or>
         \<not> list_all (\<lambda>b. CHR ''!'' \<le> b \<and> b \<le> CHR ''~'') value
      then Inl AuthorityValidation else Inr ())"

subsection \<open>Vault-local ids (host\_vault/model.rs)\<close>

definition is_id_separator :: "char \<Rightarrow> bool" where
  "is_id_separator b \<longleftrightarrow> b = CHR ''.'' \<or> b = CHR ''_'' \<or> b = CHR ''-''"

definition vault_is_valid_operation_id :: "string \<Rightarrow> bool" where
  "vault_is_valid_operation_id value \<longleftrightarrow>
     (1 \<le> length value \<and> length value \<le> 128) \<and> is_ascii_lowercase (hd value) \<and>
     list_all (\<lambda>b. is_ascii_lowercase b \<or> is_ascii_digit b \<or> is_id_separator b) value \<and>
     \<not> (value \<noteq> [] \<and> is_id_separator (last value)) \<and>
     \<not> any_window2 (\<lambda>a b. is_id_separator a \<and> is_id_separator b) value"

definition validate_local_id :: "string \<Rightarrow> config_error + unit" where
  "validate_local_id value =
     (if \<not> (1 \<le> length value \<and> length value \<le> 128) \<or>
         \<not> is_ascii_lowercase (hd value) \<or>
         \<not> list_all (\<lambda>b. is_ascii_lowercase b \<or> is_ascii_digit b \<or> is_id_separator b) value \<or>
         (value \<noteq> [] \<and> is_id_separator (last value)) \<or>
         any_window2 (\<lambda>a b. is_id_separator a \<and> is_id_separator b) value
      then Inl AuthorityValidation else Inr ())"

subsection \<open>Route identities (provider\_routes/identity.rs)\<close>

definition route_id_parse :: "string \<Rightarrow> provider_route_error + string" where
  "route_id_parse value = (if \<not> is_visible_ascii value 256 then Inl InvalidRouteId else Inr value)"

definition is_auth_slot_id :: "string \<Rightarrow> bool" where
  "is_auth_slot_id value \<longleftrightarrow>
     1 \<le> length value \<and> length value \<le> 64 \<and>
     (value \<noteq> [] \<and> is_ascii_alphabetic (hd value)) \<and>
     (value \<noteq> [] \<and> is_ascii_alphanumeric (last value)) \<and>
     list_all (\<lambda>b. is_ascii_alphanumeric b \<or> b = CHR ''-'') value \<and>
     \<not> any_window2 (\<lambda>a b. a = CHR ''-'' \<and> b = CHR ''-'') value"

definition auth_slot_id_parse :: "string \<Rightarrow> provider_route_error + string" where
  "auth_slot_id_parse value = (if \<not> is_auth_slot_id value then Inl InvalidAuthSlotId else Inr value)"

definition model_id_parse :: "string \<Rightarrow> provider_route_error + string" where
  "model_id_parse value = (if \<not> is_visible_ascii value 256 then Inl InvalidModelId else Inr value)"

definition model_alias_parse :: "string \<Rightarrow> provider_route_error + string" where
  "model_alias_parse value =
     (if \<not> is_visible_ascii value 256 then Inl InvalidModelAlias else Inr value)"

definition is_tracking_id :: "string \<Rightarrow> bool" where
  "is_tracking_id value \<longleftrightarrow>
     1 \<le> length value \<and> length value \<le> 128 \<and>
     (value \<noteq> [] \<and> is_ascii_alphanumeric (hd value)) \<and>
     (value \<noteq> [] \<and> is_ascii_alphanumeric (last value)) \<and>
     list_all (\<lambda>b. is_ascii_alphanumeric b \<or> b \<in> set ''._:-'') value"

definition request_id_parse :: "string \<Rightarrow> provider_route_error + string" where
  "request_id_parse value = (if \<not> is_tracking_id value then Inl InvalidRequestId else Inr value)"

definition turn_id_parse :: "string \<Rightarrow> provider_route_error + string" where
  "turn_id_parse value = (if \<not> is_tracking_id value then Inl InvalidTurnId else Inr value)"

definition provider_generation_new :: "nat \<Rightarrow> provider_route_error + nat" where
  "provider_generation_new value =
     (if value = 0 \<or> value > i64_max then Inl InvalidGeneration else Inr value)"

definition token_count_new :: "nat \<Rightarrow> provider_route_error + nat" where
  "token_count_new value = (if value > i64_max then Inl InvalidTokenCount else Inr value)"

subsection \<open>What every identifier grammar promises\<close>

text \<open>
  A parser of a newtype over \<open>String\<close> returns its input verbatim, rejects the empty string and
  anything above its bound, and accepts ASCII only, so bytes and characters coincide on an
  accepted identifier. The clients (ledger keys, vault keys, path components) rely on nothing else.
\<close>

locale id_grammar =
  fixes parse :: "string \<Rightarrow> 'e + string" and bound :: nat
  assumes parse_verbatim: "parse s = Inr t \<Longrightarrow> t = s"
    and parse_bounded: "parse s = Inr t \<Longrightarrow> 1 \<le> length s \<and> length s \<le> bound"
    and parse_ascii: "parse s = Inr t \<Longrightarrow> list_all is_ascii_byte s"
begin

lemma parse_idem: "parse s = Inr t \<Longrightarrow> parse t = Inr t"
  using parse_verbatim by blast

lemma parse_chars:
  assumes "parse s = Inr t"
  shows "utf8_chars t = map of_char s" and "t \<noteq> []" and "length (utf8_chars t) = length s"
  using parse_ascii [OF assms] parse_bounded [OF assms] parse_verbatim [OF assms]
  by (auto simp: utf8_chars_ascii)

lemma parse_inj: "parse s = Inr t \<Longrightarrow> parse s' = Inr t \<Longrightarrow> s = s'"
  using parse_verbatim by blast

end

lemma visible_is_ascii: "CHR ''!'' \<le> b \<and> b \<le> CHR ''~'' \<Longrightarrow> is_ascii_byte b"
  by (simp add: less_eq_char_def is_ascii_byte_def)

lemma list_all_mono_ascii:
  assumes "list_all P s" and "\<And>b. P b \<Longrightarrow> is_ascii_byte b"
  shows "list_all is_ascii_byte s"
  using assms by (auto simp: list_all_iff)

lemma separators_are_ascii: "is_id_separator b \<Longrightarrow> is_ascii_byte b"
  by (auto simp: is_id_separator_def is_ascii_byte_def)

lemma tracking_bytes_are_ascii: "b \<in> set ''._:-'' \<Longrightarrow> is_ascii_byte b"
  by (auto simp: is_ascii_byte_def)

lemmas ascii_intros = ascii_classes_are_ascii visible_is_ascii separators_are_ascii
  tracking_bytes_are_ascii

lemma is_visible_ascii_ascii: "is_visible_ascii s n \<Longrightarrow> list_all is_ascii_byte s"
  by (auto simp: is_visible_ascii_def elim!: list_all_mono_ascii intro: visible_is_ascii)

lemma alphanumeric_or_hyphen_ascii:
  assumes "is_ascii_alphanumeric b \<or> b = CHR ''-''" shows "is_ascii_byte b"
  using assms ascii_classes_are_ascii [of b] by (auto simp: is_ascii_byte_def)

lemma lowercase_digit_or_hyphen_ascii:
  assumes "is_ascii_lowercase b \<or> is_ascii_digit b \<or> b = CHR ''-''" shows "is_ascii_byte b"
  using assms ascii_classes_are_ascii [of b] by (auto simp: is_ascii_byte_def)

lemma tracking_id_ascii: "is_tracking_id s \<Longrightarrow> list_all is_ascii_byte s"
  by (auto simp: is_tracking_id_def is_ascii_byte_def elim!: list_all_mono_ascii
      dest: ascii_classes_are_ascii)

lemma portable_bytes_ascii:
  assumes "is_valid_portable_id s" shows "list_all is_ascii_byte s"
  using assms
  by (cases s) (auto simp: is_valid_portable_id_def is_ascii_byte_def elim!: list_all_mono_ascii
      dest: ascii_classes_are_ascii)

interpretation route_id: id_grammar route_id_parse 256
  by unfold_locales
    (auto simp: route_id_parse_def is_visible_ascii_ascii split: if_splits,
      auto simp: is_visible_ascii_def)

interpretation model_id: id_grammar model_id_parse 256
  by unfold_locales
    (auto simp: model_id_parse_def is_visible_ascii_ascii split: if_splits,
      auto simp: is_visible_ascii_def)

interpretation model_alias: id_grammar model_alias_parse 256
  by unfold_locales
    (auto simp: model_alias_parse_def is_visible_ascii_ascii split: if_splits,
      auto simp: is_visible_ascii_def)

interpretation request_id: id_grammar request_id_parse 128
  by unfold_locales
    (auto simp: request_id_parse_def tracking_id_ascii split: if_splits,
      auto simp: is_tracking_id_def)

interpretation turn_id: id_grammar turn_id_parse 128
  by unfold_locales
    (auto simp: turn_id_parse_def tracking_id_ascii split: if_splits,
      auto simp: is_tracking_id_def)

interpretation auth_slot_id: id_grammar auth_slot_id_parse 64
  by unfold_locales
    (auto simp: auth_slot_id_parse_def is_auth_slot_id_def split: if_splits
      elim!: list_all_mono_ascii intro: alphanumeric_or_hyphen_ascii)

interpretation provider_id: id_grammar provider_id_parse 64
  by unfold_locales
    (auto simp: provider_id_parse_def Let_def split: if_splits
      elim!: list_all_mono_ascii intro: lowercase_digit_or_hyphen_ascii)

interpretation source_binding_id: id_grammar source_binding_id_parse 64
  by unfold_locales
    (auto simp: source_binding_id_parse_def Let_def split: if_splits
      elim!: list_all_mono_ascii intro: lowercase_digit_or_hyphen_ascii)

interpretation pack_id: id_grammar pack_id_parse 128
  by unfold_locales
    (auto simp: pack_id_parse_def portable_bytes_ascii split: if_splits,
      auto simp: is_valid_portable_id_def Suc_le_eq split: list.splits)

subsection \<open>The portable grammar, in reference form\<close>

text \<open>
  \<open>is_valid_portable_id\<close> composes a byte grammar with the general path-component filter and the
  Windows device filter, both written for arbitrary Unicode names. On the byte grammar the two
  filters reduce to one finite list of base names.
\<close>

definition portable_byte :: "char \<Rightarrow> bool" where
  "portable_byte b \<longleftrightarrow> is_ascii_lowercase b \<or> is_ascii_digit b \<or> is_id_separator b"

definition portable_grammar :: "string \<Rightarrow> bool" where
  "portable_grammar s \<longleftrightarrow>
     s \<noteq> [] \<and> length s \<le> 128 \<and> is_ascii_lowercase (hd s) \<and>
     list_all portable_byte s \<and> is_ascii_alphanumeric (last s)"

definition reserved_basenames :: "string list" where
  "reserved_basenames =
     [''con'', ''prn'', ''aux'', ''nul''] @
     map (\<lambda>d. ''com'' @ d) device_units @ map (\<lambda>d. ''lpt'' @ d) device_units"

definition device_basename :: "string \<Rightarrow> string" where
  "device_basename s = takeWhile (\<lambda>c. c \<noteq> CHR ''.'') s"

lemma portable_byte_facts:
  assumes "portable_byte b"
  shows "b \<notin> set unsafe_path_bytes" and "\<not> is_control_char (of_char b)"
    and "to_ascii_lowercase b = b" and "is_ascii_byte b" and "b \<noteq> CHR '' ''"
  using assms
  by (auto simp: portable_byte_def unsafe_path_bytes_def is_control_char_def to_ascii_lowercase_def
      is_id_separator_def is_ascii_byte_def ascii_defs)

lemma lowercase_id: "list_all portable_byte s \<Longrightarrow> map to_ascii_lowercase s = s"
  by (induction s) (auto simp: portable_byte_facts)

lemma device_basename_bytes: "list_all portable_byte s \<Longrightarrow> list_all portable_byte (device_basename s)"
  by (auto simp: device_basename_def list_all_iff dest: set_takeWhileD)

lemma trim_end_alphanumeric:
  assumes "s \<noteq> []" and "is_ascii_alphanumeric (last s)"
  shows "trim_end_dots_and_spaces s = s"
proof -
  obtain t b where "s = t @ [b]" using assms(1) by (cases s rule: rev_exhaust) auto
  with assms(2) show ?thesis by (auto simp: trim_end_dots_and_spaces_def ascii_defs)
qed

lemma char_boundary_ascii:
  assumes "list_all is_ascii_byte s" and "i \<le> length s"
  shows "is_char_boundary s i"
  using assms by (cases "i < length s") (auto simp: is_char_boundary_def is_continuation_def is_ascii_byte_def list_all_length)

lemma eq_ignore_lower:
  assumes "list_all portable_byte s" and "map to_ascii_lowercase r = r"
  shows "eq_ignore_ascii_case s r \<longleftrightarrow> s = r"
  using assms by (simp add: eq_ignore_ascii_case_def lowercase_id)

lemma lower_literals:
  "map to_ascii_lowercase ''con'' = ''con''" "map to_ascii_lowercase ''prn'' = ''prn''"
  "map to_ascii_lowercase ''aux'' = ''aux''" "map to_ascii_lowercase ''nul'' = ''nul''"
  "map to_ascii_lowercase ''conin$'' = ''conin$''" "map to_ascii_lowercase ''conout$'' = ''conout$''"
  "map to_ascii_lowercase ''clock$'' = ''clock$''" "map to_ascii_lowercase ''com'' = ''com''"
  "map to_ascii_lowercase ''lpt'' = ''lpt''"
  by (simp_all add: to_ascii_lowercase_def ascii_defs)

lemma not_portable_superscripts:
  "n \<in> {178, 179, 185} \<Longrightarrow> \<not> list_all portable_byte (utf8_encode n)"
proof -
  have "\<not> portable_byte (char_of (194 :: nat))"
    using portable_byte_facts(4) [of "char_of (194 :: nat)"] by (auto simp: is_ascii_byte_def)
  then show "n \<in> {178, 179, 185} \<Longrightarrow> ?thesis" by (auto simp: utf8_encode_def)
qed

lemma unit_portable:
  assumes "list_all portable_byte u"
  shows "matches_dos_device_unit u \<longleftrightarrow> u \<in> set device_units"
  using assms not_portable_superscripts [of 185] not_portable_superscripts [of 178]
    not_portable_superscripts [of 179]
  unfolding matches_dos_device_unit_def by blast

lemma com_or_lpt_portable:
  assumes "list_all portable_byte s"
  shows "is_com_or_lpt_device s \<longleftrightarrow>
    (take 3 s = ''com'' \<or> take 3 s = ''lpt'') \<and> drop 3 s \<in> set device_units"
proof -
  have parts: "list_all portable_byte (take 3 s)" "list_all portable_byte (drop 3 s)"
    using assms by (auto simp: list_all_iff dest: in_set_takeD in_set_dropD)
  have ascii: "list_all is_ascii_byte s" using assms by (auto simp: list_all_iff portable_byte_facts)
  show ?thesis
  proof (cases "3 \<le> length s")
    case True
    with ascii have "split_ascii_prefix s 3 = Some (take 3 s, drop 3 s)"
      by (simp add: split_ascii_prefix_def char_boundary_ascii)
    then show ?thesis
      by (simp add: is_com_or_lpt_device_def eq_ignore_lower [OF parts(1) lower_literals(8)]
          eq_ignore_lower [OF parts(1) lower_literals(9)] unit_portable [OF parts(2)])
  next
    case False
    then show ?thesis by (auto simp: is_com_or_lpt_device_def split_ascii_prefix_def)
  qed
qed

lemma prefixed_iff:
  "length p = 3 \<Longrightarrow> b \<in> (\<lambda>d. p @ d) ` D \<longleftrightarrow> take 3 b = p \<and> drop 3 b \<in> D"
  by (auto simp: image_iff) (metis append_take_drop_id)

lemma reserved_iff:
  "b \<in> set reserved_basenames \<longleftrightarrow>
     b \<in> set [''con'', ''prn'', ''aux'', ''nul''] \<or>
     (take 3 b = ''com'' \<or> take 3 b = ''lpt'') \<and> drop 3 b \<in> set device_units"
  unfolding reserved_basenames_def set_append set_map Un_iff
  by (subst (1 2) prefixed_iff) (simp_all del: set_simps, blast)

lemma windows_device_portable:
  assumes bytes: "list_all portable_byte s" and "s \<noteq> []" and "is_ascii_alphanumeric (last s)"
  shows "is_windows_device_name s \<longleftrightarrow> device_basename s \<in> set reserved_basenames"
proof -
  have b: "list_all portable_byte (device_basename s)" using bytes by (rule device_basename_bytes)
  have dollar: "device_basename s \<noteq> r" if "\<not> list_all portable_byte r" for r
    using b that by blast
  have np: "\<not> list_all portable_byte ''conin$''" "\<not> list_all portable_byte ''conout$''"
    "\<not> list_all portable_byte ''clock$''"
    by (simp_all add: portable_byte_def is_id_separator_def ascii_defs)
  note eqs = lower_literals(1-7) [THEN eq_ignore_lower [OF b]]
  show ?thesis
    using assms(2)
    by (simp add: is_windows_device_name_def Let_def trim_end_alphanumeric [OF assms(2,3)]
        device_basename_def [symmetric] eqs com_or_lpt_portable [OF b] reserved_iff
        dollar [OF np(1)] dollar [OF np(2)] dollar [OF np(3)])
qed

lemma portable_safe_component:
  assumes "portable_grammar s"
  shows "is_safe_path_component s \<longleftrightarrow> \<not> is_windows_device_name s"
proof -
  have bytes: "list_all portable_byte s"
    using assms by (simp add: portable_grammar_def)
  then have "list_all is_ascii_byte s" by (auto simp: list_all_iff portable_byte_facts)
  then have chars: "utf8_chars s = map of_char s" by (rule utf8_chars_ascii)
  from assms have "hd s \<noteq> CHR ''.''" and "last s \<noteq> CHR ''.''" and "last s \<noteq> CHR '' ''" and "s \<noteq> []"
    by (auto simp: portable_grammar_def ascii_defs)
  then show ?thesis
    using bytes portable_byte_facts
    by (auto simp: is_safe_path_component_def chars list_ex_iff list_all_iff)
qed

text \<open>C14. Portable Pack ids: the layered check of \<open>is\_valid\_portable\_id\<close> (byte grammar, general
  path-component filter, Windows device filter with its trimming, case folding and superscript
  units) accepts exactly the strings of 1 to 128 bytes over \<open>[a-z0-9.\_-]\<close> that start with a letter,
  end with a letter or digit, and whose part before the first dot is none of the 22 DOS device
  names.\<close>

theorem portable_id_reference:
  "is_valid_portable_id s \<longleftrightarrow>
     portable_grammar s \<and> device_basename s \<notin> set reserved_basenames"
proof (cases "portable_grammar s")
  case True
  have bytes: "list_all portable_byte s"
    using True by (simp add: portable_grammar_def)
  have "is_valid_portable_id s \<longleftrightarrow> is_safe_path_component s"
    using True
    by (cases s) (auto simp: is_valid_portable_id_def portable_grammar_def portable_byte_def is_id_separator_def list_all_iff)
  also have "\<dots> \<longleftrightarrow> \<not> is_windows_device_name s" using True by (rule portable_safe_component)
  finally show ?thesis
    using True windows_device_portable [OF bytes] by (simp add: portable_grammar_def)
next
  case False
  then have "\<not> is_valid_portable_id s"
    by (cases s) (auto simp: is_valid_portable_id_def portable_grammar_def portable_byte_def is_id_separator_def list_all_iff)
  with False show ?thesis by simp
qed

end
