(* ===== verification/Wire_Json.thy ===== *)
theory Wire_Json
  imports Identifiers "HOL-Library.Multiset"
begin

section \<open>Logical charges, bounded scalars and flat wire-JSON trees\<close>

text \<open>
  \<open>mcode-plugin-host/src/provider_validation\<close>: \<open>charge.rs\<close> (checked cumulative charges),
  \<open>scalar.rs\<close> (bounded text and ids of untrusted Provider values) and \<open>wire_json.rs\<close> (validation and
  canonical serialization of a flat postorder JSON tree). A \<open>LogicalCharge\<close> is always a local
  variable whose owner propagates the error, so its operations return the updated charge in the
  result.
\<close>

datatype validation_error = InvalidArgument | Limit

subsection \<open>Charges (charge.rs)\<close>

record logical_charge =
  lc_value :: nat
  lc_limit :: nat

definition charge_new :: "nat \<Rightarrow> logical_charge" where
  "charge_new limit = \<lparr>lc_value = 0, lc_limit = limit\<rparr>"

definition charge_add :: "logical_charge \<Rightarrow> nat \<Rightarrow> validation_error + logical_charge" where
  "charge_add c value =
     and_then (ok_or (checked_add 64 (lc_value c) value) Limit) (\<lambda>v.
       let c' = c\<lparr>lc_value := v\<rparr> in if v > lc_limit c then Inl Limit else Inr c')"

definition checked_len :: "nat \<Rightarrow> validation_error + nat" where
  "checked_len value = (if value < 2 ^ 64 then Inr value else Inl Limit)"

definition charge_string :: "logical_charge \<Rightarrow> string \<Rightarrow> validation_error + logical_charge" where
  "charge_string c value =
     and_then (charge_add c 4) (\<lambda>c. and_then (checked_len (length value)) (charge_add c))"

lemma charge_add_Inr:
  "charge_add c v = Inr c' \<longleftrightarrow>
     c' = c\<lparr>lc_value := lc_value c + v\<rparr> \<and> lc_value c + v < 2 ^ 64 \<and> lc_value c + v \<le> lc_limit c"
  by (auto simp: charge_add_def Let_def)

lemma charge_add_limit [frame_simps]: "charge_add c v = Inr c' \<Longrightarrow> lc_limit c' = lc_limit c"
  by (auto simp: charge_add_Inr)

lemma charge_string_Inr:
  "charge_string c s = Inr c' \<longleftrightarrow>
     c' = c\<lparr>lc_value := lc_value c + 4 + length s\<rparr> \<and>
     lc_value c + 4 + length s < 2 ^ 64 \<and> lc_value c + 4 + length s \<le> lc_limit c"
  by (auto simp: charge_string_def charge_add_Inr checked_len_def split: if_splits)

subsection \<open>Bounded scalars (scalar.rs)\<close>

definition KIB :: nat where "KIB = 1024"
definition MIB :: nat where "MIB = 1024 * KIB"
definition MAX_LOGICAL_CHARGE :: nat where "MAX_LOGICAL_CHARGE = 8 * MIB"
definition MAX_SAFE_TEXT_BYTES :: nat where "MAX_SAFE_TEXT_BYTES = 64 * 1024"

definition map_invalid :: "'e + 'a \<Rightarrow> validation_error + unit" where
  "map_invalid r = (case r of Inl _ \<Rightarrow> Inl InvalidArgument | Inr _ \<Rightarrow> Inr ())"

definition scalar_provider_id :: "string \<Rightarrow> validation_error + unit" where
  "scalar_provider_id value = map_invalid (provider_id_parse value)"

definition scalar_route_id :: "string \<Rightarrow> validation_error + unit" where
  "scalar_route_id value = map_invalid (route_id_parse value)"

definition scalar_model_id :: "string \<Rightarrow> validation_error + unit" where
  "scalar_model_id value = map_invalid (model_id_parse value)"

definition scalar_model_alias :: "string \<Rightarrow> validation_error + unit" where
  "scalar_model_alias value = map_invalid (model_alias_parse value)"

definition scalar_is_separator :: "char \<Rightarrow> bool" where
  "scalar_is_separator b \<longleftrightarrow> b \<in> set ''._-''"

definition scalar_is_valid_operation_id :: "string \<Rightarrow> bool" where
  "scalar_is_valid_operation_id value \<longleftrightarrow>
     (1 \<le> length value \<and> length value \<le> 128) \<and> is_ascii_lowercase (hd value) \<and>
     list_all (\<lambda>b. is_ascii_lowercase b \<or> is_ascii_digit b \<or> scalar_is_separator b) value \<and>
     \<not> (value \<noteq> [] \<and> scalar_is_separator (last value)) \<and>
     \<not> any_window2 (\<lambda>a b. scalar_is_separator a \<and> scalar_is_separator b) value"

definition scalar_operation_id :: "string \<Rightarrow> validation_error + unit" where
  "scalar_operation_id value =
     (if scalar_is_valid_operation_id value then Inr () else Inl InvalidArgument)"

definition scalar_request_id :: "string \<Rightarrow> validation_error + unit" where
  "scalar_request_id value = map_invalid (request_id_parse value)"

definition scalar_turn_id :: "string \<Rightarrow> validation_error + unit" where
  "scalar_turn_id value = map_invalid (turn_id_parse value)"

definition scalar_tracking_id :: "string \<Rightarrow> validation_error + unit" where
  "scalar_tracking_id value =
     require (1 \<le> length value \<and> length value \<le> 128 \<and>
       (value \<noteq> [] \<and> is_ascii_alphanumeric (hd value)) \<and>
       (value \<noteq> [] \<and> is_ascii_alphanumeric (last value)) \<and>
       list_all (\<lambda>b. is_ascii_alphanumeric b \<or> b \<in> set ''._:-'') value) InvalidArgument"

definition scalar_digest :: "string \<Rightarrow> validation_error + unit" where
  "scalar_digest value = map_invalid (sha256_digest_parse value)"

definition scalar_visible_ascii :: "string \<Rightarrow> nat \<Rightarrow> validation_error + unit" where
  "scalar_visible_ascii value maximum =
     (if length value > maximum then Inl Limit
      else require (value \<noteq> [] \<and> list_all (\<lambda>b. CHR ''!'' \<le> b \<and> b \<le> CHR ''~'') value) InvalidArgument)"

definition is_unsafe_char :: "nat \<Rightarrow> bool" where
  "is_unsafe_char v \<longleftrightarrow>
     v \<le> 8 \<or> (11 \<le> v \<and> v \<le> 31) \<or> (127 \<le> v \<and> v \<le> 159) \<or>
     v = 1564 \<or> v = 8206 \<or> v = 8207 \<or> (8234 \<le> v \<and> v \<le> 8238) \<or> (8294 \<le> v \<and> v \<le> 8297)"

definition scalar_safe :: "string \<Rightarrow> nat \<Rightarrow> bool \<Rightarrow> validation_error + unit" where
  "scalar_safe value maximum nonempty =
     (if length value > maximum then Inl Limit
      else if (nonempty \<and> value = []) \<or> list_ex is_unsafe_char (utf8_chars value)
      then Inl InvalidArgument else Inr ())"

definition scalar_label :: "string \<Rightarrow> nat \<Rightarrow> validation_error + unit" where
  "scalar_label value maximum =
     and_then (scalar_safe value maximum True) (\<lambda>_.
       if list_ex (\<lambda>c. c = CHR 0x09 \<or> c = CHR 0x0A) value then Inl InvalidArgument else Inr ())"

definition scalar_stamp :: "string \<Rightarrow> string \<Rightarrow> validation_error + unit" where
  "scalar_stamp value prefix =
     (if take (length prefix) value \<noteq> prefix then Inl InvalidArgument
      else let suffix = drop (length prefix) value in
        require (length suffix = 32 \<and> list_all is_lower_hex suffix) InvalidArgument)"

lemma map_invalid_Inr [simp]: "map_invalid r = Inr u \<longleftrightarrow> is_ok r"
  by (cases r) (simp_all add: map_invalid_def)

lemma scalar_safe_Inr:
  "scalar_safe s n ne = Inr u \<longleftrightarrow>
     length s \<le> n \<and> (ne \<longrightarrow> s \<noteq> []) \<and> list_all (\<lambda>c. \<not> is_unsafe_char c) (utf8_chars s)"
  by (auto simp: scalar_safe_def list_all_iff list_ex_iff split: if_splits)

text \<open>The operation-id grammar is written three times in the workspace, as the Host vault's
  \<open>is\_valid\_operation\_id\<close>, its \<open>validate\_local\_id\<close> and the plugin host's
  \<open>scalar::operation\_id\<close>. The three accept the same strings, so an operation id the plugin host
  admits is always one the vault can store.\<close>

theorem operation_id_grammars_agree:
  "(scalar_operation_id value = Inr () \<longleftrightarrow> vault_is_valid_operation_id value) \<and>
   (validate_local_id value = Inr () \<longleftrightarrow> vault_is_valid_operation_id value)"
proof -
  have sep: "scalar_is_separator = is_id_separator"
    by (auto simp: fun_eq_iff scalar_is_separator_def is_id_separator_def)
  show ?thesis
    by (auto simp: scalar_operation_id_def scalar_is_valid_operation_id_def sep
        vault_is_valid_operation_id_def validate_local_id_def)
qed

text \<open>The tracking grammar of \<open>scalar.rs\<close> and the one behind \<open>RequestId\<close> and \<open>TurnId\<close> are the same.\<close>

lemma tracking_id_grammars_agree:
  "scalar_tracking_id s = Inr () \<longleftrightarrow> scalar_request_id s = Inr ()"
  "scalar_tracking_id s = Inr () \<longleftrightarrow> scalar_turn_id s = Inr ()"
  by (auto simp: scalar_tracking_id_def scalar_request_id_def scalar_turn_id_def
      request_id_parse_def turn_id_parse_def is_tracking_id_def)


subsection \<open>Flat JSON documents (wire\_json.rs)\<close>

definition MAX_WIRE_NODES :: nat where "MAX_WIRE_NODES = 262144"
definition MAX_WIRE_DEPTH :: nat where "MAX_WIRE_DEPTH = 64"
definition MAX_KEY_BYTES :: nat where "MAX_KEY_BYTES = 256"
definition MAX_NUMBER_BYTES :: nat where "MAX_NUMBER_BYTES = 128"

text \<open>The WIT types: a field is a record of key and child index, a node the variant of the
  interface, a document the node vector with its root index.\<close>

record wire_json_field =
  wf_key :: string
  wf_value :: nat

datatype wire_json_node =
    NullValue
  | BooleanValue bool
  | NumberValue string
  | StringValue string
  | ArrayValue "nat list"
  | ObjectValue "wire_json_field list"

record wire_json_document =
  wd_root :: nat
  wd_nodes :: "wire_json_node list"

text \<open>The kind of a reasoning block, in the request history and in the decoder's events.\<close>

datatype reasoning_kind = Thinking | Summary

record wire_json_stats =
  ws_logical_charge :: nat
  ws_depth :: nat

subsubsection \<open>Canonical numbers\<close>

function skip_digits :: "string \<Rightarrow> nat \<Rightarrow> nat" where
  "skip_digits bytes index =
     (if index < length bytes \<and> is_ascii_digit (bytes ! index)
      then skip_digits bytes (index + 1) else index)"
  by pat_completeness auto
termination
  by (relation "measure (\<lambda>(bytes, index). length bytes - index)") auto

declare skip_digits.simps [simp del]

definition consume_fraction :: "string \<Rightarrow> nat \<Rightarrow> bool \<times> nat" where
  "consume_fraction bytes start =
     (let index = skip_digits bytes start in
      (index > start \<and> bytes ! (index - 1) \<noteq> CHR ''0'', index))"

definition is_digit1 :: "char \<Rightarrow> bool" where
  "is_digit1 c \<longleftrightarrow> CHR ''1'' \<le> c \<and> c \<le> CHR ''9''"

text \<open>The mantissa and the exponent of \<open>is\_canonical\_number\<close>; \<open>None\<close> is its \<open>return false\<close>.\<close>

definition number_mantissa :: "string \<Rightarrow> nat \<Rightarrow> nat option" where
  "number_mantissa bytes index =
     (if bytes ! index = CHR ''0'' then
        let index = index + 1 in
        if index = length bytes \<or> bytes ! index \<noteq> CHR ''.'' then None
        else let (ok, index) = consume_fraction bytes (index + 1) in if ok then Some index else None
      else if is_digit1 (bytes ! index) then
        let index = skip_digits bytes (index + 1) in
        if index < length bytes \<and> bytes ! index = CHR ''.'' then
          let (ok, index) = consume_fraction bytes (index + 1) in if ok then Some index else None
        else Some index
      else None)"

definition number_exponent :: "string \<Rightarrow> nat \<Rightarrow> nat option" where
  "number_exponent bytes index =
     (if index < length bytes \<and> bytes ! index = CHR ''e'' then
        let index = index + 1;
            index = (if index < length bytes \<and> bytes ! index = CHR ''-'' then index + 1 else index) in
        if index = length bytes \<or> \<not> is_digit1 (bytes ! index) then None
        else Some (skip_digits bytes (index + 1))
      else Some index)"

definition is_canonical_number :: "string \<Rightarrow> bool" where
  "is_canonical_number value =
     (if \<not> (1 \<le> length value \<and> length value \<le> MAX_NUMBER_BYTES) \<or> \<not> list_all is_ascii_byte value
      then False
      else if value = ''0'' then True
      else let index = (if value ! 0 = CHR ''-'' then 1 else 0) in
        if index = length value then False
        else case number_mantissa value index of
            None \<Rightarrow> False
          | Some index \<Rightarrow>
             (case number_exponent value index of
                None \<Rightarrow> False
              | Some index \<Rightarrow> index = length value))"

subsubsection \<open>Validation\<close>

definition add_parent :: "nat \<Rightarrow> nat \<Rightarrow> nat list \<Rightarrow> validation_error + nat list" where
  "add_parent index child parents =
     (if child \<ge> index then Inl InvalidArgument
      else and_then (ok_or (checked_add 32 (parents ! child) 1) Limit) (\<lambda>n.
        let parents = parents[child := n] in
        if parents ! child > 1 then Inl InvalidArgument else Inr parents))"

definition depth_successor :: "nat \<Rightarrow> validation_error + nat" where
  "depth_successor d = ok_or (checked_add 8 d 1) Limit"

definition container_depth :: "nat list \<Rightarrow> nat list \<Rightarrow> validation_error + nat" where
  "container_depth children depths =
     depth_successor (fold max (map (\<lambda>child. depths ! child) children) 0)"

definition array_item ::
  "nat \<Rightarrow> nat list \<times> logical_charge \<Rightarrow> nat \<Rightarrow> validation_error + nat list \<times> logical_charge" where
  "array_item index s child = (case s of (parents, charge) \<Rightarrow>
     and_then (charge_add charge 4) (\<lambda>charge.
       and_then (add_parent index child parents) (\<lambda>parents. Inr (parents, charge))))"

text \<open>The state of the object loop: parents, charge, previous key and deepest child.\<close>

definition object_field ::
  "nat \<Rightarrow> nat list \<Rightarrow> nat list \<times> logical_charge \<times> string option \<times> nat \<Rightarrow> wire_json_field \<Rightarrow>
   validation_error + nat list \<times> logical_charge \<times> string option \<times> nat" where
  "object_field index depths s field = (case s of (parents, charge, previous, child_depth) \<Rightarrow>
     and_then (charge_string charge (wf_key field)) (\<lambda>charge.
     and_then (charge_add charge 4) (\<lambda>charge.
     and_then (scalar_safe (wf_key field) MAX_KEY_BYTES False) (\<lambda>_.
       if (case previous of None \<Rightarrow> False | Some old \<Rightarrow> wf_key field \<le> old)
       then Inl InvalidArgument
       else and_then (add_parent index (wf_value field) parents) (\<lambda>parents.
         Inr (parents, charge, Some (wf_key field),
              max child_depth (depths ! wf_value field)))))))"

definition validate_node ::
  "nat \<Rightarrow> wire_json_node \<Rightarrow> nat list \<Rightarrow> nat list \<Rightarrow> logical_charge \<Rightarrow>
   validation_error + nat \<times> nat list \<times> logical_charge" where
  "validate_node index node parents depths charge =
     and_then (charge_add charge 4) (\<lambda>charge.
       case node of
         NullValue \<Rightarrow> Inr (1, parents, charge)
       | BooleanValue _ \<Rightarrow> and_then (charge_add charge 1) (\<lambda>charge. Inr (1, parents, charge))
       | NumberValue value \<Rightarrow>
           and_then (charge_string charge value) (\<lambda>charge.
             if \<not> is_canonical_number value then Inl InvalidArgument
             else Inr (1, parents, charge))
       | StringValue value \<Rightarrow>
           and_then (charge_string charge value) (\<lambda>charge.
           and_then (scalar_safe value MAX_SAFE_TEXT_BYTES False) (\<lambda>_.
             Inr (1, parents, charge)))
       | ArrayValue items \<Rightarrow>
           and_then (charge_add charge 4) (\<lambda>charge.
           and_then (try_fold (array_item index) (parents, charge) items) (\<lambda>(parents, charge).
           and_then (container_depth items depths) (\<lambda>d. Inr (d, parents, charge))))
       | ObjectValue flds \<Rightarrow>
           and_then (charge_add charge 4) (\<lambda>charge.
           and_then (try_fold (object_field index depths) (parents, charge, None, 0) flds)
             (\<lambda>(parents, charge, _, child_depth).
           and_then (depth_successor child_depth) (\<lambda>d. Inr (d, parents, charge)))))"

definition validate_step ::
  "nat list \<times> nat list \<times> logical_charge \<Rightarrow> nat \<times> wire_json_node \<Rightarrow>
   validation_error + nat list \<times> nat list \<times> logical_charge" where
  "validate_step s x = (case s of (parents, depths, charge) \<Rightarrow> case x of (index, node) \<Rightarrow>
     and_then (validate_node index node parents depths charge) (\<lambda>(depth, parents, charge).
       if depth > MAX_WIRE_DEPTH then Inl Limit
       else Inr (parents, depths @ [depth], charge)))"

definition is_object :: "wire_json_node \<Rightarrow> bool" where
  "is_object node = (case node of ObjectValue _ \<Rightarrow> True | _ \<Rightarrow> False)"

definition validate_wire_json ::
  "wire_json_document \<Rightarrow> bool \<Rightarrow> validation_error + wire_json_stats" where
  "validate_wire_json document object_root =
     (let nodes = wd_nodes document in
      if nodes = [] \<or> length nodes > MAX_WIRE_NODES then Inl Limit
      else if \<not> length nodes - 1 < 2 ^ 32 then Inl Limit
      else if wd_root document \<noteq> length nodes - 1 then Inl InvalidArgument
      else if object_root \<and> \<not> is_object (last nodes) then Inl InvalidArgument
      else
        and_then (charge_add (charge_new MAX_LOGICAL_CHARGE) 4) (\<lambda>charge.
        and_then (charge_add charge 4) (\<lambda>charge.
        and_then (try_fold validate_step (replicate (length nodes) 0, [], charge)
                    (List.enumerate 0 nodes)) (\<lambda>(parents, depths, charge).
          if last parents \<noteq> 0 \<or> list_ex (\<lambda>count. count \<noteq> 1) (butlast parents)
          then Inl InvalidArgument
          else Inr \<lparr>ws_logical_charge = lc_value charge, ws_depth = depths ! wd_root document\<rparr>))))"

subsubsection \<open>Serialization\<close>

text \<open>
  The serializer recurses over child indices. The fuel of the two recursions bounds the depth; for a
  validated document a child index is below its parent's, so the number of nodes is enough. \<open>None\<close>
  is a spent fuel or an index out of range.
\<close>

definition stats_add :: "nat \<Rightarrow> nat \<Rightarrow> validation_error + nat" where
  "stats_add left right = ok_or (checked_add 64 left right) Limit"

definition escaped_byte :: "char \<Rightarrow> bool" where
  "escaped_byte b \<longleftrightarrow> b \<in> {CHR 0x22, CHR 0x5C, CHR 0x09, CHR 0x0A}"

definition quote_or_backslash :: "char \<Rightarrow> bool" where
  "quote_or_backslash b \<longleftrightarrow> b = CHR 0x22 \<or> b = CHR 0x5C"

definition string_stats_step :: "nat \<times> nat \<Rightarrow> char \<Rightarrow> validation_error + nat \<times> nat" where
  "string_stats_step s byte = (case s of (len, escapes) \<Rightarrow>
     let escaped = escaped_byte byte in
     and_then (stats_add len (if escaped then 2 else 1)) (\<lambda>len.
       if escaped then
         and_then (stats_add escapes ((if quote_or_backslash byte then 1 else 0) + 1))
           (\<lambda>escapes. Inr (len, escapes))
       else Inr (len, escapes)))"

definition serialized_string_stats :: "string \<Rightarrow> validation_error + nat \<times> nat" where
  "serialized_string_stats value = try_fold string_stats_step (2, 2) value"

definition comma_stats :: "nat \<Rightarrow> nat \<Rightarrow> validation_error + nat" where
  "comma_stats position len = (if position \<noteq> 0 then stats_add len 1 else Inr len)"

definition add_child_stats ::
  "nat \<times> nat \<Rightarrow> (validation_error + nat \<times> nat) option \<Rightarrow> (validation_error + nat \<times> nat) option" where
  "add_child_stats s child = (case s of (len, escapes) \<Rightarrow>
     fuel_then child (\<lambda>c. Some (
       and_then (stats_add len (fst c)) (\<lambda>len.
       and_then (stats_add escapes (snd c)) (\<lambda>escapes. Inr (len, escapes))))))"

fun serialized_node_stats ::
  "nat \<Rightarrow> wire_json_node list \<Rightarrow> nat \<Rightarrow> (validation_error + nat \<times> nat) option" where
  "serialized_node_stats 0 nodes index = None"
| "serialized_node_stats (Suc fuel) nodes index =
     (case nth_opt nodes index of
        None \<Rightarrow> None
      | Some node \<Rightarrow> (case node of
          NullValue \<Rightarrow> Some (Inr (4, 0))
        | BooleanValue b \<Rightarrow> Some (Inr (if b then 4 else 5, 0))
        | NumberValue value \<Rightarrow> Some (and_then (checked_len (length value)) (\<lambda>l. Inr (l, 0)))
        | StringValue value \<Rightarrow> Some (serialized_string_stats value)
        | ArrayValue items \<Rightarrow>
            fuel_fold (\<lambda>(len, escapes) (position, child).
                fuel_then (Some (comma_stats position len)) (\<lambda>len.
                  add_child_stats (len, escapes) (serialized_node_stats fuel nodes child)))
              (2, 0) (List.enumerate 0 items)
        | ObjectValue flds \<Rightarrow>
            fuel_fold (\<lambda>(len, escapes) (position, field).
                fuel_then (Some (comma_stats position len)) (\<lambda>len.
                fuel_then (add_child_stats (len, escapes)
                             (Some (serialized_string_stats (wf_key field)))) (\<lambda>(len, escapes).
                fuel_then (Some (stats_add len 1)) (\<lambda>len.
                  add_child_stats (len, escapes) (serialized_node_stats fuel nodes (wf_value field))))))
              (2, 0) (List.enumerate 0 flds)))"

definition escape_byte :: "char \<Rightarrow> string" where
  "escape_byte b =
     (if b = CHR 0x22 then [CHR 0x5C, CHR 0x22]
      else if b = CHR 0x5C then [CHR 0x5C, CHR 0x5C]
      else if b = CHR 0x09 then [CHR 0x5C, CHR ''t'']
      else if b = CHR 0x0A then [CHR 0x5C, CHR ''n'']
      else [b])"

definition serialize_string :: "string \<Rightarrow> string \<Rightarrow> string" where
  "serialize_string value out =
     fold (\<lambda>byte out. out @ escape_byte byte) value (out @ [CHR 0x22]) @ [CHR 0x22]"

fun serialize_node :: "nat \<Rightarrow> wire_json_node list \<Rightarrow> nat \<Rightarrow> string \<Rightarrow> string option" where
  "serialize_node 0 nodes index out = None"
| "serialize_node (Suc fuel) nodes index out =
     (case nth_opt nodes index of
        None \<Rightarrow> None
      | Some node \<Rightarrow> (case node of
          NullValue \<Rightarrow> Some (out @ ''null'')
        | BooleanValue b \<Rightarrow> Some (out @ (if b then ''true'' else ''false''))
        | NumberValue value \<Rightarrow> Some (out @ value)
        | StringValue value \<Rightarrow> Some (serialize_string value out)
        | ArrayValue items \<Rightarrow>
            map_option (\<lambda>out. out @ '']'') (fold_opt (\<lambda>out (position, child).
                serialize_node fuel nodes child (if position \<noteq> 0 then out @ '','' else out))
              (out @ ''['') (List.enumerate 0 items))
        | ObjectValue flds \<Rightarrow>
            map_option (\<lambda>out. out @ ''}'') (fold_opt (\<lambda>out (position, field).
                let out = (if position \<noteq> 0 then out @ '','' else out);
                    out = serialize_string (wf_key field) out @ '':'' in
                serialize_node fuel nodes (wf_value field) out)
              (out @ ''{'') (List.enumerate 0 flds))))"

definition serialize_sized ::
  "nat \<Rightarrow> wire_json_document \<Rightarrow> nat \<Rightarrow> (validation_error + string) option" where
  "serialize_sized fuel document len =
     (if len > MAX_LOGICAL_CHARGE then Some (Inl Limit)
      else case serialize_node fuel (wd_nodes document) (wd_root document) [] of
          None \<Rightarrow> None
        | Some out \<Rightarrow> Some (if length out \<noteq> len then Inl InvalidArgument else Inr out))"

definition canonical_serialize ::
  "nat \<Rightarrow> wire_json_document \<Rightarrow> (validation_error + string) option" where
  "canonical_serialize fuel document =
     fuel_then (Some (validate_wire_json document False)) (\<lambda>_.
     fuel_then (serialized_node_stats fuel (wd_nodes document) (wd_root document)) (\<lambda>(len, _).
       serialize_sized fuel document len))"

definition canonical_serialize_for_json_string ::
  "nat \<Rightarrow> wire_json_document \<Rightarrow> (validation_error + string) option" where
  "canonical_serialize_for_json_string fuel document =
     fuel_then (Some (validate_wire_json document True)) (\<lambda>_.
     fuel_then (serialized_node_stats fuel (wd_nodes document) (wd_root document)) (\<lambda>(len, escapes).
     fuel_then (Some (and_then (stats_add 2 len) (\<lambda>n. stats_add n escapes))) (\<lambda>enclosing_length.
       if enclosing_length > MAX_LOGICAL_CHARGE then Some (Inl Limit)
       else serialize_sized fuel document len)))"


subsection \<open>The specification: JSON trees\<close>

datatype json =
    JNull
  | JBool bool
  | JNumber string
  | JString string
  | JArray "json list"
  | JObject "(string \<times> json) list"

definition quote :: "string \<Rightarrow> string" where
  "quote s = [CHR 0x22] @ concat (map escape_byte s) @ [CHR 0x22]"

definition comma_tail :: "string list \<Rightarrow> string" where
  "comma_tail rs = concat (map ((@) '','') rs)"

fun commas :: "string list \<Rightarrow> string" where
  "commas [] = []"
| "commas (r # rs) = r @ comma_tail rs"

fun render :: "json \<Rightarrow> string" where
  "render JNull = ''null''"
| "render (JBool b) = (if b then ''true'' else ''false'')"
| "render (JNumber s) = s"
| "render (JString s) = quote s"
| "render (JArray ts) = ''['' @ commas (map render ts) @ '']''"
| "render (JObject fs) = ''{'' @ commas (map (\<lambda>(k, t). quote k @ '':'' @ render t) fs) @ ''}''"

fun json_depth :: "json \<Rightarrow> nat" where
  "json_depth (JArray ts) = Suc (fold max (map json_depth ts) 0)"
| "json_depth (JObject fs) = Suc (fold max (map (\<lambda>(_, t). json_depth t) fs) 0)"
| "json_depth _ = 1"

text \<open>The tree below a node.\<close>

fun tree_at :: "nat \<Rightarrow> wire_json_node list \<Rightarrow> nat \<Rightarrow> json option" where
  "tree_at 0 nodes index = None"
| "tree_at (Suc fuel) nodes index =
     (case nth_opt nodes index of
        None \<Rightarrow> None
      | Some node \<Rightarrow> (case node of
          NullValue \<Rightarrow> Some JNull
        | BooleanValue b \<Rightarrow> Some (JBool b)
        | NumberValue s \<Rightarrow> Some (JNumber s)
        | StringValue s \<Rightarrow> Some (JString s)
        | ArrayValue items \<Rightarrow> map_option JArray (those (map (tree_at fuel nodes) items))
        | ObjectValue flds \<Rightarrow>
            map_option (\<lambda>ts. JObject (zip (map wf_key flds) ts))
              (those (map (\<lambda>f. tree_at fuel nodes (wf_value f)) flds))))"

fun children :: "wire_json_node \<Rightarrow> nat list" where
  "children (ArrayValue items) = items"
| "children (ObjectValue flds) = map wf_value flds"
| "children _ = []"

definition escapes_in :: "string \<Rightarrow> nat" where
  "escapes_in s = length (filter quote_or_backslash s)"

lemma those_eq_Some:
  "those xs = Some ys \<longleftrightarrow> xs = map Some ys"
  by (induction xs arbitrary: ys) (auto split: option.splits simp: Cons_eq_map_conv)

lemma map_Some_nth:
  assumes "map f xs = map Some ts"
  shows "length xs = length ts \<and> (\<forall>i<length xs. f (xs ! i) = Some (ts ! i))"
  using assms by (metis length_map nth_map)

lemma map_Some_not_None: "map f xs = map Some ts \<Longrightarrow> x \<in> set xs \<Longrightarrow> \<exists>y. f x = Some y"
  by (induction xs arbitrary: ts) (auto simp: Cons_eq_map_conv)

lemma serialize_string_quote: "serialize_string s out = out @ quote s"
proof -
  have "fold (\<lambda>byte out. out @ escape_byte byte) s out = out @ concat (map escape_byte s)" for out
    by (induction s arbitrary: out) simp_all
  then show ?thesis by (simp add: serialize_string_def quote_def)
qed

subsubsection \<open>Rendering\<close>

lemma fold_opt_commas:
  assumes "list_all2 (\<lambda>x r. \<forall>out. f out x = Some (out @ r)) xs rs"
  shows "fold_opt (\<lambda>out (position, x). f (if position \<noteq> 0 then out @ '','' else out) x)
           out (List.enumerate k xs)
         = Some (out @ (if k = 0 then commas rs else comma_tail rs))"
  using assms
proof (induction xs rs arbitrary: k out rule: list_all2_induct)
  case Nil
  then show ?case by (simp add: comma_tail_def)
next
  case (Cons x xs r rs)
  show ?case using Cons.hyps(1) Cons.IH [of _ "Suc k"] by (simp add: comma_tail_def)
qed

lemma serialize_node_render:
  "tree_at fuel nodes index = Some t \<Longrightarrow> serialize_node fuel nodes index out = Some (out @ render t)"
proof (induction fuel arbitrary: index t out)
  case 0
  then show ?case by simp
next
  case (Suc fuel)
  from Suc.prems have "index < length nodes" by (auto split: option.splits)
  then show ?case
  proof (cases "nodes ! index")
    case (ArrayValue items)
    with Suc.prems \<open>index < length nodes\<close> obtain ts
      where ts: "map (tree_at fuel nodes) items = map Some ts" "t = JArray ts"
      by (auto simp: nth_opt_def those_eq_Some)
    have "list_all2 (\<lambda>c r. \<forall>out. serialize_node fuel nodes c out = Some (out @ r))
        items (map render ts)"
      unfolding list_all2_conv_all_nth using map_Some_nth [OF ts(1)] Suc.IH by auto
    from fold_opt_commas [OF this [THEN list_all2_mono], of
        "\<lambda>out c. serialize_node fuel nodes c out" "out @ ''[''" 0]
    show ?thesis using ArrayValue \<open>index < length nodes\<close> ts(2)
      by (simp add: nth_opt_def split_def)
  next
    case (ObjectValue flds)
    with Suc.prems \<open>index < length nodes\<close> obtain ts
      where ts: "map (\<lambda>f. tree_at fuel nodes (wf_value f)) flds = map Some ts"
        "t = JObject (zip (map wf_key flds) ts)"
      by (auto simp: nth_opt_def those_eq_Some)
    note nth = map_Some_nth [OF ts(1)]
    have "list_all2 (\<lambda>f r. \<forall>out. serialize_node fuel nodes (wf_value f)
            (serialize_string (wf_key f) out @ '':'') = Some (out @ r))
        flds (map (\<lambda>(k, t). quote k @ '':'' @ render t) (zip (map wf_key flds) ts))"
      unfolding list_all2_conv_all_nth
    proof (intro conjI allI impI)
      fix i out assume i: "i < length flds"
      then have "tree_at fuel nodes (wf_value (flds ! i)) = Some (ts ! i)"
        using nth by blast
      then show "serialize_node fuel nodes (wf_value (flds ! i))
            (serialize_string (wf_key (flds ! i)) out @ '':'')
          = Some (out @ map (\<lambda>(k, t). quote k @ '':'' @ render t) (zip (map wf_key flds) ts) ! i)"
        using i nth by (simp add: Suc.IH serialize_string_quote)
    qed (use nth in simp)
    from fold_opt_commas [OF this [THEN list_all2_mono], of
        "\<lambda>out f. serialize_node fuel nodes (wf_value f) (serialize_string (wf_key f) out @ '':'')"
        "out @ ''{''" 0]
    show ?thesis using ObjectValue \<open>index < length nodes\<close> ts(2)
      by (simp add: nth_opt_def split_def Let_def)
  qed (use Suc.prems in \<open>auto simp: nth_opt_def serialize_string_quote\<close>)
qed

subsubsection \<open>The computed length and number of escapes\<close>

lemma stats_add_Inr [simp]: "stats_add a b = Inr c \<longleftrightarrow> c = a + b \<and> a + b < 2 ^ 64"
  by (simp add: stats_add_def)

lemma stats_add_Inl [simp]: "stats_add a b = Inl e \<Longrightarrow> e = Limit"
  by (simp add: stats_add_def)

lemma escapes_in_Nil [simp]: "escapes_in [] = 0"
  by (simp add: escapes_in_def)

lemma escapes_in_Cons [simp]:
  "escapes_in (c # s) = (if quote_or_backslash c then 1 else 0) + escapes_in s"
  by (simp add: escapes_in_def)

lemma escapes_in_append [simp]: "escapes_in (s @ t) = escapes_in s + escapes_in t"
  by (simp add: escapes_in_def)

lemma escapes_in_escape_byte:
  "escapes_in (escape_byte b) =
     (if escaped_byte b then (if quote_or_backslash b then 2 else 1) else 0)"
  "length (escape_byte b) = (if escaped_byte b then 2 else 1)"
  by (auto simp: escape_byte_def escapes_in_def escaped_byte_def quote_or_backslash_def)

lemma escapes_in_le: "escapes_in s \<le> length s"
  by (simp add: escapes_in_def)

text \<open>Appending \<open>r\<close> to an output of \<open>l\<close> bytes with \<open>e\<close> escapes, in checked arithmetic.\<close>

definition advance :: "nat \<Rightarrow> nat \<Rightarrow> string \<Rightarrow> validation_error + nat \<times> nat" where
  "advance l e r = (if l + length r < 2 ^ 64 then Inr (l + length r, e + escapes_in r) else Inl Limit)"

lemma advance_Nil [simp]: "l < 2 ^ 64 \<Longrightarrow> advance l e [] = Inr (l, e)"
  by (simp add: advance_def)

lemma advance_append:
  assumes "e \<le> l"
  shows "and_then (advance l e r) (\<lambda>(l, e). advance l e s) = advance l e (r @ s)"
  by (auto simp: advance_def)

lemma stats_add_eq: "stats_add a b = (if a + b < 2 ^ 64 then Inr (a + b) else Inl Limit)"
  by (simp add: stats_add_def checked_add_def)

lemma add_child_stats_advance:
  assumes "e \<le> l" and "r = Some (advance 0 0 t)"
  shows "add_child_stats (l, e) r = Some (advance l e t)"
  using assms escapes_in_le [of t]
  by (auto simp: add_child_stats_def advance_def stats_add_eq)

lemma string_stats_step_advance:
  assumes "e \<le> l"
  shows "string_stats_step (l, e) b = advance l e (escape_byte b)"
  using assms
  by (auto simp: string_stats_step_def advance_def stats_add_eq escapes_in_escape_byte Let_def)

lemma string_stats_fold:
  assumes "e \<le> l" and "l < 2 ^ 64"
  shows "try_fold string_stats_step (l, e) s = advance l e (concat (map escape_byte s))"
  using assms
proof (induction s arbitrary: l e)
  case Nil
  then show ?case by simp
next
  case (Cons b s)
  have "try_fold string_stats_step (l, e) (b # s)
      = and_then (advance l e (escape_byte b)) (\<lambda>(l, e). try_fold string_stats_step (l, e) s)"
    using Cons.prems by (simp add: string_stats_step_advance split_def)
  also have "\<dots> = and_then (advance l e (escape_byte b))
      (\<lambda>(l, e). advance l e (concat (map escape_byte s)))"
    using Cons.prems escapes_in_le [of "escape_byte b"]
    by (intro and_then_cong refl) (auto simp: advance_def Cons.IH split: if_splits)
  finally show ?case using Cons.prems by (simp add: advance_append)
qed

lemma serialized_string_stats_advance: "serialized_string_stats s = advance 0 0 (quote s)"
  using string_stats_fold [of 2 2 s]
  by (simp add: serialized_string_stats_def advance_def quote_def quote_or_backslash_def)

lemma comma_stats_advance:
  assumes "l < 2 ^ 64"
  shows "and_then (comma_stats k l) (\<lambda>l. f l) =
    and_then (advance l e (if k = 0 then [] else '','')) (\<lambda>(l, _). f l)"
  using assms by (simp add: comma_stats_def advance_def stats_add_eq)

lemma fuel_then_Some: "fuel_then (Some r) (\<lambda>x. Some (f x)) = Some (and_then r f)"
  by (cases r) simp_all

lemma fuel_fold_commas_stats:
  assumes "list_all2 (\<lambda>x r. \<forall>l e. e \<le> l \<longrightarrow> l < 2 ^ 64 \<longrightarrow> g (l, e) x = Some (advance l e r)) xs rs"
    and "e \<le> l" and "l < 2 ^ 64"
  shows "fuel_fold (\<lambda>(l, e) (position, x). fuel_then (Some (comma_stats position l)) (\<lambda>l. g (l, e) x))
           (l, e) (List.enumerate k xs)
         = Some (advance l e (if k = 0 then commas rs else comma_tail rs))"
  using assms
proof (induction xs rs arbitrary: k l e rule: list_all2_induct)
  case Nil
  then show ?case by (simp add: comma_tail_def)
next
  case (Cons x xs r rs)
  let ?c = "if k = 0 then [] else '',''"
  have le: "e + escapes_in (?c @ r) \<le> l + length (?c @ r)"
    using Cons.prems(1) escapes_in_le [of "?c @ r"] by linarith
  have step: "fuel_then (Some (comma_stats k l)) (\<lambda>l. g (l, e) x) = Some (advance l e (?c @ r))"
    using Cons.prems Cons.hyps(1)
    by (auto simp: comma_stats_def stats_add_eq advance_def quote_or_backslash_def)
  show ?case
  proof (cases "l + length (?c @ r) < 2 ^ 64")
    case True
    then show ?thesis
      using step le Cons.IH [of "e + escapes_in (?c @ r)" "l + length (?c @ r)" "Suc k"]
      by (auto simp: advance_def comma_tail_def quote_or_backslash_def)
  next
    case False
    then show ?thesis using step by (auto simp: advance_def comma_tail_def)
  qed
qed

text \<open>Numbers are the one leaf whose bytes are copied unread; validation keeps quotes, backslashes
  and whitespace out of them.\<close>

definition plain_numbers :: "wire_json_node list \<Rightarrow> bool" where
  "plain_numbers nodes \<longleftrightarrow>
     (\<forall>s. NumberValue s \<in> set nodes \<longrightarrow> list_all (\<lambda>c. \<not> escaped_byte c) s)"

lemma escapes_in_plain: "list_all (\<lambda>c. \<not> escaped_byte c) s \<Longrightarrow> escapes_in s = 0"
  by (auto simp: escapes_in_def list_all_iff filter_empty_conv escaped_byte_def quote_or_backslash_def)

lemma node_stats_exact:
  assumes plain: "plain_numbers nodes"
  shows "tree_at fuel nodes index = Some t \<Longrightarrow>
     serialized_node_stats fuel nodes index = Some (advance 0 0 (render t))"
proof (induction fuel arbitrary: index t)
  case 0
  then show ?case by simp
next
  case (Suc fuel)
  from Suc.prems(1) have idx: "index < length nodes" by (auto split: option.splits)
  show ?case
  proof (cases "nodes ! index")
    case (NumberValue s)
    then have "escapes_in s = 0"
      using plain idx escapes_in_plain by (metis nth_mem plain_numbers_def)
    with NumberValue Suc.prems idx show ?thesis
      by (auto simp: nth_opt_def checked_len_def advance_def)
  next
    case (ArrayValue items)
    with Suc.prems(1) idx obtain ts
      where ts: "map (tree_at fuel nodes) items = map Some ts" "t = JArray ts"
      by (auto simp: nth_opt_def those_eq_Some)
    have "list_all2 (\<lambda>c r. \<forall>l e. e \<le> l \<longrightarrow> l < 2 ^ 64 \<longrightarrow>
        add_child_stats (l, e) (serialized_node_stats fuel nodes c) = Some (advance l e r))
        items (map render ts)"
      unfolding list_all2_conv_all_nth using map_Some_nth [OF ts(1)]
      by (auto intro!: add_child_stats_advance Suc.IH)
    from fuel_fold_commas_stats [OF this, of 0 2 0] ArrayValue idx ts(2)
    show ?thesis by (simp add: nth_opt_def advance_def quote_or_backslash_def)
  next
    case (ObjectValue flds)
    with Suc.prems(1) idx obtain ts
      where ts: "map (\<lambda>f. tree_at fuel nodes (wf_value f)) flds = map Some ts"
        "t = JObject (zip (map wf_key flds) ts)"
      by (auto simp: nth_opt_def those_eq_Some)
    have field: "fuel_then (add_child_stats (l, e) (Some (serialized_string_stats (wf_key f))))
          (\<lambda>(l, e). fuel_then (Some (stats_add l 1)) (\<lambda>l.
             add_child_stats (l, e) (serialized_node_stats fuel nodes (wf_value f))))
        = Some (advance l e (quote (wf_key f) @ '':'' @ render u))"
      if "e \<le> l" "tree_at fuel nodes (wf_value f) = Some u"
      for l e u and f :: wire_json_field
    proof -
      let ?q = "quote (wf_key f)"
      have "e + escapes_in ?q \<le> Suc (l + length ?q)" using that(1) escapes_in_le [of ?q] by simp
      from add_child_stats_advance [OF this Suc.IH [OF that(2)]]
      show ?thesis using that(1)
        by (simp add: add_child_stats_advance serialized_string_stats_advance)
          (auto simp: advance_def stats_add_eq quote_or_backslash_def)
    qed
    have "list_all2 (\<lambda>f r. \<forall>l e. e \<le> l \<longrightarrow> l < 2 ^ 64 \<longrightarrow>
        (case (l, e) of (l, e) \<Rightarrow>
          fuel_then (add_child_stats (l, e) (Some (serialized_string_stats (wf_key f))))
          (\<lambda>(l, e). fuel_then (Some (stats_add l 1)) (\<lambda>l.
             add_child_stats (l, e) (serialized_node_stats fuel nodes (wf_value f)))))
          = Some (advance l e r))
        flds (map (\<lambda>(k, t). quote k @ '':'' @ render t) (zip (map wf_key flds) ts))"
      unfolding list_all2_conv_all_nth using map_Some_nth [OF ts(1)] field by auto
    from fuel_fold_commas_stats [OF this, of 0 2 0] ObjectValue idx ts(2)
    show ?thesis by (simp add: nth_opt_def advance_def quote_or_backslash_def split_def)
  next
    case (StringValue s)
    with Suc.prems idx show ?thesis
      by (auto simp: nth_opt_def serialized_string_stats_advance)
  qed (use Suc.prems idx in \<open>auto simp: nth_opt_def advance_def quote_or_backslash_def\<close>)
qed

subsection \<open>What validation establishes\<close>

definition node_fine :: "wire_json_node \<Rightarrow> bool" where
  "node_fine node = (case node of
       NumberValue s \<Rightarrow> is_canonical_number s
     | StringValue s \<Rightarrow> scalar_safe s MAX_SAFE_TEXT_BYTES False = Inr ()
     | ObjectValue flds \<Rightarrow> sorted_wrt (<) (map wf_key flds) \<and>
         list_all (\<lambda>f. scalar_safe (wf_key f) MAX_KEY_BYTES False = Inr ()) flds
     | _ \<Rightarrow> True)"

definition node_charge :: "wire_json_node \<Rightarrow> nat" where
  "node_charge node = 4 + (case node of
       NullValue \<Rightarrow> 0
     | BooleanValue _ \<Rightarrow> 1
     | NumberValue s \<Rightarrow> 4 + length s
     | StringValue s \<Rightarrow> 4 + length s
     | ArrayValue items \<Rightarrow> 4 + 4 * length items
     | ObjectValue flds \<Rightarrow> 4 + sum_list (map (\<lambda>f. 8 + length (wf_key f)) flds))"

lemma add_parent_Inr:
  "add_parent index child parents = Inr parents' \<Longrightarrow>
     child < index \<and> parents' = parents[child := parents ! child + 1]"
  by (auto simp: add_parent_def Let_def split: if_splits)

lemma array_items_Inr:
  assumes "try_fold (array_item index) (parents, charge) items = Inr (parents', charge')"
    and "index \<le> length parents"
  shows "length parents' = length parents \<and>
    (\<forall>c<length parents. parents' ! c = parents ! c + count_list items c) \<and>
    (\<forall>c\<in>set items. c < index) \<and>
    charge' = charge\<lparr>lc_value := lc_value charge + 4 * length items\<rparr>"
proof -
  define P where "P ys s = (case s of (parents', charge') \<Rightarrow> length parents' = length parents \<and>
    (\<forall>c<length parents. parents' ! c = parents ! c + count_list ys c) \<and>
    (\<forall>c\<in>set ys. c < index) \<and>
    charge' = charge\<lparr>lc_value := lc_value charge + 4 * length ys\<rparr>)" for ys s
  have "P items (parents', charge')"
    using assms(1)
  proof (rule try_fold_prefix)
    show "P [] (parents, charge)" by (simp add: P_def)
    show "P (ys @ [x]) t" if "P ys s" "array_item index s x = Inr t" for ys x s t
      using that assms(2)
      by (auto simp: P_def array_item_def charge_add_Inr nth_list_update
          dest!: add_parent_Inr split: prod.splits)
  qed
  then show ?thesis by (simp add: P_def)
qed

lemma object_fields_Inr:
  assumes "try_fold (object_field index depths) (parents, charge, None, 0) flds
             = Inr (parents', charge', previous, d)"
    and "index \<le> length parents"
  shows "length parents' = length parents \<and>
    (\<forall>c<length parents. parents' ! c = parents ! c + count_list (map wf_value flds) c) \<and>
    (\<forall>f\<in>set flds. wf_value f < index) \<and>
    charge' = charge\<lparr>lc_value := lc_value charge + sum_list (map (\<lambda>f. 8 + length (wf_key f)) flds)\<rparr> \<and>
    sorted_wrt (<) (map wf_key flds) \<and>
    list_all (\<lambda>f. scalar_safe (wf_key f) MAX_KEY_BYTES False = Inr ()) flds \<and>
    d = fold max (map (\<lambda>f. depths ! wf_value f) flds) 0"
proof -
  define P where "P ys s = (case s of (parents', charge', previous, d) \<Rightarrow>
    length parents' = length parents \<and>
    (\<forall>c<length parents. parents' ! c = parents ! c + count_list (map wf_value ys) c) \<and>
    (\<forall>f\<in>set ys. wf_value f < index) \<and>
    charge' = charge\<lparr>lc_value := lc_value charge + sum_list (map (\<lambda>f. 8 + length (wf_key f)) ys)\<rparr> \<and>
    sorted_wrt (<) (map wf_key ys) \<and>
    previous = (if ys = [] then None else Some (wf_key (last ys))) \<and>
    list_all (\<lambda>f. scalar_safe (wf_key f) MAX_KEY_BYTES False = Inr ()) ys \<and>
    d = fold max (map (\<lambda>f. depths ! wf_value f) ys) 0)"
    for ys :: "wire_json_field list" and s
  have below: "\<forall>f\<in>set ys. wf_key f < k"
    if "sorted_wrt (<) (map wf_key ys)" "ys \<noteq> []" "wf_key (last ys) < k"
    for ys :: "wire_json_field list" and k
  proof
    fix f assume "f \<in> set ys"
    then obtain i where "i < length ys" "f = ys ! i" by (auto simp: in_set_conv_nth)
    then have "wf_key f \<le> wf_key (last ys)"
      using sorted_keys_nth [OF that(1), of i "length ys - 1"] that(2) by (simp add: last_conv_nth)
    then show "wf_key f < k" using that(3) by (rule le_less_trans)
  qed
  have "P flds (parents', charge', previous, d)"
    using assms(1)
  proof (rule try_fold_prefix)
    show "P [] (parents, charge, None, 0)" by (simp add: P_def)
    show "P (ys @ [x]) t" if "P ys s" "object_field index depths s x = Inr t" for ys x s t
      using that assms(2)
      by (auto simp: P_def object_field_def charge_add_Inr charge_string_Inr nth_list_update
          sorted_wrt_append max.commute not_le
          dest!: add_parent_Inr dest: below split: prod.splits if_splits)
  qed
  then show ?thesis by (simp add: P_def)
qed

lemma node_validated:
  assumes "validate_node index node parents depths charge = Inr (d, parents', charge')"
    and "index \<le> length parents"
  shows "node_fine node \<and> (\<forall>c\<in>set (children node). c < index) \<and> length parents' = length parents \<and>
    (\<forall>c<length parents. parents' ! c = parents ! c + count_list (children node) c) \<and>
    d = (if \<exists>cs. node = ArrayValue cs \<or> (\<exists>fs. node = ObjectValue fs)
         then Suc (fold max (map ((!) depths) (children node)) 0) else 1) \<and>
    charge' = charge\<lparr>lc_value := lc_value charge + node_charge node\<rparr>"
proof (cases node)
  case (ArrayValue items)
  with assms show ?thesis
    by (auto simp: validate_node_def node_fine_def node_charge_def charge_add_Inr
        container_depth_def depth_successor_def dest!: array_items_Inr)
next
  case (ObjectValue flds)
  with assms show ?thesis
    by (auto simp: validate_node_def node_fine_def node_charge_def charge_add_Inr comp_def
        depth_successor_def dest!: object_fields_Inr)
qed (use assms in \<open>auto simp: validate_node_def node_fine_def node_charge_def charge_add_Inr
      charge_string_Inr split: if_splits\<close>)

lemma tree_at_mono:
  "tree_at fuel nodes index = Some t \<Longrightarrow> fuel \<le> fuel' \<Longrightarrow> tree_at fuel' nodes index = Some t"
proof (induction fuel arbitrary: fuel' index t)
  case 0
  then show ?case by simp
next
  case (Suc fuel)
  then obtain f' where f': "fuel' = Suc f'" "fuel \<le> f'" by (cases fuel') auto
  from Suc.prems(1) have idx: "index < length nodes" by (auto split: option.splits)
  show ?case
  proof (cases "nodes ! index")
    case (ArrayValue items)
    with Suc.prems(1) idx obtain ts
      where ts: "map (tree_at fuel nodes) items = map Some ts" "t = JArray ts"
      by (auto simp: nth_opt_def those_eq_Some)
    have "map (tree_at f' nodes) items = map Some ts"
      using map_Some_nth [OF ts(1)] by (intro nth_equalityI) (auto intro: Suc.IH [OF _ f'(2)])
    then show ?thesis using ArrayValue idx f'(1) ts(2) by (simp add: nth_opt_def those_eq_Some)
  next
    case (ObjectValue flds)
    with Suc.prems(1) idx obtain ts
      where ts: "map (\<lambda>f. tree_at fuel nodes (wf_value f)) flds = map Some ts"
        "t = JObject (zip (map wf_key flds) ts)"
      by (auto simp: nth_opt_def those_eq_Some)
    have "map (\<lambda>f. tree_at f' nodes (wf_value f)) flds = map Some ts"
      using map_Some_nth [OF ts(1)] by (intro nth_equalityI) (auto intro: Suc.IH [OF _ f'(2)])
    then have "those (map (\<lambda>f. tree_at f' nodes (wf_value f)) flds) = Some ts"
      by (simp add: those_eq_Some)
    then show ?thesis using ObjectValue idx f'(1) ts(2) by (simp add: nth_opt_def)
  qed (use Suc.prems(1) idx f' in \<open>auto simp: nth_opt_def\<close>)
qed

text \<open>A well-formed document: the nodes in postorder, each but the root the child of exactly one
  later node, the leaves and keys fine, the depth and the charge within their limits.\<close>

definition postorder_tree :: "wire_json_node list \<Rightarrow> bool" where
  "postorder_tree nodes \<longleftrightarrow> nodes \<noteq> [] \<and>
     (\<forall>i<length nodes. \<forall>c\<in>set (children (nodes ! i)). c < i) \<and>
     mset (concat (map children nodes)) = mset [0..<length nodes - 1]"

definition tree_inv ::
  "wire_json_node list \<Rightarrow> nat \<Rightarrow> nat list \<times> nat list \<times> logical_charge \<Rightarrow> bool" where
  "tree_inv nodes k s = (case s of (parents, depths, charge) \<Rightarrow>
     length parents = length nodes \<and> length depths = k \<and>
     (\<forall>c<length nodes. parents ! c = count_list (concat (map children (take k nodes))) c) \<and>
     (\<forall>i<k. \<forall>c\<in>set (children (nodes ! i)). c < i) \<and>
     list_all node_fine (take k nodes) \<and>
     (\<forall>i<k. \<exists>t. tree_at (Suc i) nodes i = Some t \<and> json_depth t = depths ! i \<and>
        depths ! i \<le> MAX_WIRE_DEPTH) \<and>
     charge = \<lparr>lc_value = 8 + sum_list (map node_charge (take k nodes)),
               lc_limit = MAX_LOGICAL_CHARGE\<rparr>)"

lemma subtrees:
  assumes "\<forall>c\<in>set cs. c < k \<and> (\<exists>t. tree_at (Suc c) nodes c = Some t \<and> json_depth t = depths ! c)"
  shows "\<exists>ts. map (tree_at k nodes) cs = map Some ts \<and> map json_depth ts = map ((!) depths) cs"
  using assms
proof (induction cs)
  case Nil
  then show ?case by simp
next
  case (Cons c cs)
  then obtain t ts where "tree_at (Suc c) nodes c = Some t" "c < k" "json_depth t = depths ! c"
    and "map (tree_at k nodes) cs = map Some ts \<and> map json_depth ts = map ((!) depths) cs"
    by auto
  then show ?case
    using tree_at_mono [of "Suc c" nodes c t k] by (intro exI [of _ "t # ts"]) simp
qed

lemma node_tree:
  assumes "k < length nodes"
    and "\<forall>c\<in>set (children (nodes ! k)). c < k \<and>
      (\<exists>t. tree_at (Suc c) nodes c = Some t \<and> json_depth t = depths ! c)"
  shows "\<exists>t. tree_at (Suc k) nodes k = Some t \<and> json_depth t =
    (if \<exists>cs. nodes ! k = ArrayValue cs \<or> (\<exists>fs. nodes ! k = ObjectValue fs)
     then Suc (fold max (map ((!) depths) (children (nodes ! k))) 0) else 1)"
proof -
  from subtrees [OF assms(2)] obtain ts
    where ts: "map (tree_at k nodes) (children (nodes ! k)) = map Some ts"
      "map json_depth ts = map ((!) depths) (children (nodes ! k))" by blast
  show ?thesis
  proof (cases "nodes ! k")
    case (ArrayValue items)
    with ts assms(1) have "tree_at (Suc k) nodes k = Some (JArray ts)"
      by (simp add: nth_opt_def those_eq_Some)
    then show ?thesis using ArrayValue ts(2) by simp
  next
    case (ObjectValue flds)
    with ts(1) have "those (map (\<lambda>f. tree_at k nodes (wf_value f)) flds) = Some ts"
      by (simp add: those_eq_Some comp_def)
    with ObjectValue assms(1)
    have "tree_at (Suc k) nodes k = Some (JObject (zip (map wf_key flds) ts))"
      by (simp add: nth_opt_def)
    moreover have "length flds = length ts" using ObjectValue map_Some_nth [OF ts(1)] by simp
    then have "map (\<lambda>(_, t). json_depth t) (zip (map wf_key flds) ts) = map json_depth ts"
      by (simp add: list_eq_iff_nth_eq)
    ultimately show ?thesis using ObjectValue ts(2) by simp
  qed (use assms(1) in \<open>simp_all add: nth_opt_def\<close>)
qed

declare tree_at.simps [simp del] serialize_node.simps [simp del] serialized_node_stats.simps [simp del]

lemma tree_inv_step:
  assumes "k < length nodes" and "tree_inv nodes k s" and "validate_step s (k, nodes ! k) = Inr s'"
  shows "tree_inv nodes (Suc k) s'"
proof -
  obtain parents depths charge where s: "s = (parents, depths, charge)" by (cases s)
  note inv = assms(2) [unfolded s tree_inv_def prod.case]
  from assms(3) s obtain d parents' charge'
    where v: "validate_node k (nodes ! k) parents depths charge = Inr (d, parents', charge')"
      and d: "d \<le> MAX_WIRE_DEPTH" and s': "s' = (parents', depths @ [d], charge')"
    by (auto simp: validate_step_def split: if_splits)
  have "k \<le> length parents" using inv assms(1) by simp
  note nv = node_validated [OF v this]
  have below: "\<forall>c\<in>set (children (nodes ! k)). c < k" using nv by blast
  then have "\<forall>c\<in>set (children (nodes ! k)). c < k \<and>
      (\<exists>t. tree_at (Suc c) nodes c = Some t \<and> json_depth t = depths ! c)"
    using inv by blast
  from node_tree [OF assms(1) this] nv
  have tree: "\<exists>t. tree_at (Suc k) nodes k = Some t \<and> json_depth t = d" by simp
  have depths: "\<exists>t. tree_at (Suc i) nodes i = Some t \<and> json_depth t = (depths @ [d]) ! i \<and>
      (depths @ [d]) ! i \<le> MAX_WIRE_DEPTH" if "i < Suc k" for i
  proof (cases "i = k")
    case True
    then show ?thesis using tree d inv by (auto simp: nth_append)
  next
    case False
    then have "i < k" using that by simp
    then show ?thesis using inv by (auto simp: nth_append)
  qed
  have take: "take (Suc k) nodes = take k nodes @ [nodes ! k]"
    using assms(1) by (rule take_Suc_conv_app_nth)
  show ?thesis
    unfolding tree_inv_def s' prod.case take
  proof (intro conjI)
    show "\<forall>i<Suc k. \<exists>t. tree_at (Suc i) nodes i = Some t \<and> json_depth t = (depths @ [d]) ! i \<and>
        (depths @ [d]) ! i \<le> MAX_WIRE_DEPTH"
      using depths by blast
    show "\<forall>i<Suc k. \<forall>c\<in>set (children (nodes ! i)). c < i"
      using inv below by (auto simp: less_Suc_eq)
  qed (use inv nv in simp_all)
qed

lemma count_list_mset: "count_list xs x = count (mset xs) x"
  by (induction xs) auto

lemma validated:
  assumes "validate_wire_json document object_root = Inr stats"
  defines "nodes \<equiv> wd_nodes document"
  shows "postorder_tree nodes \<and> wd_root document = length nodes - 1 \<and>
    (object_root \<longrightarrow> is_object (last nodes)) \<and> list_all node_fine nodes \<and>
    (\<exists>t. tree_at (length nodes) nodes (wd_root document) = Some t \<and>
       json_depth t = ws_depth stats \<and> json_depth t \<le> MAX_WIRE_DEPTH) \<and>
    ws_logical_charge stats = 8 + sum_list (map node_charge nodes)"
proof -
  from assms(1) obtain parents depths charge
    where run: "try_fold validate_step (replicate (length nodes) 0, [],
             \<lparr>lc_value = 8, lc_limit = MAX_LOGICAL_CHARGE\<rparr>) (List.enumerate 0 nodes)
           = Inr (parents, depths, charge)"
      and nodes: "nodes \<noteq> []" "wd_root document = length nodes - 1"
      and obj: "object_root \<longrightarrow> is_object (last nodes)"
      and par: "last parents = 0" "\<forall>count\<in>set (butlast parents). count = 1"
      and stats: "stats = \<lparr>ws_logical_charge = lc_value charge, ws_depth = depths ! wd_root document\<rparr>"
    by (auto simp: validate_wire_json_def nodes_def charge_new_def charge_add_Inr Let_def list_ex_iff
        split: if_splits)
  have "tree_inv nodes (length nodes) (parents, depths, charge)"
    using run
  proof (rule try_fold_enumerate)
    show "tree_inv nodes 0 (replicate (length nodes) 0, [],
        \<lparr>lc_value = 8, lc_limit = MAX_LOGICAL_CHARGE\<rparr>)"
      by (simp add: tree_inv_def)
  qed (rule tree_inv_step)
  note inv = this [unfolded tree_inv_def prod.case]
  have refs: "count (mset (concat (map children nodes))) c = (if c < length nodes - 1 then 1 else 0)" for c
  proof -
    consider "c < length nodes - 1" | "c = length nodes - 1" | "length nodes \<le> c" by linarith
    then show ?thesis
    proof cases
      case 1
      then have "butlast parents ! c \<in> set (butlast parents)" using inv by (intro nth_mem) simp
      then have "parents ! c = 1" using par(2) 1 inv by (simp add: nth_butlast)
      then show ?thesis using inv 1 by (simp add: count_list_mset)
    next
      case 2
      then have "parents ! c = 0" using par(1) inv nodes(1) by (metis last_conv_nth length_0_conv)
      then show ?thesis using inv 2 nodes(1) by (simp add: count_list_mset)
    next
      case 3
      then have "c \<notin> set (concat (map children nodes))"
        using inv by (auto simp: in_set_conv_nth) (metis not_less_iff_gr_or_eq order_less_le_trans nth_mem)
      then have "c \<notin># mset (concat (map children nodes))" by (simp only: set_mset_mset not_False_eq_True)
      then have "count (mset (concat (map children nodes))) c = 0" by (rule not_in_iff [THEN iffD1])
      moreover have "\<not> c < length nodes - 1" using 3 by simp
      ultimately show ?thesis by (simp only: if_False)
    qed
  qed
  have "mset (concat (map children nodes)) = mset [0..<length nodes - 1]"
    by (rule multiset_eqI) (simp only: refs, simp add: count_mset_set')
  then have "postorder_tree nodes" using inv nodes(1) by (simp add: postorder_tree_def)
  moreover have "\<exists>t. tree_at (Suc (wd_root document)) nodes (wd_root document) = Some t \<and>
       json_depth t = depths ! wd_root document \<and> depths ! wd_root document \<le> MAX_WIRE_DEPTH"
    using inv nodes by (metis diff_less length_greater_0_conv zero_less_one)
  then have "\<exists>t. tree_at (length nodes) nodes (wd_root document) = Some t \<and>
       json_depth t = ws_depth stats \<and> json_depth t \<le> MAX_WIRE_DEPTH"
    using nodes stats by auto
  ultimately show ?thesis using inv nodes(2) obj stats by simp
qed

lemmas wire_eval = validate_wire_json_def validate_step_def validate_node_def array_item_def
  object_field_def add_parent_def container_depth_def depth_successor_def is_object_def
  is_canonical_number_def number_mantissa_def number_exponent_def consume_fraction_def
  skip_digits.simps is_digit1_def scalar_safe_def is_unsafe_char_def charge_new_def charge_add_def
  charge_string_def checked_len_def checked_add_def Let_def ascii_defs is_ascii_byte_def
  utf8_width_def next_code_point_def MAX_WIRE_NODES_def MAX_WIRE_DEPTH_def MAX_KEY_BYTES_def
  MAX_NUMBER_BYTES_def MAX_LOGICAL_CHARGE_def MAX_SAFE_TEXT_BYTES_def MIB_def KIB_def

subsection \<open>Properties of the flat JSON documents\<close>

definition sample_document :: wire_json_document where
  "sample_document = \<lparr>wd_root = 4, wd_nodes = [NumberValue ''-1.5e3'', NullValue, ArrayValue [0, 1],
     StringValue ''a'',
     ObjectValue [\<lparr>wf_key = ''x'', wf_value = 2\<rparr>, \<lparr>wf_key = ''y'', wf_value = 3\<rparr>]]\<rparr>"

lemma sample_document_validates:
  "validate_wire_json sample_document b = Inr \<lparr>ws_logical_charge = 77, ws_depth = 3\<rparr>"
  by (simp add: wire_eval sample_document_def)

text \<open>C5. A document that \<open>validate\_wire\_json\<close> accepts is a tree: its nodes stand in postorder with
  the root last, every other node is the child of exactly one node and that node comes later, the
  reported depth is the depth of the tree and at most 64, the reported charge is eight bytes plus
  the charge of every node, and it fits the 8 MiB budget.\<close>

theorem validate_wire_json_tree:
  assumes "validate_wire_json document object_root = Inr stats"
  shows "mset (concat (map children (wd_nodes document))) = mset [0..<wd_root document] \<and>
    (\<forall>i<length (wd_nodes document). \<forall>c\<in>set (children (wd_nodes document ! i)). c < i) \<and>
    (\<exists>t. tree_at (length (wd_nodes document)) (wd_nodes document) (wd_root document) = Some t \<and>
       ws_depth stats = json_depth t \<and> json_depth t \<le> 64) \<and>
    ws_logical_charge stats = 8 + sum_list (map node_charge (wd_nodes document))"
  using validated [OF assms] by (auto simp: postorder_tree_def MAX_WIRE_DEPTH_def)

theorem validate_wire_json_tree_witness:
  "is_ok (validate_wire_json sample_document True) \<and>
   mset (concat (map children (wd_nodes sample_document))) = mset [0..<wd_root sample_document] \<and>
   8 + sum_list (map node_charge (wd_nodes sample_document)) = 77"
  using validate_wire_json_tree [OF sample_document_validates [of True]] sample_document_validates [of True]
  by (simp only: is_ok_simps) simp

subsection \<open>The grammar of canonical numbers\<close>

definition digits_from_1 :: "string \<Rightarrow> bool" where
  "digits_from_1 s \<longleftrightarrow> s \<noteq> [] \<and> is_digit1 (hd s) \<and> list_all is_ascii_digit (tl s)"

definition fraction :: "string \<Rightarrow> bool" where
  "fraction s \<longleftrightarrow> (\<exists>ds. s = CHR ''.'' # ds \<and> ds \<noteq> [] \<and> list_all is_ascii_digit ds \<and> last ds \<noteq> CHR ''0'')"

definition exponent :: "string \<Rightarrow> bool" where
  "exponent s \<longleftrightarrow> (\<exists>sign ds. s = CHR ''e'' # sign @ ds \<and> sign \<in> {'''', ''-''} \<and> digits_from_1 ds)"

definition number_grammar :: "string \<Rightarrow> bool" where
  "number_grammar s \<longleftrightarrow> s = ''0'' \<or>
     (\<exists>sign ip fr ex. s = sign @ ip @ fr @ ex \<and> sign \<in> {'''', ''-''} \<and>
        (ip = ''0'' \<and> fr \<noteq> [] \<or> digits_from_1 ip) \<and>
        (fr = [] \<or> fraction fr) \<and> (ex = [] \<or> exponent ex))"

lemma skip_digits_run:
  assumes "list_all is_ascii_digit ds" and "rest = [] \<or> \<not> is_ascii_digit (hd rest)"
  shows "skip_digits (pre @ ds @ rest) (length pre) = length pre + length ds"
  using assms
proof (induction ds arbitrary: pre)
  case Nil
  then show ?case by (subst skip_digits.simps) (cases rest; simp)
next
  case (Cons d ds)
  then show ?case
    using Cons.IH [of "pre @ [d]"] by (subst skip_digits.simps) simp
qed

lemma skip_digits_split:
  obtains ds rest' where "rest = ds @ rest'" and "list_all is_ascii_digit ds"
    and "rest' = [] \<or> \<not> is_ascii_digit (hd rest')"
    and "skip_digits (pre @ rest) (length pre) = length pre + length ds"
proof
  let ?ds = "takeWhile is_ascii_digit rest" and ?r = "dropWhile is_ascii_digit rest"
  show "rest = ?ds @ ?r" by simp
  show 1: "list_all is_ascii_digit ?ds" by (auto simp: list_all_iff dest: set_takeWhileD)
  show 2: "?r = [] \<or> \<not> is_ascii_digit (hd ?r)" using hd_dropWhile by blast
  show "skip_digits (pre @ rest) (length pre) = length pre + length ?ds"
    using skip_digits_run [OF 1 2, of pre] by simp
qed

lemma is_digit1_digit: "is_digit1 c \<Longrightarrow> is_ascii_digit c"
  by (auto simp: is_digit1_def is_ascii_digit_def less_eq_char_def)

lemma marks_not_digits:
  "\<not> is_ascii_digit CHR ''.''" "\<not> is_ascii_digit CHR ''e''" "\<not> is_ascii_digit CHR ''-''"
  "\<not> is_digit1 CHR ''.''" "\<not> is_digit1 CHR ''e''" "\<not> is_digit1 CHR ''-''" "\<not> is_digit1 CHR ''0''"
  by (simp_all add: is_digit1_def ascii_defs)

lemma number_exponent_grammar:
  "(case number_exponent (pre @ rest) (length pre) of None \<Rightarrow> False | Some i \<Rightarrow> i = length (pre @ rest))
     \<longleftrightarrow> rest = [] \<or> exponent rest"
proof (cases "rest \<noteq> [] \<and> hd rest = CHR ''e''")
  case False
  then have "number_exponent (pre @ rest) (length pre) = Some (length pre)"
    by (cases rest) (auto simp: number_exponent_def)
  then show ?thesis using False by (auto simp: exponent_def)
next
  case True
  then obtain r where r: "rest = CHR ''e'' # r" by (cases rest) auto
  define sign where "sign = (if r \<noteq> [] \<and> hd r = CHR ''-'' then ''-'' else [])"
  define q where "q = (if r \<noteq> [] \<and> hd r = CHR ''-'' then tl r else r)"
  have sq: "rest = CHR ''e'' # sign @ q" by (cases r) (auto simp: r sign_def q_def)
  have ex: "exponent rest \<longleftrightarrow> digits_from_1 q"
  proof
    assume "exponent rest"
    then obtain sg ds where "r = sg @ ds" "sg \<in> {'''', ''-''}" "digits_from_1 ds"
      by (auto simp: exponent_def r)
    then show "digits_from_1 q" using marks_not_digits
      by (cases ds) (auto simp: q_def digits_from_1_def)
  next
    assume "digits_from_1 q"
    then show "exponent rest"
      unfolding exponent_def using sq by (intro exI [of _ sign] exI [of _ q]) (simp add: sign_def)
  qed
  let ?b = "pre @ rest" and ?i = "length pre + 1 + length sign"
  have num: "number_exponent ?b (length pre) =
      (if ?i = length ?b \<or> \<not> is_digit1 (?b ! ?i) then None else Some (skip_digits ?b (?i + 1)))"
    by (cases r) (auto simp: number_exponent_def r sign_def nth_append Let_def)
  show ?thesis
  proof (cases q)
    case Nil
    then show ?thesis using num ex sq by (simp add: digits_from_1_def)
  next
    case (Cons d ds)
    have at: "?b ! ?i = d" by (simp add: sq Cons nth_append)
    obtain e rest' where e: "ds = e @ rest'" "list_all is_ascii_digit e"
      "rest' = [] \<or> \<not> is_ascii_digit (hd rest')"
      and skip: "skip_digits ((pre @ CHR ''e'' # sign @ [d]) @ ds) (length (pre @ CHR ''e'' # sign @ [d]))
        = length (pre @ CHR ''e'' # sign @ [d]) + length e"
      by (rule skip_digits_split)
    have "list_all is_ascii_digit ds \<longleftrightarrow> rest' = []"
      using e by (cases rest') auto
    then show ?thesis using num ex at skip e(1) by (auto simp: sq Cons digits_from_1_def)
  qed
qed

lemma consume_fraction_run:
  assumes "list_all is_ascii_digit ds" and "rest = [] \<or> \<not> is_ascii_digit (hd rest)"
  shows "consume_fraction (pre @ ds @ rest) (length pre)
    = (ds \<noteq> [] \<and> last ds \<noteq> CHR ''0'', length pre + length ds)"
proof -
  have "(pre @ ds @ rest) ! (length pre + length ds - 1) = last ds" if "ds \<noteq> []"
    using that by (cases ds rule: rev_cases) (simp_all add: nth_append)
  then show ?thesis by (auto simp: consume_fraction_def skip_digits_run [OF assms] Let_def)
qed

definition mantissa :: "string \<Rightarrow> bool" where
  "mantissa m \<longleftrightarrow> (\<exists>ip fr. m = ip @ fr \<and> (ip = ''0'' \<and> fr \<noteq> [] \<or> digits_from_1 ip) \<and>
     (fr = [] \<or> fraction fr))"

text \<open>The scanner accepts a mantissa when what follows neither continues it nor is a dot.\<close>

lemma number_mantissa_complete:
  assumes "mantissa m" and "rest = [] \<or> hd rest = CHR ''e''"
  shows "number_mantissa (pre @ m @ rest) (length pre) = Some (length pre + length m)"
proof -
  from assms(1) obtain ip fr where m: "m = ip @ fr"
    and ip: "ip = ''0'' \<and> fr \<noteq> [] \<or> digits_from_1 ip" and fr: "fr = [] \<or> fraction fr"
    by (auto simp: mantissa_def)
  have end_digits: "rest = [] \<or> \<not> is_ascii_digit (hd rest)"
    using assms(2) marks_not_digits by auto
  have frac: "\<exists>ds. fr = CHR ''.'' # ds \<and>
      consume_fraction (p @ fr @ rest) (length p + 1) = (True, length p + length fr)" if "fr \<noteq> []" for p
  proof -
    from that fr obtain ds where ds: "fr = CHR ''.'' # ds" "ds \<noteq> []" "list_all is_ascii_digit ds"
      "last ds \<noteq> CHR ''0''" by (auto simp: fraction_def)
    then show ?thesis
      using consume_fraction_run [OF ds(3) end_digits, of "p @ ''.''"] by simp
  qed
  show ?thesis
  proof (cases "ip = ''0''")
    case True
    then have "fr \<noteq> []" using ip by (auto simp: digits_from_1_def is_digit1_def less_eq_char_def)
    from frac [OF this, of "pre @ ''0''"] show ?thesis
      by (auto simp: number_mantissa_def m True nth_append Let_def)
  next
    case False
    with ip obtain d ds where d: "ip = d # ds" "is_digit1 d" "list_all is_ascii_digit ds"
      by (cases ip) (auto simp: digits_from_1_def)
    have "fr @ rest = [] \<or> \<not> is_ascii_digit (hd (fr @ rest))"
      using end_digits fr marks_not_digits by (auto simp: fraction_def)
    from skip_digits_run [OF d(3) this, of "pre @ [d]"]
    have skip: "skip_digits (pre @ m @ rest) (length pre + 1) = length pre + length ip"
      by (simp add: m d)
    have "d \<noteq> CHR ''0''" using d(2) marks_not_digits by auto
    moreover have "hd rest \<noteq> CHR ''.''" if "rest \<noteq> []" using assms(2) that by auto
    ultimately show ?thesis
      using skip d(2) frac [of "pre @ ip"]
      by (cases "fr = []"; cases rest) (auto simp: number_mantissa_def m d nth_append Let_def)
  qed
qed

lemma number_mantissa_sound:
  assumes "number_mantissa (pre @ rest) (length pre) = Some j" and "rest \<noteq> []"
  shows "\<exists>m rest'. rest = m @ rest' \<and> mantissa m \<and> j = length pre + length m"
proof -
  obtain d r where r: "rest = d # r" using assms(2) by (cases rest) auto
  have frac: "\<exists>fr q. s = CHR ''.'' # fr @ q \<and> fraction (CHR ''.'' # fr) \<and> j = length p + 1 + length fr"
    if cf: "consume_fraction (p @ s) (length p + 1) = (True, j)" and s: "s \<noteq> []" "hd s = CHR ''.''"
    for p s
  proof -
    obtain t where t: "s = CHR ''.'' # t" using s by (cases s) auto
    obtain ds q where q: "t = ds @ q" "list_all is_ascii_digit ds" "q = [] \<or> \<not> is_ascii_digit (hd q)"
      by (rule skip_digits_split)
    from consume_fraction_run [OF q(2,3), of "p @ ''.''"] cf show ?thesis
      using q(2) by (intro exI [of _ ds] exI [of _ q]) (simp add: t q(1) fraction_def)
  qed
  show ?thesis
  proof (cases "d = CHR ''0''")
    case True
    with assms(1) have hd_r: "r \<noteq> []" "hd r = CHR ''.''"
      and cf: "consume_fraction ((pre @ ''0'') @ r) (length (pre @ ''0'') + 1) = (True, j)"
      by (cases r; auto simp: number_mantissa_def r nth_append Let_def split: if_splits prod.splits)+
    from frac [OF cf hd_r] obtain fr q
      where "r = CHR ''.'' # fr @ q" "fraction (CHR ''.'' # fr)" "j = length pre + 2 + length fr" by auto
    moreover from this(2) have "mantissa (''0.'' @ fr)"
      unfolding mantissa_def by (intro exI [of _ "''0''"] exI [of _ "CHR ''.'' # fr"]) simp
    ultimately show ?thesis
      by (intro exI [of _ "''0.'' @ fr"] exI [of _ q]) (simp add: r True)
  next
    case False
    with assms(1) have d: "is_digit1 d"
      by (auto simp: number_mantissa_def r nth_append split: if_splits)
    obtain ds q where q: "r = ds @ q" "list_all is_ascii_digit ds" "q = [] \<or> \<not> is_ascii_digit (hd q)"
      and skip: "skip_digits ((pre @ [d]) @ r) (length (pre @ [d])) = length (pre @ [d]) + length ds"
      by (rule skip_digits_split)
    have ip: "digits_from_1 (d # ds)" using d q(2) by (simp add: digits_from_1_def)
    let ?p = "pre @ d # ds"
    show ?thesis
    proof (cases "q \<noteq> [] \<and> hd q = CHR ''.''")
      case True
      have "consume_fraction (?p @ q) (length ?p + 1) = (True, j)"
        using assms(1) False d skip True
        by (cases q) (auto simp: number_mantissa_def r q(1) nth_append Let_def split: if_splits prod.splits)
      from frac [OF this] True obtain fr q'
        where "q = CHR ''.'' # fr @ q'" "fraction (CHR ''.'' # fr)" "j = length ?p + 1 + length fr"
        by auto
      moreover from this(2) have "mantissa (d # ds @ CHR ''.'' # fr)"
        using ip unfolding mantissa_def by (intro exI [of _ "d # ds"] exI [of _ "CHR ''.'' # fr"]) simp
      ultimately show ?thesis
        by (intro exI [of _ "d # ds @ CHR ''.'' # fr"] exI [of _ q']) (simp add: r q(1))
    next
      case nodot: False
      then have "j = length ?p"
        using assms(1) False d skip
        by (cases q) (auto simp: number_mantissa_def r q(1) nth_append Let_def split: if_splits)
      then show ?thesis using ip
        by (intro exI [of _ "d # ds"] exI [of _ q]) (auto simp: r q(1) mantissa_def)
    qed
  qed
qed

lemma regroup:
  "(\<exists>sign ip fr ex. s = sign @ ip @ fr @ ex \<and> P sign \<and> Q ip fr \<and> R fr \<and> S ex) \<longleftrightarrow>
    (\<exists>sign m ex. s = sign @ m @ ex \<and> P sign \<and> (\<exists>ip fr. m = ip @ fr \<and> Q ip fr \<and> R fr) \<and> S ex)"
proof
  assume "\<exists>sign m ex. s = sign @ m @ ex \<and> P sign \<and> (\<exists>ip fr. m = ip @ fr \<and> Q ip fr \<and> R fr) \<and> S ex"
  then obtain sign ip fr ex where *: "s = sign @ (ip @ fr) @ ex" "P sign" "Q ip fr" "R fr" "S ex"
    by blast
  then have "s = sign @ ip @ fr @ ex" by simp
  then show "\<exists>sign ip fr ex. s = sign @ ip @ fr @ ex \<and> P sign \<and> Q ip fr \<and> R fr \<and> S ex"
    using *(2-5) by blast
next
  assume "\<exists>sign ip fr ex. s = sign @ ip @ fr @ ex \<and> P sign \<and> Q ip fr \<and> R fr \<and> S ex"
  then obtain sign ip fr ex where *: "s = sign @ ip @ fr @ ex" "P sign" "Q ip fr" "R fr" "S ex"
    by blast
  then have "s = sign @ (ip @ fr) @ ex" by simp
  then show "\<exists>sign m ex. s = sign @ m @ ex \<and> P sign \<and> (\<exists>ip fr. m = ip @ fr \<and> Q ip fr \<and> R fr) \<and> S ex"
    using *(2-5) by blast
qed

lemma number_grammar_mantissa:
  "number_grammar s \<longleftrightarrow> s = ''0'' \<or>
     (\<exists>sign m ex. s = sign @ m @ ex \<and> sign \<in> {'''', ''-''} \<and> mantissa m \<and> (ex = [] \<or> exponent ex))"
  unfolding number_grammar_def mantissa_def
  by (rule arg_cong2 [OF refl regroup, of "(\<or>)"])

lemma mantissa_head: "mantissa m \<Longrightarrow> m \<noteq> [] \<and> hd m \<noteq> CHR ''-''"
  using marks_not_digits by (auto simp: mantissa_def digits_from_1_def hd_append)

lemma grammar_chars:
  assumes "number_grammar s" and "c \<in> set s"
  shows "is_ascii_digit c \<or> c \<in> {CHR ''-'', CHR ''.'', CHR ''e''}"
proof -
  have digits: "digits_from_1 t \<Longrightarrow> list_all is_ascii_digit t" for t
    by (cases t) (auto simp: digits_from_1_def is_digit1_digit)
  have "is_ascii_digit CHR ''0''" by (simp add: ascii_defs)
  with assms show ?thesis
    by (auto simp: number_grammar_def fraction_def exponent_def list_all_iff dest!: digits)
qed

lemma is_canonical_number_grammar:
  "is_canonical_number s \<longleftrightarrow> length s \<le> 128 \<and> number_grammar s"
proof -
  define sign where "sign = (if s \<noteq> [] \<and> hd s = CHR ''-'' then ''-'' else [])"
  define r where "r = (if s \<noteq> [] \<and> hd s = CHR ''-'' then tl s else s)"
  have s: "s = sign @ r" by (cases s) (auto simp: sign_def r_def)
  have exp_head: "ex = [] \<or> hd ex = CHR ''e''" if "ex = [] \<or> exponent ex" for ex
    using that by (auto simp: exponent_def)
  have gram: "number_grammar s \<longleftrightarrow> s = ''0'' \<or> (\<exists>m ex. r = m @ ex \<and> mantissa m \<and> (ex = [] \<or> exponent ex))"
  proof
    assume "number_grammar s"
    then consider "s = ''0''" | sg m ex where "s = sg @ m @ ex" "sg \<in> {'''', ''-''}" "mantissa m"
        "ex = [] \<or> exponent ex" by (auto simp: number_grammar_mantissa)
    then show "s = ''0'' \<or> (\<exists>m ex. r = m @ ex \<and> mantissa m \<and> (ex = [] \<or> exponent ex))"
    proof cases
      case 2
      then have "r = m @ ex" using mantissa_head [of m] by (auto simp: r_def hd_append)
      then show ?thesis using 2 by blast
    qed simp
  next
    assume "s = ''0'' \<or> (\<exists>m ex. r = m @ ex \<and> mantissa m \<and> (ex = [] \<or> exponent ex))"
    moreover have "sign \<in> {'''', ''-''}" by (simp add: sign_def)
    ultimately show "number_grammar s" unfolding number_grammar_mantissa using s by blast
  qed
  have scan: "(case number_mantissa s (length sign) of None \<Rightarrow> False | Some i \<Rightarrow>
      (case number_exponent s i of None \<Rightarrow> False | Some i \<Rightarrow> i = length s)) \<longleftrightarrow>
      (\<exists>m ex. r = m @ ex \<and> mantissa m \<and> (ex = [] \<or> exponent ex))" if "r \<noteq> []"
  proof
    assume *: "case number_mantissa s (length sign) of None \<Rightarrow> False | Some i \<Rightarrow>
      (case number_exponent s i of None \<Rightarrow> False | Some i \<Rightarrow> i = length s)"
    then obtain j where j: "number_mantissa (sign @ r) (length sign) = Some j"
      by (auto simp: s split: option.splits)
    from number_mantissa_sound [OF this that] obtain m q
      where m: "r = m @ q" "mantissa m" "j = length (sign @ m)" by auto
    then have "q = [] \<or> exponent q"
      using * j number_exponent_grammar [of "sign @ m" q] by (simp add: s split: option.splits)
    with m show "\<exists>m ex. r = m @ ex \<and> mantissa m \<and> (ex = [] \<or> exponent ex)" by blast
  next
    assume "\<exists>m ex. r = m @ ex \<and> mantissa m \<and> (ex = [] \<or> exponent ex)"
    then obtain m ex where m: "r = m @ ex" "mantissa m" "ex = [] \<or> exponent ex" by blast
    show "case number_mantissa s (length sign) of None \<Rightarrow> False | Some i \<Rightarrow>
      (case number_exponent s i of None \<Rightarrow> False | Some i \<Rightarrow> i = length s)"
      using number_mantissa_complete [OF m(2) exp_head [OF m(3)], of sign]
        number_exponent_grammar [of "sign @ m" ex] m(3)
      by (simp add: s m(1) split: option.splits)
  qed
  have ascii: "list_all is_ascii_byte s" if "number_grammar s"
    unfolding list_all_iff
  proof
    fix c assume "c \<in> set s"
    then show "is_ascii_byte c"
      using grammar_chars [OF that, of c] ascii_classes_are_ascii(3) [of c]
      by (auto simp: is_ascii_byte_def)
  qed
  have len: "length sign = (if s ! 0 = CHR ''-'' then 1 else 0)" if "s \<noteq> []"
    using that by (cases s) (auto simp: sign_def)
  show ?thesis
  proof (cases "s = [] \<or> s = ''0''")
    case True
    then show ?thesis
      by (auto simp: is_canonical_number_def MAX_NUMBER_BYTES_def is_ascii_byte_def number_grammar_mantissa
          dest: mantissa_head)
  next
    case False
    then have "(length sign = length s) = (r = [])" using s by auto
    moreover have "r = [] \<Longrightarrow> \<not> number_grammar s" using gram False mantissa_head by auto
    ultimately show ?thesis
      using False gram scan ascii len
      by (auto simp: is_canonical_number_def MAX_NUMBER_BYTES_def Let_def Suc_le_eq)
  qed
qed

subsection \<open>What the serializer returns\<close>

lemma fine_numbers_plain:
  assumes "list_all node_fine nodes"
  shows "plain_numbers nodes"
proof -
  have "\<not> escaped_byte c" if "NumberValue s \<in> set nodes" "c \<in> set s" for s c
  proof -
    have "number_grammar s"
      using assms that(1) by (auto simp: list_all_iff node_fine_def is_canonical_number_grammar)
    from grammar_chars [OF this that(2)] show ?thesis
      by (auto simp: escaped_byte_def ascii_defs)
  qed
  then show ?thesis by (auto simp: plain_numbers_def list_all_iff)
qed

text \<open>Embedding a serialization in a JSON string only adds the backslashes that were counted, as it
  holds no tab and no newline.\<close>

definition unbroken :: "string \<Rightarrow> bool" where
  "unbroken s \<longleftrightarrow> list_all (\<lambda>c. c \<noteq> CHR 0x09 \<and> c \<noteq> CHR 0x0A) s"

lemma unbroken_simps [simp]:
  "unbroken []" "unbroken (s @ t) \<longleftrightarrow> unbroken s \<and> unbroken t"
  "unbroken (c # s) \<longleftrightarrow> c \<noteq> CHR 0x09 \<and> c \<noteq> CHR 0x0A \<and> unbroken s"
  by (auto simp: unbroken_def)

lemma unbroken_quote [simp]: "unbroken (quote s)"
proof -
  have "unbroken (concat (map escape_byte s))" by (induction s) (auto simp: escape_byte_def)
  then show ?thesis by (simp add: quote_def)
qed

lemma unbroken_commas: "list_all unbroken rs \<Longrightarrow> unbroken (commas rs)"
proof (cases rs)
  case (Cons r rs')
  moreover have "list_all unbroken rs' \<Longrightarrow> unbroken (comma_tail rs')"
    by (induction rs') (simp_all add: comma_tail_def)
  ultimately show "list_all unbroken rs \<Longrightarrow> unbroken (commas rs)" by simp
qed simp

lemma render_unbroken:
  assumes "plain_numbers nodes"
  shows "tree_at fuel nodes index = Some t \<Longrightarrow> unbroken (render t)"
proof (induction fuel arbitrary: index t)
  case 0
  then show ?case by (simp add: tree_at.simps)
next
  case (Suc fuel)
  then have idx: "index < length nodes" by (auto simp: tree_at.simps split: option.splits)
  show ?case
  proof (cases "nodes ! index")
    case (NumberValue s)
    then have "list_all (\<lambda>c. \<not> escaped_byte c) s" using assms idx by (metis nth_mem plain_numbers_def)
    then have "unbroken s" by (auto simp: unbroken_def escaped_byte_def list_all_iff)
    with Suc.prems idx NumberValue show ?thesis by (auto simp: tree_at.simps nth_opt_def)
  next
    case (ArrayValue items)
    with Suc.prems idx obtain ts
      where ts: "map (tree_at fuel nodes) items = map Some ts" "t = JArray ts"
      by (auto simp: tree_at.simps nth_opt_def those_eq_Some)
    have "list_all unbroken (map render ts)"
      using map_Some_nth [OF ts(1)] Suc.IH by (auto simp: list_all_length)
    then show ?thesis using ts(2) by (simp add: unbroken_commas)
  next
    case (ObjectValue flds)
    with Suc.prems idx obtain ts
      where ts: "map (\<lambda>f. tree_at fuel nodes (wf_value f)) flds = map Some ts"
        "t = JObject (zip (map wf_key flds) ts)"
      by (auto simp: tree_at.simps nth_opt_def those_eq_Some)
    have "list_all unbroken (map (\<lambda>(k, t). quote k @ '':'' @ render t) (zip (map wf_key flds) ts))"
      using map_Some_nth [OF ts(1)] Suc.IH by (auto simp: list_all_length)
    then show ?thesis using ts(2) by (simp add: unbroken_commas)
  qed (use Suc.prems idx in \<open>auto simp: tree_at.simps nth_opt_def\<close>)
qed

lemma length_quote: "unbroken s \<Longrightarrow> length (quote s) = 2 + length s + escapes_in s"
proof -
  have "unbroken s \<Longrightarrow> length (concat (map escape_byte s)) = length s + escapes_in s"
    by (induction s) (auto simp: escape_byte_def quote_or_backslash_def)
  then show "unbroken s \<Longrightarrow> length (quote s) = 2 + length s + escapes_in s"
    by (simp add: quote_def)
qed

lemma max_charge_lt: "MAX_LOGICAL_CHARGE = 8388608"
  by (simp add: MAX_LOGICAL_CHARGE_def MIB_def KIB_def)

lemma serialize_sized_exact:
  assumes "tree_at fuel (wd_nodes document) (wd_root document) = Some t" and "len = length (render t)"
  shows "serialize_sized fuel document len =
    Some (if len \<le> MAX_LOGICAL_CHARGE then Inr (render t) else Inl Limit)"
  using serialize_node_render [OF assms(1), of "[]"] assms(2) by (simp add: serialize_sized_def)

text \<open>C2. On every document that passes validation \<open>canonical\_serialize\<close> returns, with the number of
  nodes as fuel, exactly the compact rendering of the document's tree, or \<open>Limit\<close> when that
  rendering is longer than 8 MiB. The length computed beforehand is the length written: the
  defensive \<open>InvalidArgument\<close> of \<open>serialize\_sized\<close> is never returned.\<close>

theorem canonical_serialize_exact:
  assumes "validate_wire_json document False = Inr stats"
    and "length (wd_nodes document) \<le> fuel"
  shows "\<exists>t. tree_at fuel (wd_nodes document) (wd_root document) = Some t \<and>
    canonical_serialize fuel document =
      Some (if length (render t) \<le> 8 * 1024 * 1024 then Inr (render t) else Inl Limit)"
proof -
  from validated [OF assms(1)] obtain t
    where fine: "list_all node_fine (wd_nodes document)"
      and "tree_at (length (wd_nodes document)) (wd_nodes document) (wd_root document) = Some t"
    by blast
  then have t: "tree_at fuel (wd_nodes document) (wd_root document) = Some t"
    using assms(2) tree_at_mono by blast
  have "canonical_serialize fuel document =
      Some (if length (render t) \<le> MAX_LOGICAL_CHARGE then Inr (render t) else Inl Limit)"
    using assms(1) node_stats_exact [OF fine_numbers_plain [OF fine] t] serialize_sized_exact [OF t refl]
    by (simp add: canonical_serialize_def advance_def max_charge_lt)
  with t show ?thesis by (simp add: max_charge_lt)
qed

theorem canonical_serialize_exact_witness:
  "\<exists>t. tree_at 5 (wd_nodes sample_document) 4 = Some t \<and>
    canonical_serialize 5 sample_document =
      Some (if length (render t) \<le> 8 * 1024 * 1024 then Inr (render t) else Inl Limit)"
  using canonical_serialize_exact [OF sample_document_validates, of 5]
  by (simp add: sample_document_def)

text \<open>The variant for a document that will be embedded in a JSON string charges the embedded form:
  it returns the compact rendering exactly when that rendering, quoted and escaped once more by the
  same serializer, is at most 8 MiB, and \<open>Limit\<close> otherwise.\<close>

theorem canonical_serialize_for_json_string_exact:
  assumes "validate_wire_json document True = Inr stats"
    and "length (wd_nodes document) \<le> fuel"
  shows "\<exists>t. tree_at fuel (wd_nodes document) (wd_root document) = Some t \<and>
    canonical_serialize_for_json_string fuel document =
      Some (if length (serialize_string (render t) []) \<le> 8 * 1024 * 1024
            then Inr (render t) else Inl Limit)"
proof -
  from validated [OF assms(1)] obtain t
    where fine: "list_all node_fine (wd_nodes document)"
      and "tree_at (length (wd_nodes document)) (wd_nodes document) (wd_root document) = Some t"
    by blast
  then have t: "tree_at fuel (wd_nodes document) (wd_root document) = Some t"
    using assms(2) tree_at_mono by blast
  note plain = fine_numbers_plain [OF fine]
  have "length (serialize_string (render t) []) = 2 + length (render t) + escapes_in (render t)"
    using length_quote [OF render_unbroken [OF plain t]] by (simp add: serialize_string_quote)
  then have "canonical_serialize_for_json_string fuel document =
      Some (if length (serialize_string (render t) []) \<le> MAX_LOGICAL_CHARGE
            then Inr (render t) else Inl Limit)"
    using assms(1) node_stats_exact [OF plain t] serialize_sized_exact [OF t refl]
    by (simp add: canonical_serialize_for_json_string_def advance_def stats_add_eq max_charge_lt)
  with t show ?thesis by (simp add: max_charge_lt)
qed

theorem canonical_serialize_for_json_string_exact_witness:
  "\<exists>t. tree_at 5 (wd_nodes sample_document) 4 = Some t \<and>
    canonical_serialize_for_json_string 5 sample_document =
      Some (if length (serialize_string (render t) []) \<le> 8 * 1024 * 1024
            then Inr (render t) else Inl Limit)"
  using canonical_serialize_for_json_string_exact [OF sample_document_validates, of 5]
  by (simp add: sample_document_def)

text \<open>C12. \<open>is\_canonical\_number\<close>, an index loop over the bytes, accepts exactly the strings of at most 128
  bytes of the canonical number grammar: a lone zero, or an optional minus, an integer part without
  a leading zero (or a zero followed by a fraction), an optional fraction that does not end in zero,
  and an optional lower-case exponent without plus sign and without a leading zero.\<close>

theorem is_canonical_number_accepts:
  "is_canonical_number s \<longleftrightarrow> length s \<le> 128 \<and>
     (s = ''0'' \<or>
      (\<exists>sign ip fr ex. s = sign @ ip @ fr @ ex \<and> sign \<in> {'''', ''-''} \<and>
        (ip = ''0'' \<and> fr \<noteq> [] \<or> digits_from_1 ip) \<and>
        (fr = [] \<or> fraction fr) \<and> (ex = [] \<or> exponent ex)))"
  by (simp only: is_canonical_number_grammar number_grammar_def)

end
