(* ===== verification/Tool_Json.thy ===== *)
theory Tool_Json
  imports Wire_Json
begin

section \<open>Canonical JSON text of tool arguments\<close>

text \<open>
  \<open>mcode-plugin-host/src/provider\_validation/decoder/tool\_json.rs\<close>: the parser of completed tool
  arguments and the validation around it. The parser owns its position and its nodes and is dropped
  on an error, so its methods return the updated parser in the result; the input is a parameter.
  The loops over single bytes are recursive with the remaining input as measure. The recursion over
  nested values takes a fuel; \<open>parse\_value\_total\<close> below shows that the length of the input plus
  one is always enough.
\<close>

definition MAX_TOOL_ARGUMENT_BYTES :: nat where "MAX_TOOL_ARGUMENT_BYTES = 1024 * 1024"
definition MAX_TOOL_ARGUMENT_CHARGE :: nat where "MAX_TOOL_ARGUMENT_CHARGE = 1024 * 1024"
definition MAX_TOOL_ARGUMENT_DEPTH :: nat where "MAX_TOOL_ARGUMENT_DEPTH = 64"
definition MAX_TOOL_ARGUMENT_NODES :: nat where "MAX_TOOL_ARGUMENT_NODES = 16384"

record parser =
  pr_position :: nat
  pr_nodes :: "wire_json_node list"

definition parser_new :: parser where
  "parser_new = \<lparr>pr_position = 0, pr_nodes = []\<rparr>"

subsection \<open>Bytes\<close>

definition peek_byte :: "string \<Rightarrow> parser \<Rightarrow> char option" where
  "peek_byte input p = nth_opt input (pr_position p)"

definition is_json_space :: "char \<Rightarrow> bool" where
  "is_json_space b \<longleftrightarrow> b \<in> {CHR '' '', CHR 0x09, CHR 0x0A, CHR 0x0D}"

definition is_number_end :: "char \<Rightarrow> bool" where
  "is_number_end b \<longleftrightarrow> b \<in> {CHR '','', CHR '']'', CHR ''}'', CHR '' '', CHR 0x09, CHR 0x0A, CHR 0x0D}"

text \<open>The position after the longest run of bytes with a property.\<close>

function skip_bytes :: "(char \<Rightarrow> bool) \<Rightarrow> string \<Rightarrow> nat \<Rightarrow> nat" where
  "skip_bytes P input position =
     (if position < length input \<and> P (input ! position) then skip_bytes P input (position + 1) else position)"
  by pat_completeness auto
termination
  by (relation "measure (\<lambda>(P, input, position). length input - position)") auto

declare skip_bytes.simps [simp del]

definition skip_whitespace :: "string \<Rightarrow> parser \<Rightarrow> parser" where
  "skip_whitespace input p = p\<lparr>pr_position := skip_bytes is_json_space input (pr_position p)\<rparr>"

definition consume_byte :: "string \<Rightarrow> char \<Rightarrow> parser \<Rightarrow> bool \<times> parser" where
  "consume_byte input expected p =
     (if peek_byte input p \<noteq> Some expected then (False, p)
      else (True, p\<lparr>pr_position := pr_position p + 1\<rparr>))"

definition expect_byte :: "string \<Rightarrow> char \<Rightarrow> parser \<Rightarrow> validation_error + parser" where
  "expect_byte input expected p =
     (case consume_byte input expected p of
        (True, p) \<Rightarrow> Inr p
      | (False, _) \<Rightarrow> Inl InvalidArgument)"

text \<open>\<open>input.as\_bytes().get(a..b)\<close>.\<close>

definition get_bytes :: "string \<Rightarrow> nat \<Rightarrow> nat \<Rightarrow> string option" where
  "get_bytes input a b = (if a \<le> b \<and> b \<le> length input then Some (str_slice input a b) else None)"

definition consume_literal :: "string \<Rightarrow> string \<Rightarrow> parser \<Rightarrow> validation_error + parser" where
  "consume_literal input literal p =
     and_then (ok_or (checked_add 64 (pr_position p) (length literal)) Limit) (\<lambda>e.
       if get_bytes input (pr_position p) e \<noteq> Some literal then Inl InvalidArgument
       else Inr (p\<lparr>pr_position := e\<rparr>))"

text \<open>\<open>next\_char\<close> at a character boundary: the bytes of the scalar value that starts there.\<close>

definition next_char :: "string \<Rightarrow> parser \<Rightarrow> validation_error + string \<times> parser" where
  "next_char input p =
     (if pr_position p \<ge> length input then Inl InvalidArgument
      else let e = pr_position p + utf8_width (of_char (input ! pr_position p)) in
        Inr (str_slice input (pr_position p) e, p\<lparr>pr_position := e\<rparr>))"

definition push_node :: "wire_json_node \<Rightarrow> parser \<Rightarrow> validation_error + nat \<times> parser" where
  "push_node node p =
     (if length (pr_nodes p) \<ge> MAX_TOOL_ARGUMENT_NODES then Inl Limit
      else if \<not> length (pr_nodes p) < 2 ^ 32 then Inl Limit
      else Inr (length (pr_nodes p), p\<lparr>pr_nodes := pr_nodes p @ [node]\<rparr>))"

subsection \<open>Strings\<close>

definition hex_value :: "char \<Rightarrow> nat option" where
  "hex_value byte =
     (if CHR ''0'' \<le> byte \<and> byte \<le> CHR ''9'' then Some (of_char byte - of_char CHR ''0'')
      else if CHR ''a'' \<le> byte \<and> byte \<le> CHR ''f'' then Some (of_char byte - of_char CHR ''a'' + 10)
      else if CHR ''A'' \<le> byte \<and> byte \<le> CHR ''F'' then Some (of_char byte - of_char CHR ''A'' + 10)
      else None)"

definition hex_step :: "nat \<Rightarrow> char \<Rightarrow> validation_error + nat" where
  "hex_step value byte =
     ok_or (Option.bind (if value * 16 < 2 ^ 16 then Some (value * 16) else None)
              (\<lambda>value. map_option (\<lambda>digit. value + digit) (hex_value byte))) InvalidArgument"

definition parse_hex_quad :: "string \<Rightarrow> parser \<Rightarrow> validation_error + nat \<times> parser" where
  "parse_hex_quad input p =
     and_then (ok_or (checked_add 64 (pr_position p) 4) Limit) (\<lambda>e.
     and_then (ok_or (get_bytes input (pr_position p) e) InvalidArgument) (\<lambda>bytes.
     and_then (try_fold hex_step 0 bytes) (\<lambda>value. Inr (value, p\<lparr>pr_position := e\<rparr>))))"

definition char_from_u32 :: "nat \<Rightarrow> nat option" where
  "char_from_u32 n = (if n < 0xD800 \<or> (0xE000 \<le> n \<and> n \<le> 0x10FFFF) then Some n else None)"

definition parse_unicode_escape :: "string \<Rightarrow> string \<Rightarrow> parser \<Rightarrow> validation_error + string \<times> parser" where
  "parse_unicode_escape input out p =
     and_then (parse_hex_quad input p) (\<lambda>(first, p).
     and_then
       (if 0xD800 \<le> first \<and> first \<le> 0xDBFF then
          and_then (expect_byte input (CHR 0x5C) p) (\<lambda>p.
          and_then (expect_byte input (CHR ''u'') p) (\<lambda>p.
          and_then (parse_hex_quad input p) (\<lambda>(second, p).
            if \<not> (0xDC00 \<le> second \<and> second \<le> 0xDFFF) then Inl InvalidArgument
            else Inr (0x10000 + push_bit 10 (first - 0xD800) + (second - 0xDC00), p))))
        else if 0xDC00 \<le> first \<and> first \<le> 0xDFFF then Inl InvalidArgument
        else Inr (first, p)) (\<lambda>(scalar, p).
     and_then (ok_or (char_from_u32 scalar) InvalidArgument) (\<lambda>character.
       Inr (out @ utf8_encode character, p))))"

definition parse_escape :: "string \<Rightarrow> string \<Rightarrow> parser \<Rightarrow> validation_error + string \<times> parser" where
  "parse_escape input out p =
     and_then (ok_or (peek_byte input p) InvalidArgument) (\<lambda>escape.
       let p = p\<lparr>pr_position := pr_position p + 1\<rparr> in
       if escape = CHR 0x22 then Inr (out @ [CHR 0x22], p)
       else if escape = CHR 0x5C then Inr (out @ [CHR 0x5C], p)
       else if escape = CHR ''/'' then Inr (out @ [CHR ''/''], p)
       else if escape = CHR ''b'' then Inr (out @ [CHR 0x08], p)
       else if escape = CHR ''f'' then Inr (out @ [CHR 0x0C], p)
       else if escape = CHR ''n'' then Inr (out @ [CHR 0x0A], p)
       else if escape = CHR ''r'' then Inr (out @ [CHR 0x0D], p)
       else if escape = CHR ''t'' then Inr (out @ [CHR 0x09], p)
       else if escape = CHR ''u'' then parse_unicode_escape input out p
       else Inl InvalidArgument)"

lemma utf8_width_pos [simp]: "0 < utf8_width x"
  by (simp add: utf8_width_def)

lemma expect_byte_Inr:
  "expect_byte input c p = Inr p' \<longleftrightarrow>
     peek_byte input p = Some c \<and> p' = p\<lparr>pr_position := pr_position p + 1\<rparr>"
  by (auto simp: expect_byte_def consume_byte_def split: bool.splits)

lemma next_char_Inr:
  "next_char input p = Inr (s, p') \<Longrightarrow>
     pr_position p < pr_position p' \<and> pr_nodes p' = pr_nodes p"
  by (auto simp: next_char_def Let_def split: if_splits)

lemma parse_hex_quad_Inr:
  "parse_hex_quad input p = Inr (v, p') \<Longrightarrow>
     pr_position p < pr_position p' \<and> pr_nodes p' = pr_nodes p"
  by (auto simp: parse_hex_quad_def)

lemma parse_unicode_escape_Inr:
  "parse_unicode_escape input out p = Inr (s, p') \<Longrightarrow>
     pr_position p < pr_position p' \<and> pr_nodes p' = pr_nodes p"
  by (fastforce simp: parse_unicode_escape_def expect_byte_Inr split: if_splits
      dest!: parse_hex_quad_Inr)

lemma parse_escape_Inr:
  "parse_escape input out p = Inr (s, p') \<Longrightarrow>
     pr_position p < pr_position p' \<and> pr_nodes p' = pr_nodes p"
  by (auto simp: parse_escape_def Let_def split: if_splits dest!: parse_unicode_escape_Inr)

text \<open>The loop of \<open>parse\_string\<close>.\<close>

function parse_chars :: "string \<Rightarrow> string \<Rightarrow> parser \<Rightarrow> validation_error + string \<times> parser" where
  "parse_chars input out p =
     (case peek_byte input p of
        None \<Rightarrow> Inl InvalidArgument
      | Some byte \<Rightarrow>
          if byte = CHR 0x22 then Inr (out, p\<lparr>pr_position := pr_position p + 1\<rparr>)
          else if byte = CHR 0x5C then
            and_then (parse_escape input out (p\<lparr>pr_position := pr_position p + 1\<rparr>)) (\<lambda>(out, p).
              parse_chars input out p)
          else if of_char byte \<le> (0x1F :: nat) then Inl InvalidArgument
          else
            and_then (next_char input p) (\<lambda>(character, p). parse_chars input (out @ character) p))"
  by pat_completeness auto
termination
  by (relation "measure (\<lambda>(input, out, p). length input - pr_position p)")
    (auto simp: peek_byte_def dest!: parse_escape_Inr next_char_Inr)

declare parse_chars.simps [simp del]

definition parse_string :: "string \<Rightarrow> parser \<Rightarrow> validation_error + string \<times> parser" where
  "parse_string input p = and_then (expect_byte input (CHR 0x22) p) (parse_chars input [])"

subsection \<open>Values\<close>

definition parse_number :: "string \<Rightarrow> parser \<Rightarrow> validation_error + nat \<times> parser" where
  "parse_number input p =
     (let start = pr_position p;
          p = p\<lparr>pr_position := skip_bytes (\<lambda>byte. \<not> is_number_end byte) input start\<rparr>
      in push_node (NumberValue (str_slice input start (pr_position p))) p)"

definition starts_number :: "char \<Rightarrow> bool" where
  "starts_number b \<longleftrightarrow> b = CHR ''-'' \<or> is_ascii_digit b"

text \<open>The two container parsers take the recursive call as a parameter; the loops have their own fuel.\<close>

type_synonym value_parser = "nat \<Rightarrow> parser \<Rightarrow> (validation_error + nat \<times> parser) option"

primrec parse_items ::
  "nat \<Rightarrow> (parser \<Rightarrow> (validation_error + nat \<times> parser) option) \<Rightarrow> string \<Rightarrow> nat list \<Rightarrow> parser \<Rightarrow>
   (validation_error + nat list \<times> parser) option"
where
  "parse_items 0 elem input items p = None"
| "parse_items (Suc fuel) elem input items p =
     fuel_then (elem p) (\<lambda>(index, p).
       let items = items @ [index]; p = skip_whitespace input p in
       case consume_byte input (CHR '']'') p of
         (True, p) \<Rightarrow> Some (Inr (items, p))
       | (False, p) \<Rightarrow>
           fuel_then (Some (expect_byte input (CHR '','') p)) (\<lambda>p. parse_items fuel elem input items p))"

definition parse_array :: "nat \<Rightarrow> value_parser \<Rightarrow> string \<Rightarrow> value_parser" where
  "parse_array fuel value input depth p =
     fuel_then (Some (expect_byte input (CHR ''['') p)) (\<lambda>p.
       let p = skip_whitespace input p in
       case consume_byte input (CHR '']'') p of
         (True, p) \<Rightarrow> Some (push_node (ArrayValue []) p)
       | (False, p) \<Rightarrow>
           fuel_then (Some (ok_or (checked_add 8 depth 1) Limit)) (\<lambda>child_depth.
           fuel_then (parse_items fuel (value child_depth) input [] p) (\<lambda>(items, p).
             Some (push_node (ArrayValue items) p))))"

primrec parse_fields ::
  "nat \<Rightarrow> (parser \<Rightarrow> (validation_error + nat \<times> parser) option) \<Rightarrow> string \<Rightarrow> string set \<Rightarrow>
   wire_json_field list \<Rightarrow> parser \<Rightarrow> (validation_error + wire_json_field list \<times> parser) option"
where
  "parse_fields 0 elem input keys flds p = None"
| "parse_fields (Suc fuel) elem input keys flds p =
     (let p = skip_whitespace input p in
      fuel_then (Some (parse_string input p)) (\<lambda>(key, p).
        if key \<in> keys then Some (Inl InvalidArgument)
        else
          let keys = {key} \<union> keys; p = skip_whitespace input p in
          fuel_then (Some (expect_byte input (CHR '':'') p)) (\<lambda>p.
          fuel_then (elem p) (\<lambda>(index, p).
            let flds = flds @ [\<lparr>wf_key = key, wf_value = index\<rparr>]; p = skip_whitespace input p in
            case consume_byte input (CHR ''}'') p of
              (True, p) \<Rightarrow> Some (Inr (flds, p))
            | (False, p) \<Rightarrow>
                fuel_then (Some (expect_byte input (CHR '','') p)) (\<lambda>p.
                  parse_fields fuel elem input keys flds p)))))"

definition parse_object :: "nat \<Rightarrow> value_parser \<Rightarrow> string \<Rightarrow> value_parser" where
  "parse_object fuel value input depth p =
     fuel_then (Some (expect_byte input (CHR ''{'') p)) (\<lambda>p.
       let p = skip_whitespace input p in
       case consume_byte input (CHR ''}'') p of
         (True, p) \<Rightarrow> Some (push_node (ObjectValue []) p)
       | (False, p) \<Rightarrow>
           fuel_then (Some (ok_or (checked_add 8 depth 1) Limit)) (\<lambda>child_depth.
           fuel_then (parse_fields fuel (value child_depth) input {} [] p) (\<lambda>(flds, p).
             Some (push_node (ObjectValue flds) p))))"

primrec parse_value :: "nat \<Rightarrow> string \<Rightarrow> value_parser" where
  "parse_value 0 input = (\<lambda>depth p. None)"
| "parse_value (Suc fuel) input = (\<lambda>depth p.
     if depth > MAX_TOOL_ARGUMENT_DEPTH then Some (Inl Limit)
     else let p = skip_whitespace input p in
       case peek_byte input p of
         None \<Rightarrow> Some (Inl InvalidArgument)
       | Some byte \<Rightarrow>
           if byte = CHR ''n'' then
             Some (and_then (consume_literal input ''null'' p) (push_node NullValue))
           else if byte = CHR ''t'' then
             Some (and_then (consume_literal input ''true'' p) (push_node (BooleanValue True)))
           else if byte = CHR ''f'' then
             Some (and_then (consume_literal input ''false'' p) (push_node (BooleanValue False)))
           else if byte = CHR 0x22 then
             Some (and_then (parse_string input p) (\<lambda>(value, p). push_node (StringValue value) p))
           else if byte = CHR ''['' then parse_array fuel (parse_value fuel input) input depth p
           else if byte = CHR ''{'' then parse_object fuel (parse_value fuel input) input depth p
           else if starts_number byte then Some (parse_number input p)
           else Some (Inl InvalidArgument))"

declare parse_value.simps [simp del] parse_items.simps [simp del] parse_fields.simps [simp del]

definition parser_parse :: "nat \<Rightarrow> string \<Rightarrow> (validation_error + wire_json_document) option" where
  "parser_parse fuel input =
     (let p = skip_whitespace input parser_new in
      fuel_then (parse_value fuel input 1 p) (\<lambda>(root, p).
        let p = skip_whitespace input p in
        if pr_position p \<noteq> length input then Some (Inl InvalidArgument)
        else Some (Inr \<lparr>wd_root = root, wd_nodes = pr_nodes p\<rparr>)))"

definition validate_tool_arguments :: "nat \<Rightarrow> string \<Rightarrow> (validation_error + unit) option" where
  "validate_tool_arguments fuel value =
     (if length value > MAX_TOOL_ARGUMENT_BYTES then Some (Inl Limit)
      else
        fuel_then (parser_parse fuel value) (\<lambda>document.
          if length (wd_nodes document) > MAX_TOOL_ARGUMENT_NODES then Some (Inl Limit)
          else
            fuel_then (Some (validate_wire_json document True)) (\<lambda>stats.
              if ws_depth stats > MAX_TOOL_ARGUMENT_DEPTH \<or>
                 ws_logical_charge stats > MAX_TOOL_ARGUMENT_CHARGE
              then Some (Inl Limit)
              else
                fuel_then (canonical_serialize fuel document) (\<lambda>text.
                  if text \<noteq> value then Some (Inl InvalidArgument) else Some (Inr ())))))"

subsection \<open>The document of a tree\<close>

lemma size_list_map_snd: "size_list (size \<circ> snd) fs \<le> size_list (size_prod (\<lambda>_. 0) size) fs"
  by (induction fs) auto

text \<open>The postorder node vector the parser builds for a tree when it already holds \<open>k\<close> nodes.\<close>

function flatten :: "nat \<Rightarrow> json \<Rightarrow> wire_json_node list"
and flatten_all :: "nat \<Rightarrow> json list \<Rightarrow> nat list \<times> wire_json_node list" where
  "flatten k JNull = [NullValue]"
| "flatten k (JBool b) = [BooleanValue b]"
| "flatten k (JNumber s) = [NumberValue s]"
| "flatten k (JString s) = [StringValue s]"
| "flatten k (JArray ts) = (case flatten_all k ts of (items, ns) \<Rightarrow> ns @ [ArrayValue items])"
| "flatten k (JObject fs) = (case flatten_all k (map snd fs) of (items, ns) \<Rightarrow>
     ns @ [ObjectValue (map2 (\<lambda>key i. \<lparr>wf_key = key, wf_value = i\<rparr>) (map fst fs) items)])"
| "flatten_all k [] = ([], [])"
| "flatten_all k (t # ts) =
     (let ns = flatten k t in case flatten_all (k + length ns) ts of (items, ms) \<Rightarrow>
        ((k + length ns - 1) # items, ns @ ms))"
  by pat_completeness auto

termination
  by (relation "measure (case_sum (\<lambda>(k, t). size t) (\<lambda>(k, ts). size_list size ts))")
    (auto simp: less_Suc_eq_le size_list_map_snd)

text \<open>The equations in terms of projections.\<close>

lemma flatten_proj [simp]:
  "flatten k (JArray ts) = snd (flatten_all k ts) @ [ArrayValue (fst (flatten_all k ts))]"
  "flatten k (JObject fs) = snd (flatten_all k (map snd fs)) @
     [ObjectValue (map2 (\<lambda>key i. \<lparr>wf_key = key, wf_value = i\<rparr>) (map fst fs) (fst (flatten_all k (map snd fs))))]"
  "flatten_all k (t # ts) =
     ((k + length (flatten k t) - 1) # fst (flatten_all (k + length (flatten k t)) ts),
      flatten k t @ snd (flatten_all (k + length (flatten k t)) ts))"
  by (simp_all add: Let_def case_prod_beta)

declare flatten.simps(5,6) [simp del] flatten_all.simps(2) [simp del]

lemma flatten_nonempty [simp]: "flatten k t \<noteq> []"
  by (cases t) auto

definition document_of :: "json \<Rightarrow> wire_json_document" where
  "document_of t = \<lparr>wd_root = length (flatten 0 t) - 1, wd_nodes = flatten 0 t\<rparr>"

lemma flatten_all_length [simp]: "length (fst (flatten_all k ts)) = length ts"
  by (induction ts arbitrary: k) auto

lemma flatten_all_append:
  "flatten_all k (ts @ us) =
     (fst (flatten_all k ts) @ fst (flatten_all (k + length (snd (flatten_all k ts))) us),
      snd (flatten_all k ts) @ snd (flatten_all (k + length (snd (flatten_all k ts))) us))"
  by (induction ts arbitrary: k) (auto simp: add.assoc)

subsection \<open>What the parser builds\<close>

lemma skip_bytes_le: "position \<le> skip_bytes P input position"
  by (induction P input position rule: skip_bytes.induct) (subst skip_bytes.simps, auto)

lemma skip_whitespace_simps [simp]:
  "pr_position p \<le> pr_position (skip_whitespace input p)"
  "pr_nodes (skip_whitespace input p) = pr_nodes p"
  by (simp_all add: skip_whitespace_def skip_bytes_le)

lemma consume_byte_cases:
  "consume_byte input c p = (b, p') \<longleftrightarrow>
     b = (peek_byte input p = Some c) \<and>
     p' = (if b then p\<lparr>pr_position := pr_position p + 1\<rparr> else p)"
  by (auto simp: consume_byte_def)

lemma push_node_Inr:
  "push_node node p = Inr r \<longleftrightarrow>
     length (pr_nodes p) < MAX_TOOL_ARGUMENT_NODES \<and>
     r = (length (pr_nodes p), p\<lparr>pr_nodes := pr_nodes p @ [node]\<rparr>)"
  by (auto simp: push_node_def MAX_TOOL_ARGUMENT_NODES_def)

lemma parse_chars_Inr:
  "parse_chars input out p = Inr (s, p') \<Longrightarrow> pr_position p < pr_position p' \<and> pr_nodes p' = pr_nodes p"
proof (induction input out p rule: parse_chars.induct)
  case (1 input out p)
  from 1(3) show ?case
    by (subst (asm) parse_chars.simps)
      (fastforce split: option.splits if_splits dest: 1(1,2) parse_escape_Inr next_char_Inr)
qed

lemma parse_string_Inr:
  "parse_string input p = Inr (s, p') \<Longrightarrow> pr_position p < pr_position p' \<and> pr_nodes p' = pr_nodes p"
  by (auto simp: parse_string_def expect_byte_Inr dest!: parse_chars_Inr)

lemma consume_literal_Inr:
  "consume_literal input s p = Inr p' \<longleftrightarrow>
     p' = p\<lparr>pr_position := pr_position p + length s\<rparr> \<and> pr_position p + length s < 2 ^ 64 \<and>
     get_bytes input (pr_position p) (pr_position p + length s) = Some s"
  by (auto simp: consume_literal_def)

text \<open>A successful value parser moves forward and appends the nodes of one tree, its root last.\<close>

definition parsed :: "parser \<Rightarrow> nat \<times> parser \<Rightarrow> json \<Rightarrow> bool" where
  "parsed p r t \<longleftrightarrow> pr_position p \<le> pr_position (snd r) \<and>
     pr_nodes (snd r) = pr_nodes p @ flatten (length (pr_nodes p)) t \<and>
     fst r = length (pr_nodes (snd r)) - 1"

lemma parsed_push:
  assumes "push_node node q = Inr r" and "pr_nodes q = pr_nodes p @ ns" and "pr_position p \<le> pr_position q"
    and "flatten (length (pr_nodes p)) t = ns @ [node]"
  shows "parsed p r t"
  using assms by (auto simp: parsed_def push_node_Inr)

lemma parse_items_parsed:
  assumes elem: "\<And>p r. elem p = Some (Inr r) \<Longrightarrow> \<exists>t. parsed p r t"
  shows "parse_items fuel elem input items p = Some (Inr (items', p')) \<Longrightarrow>
    pr_position p \<le> pr_position p' \<and>
    (\<exists>ts. pr_nodes p' = pr_nodes p @ snd (flatten_all (length (pr_nodes p)) ts) \<and>
       items' = items @ fst (flatten_all (length (pr_nodes p)) ts))"
proof (induction fuel arbitrary: items p)
  case 0
  then show ?case by (simp add: parse_items.simps)
next
  case (Suc fuel)
  from Suc.prems obtain i q where iq: "elem p = Some (Inr (i, q))"
    and rest: "(case consume_byte input (CHR '']'') (skip_whitespace input q) of
       (True, p) \<Rightarrow> Some (Inr (items @ [i], p))
     | (False, p) \<Rightarrow> fuel_then (Some (expect_byte input (CHR '','') p))
         (\<lambda>p. parse_items fuel elem input (items @ [i]) p)) = Some (Inr (items', p'))"
    by (auto simp: parse_items.simps Let_def)
  from elem [OF iq] obtain t where t: "pr_position p \<le> pr_position q"
    "pr_nodes q = pr_nodes p @ flatten (length (pr_nodes p)) t" "i = length (pr_nodes q) - 1"
    by (auto simp: parsed_def)
  let ?w = "skip_whitespace input q"
  have w: "pr_position p \<le> pr_position ?w" "pr_nodes ?w = pr_nodes q"
    using t(1) order_trans by (auto intro: order_trans)
  show ?case
  proof (cases "peek_byte input ?w = Some (CHR '']'')")
    case True
    with rest have r: "items' = items @ [i]" "p' = ?w\<lparr>pr_position := pr_position ?w + 1\<rparr>"
      by (auto simp: consume_byte_def)
    then show ?thesis using w t(2,3) by (intro conjI exI [of _ "[t]"]) auto
  next
    case False
    with rest obtain q' where q': "q' = ?w\<lparr>pr_position := pr_position ?w + 1\<rparr>"
      and run: "parse_items fuel elem input (items @ [i]) q' = Some (Inr (items', p'))"
      by (auto simp: consume_byte_def expect_byte_Inr)
    from Suc.IH [OF run] obtain ts where ts: "pr_position q' \<le> pr_position p'"
      "pr_nodes p' = pr_nodes q' @ snd (flatten_all (length (pr_nodes q')) ts)"
      "items' = (items @ [i]) @ fst (flatten_all (length (pr_nodes q')) ts)" by blast
    then show ?thesis using w t(2,3) q' by (intro conjI exI [of _ "t # ts"]) auto
  qed
qed

lemma parse_fields_parsed:
  assumes elem: "\<And>p r. elem p = Some (Inr r) \<Longrightarrow> \<exists>t. parsed p r t"
  shows "parse_fields fuel elem input keys flds p = Some (Inr (flds', p')) \<Longrightarrow>
    pr_position p \<le> pr_position p' \<and>
    (\<exists>fs. pr_nodes p' = pr_nodes p @ snd (flatten_all (length (pr_nodes p)) (map snd fs)) \<and>
       flds' = flds @ map2 (\<lambda>key i. \<lparr>wf_key = key, wf_value = i\<rparr>) (map fst fs)
         (fst (flatten_all (length (pr_nodes p)) (map snd fs))))"
proof (induction fuel arbitrary: keys flds p)
  case 0
  then show ?case by (simp add: parse_fields.simps)
next
  case (Suc fuel)
  from Suc.prems obtain key a i q
    where key: "parse_string input (skip_whitespace input p) = Inr (key, a)"
    and iq: "elem ((skip_whitespace input a)\<lparr>pr_position := pr_position (skip_whitespace input a) + 1\<rparr>)
        = Some (Inr (i, q))"
    and rest: "(case consume_byte input (CHR ''}'') (skip_whitespace input q) of
       (True, p) \<Rightarrow> Some (Inr (flds @ [\<lparr>wf_key = key, wf_value = i\<rparr>], p))
     | (False, p) \<Rightarrow> fuel_then (Some (expect_byte input (CHR '','') p))
         (\<lambda>p. parse_fields fuel elem input (insert key keys) (flds @ [\<lparr>wf_key = key, wf_value = i\<rparr>]) p))
      = Some (Inr (flds', p'))"
    by (auto simp: parse_fields.simps Let_def expect_byte_Inr split: if_splits)
  have a: "pr_position p \<le> pr_position (skip_whitespace input a)" "pr_nodes a = pr_nodes p"
    using parse_string_Inr [OF key] skip_whitespace_simps(1) [of p input]
      skip_whitespace_simps(1) [of a input] by (linarith, simp)
  from elem [OF iq] obtain t where t: "pr_position p \<le> pr_position q"
    "pr_nodes q = pr_nodes p @ flatten (length (pr_nodes p)) t" "i = length (pr_nodes q) - 1"
    using a by (auto simp: parsed_def)
  let ?w = "skip_whitespace input q"
  have w: "pr_position p \<le> pr_position ?w" "pr_nodes ?w = pr_nodes q"
    using t(1) by (auto intro: order_trans)
  show ?case
  proof (cases "peek_byte input ?w = Some (CHR ''}'')")
    case True
    with rest have r: "flds' = flds @ [\<lparr>wf_key = key, wf_value = i\<rparr>]"
        "p' = ?w\<lparr>pr_position := pr_position ?w + 1\<rparr>"
      by (auto simp: consume_byte_def)
    then show ?thesis using w t(2,3) by (intro conjI exI [of _ "[(key, t)]"]) auto
  next
    case False
    with rest obtain q' where q': "q' = ?w\<lparr>pr_position := pr_position ?w + 1\<rparr>"
      and run: "parse_fields fuel elem input (insert key keys) (flds @ [\<lparr>wf_key = key, wf_value = i\<rparr>]) q'
        = Some (Inr (flds', p'))"
      by (auto simp: consume_byte_def expect_byte_Inr)
    from Suc.IH [OF run] obtain fs where "pr_position q' \<le> pr_position p'"
      "pr_nodes p' = pr_nodes q' @ snd (flatten_all (length (pr_nodes q')) (map snd fs))"
      "flds' = (flds @ [\<lparr>wf_key = key, wf_value = i\<rparr>]) @
         map2 (\<lambda>key i. \<lparr>wf_key = key, wf_value = i\<rparr>) (map fst fs)
           (fst (flatten_all (length (pr_nodes q')) (map snd fs)))" by blast
    then show ?thesis using w t(2,3) q' by (intro conjI exI [of _ "(key, t) # fs"]) auto
  qed
qed

lemma parse_array_parsed:
  assumes elem: "\<And>d p r. value d p = Some (Inr r) \<Longrightarrow> \<exists>t. parsed p r t"
    and run: "parse_array fuel value input depth p = Some (Inr r)"
  shows "\<exists>t. parsed p r t"
proof -
  let ?q = "skip_whitespace input (p\<lparr>pr_position := pr_position p + 1\<rparr>)"
  have q: "pr_nodes ?q = pr_nodes p" "pr_position p < pr_position ?q"
    using skip_whitespace_simps(1) [of "p\<lparr>pr_position := pr_position p + 1\<rparr>" input] by auto
  show ?thesis
  proof (cases "peek_byte input ?q = Some (CHR '']'')")
    case True
    with run have "push_node (ArrayValue []) (?q\<lparr>pr_position := pr_position ?q + 1\<rparr>) = Inr r"
      by (auto simp: parse_array_def Let_def consume_byte_def expect_byte_Inr)
    from parsed_push [OF this, of p "[]" "JArray []"] q show ?thesis by auto
  next
    case False
    with run obtain items q' where items: "parse_items fuel (value (depth + 1)) input [] ?q = Some (Inr (items, q'))"
      and push: "push_node (ArrayValue items) q' = Inr r"
      by (auto simp: parse_array_def Let_def consume_byte_def expect_byte_Inr)
    have el: "\<exists>t. parsed p r t" if "value (depth + 1) p = Some (Inr r)" for p r using that by (rule elem)
    from parse_items_parsed [OF el items] obtain ts
      where "pr_position ?q \<le> pr_position q'"
        "pr_nodes q' = pr_nodes p @ snd (flatten_all (length (pr_nodes p)) ts)"
        "items = fst (flatten_all (length (pr_nodes p)) ts)"
      using q by auto
    with parsed_push [OF push, of p _ "JArray ts"] q show ?thesis by auto
  qed
qed

lemma parse_object_parsed:
  assumes elem: "\<And>d p r. value d p = Some (Inr r) \<Longrightarrow> \<exists>t. parsed p r t"
    and run: "parse_object fuel value input depth p = Some (Inr r)"
  shows "\<exists>t. parsed p r t"
proof -
  let ?q = "skip_whitespace input (p\<lparr>pr_position := pr_position p + 1\<rparr>)"
  have q: "pr_nodes ?q = pr_nodes p" "pr_position p < pr_position ?q"
    using skip_whitespace_simps(1) [of "p\<lparr>pr_position := pr_position p + 1\<rparr>" input] by auto
  show ?thesis
  proof (cases "peek_byte input ?q = Some (CHR ''}'')")
    case True
    with run have "push_node (ObjectValue []) (?q\<lparr>pr_position := pr_position ?q + 1\<rparr>) = Inr r"
      by (auto simp: parse_object_def Let_def consume_byte_def expect_byte_Inr)
    from parsed_push [OF this, of p "[]" "JObject []"] q show ?thesis by auto
  next
    case False
    with run obtain flds q'
      where flds: "parse_fields fuel (value (depth + 1)) input {} [] ?q = Some (Inr (flds, q'))"
      and push: "push_node (ObjectValue flds) q' = Inr r"
      by (auto simp: parse_object_def Let_def consume_byte_def expect_byte_Inr)
    have el: "\<exists>t. parsed p r t" if "value (depth + 1) p = Some (Inr r)" for p r using that by (rule elem)
    from parse_fields_parsed [OF el flds] obtain fs
      where "pr_position ?q \<le> pr_position q'"
        "pr_nodes q' = pr_nodes p @ snd (flatten_all (length (pr_nodes p)) (map snd fs))"
        "flds = map2 (\<lambda>key i. \<lparr>wf_key = key, wf_value = i\<rparr>) (map fst fs)
           (fst (flatten_all (length (pr_nodes p)) (map snd fs)))"
      using q by auto
    with parsed_push [OF push, of p _ "JObject fs"] q show ?thesis by auto
  qed
qed

lemma parse_value_parsed: "parse_value fuel input depth p = Some (Inr r) \<Longrightarrow> \<exists>t. parsed p r t"
proof (induction fuel arbitrary: depth p r)
  case 0
  then show ?case by (simp add: parse_value.simps)
next
  case (Suc fuel)
  let ?q = "skip_whitespace input p"
  have step: "\<exists>t. parsed p r t" if "parsed ?q r t" for t
    using that order_trans by (auto simp: parsed_def intro: order_trans [OF skip_whitespace_simps(1)])
  from Suc.prems obtain byte where byte: "peek_byte input ?q = Some byte"
    by (auto simp: parse_value.simps Let_def split: option.splits if_splits)
  note run = Suc.prems [unfolded parse_value.simps Let_def byte option.case]
  define leaf where "leaf \<longleftrightarrow> (\<exists>q node t. push_node node q = Inr r \<and> pr_nodes q = pr_nodes ?q \<and>
    pr_position ?q \<le> pr_position q \<and> (\<forall>k. flatten k t = [node]))"
  have L: "leaf" if "push_node node q = Inr r" "pr_nodes q = pr_nodes ?q"
      "pr_position ?q \<le> pr_position q" "\<And>k. flatten k t = [node]" for q node t
    using that unfolding leaf_def by blast
  have lit: "leaf" if "and_then (consume_literal input s ?q) (push_node node) = Inr r"
      and "\<And>k. flatten k t = [node]" for s node t
    using that L [of node _ t] by (fastforce simp: consume_literal_Inr)
  have str: "leaf" if run: "and_then (parse_string input ?q) (\<lambda>(value, p). push_node (StringValue value) p) = Inr r"
  proof -
    from run obtain s q where "parse_string input ?q = Inr (s, q)" "push_node (StringValue s) q = Inr r" by auto
    then show leaf using L [of "StringValue s" q "JString s"] by (auto dest!: parse_string_Inr)
  qed
  have num: "leaf" if "parse_number input ?q = Inr r"
    using that L [of "NumberValue s" _ "JNumber s" for s] by (fastforce simp: parse_number_def Let_def skip_bytes_le)
  have "leaf \<or> parse_array fuel (parse_value fuel input) input depth ?q = Some (Inr r) \<or>
      parse_object fuel (parse_value fuel input) input depth ?q = Some (Inr r)"
    using run lit [of _ _ JNull] lit [of _ _ "JBool True"] lit [of _ _ "JBool False"] str num
    by (simp split: if_splits)
  then show ?case
  proof (elim disjE)
    assume leaf
    then obtain q node t where l: "push_node node q = Inr r" "pr_nodes q = pr_nodes ?q"
      "pr_position ?q \<le> pr_position q" "\<And>k. flatten k t = [node]" unfolding leaf_def by blast
    from parsed_push [OF l(1), of ?q "[]" t] l(2-4) step show ?thesis by auto
  next
    assume "parse_array fuel (parse_value fuel input) input depth ?q = Some (Inr r)"
    then have "\<exists>t. parsed ?q r t" by (rule parse_array_parsed [rotated]) (rule Suc.IH)
    with step show ?thesis by blast
  next
    assume "parse_object fuel (parse_value fuel input) input depth ?q = Some (Inr r)"
    then have "\<exists>t. parsed ?q r t" by (rule parse_object_parsed [rotated]) (rule Suc.IH)
    with step show ?thesis by blast
  qed
qed

text \<open>So the document of an accepted text is the document of a tree.\<close>

lemma parser_parse_document:
  assumes "parser_parse fuel input = Some (Inr d)"
  shows "\<exists>t. d = document_of t"
proof -
  from assms obtain root p where run: "parse_value fuel input 1 (skip_whitespace input parser_new) = Some (Inr (root, p))"
    and d: "d = \<lparr>wd_root = root, wd_nodes = pr_nodes p\<rparr>"
    by (auto simp: parser_parse_def Let_def split: if_splits)
  from parse_value_parsed [OF run] obtain t where "parsed (skip_whitespace input parser_new) (root, p) t" ..
  then show ?thesis using d
    by (auto simp: parsed_def document_of_def parser_new_def)
qed

subsection \<open>The recursion ends\<close>

lemma skip_whitespace_mono: "n \<le> pr_position p \<Longrightarrow> n \<le> pr_position (skip_whitespace input p)"
  using skip_whitespace_simps(1) order_trans by blast

lemma parse_items_total:
  assumes total: "\<And>p. length input - pr_position p < n \<Longrightarrow> elem p \<noteq> None"
    and mono: "\<And>p i q. elem p = Some (Inr (i, q)) \<Longrightarrow> pr_position p \<le> pr_position q"
  shows "length input - pr_position p < n \<Longrightarrow> length input - pr_position p < fuel \<Longrightarrow>
    parse_items fuel elem input items p \<noteq> None"
proof (induction fuel arbitrary: items p)
  case 0
  then show ?case by simp
next
  case (Suc fuel)
  have "parse_items fuel elem input items' (w\<lparr>pr_position := Suc (pr_position w)\<rparr>) \<noteq> None"
    if "elem p = Some (Inr (i, q))" and w: "w = skip_whitespace input q"
      and "peek_byte input w = Some c" for i q w c items'
  proof -
    have "pr_position p \<le> pr_position w" "pr_position w < length input"
      using mono [OF that(1)] that(3) w by (auto simp: peek_byte_def intro: skip_whitespace_mono)
    then show ?thesis using Suc.prems by (intro Suc.IH) auto
  qed
  then show ?case using total [OF Suc.prems(1)]
    by (auto simp: parse_items.simps Let_def consume_byte_def expect_byte_Inr simp del: not_None_eq)
qed

lemma parse_fields_total:
  assumes total: "\<And>p. length input - pr_position p < n \<Longrightarrow> elem p \<noteq> None"
    and mono: "\<And>p i q. elem p = Some (Inr (i, q)) \<Longrightarrow> pr_position p \<le> pr_position q"
  shows "length input - pr_position p < n \<Longrightarrow> length input - pr_position p < fuel \<Longrightarrow>
    parse_fields fuel elem input keys flds p \<noteq> None"
proof (induction fuel arbitrary: keys flds p)
  case 0
  then show ?case by simp
next
  case (Suc fuel)
  have 1: "pr_position p \<le> pr_position a"
    if "parse_string input (skip_whitespace input p) = Inr (key, a)" for key a
    using parse_string_Inr [OF that] skip_whitespace_simps(1) [of p input] by linarith
  have 2: "elem ((skip_whitespace input a)\<lparr>pr_position := Suc (pr_position (skip_whitespace input a))\<rparr>) \<noteq> None"
    if "parse_string input (skip_whitespace input p) = Inr (key, a)" for key a
    using skip_whitespace_mono [OF 1 [OF that], of input] Suc.prems(1) by (intro total) simp
  have 3: "parse_fields fuel elem input keys' flds' (w\<lparr>pr_position := Suc (pr_position w)\<rparr>) \<noteq> None"
    if "parse_string input (skip_whitespace input p) = Inr (key, a)"
      and e: "elem ((skip_whitespace input a)\<lparr>pr_position := Suc (pr_position (skip_whitespace input a))\<rparr>)
        = Some (Inr (i, q))"
      and w: "w = skip_whitespace input q" and "peek_byte input w = Some c" for key a i q w c keys' flds'
  proof -
    have "pr_position p \<le> pr_position w" "pr_position w < length input"
      using skip_whitespace_mono [OF 1 [OF that(1)], of input] mono [OF e] that(4) w
      by (auto simp: peek_byte_def intro: skip_whitespace_mono)
    then show ?thesis using Suc.prems by (intro Suc.IH) auto
  qed
  show ?case
    using 2 3
    by (auto simp: parse_fields.simps Let_def consume_byte_def expect_byte_Inr simp del: not_None_eq)
qed

lemma parse_value_total: "length input - pr_position p < fuel \<Longrightarrow> parse_value fuel input depth p \<noteq> None"
proof (induction fuel arbitrary: depth p)
  case 0
  then show ?case by simp
next
  case (Suc fuel)
  let ?q = "skip_whitespace input p"
  let ?w = "skip_whitespace input (?q\<lparr>pr_position := Suc (pr_position ?q)\<rparr>)"
  have mono: "pr_position p \<le> pr_position q"
    if "parse_value fuel input depth p = Some (Inr (i, q))" for depth p i q
    using parse_value_parsed [OF that] by (auto simp: parsed_def)
  have le: "pr_position ?q < pr_position ?w"
    using skip_whitespace_simps(1) [of "?q\<lparr>pr_position := Suc (pr_position ?q)\<rparr>" input] by simp
  have lt: "length input - pr_position ?w < fuel" if "peek_byte input ?q = Some c" for c
  proof -
    have "pr_position ?q < length input" using that by (auto simp: peek_byte_def)
    then show ?thesis using le skip_whitespace_simps(1) [of p input] Suc.prems by linarith
  qed
  have items: "parse_items fuel (parse_value fuel input d) input [] ?w \<noteq> None"
    if "peek_byte input ?q = Some c" for c d
    using lt [OF that] by (intro parse_items_total [of input fuel] Suc.IH mono)
  have flds: "parse_fields fuel (parse_value fuel input d) input {} [] ?w \<noteq> None"
    if "peek_byte input ?q = Some c" for c d
    using lt [OF that] by (intro parse_fields_total [of input fuel] Suc.IH mono)
  show ?case
  proof (cases "peek_byte input ?q")
    case None
    then show ?thesis by (simp add: parse_value.simps Let_def)
  next
    case (Some c)
    have "parse_array fuel (parse_value fuel input) input depth ?q \<noteq> None"
      using items [OF Some]
      by (auto simp: parse_array_def Let_def expect_byte_Inr consume_byte_def simp del: not_None_eq)
    moreover have "parse_object fuel (parse_value fuel input) input depth ?q \<noteq> None"
      using flds [OF Some]
      by (auto simp: parse_object_def Let_def expect_byte_Inr consume_byte_def simp del: not_None_eq)
    ultimately show ?thesis using Some by (simp add: parse_value.simps Let_def del: not_None_eq)
  qed
qed

lemma parser_parse_total: "length input < fuel \<Longrightarrow> parser_parse fuel input \<noteq> None"
  using parse_value_total [of input "skip_whitespace input parser_new" fuel 1]
  by (auto simp: parser_parse_def Let_def)

subsection \<open>The tree of a flat document\<close>

fun json_size :: "json \<Rightarrow> nat" where
  "json_size (JArray ts) = Suc (sum_list (map json_size ts))"
| "json_size (JObject fs) = Suc (sum_list (map (\<lambda>(_, t). json_size t) fs))"
| "json_size _ = 1"

lemma flatten_length:
  "length (flatten k t) = json_size t"
  "length (snd (flatten_all k ts)) = sum_list (map json_size ts)"
proof (induction k t and k ts rule: flatten_flatten_all.induct)
  case (6 k fs)
  then show ?case by (simp add: comp_def case_prod_unfold)
qed simp_all

lemma json_size_pos: "0 < json_size t"
  by (cases t) auto

lemma fold_max_le_iff: "fold max xs (a :: nat) \<le> b \<longleftrightarrow> a \<le> b \<and> (\<forall>x\<in>set xs. x \<le> b)"
  by (induction xs arbitrary: a) auto

lemma fold_max_ge: "x \<in> set xs \<Longrightarrow> x \<le> fold max xs (a :: nat)"
  using fold_max_le_iff [of xs a "fold max xs a"] by simp

lemma json_depth_child:
  "t \<in> set ts \<Longrightarrow> json_depth t < json_depth (JArray ts)"
  "t \<in> set (map snd fs) \<Longrightarrow> json_depth t < json_depth (JObject fs)"
  by (force simp: less_Suc_eq_le case_prod_unfold intro: fold_max_ge)+

lemma tree_at_flatten:
  "length pre = k \<Longrightarrow> json_depth t \<le> d \<Longrightarrow>
     tree_at d (pre @ flatten k t @ post) (k + json_size t - 1) = Some t"
  "length pre = k \<Longrightarrow> \<forall>t\<in>set ts. json_depth t \<le> d \<Longrightarrow>
     map (tree_at d (pre @ snd (flatten_all k ts) @ post)) (fst (flatten_all k ts)) = map Some ts"
proof (induction k t and k ts arbitrary: pre post d and pre post d rule: flatten_flatten_all.induct)
  case (5 k ts)
  then obtain d' where d: "d = Suc d'" "\<forall>t\<in>set ts. json_depth t \<le> d'"
    by (cases d) (auto simp: fold_max_le_iff)
  from 5(1) [OF 5(2) d(2), of "ArrayValue (fst (flatten_all k ts)) # post"]
  have "those (map (tree_at d' (pre @ flatten k (JArray ts) @ post)) (fst (flatten_all k ts))) = Some ts"
    by (simp add: those_eq_Some)
  moreover have "nth_opt (pre @ flatten k (JArray ts) @ post) (k + json_size (JArray ts) - 1) =
      Some (ArrayValue (fst (flatten_all k ts)))"
    using 5(2) flatten_length(2) [of k ts] by (simp add: nth_opt_def nth_append)
  ultimately show ?case by (simp add: d(1) tree_at.simps del: flatten_proj nth_opt_eq_Some)
next
  case (6 k fs)
  then obtain d' where d: "d = Suc d'" "\<forall>t\<in>set (map snd fs). json_depth t \<le> d'"
    by (cases d) (auto simp: fold_max_le_iff case_prod_unfold)
  let ?is = "fst (flatten_all k (map snd fs))"
  let ?fl = "map2 (\<lambda>key i. \<lparr>wf_key = key, wf_value = i\<rparr>) (map fst fs) ?is"
  have keys: "map wf_key ?fl = map fst fs" by (rule nth_equalityI) auto
  have vals: "map wf_value ?fl = ?is" by (rule nth_equalityI) auto
  from 6(1) [OF 6(2) d(2), of "ObjectValue ?fl # post"]
  have "map (tree_at d' (pre @ flatten k (JObject fs) @ post)) (map wf_value ?fl) = map Some (map snd fs)"
    by (simp only: vals flatten_proj append.simps append_assoc)
  then have "map (\<lambda>f. tree_at d' (pre @ flatten k (JObject fs) @ post) (wf_value f)) ?fl = map Some (map snd fs)"
    by (simp only: map_map comp_def)
  then have "those (map (\<lambda>f. tree_at d' (pre @ flatten k (JObject fs) @ post) (wf_value f)) ?fl) = Some (map snd fs)"
    by (simp only: those_eq_Some)
  moreover have "nth_opt (pre @ flatten k (JObject fs) @ post) (k + json_size (JObject fs) - 1) = Some (ObjectValue ?fl)"
    using 6(2) flatten_length(2) [of k "map snd fs"]
    by (simp add: nth_opt_def nth_append comp_def case_prod_unfold)
  ultimately show ?case using keys by (simp add: d(1) tree_at.simps zip_map_fst_snd del: flatten_proj nth_opt_eq_Some)
next
  case (8 k t ts)
  have "tree_at d (pre @ flatten k t @ snd (flatten_all (k + length (flatten k t)) ts) @ post)
      (k + json_size t - 1) = Some t"
    using 8 by simp
  moreover have "map (tree_at d ((pre @ flatten k t) @ snd (flatten_all (k + length (flatten k t)) ts) @ post))
      (fst (flatten_all (k + length (flatten k t)) ts)) = map Some ts"
    using 8(2) [OF refl, of "pre @ flatten k t" d post] 8(3,4) by simp
  ultimately show ?case by (simp add: flatten_length)
qed (auto simp: nth_opt_def nth_append Suc_le_eq gr0_conv_Suc tree_at.simps)

text \<open>The nodes of \<open>flatten\<close> are in postorder: children come earlier, and every node but the root of the
  tree is the child of exactly one node.\<close>

definition children_below :: "nat \<Rightarrow> wire_json_node list \<Rightarrow> bool" where
  "children_below k ns \<longleftrightarrow> (\<forall>i<length ns. \<forall>c\<in>set (children (ns ! i)). c < k + i)"

lemma children_below_simps [simp]:
  "children_below k []"
  "children_below k [n] \<longleftrightarrow> (\<forall>c\<in>set (children n). c < k)"
  "children_below k (xs @ ys) \<longleftrightarrow> children_below k xs \<and> children_below (k + length xs) ys"
proof -
  show "children_below k (xs @ ys) \<longleftrightarrow> children_below k xs \<and> children_below (k + length xs) ys"
  proof (intro iffI conjI)
    assume all: "children_below k (xs @ ys)"
    then show "children_below k xs"
      unfolding children_below_def by (metis length_append nth_append trans_less_add1)
    show "children_below (k + length xs) ys"
      unfolding children_below_def
    proof (intro allI impI ballI)
      fix i c assume "i < length ys" "c \<in> set (children (ys ! i))"
      then show "c < k + length xs + i"
        using all [unfolded children_below_def, rule_format, of "length xs + i" c] by simp
    qed
  next
    assume both: "children_below k xs \<and> children_below (k + length xs) ys"
    show "children_below k (xs @ ys)"
      unfolding children_below_def
    proof (intro allI impI ballI)
      fix i c assume i: "i < length (xs @ ys)" "c \<in> set (children ((xs @ ys) ! i))"
      show "c < k + i"
      proof (cases "i < length xs")
        case True
        with both i show ?thesis by (auto simp: children_below_def nth_append)
      next
        case False
        then have "c < k + length xs + (i - length xs)"
          using i conjunct2 [OF both, unfolded children_below_def, rule_format, of "i - length xs" c]
          by (simp add: nth_append)
        with False show ?thesis by simp
      qed
    qed
  qed
qed (auto simp: children_below_def)

lemma map2_field [simp]:
  "length ks = length is \<Longrightarrow> map wf_value (map2 (\<lambda>key i. \<lparr>wf_key = key, wf_value = i\<rparr>) ks is) = is"
  "length ks = length is \<Longrightarrow> map wf_key (map2 (\<lambda>key i. \<lparr>wf_key = key, wf_value = i\<rparr>) ks is) = ks"
  by (simp_all add: list_eq_iff_nth_eq)

lemma flatten_postorder:
  "mset (concat (map children (flatten k t))) = mset [k..<k + json_size t - 1] \<and>
   children_below k (flatten k t)"
  "mset (concat (map children (snd (flatten_all k ts)))) + mset (fst (flatten_all k ts)) =
     mset [k..<k + sum_list (map json_size ts)] \<and>
   children_below k (snd (flatten_all k ts))"
proof (induction k t and k ts rule: flatten_flatten_all.induct)
  case (5 k ts)
  have "set (fst (flatten_all k ts)) \<subseteq> set [k..<k + sum_list (map json_size ts)]"
    using arg_cong [OF conjunct1 [OF 5], of set_mset] by auto
  with 5 show ?case by (auto simp: flatten_length)
next
  case (6 k fs)
  have sum: "(\<Sum>(_, t)\<leftarrow>fs. json_size t) = sum_list (map json_size (map snd fs))"
    by (simp add: comp_def case_prod_unfold)
  have "set (fst (flatten_all k (map snd fs))) \<subseteq> set [k..<k + sum_list (map json_size (map snd fs))]"
    using arg_cong [OF conjunct1 [OF 6], of set_mset] by auto
  with 6 show ?case by (auto simp: flatten_length sum simp del: map_map)
next
  case (8 k t ts)
  have pos: "0 < json_size t" by (rule json_size_pos)
  have "mset [k..<k + (json_size t + sum_list (map json_size ts))] =
      mset [k..<k + json_size t - 1] + {#k + json_size t - 1#} +
      mset [k + json_size t..<k + json_size t + sum_list (map json_size ts)]"
  proof -
    have "[k..<k + (json_size t + sum_list (map json_size ts))] =
        [k..<k + json_size t - 1] @ [k + json_size t - 1] @
        [k + json_size t..<k + json_size t + sum_list (map json_size ts)]"
      using pos upt_add_eq_append [of k "k + json_size t" "sum_list (map json_size ts)"]
        upt_Suc_append [of k "k + json_size t - 1"] by (simp add: add.assoc)
    then show ?thesis by simp
  qed
  with 8 show ?case by (simp add: flatten_length)
qed simp_all

lemma flatten_postorder_tree: "postorder_tree (flatten 0 t)"
  using flatten_postorder(1) [of 0 t]
  by (simp add: postorder_tree_def children_below_def flatten_length)

lemma flatten_subtrees:
  "length pre = k \<Longrightarrow> json_depth t \<le> d \<Longrightarrow> i < json_size t \<Longrightarrow>
     \<exists>t'. tree_at d (pre @ flatten k t @ post) (k + i) = Some t' \<and> json_depth t' \<le> json_depth t"
  "length pre = k \<Longrightarrow> \<forall>t\<in>set ts. json_depth t \<le> d \<Longrightarrow> i < sum_list (map json_size ts) \<Longrightarrow>
     \<exists>t' t. tree_at d (pre @ snd (flatten_all k ts) @ post) (k + i) = Some t' \<and> t \<in> set ts \<and>
       json_depth t' \<le> json_depth t"
proof (induction k t and k ts arbitrary: pre post d i and pre post d i rule: flatten_flatten_all.induct)
  case (5 k ts)
  show ?case
  proof (cases "i < sum_list (map json_size ts)")
    case True
    have "\<forall>t\<in>set ts. json_depth t \<le> d" using 5(3) json_depth_child(1) by fastforce
    from 5(1) [OF 5(2) this True, of "ArrayValue (fst (flatten_all k ts)) # post"]
    obtain t' t where "tree_at d (pre @ flatten k (JArray ts) @ post) (k + i) = Some t'" "t \<in> set ts"
      "json_depth t' \<le> json_depth t" by auto
    moreover from json_depth_child(1) [OF this(2)] have "json_depth t \<le> json_depth (JArray ts)" by simp
    ultimately show ?thesis using le_trans by blast
  next
    case False
    then have "i = json_size (JArray ts) - 1" using 5(4) by simp
    then show ?thesis using tree_at_flatten(1) [OF 5(2,3), of post] by (auto simp del: flatten_proj)
  qed
next
  case (6 k fs)
  have sum: "json_size (JObject fs) = Suc (sum_list (map json_size (map snd fs)))"
    by (simp add: comp_def case_prod_unfold)
  show ?case
  proof (cases "i < sum_list (map json_size (map snd fs))")
    case True
    have "\<forall>t\<in>set (map snd fs). json_depth t \<le> d" using 6(3) json_depth_child(2) by fastforce
    from 6(1) [OF 6(2) this True, of "[last (flatten k (JObject fs))] @ post"]
    obtain t' t where "tree_at d (pre @ flatten k (JObject fs) @ post) (k + i) = Some t'" "t \<in> set (map snd fs)"
      "json_depth t' \<le> json_depth t" by auto
    moreover from json_depth_child(2) [OF this(2)] have "json_depth t \<le> json_depth (JObject fs)" by simp
    ultimately show ?thesis using le_trans by blast
  next
    case False
    then have "i = json_size (JObject fs) - 1" using 6(4) sum by simp
    then show ?thesis using tree_at_flatten(1) [OF 6(2,3), of post] by (auto simp del: flatten_proj)
  qed
next
  case (8 k t ts)
  show ?case
  proof (cases "i < json_size t")
    case True
    then show ?thesis
      using 8(1) [OF 8(3) _ True, of d "snd (flatten_all (k + length (flatten k t)) ts) @ post"] 8(4)
      by fastforce
  next
    case False
    then have "i - json_size t < sum_list (map json_size ts)" using 8(5) by simp
    with 8(2) [OF refl, of "pre @ flatten k t" d "i - json_size t" post] 8(3,4) False
    show ?thesis by (fastforce simp: flatten_length)
  qed
qed (auto simp: nth_opt_def nth_append Suc_le_eq gr0_conv_Suc tree_at.simps)

lemma tree_at_unique:
  assumes "tree_at d nodes i = Some t" and "tree_at e nodes i = Some u"
  shows "t = u"
  using tree_at_mono [OF assms(1), of "max d e"] tree_at_mono [OF assms(2), of "max d e"] by simp

subsection \<open>Validation accepts the document of a tree\<close>

lemma array_items_ok:
  assumes "distinct items" and "\<forall>c\<in>set items. c < index \<and> parents ! c = 0" and "index \<le> length parents"
    and "lc_value charge + 4 * length items \<le> lc_limit charge" and "lc_limit charge < 2 ^ 64"
  shows "is_ok (try_fold (array_item index) (parents, charge) items)"
  using assms
proof (induction items arbitrary: parents charge)
  case Nil
  then show ?case by simp
next
  case (Cons c items)
  have "array_item index (parents, charge) c =
      Inr (parents[c := 1], charge\<lparr>lc_value := lc_value charge + 4\<rparr>)"
    using Cons.prems by (auto simp: array_item_def charge_add_def Let_def checked_add_def add_parent_def)
  then show ?case
    using Cons.prems by (simp del: One_nat_def, intro Cons.IH) (auto simp: nth_list_update)
qed

lemma object_fields_ok:
  assumes "distinct (map wf_value flds)" and "\<forall>f\<in>set flds. wf_value f < index \<and> parents ! wf_value f = 0"
    and "index \<le> length parents"
    and "lc_value charge + sum_list (map (\<lambda>f. 8 + length (wf_key f)) flds) \<le> lc_limit charge"
    and "lc_limit charge < 2 ^ 64" and "sorted_wrt (<) (map wf_key flds)"
    and "list_all (\<lambda>f. scalar_safe (wf_key f) MAX_KEY_BYTES False = Inr ()) flds"
    and "\<forall>old. previous = Some old \<longrightarrow> (\<forall>f\<in>set flds. old < wf_key f)"
  shows "is_ok (try_fold (object_field index depths) (parents, charge, previous, d) flds)"
  using assms
proof (induction flds arbitrary: parents charge previous d)
  case Nil
  then show ?case by simp
next
  case (Cons f flds)
  have "object_field index depths (parents, charge, previous, d) f =
      Inr (parents[wf_value f := 1], charge\<lparr>lc_value := lc_value charge + 4 + length (wf_key f) + 4\<rparr>,
           Some (wf_key f), max d (depths ! wf_value f))"
    using Cons.prems
    by (auto simp: object_field_def charge_string_def charge_add_def Let_def checked_add_def
        checked_len_def add_parent_def not_le split: option.split)
  then show ?case
    using Cons.prems by (simp del: One_nat_def, intro Cons.IH) (auto simp: nth_list_update)
qed

lemma validate_node_ok:
  assumes "node_fine node" and "distinct (children node)"
    and "\<forall>c\<in>set (children node). c < index \<and> parents ! c = 0 \<and> depths ! c \<le> MAX_WIRE_DEPTH"
    and "index \<le> length parents"
    and "lc_value charge + node_charge node \<le> lc_limit charge" and "lc_limit charge < 2 ^ 64"
  shows "is_ok (validate_node index node parents depths charge)"
proof -
  have deep: "fold max (map ((!) depths) (children node)) 0 \<le> MAX_WIRE_DEPTH"
    using assms(3) by (auto simp: fold_max_le_iff)
  have add: "charge_add charge v = Inr (charge\<lparr>lc_value := lc_value charge + v\<rparr>)"
    if "v \<le> node_charge node" for v
    using that assms(5,6) by (simp add: charge_add_Inr)
  show ?thesis
  proof (cases node)
    case (ArrayValue items)
    let ?charge = "charge\<lparr>lc_value := 8 + lc_value charge\<rparr>"
    have "is_ok (try_fold (array_item index) (parents, ?charge) items)"
      using assms ArrayValue by (intro array_items_ok) (auto simp: node_charge_def)
    with ArrayValue assms(5,6) deep show ?thesis
      by (auto simp: validate_node_def is_ok_iff charge_add_Inr node_charge_def container_depth_def
          depth_successor_def MAX_WIRE_DEPTH_def)
  next
    case (ObjectValue flds)
    let ?charge = "charge\<lparr>lc_value := 8 + lc_value charge\<rparr>"
    have "is_ok (try_fold (object_field index depths) (parents, ?charge, None, 0) flds)"
      using assms ObjectValue by (intro object_fields_ok) (auto simp: node_charge_def node_fine_def)
    then obtain parents' charge' previous d
      where run: "try_fold (object_field index depths) (parents, ?charge, None, 0) flds
        = Inr (parents', charge', previous, d)" by (auto simp: is_ok_iff)
    from object_fields_Inr [OF run assms(4)] deep ObjectValue have "d \<le> MAX_WIRE_DEPTH"
      by (simp add: comp_def)
    with ObjectValue assms(5,6) run show ?thesis
      by (auto simp: validate_node_def is_ok_iff charge_add_Inr node_charge_def depth_successor_def
          MAX_WIRE_DEPTH_def)
  qed (use assms in \<open>auto simp: validate_node_def is_ok_iff charge_add_Inr charge_string_Inr
      node_charge_def node_fine_def\<close>)
qed

lemma sum_list_take_le: "sum_list (take k xs) \<le> sum_list (xs :: nat list)"
  by (metis append_take_drop_id le_add1 sum_list_append)

lemma validate_step_ok:
  assumes tree: "postorder_tree nodes" and fine: "list_all node_fine nodes"
    and deep: "\<And>i t. tree_at (Suc i) nodes i = Some t \<Longrightarrow> json_depth t \<le> MAX_WIRE_DEPTH"
    and charge: "8 + sum_list (map node_charge nodes) \<le> MAX_LOGICAL_CHARGE"
    and k: "k < length nodes" and inv: "tree_inv nodes k s"
  shows "is_ok (validate_step s (k, nodes ! k))"
proof -
  obtain parents depths c where s: "s = (parents, depths, c)" by (cases s)
  note i = inv [unfolded s tree_inv_def prod.case]
  have split: "concat (map children nodes) = concat (map children (take k nodes)) @ children (nodes ! k) @
      concat (map children (drop (Suc k) nodes))"
    using id_take_nth_drop [OF k] by (metis concat.simps(2) concat_append list.simps(9) map_append)
  have "distinct (concat (map children nodes))"
    using tree by (metis distinct_upt mset_eq_imp_distinct_iff postorder_tree_def)
  note distinct = this [unfolded split]
  have below: "\<forall>c\<in>set (children (nodes ! k)). c < k" using tree k by (simp add: postorder_tree_def)
  have "parents ! c = 0" if "c \<in> set (children (nodes ! k))" for c
  proof -
    have "c \<notin> set (concat (map children (take k nodes)))" using distinct that by auto
    then have "count_list (concat (map children (take k nodes))) c = 0"
      by (simp only: count_list_0_iff not_False_eq_True)
    then show ?thesis using i below that k by auto
  qed
  moreover have "depths ! c \<le> MAX_WIRE_DEPTH" if "c \<in> set (children (nodes ! k))" for c
    using i below that by blast
  moreover have "lc_value c + node_charge (nodes ! k) \<le> lc_limit c"
  proof -
    have "sum_list (map node_charge (take k nodes)) + node_charge (nodes ! k) =
        sum_list (map node_charge (take (Suc k) nodes))"
      using k by (simp add: take_Suc_conv_app_nth)
    then show ?thesis
      using charge i sum_list_take_le [of "Suc k" "map node_charge nodes"] by (simp add: take_map)
  qed
  ultimately have "is_ok (validate_node k (nodes ! k) parents depths c)"
    using i k fine below distinct
    by (intro validate_node_ok) (auto simp: list_all_length max_charge_lt)
  then obtain d parents' charge'
    where v: "validate_node k (nodes ! k) parents depths c = Inr (d, parents', charge')"
    by (auto simp: is_ok_iff)
  have "\<forall>c\<in>set (children (nodes ! k)). c < k \<and>
      (\<exists>t. tree_at (Suc c) nodes c = Some t \<and> json_depth t = depths ! c)"
    using i below by blast
  from node_tree [OF k this] node_validated [OF v] i k
  have "\<exists>t. tree_at (Suc k) nodes k = Some t \<and> json_depth t = d" by simp
  then show ?thesis using s v deep [of k] by (fastforce simp: validate_step_def is_ok_iff)
qed

lemma nodes_validate:
  assumes tree: "postorder_tree nodes" and fine: "list_all node_fine nodes"
    and deep: "\<And>i t. tree_at (Suc i) nodes i = Some t \<Longrightarrow> json_depth t \<le> MAX_WIRE_DEPTH"
    and charge: "8 + sum_list (map node_charge nodes) \<le> MAX_LOGICAL_CHARGE"
    and size: "length nodes \<le> MAX_WIRE_NODES" and root: "object_root \<longrightarrow> is_object (last nodes)"
  shows "is_ok (validate_wire_json \<lparr>wd_root = length nodes - 1, wd_nodes = nodes\<rparr> object_root)"
proof -
  let ?init = "(replicate (length nodes) 0, [], \<lparr>lc_value = 8, lc_limit = MAX_LOGICAL_CHARGE\<rparr>)"
  have run: "\<exists>s. try_fold validate_step ?init (List.enumerate 0 (take k nodes)) = Inr s \<and> tree_inv nodes k s"
    if "k \<le> length nodes" for k
    using that
  proof (induction k)
    case 0
    then show ?case by (simp add: tree_inv_def)
  next
    case (Suc k)
    then obtain s where s: "try_fold validate_step ?init (List.enumerate 0 (take k nodes)) = Inr s"
      "tree_inv nodes k s" by auto
    have k: "k < length nodes" using Suc.prems by simp
    have "is_ok (validate_step s (k, nodes ! k))"
      by (rule validate_step_ok [OF tree fine _ charge k s(2)]) (rule deep)
    then obtain s' where s': "validate_step s (k, nodes ! k) = Inr s'" by (auto simp: is_ok_iff)
    have "List.enumerate 0 (take (Suc k) nodes) = List.enumerate 0 (take k nodes) @ [(k, nodes ! k)]"
      using k by (simp add: take_Suc_conv_app_nth enumerate_append_eq)
    with s(1) s' tree_inv_step [OF k s(2) s'] show ?case by (simp add: try_fold_append)
  qed
  from run [of "length nodes"] obtain parents depths c
    where s: "try_fold validate_step ?init (List.enumerate 0 nodes) = Inr (parents, depths, c)"
      "tree_inv nodes (length nodes) (parents, depths, c)" by auto
  note i = s(2) [unfolded tree_inv_def prod.case]
  have count: "parents ! c = (if c < length nodes - 1 then 1 else 0)" if "c < length nodes" for c
    using i that tree by (simp add: count_list_mset postorder_tree_def count_mset_set')
  have ne: "nodes \<noteq> []" using tree by (simp add: postorder_tree_def)
  then have ne': "parents \<noteq> []" using i by auto
  have last: "last parents = 0" using count [of "length nodes - 1"] i ne ne' by (simp add: last_conv_nth)
  have others: "\<not> list_ex (\<lambda>count. count \<noteq> 1) (butlast parents)"
    using count i by (auto simp: list_ex_iff in_set_conv_nth nth_butlast)
  have charge: "and_then (charge_add (charge_new MAX_LOGICAL_CHARGE) 4) (\<lambda>charge. charge_add charge 4) =
      Inr \<lparr>lc_value = 8, lc_limit = MAX_LOGICAL_CHARGE\<rparr>"
    by (simp add: charge_new_def charge_add_def checked_add_def max_charge_lt)
  then obtain c' where "charge_add (charge_new MAX_LOGICAL_CHARGE) 4 = Inr c'"
    "charge_add c' 4 = Inr \<lparr>lc_value = 8, lc_limit = MAX_LOGICAL_CHARGE\<rparr>" by auto
  moreover have "length nodes - 1 < 2 ^ 32" using size by (simp add: MAX_WIRE_NODES_def)
  ultimately show ?thesis
    using ne size root s(1) last others by (simp add: validate_wire_json_def not_less del: One_nat_def)
qed

subsection \<open>Which trees are tool arguments\<close>

fun json_fine :: "json \<Rightarrow> bool" where
  "json_fine (JNumber s) = is_canonical_number s"
| "json_fine (JString s) = (scalar_safe s MAX_SAFE_TEXT_BYTES False = Inr ())"
| "json_fine (JArray ts) = list_all json_fine ts"
| "json_fine (JObject fs) =
     (sorted_wrt (<) (map fst fs) \<and>
      list_all (\<lambda>(k, t). scalar_safe k MAX_KEY_BYTES False = Inr () \<and> json_fine t) fs)"
| "json_fine _ = True"

fun json_charge :: "json \<Rightarrow> nat" where
  "json_charge JNull = 4"
| "json_charge (JBool b) = 5"
| "json_charge (JNumber s) = 8 + length s"
| "json_charge (JString s) = 8 + length s"
| "json_charge (JArray ts) = 8 + 4 * length ts + sum_list (map json_charge ts)"
| "json_charge (JObject fs) =
     8 + sum_list (map (\<lambda>(k, _). 8 + length k) fs) + sum_list (map (\<lambda>(_, t). json_charge t) fs)"

text \<open>A tree that the Host accepts as the arguments of a tool call.\<close>

definition tool_tree :: "json \<Rightarrow> bool" where
  "tool_tree t \<longleftrightarrow> (\<exists>fs. t = JObject fs) \<and> json_fine t \<and> json_depth t \<le> 64 \<and> json_size t \<le> 16384 \<and>
     8 + json_charge t \<le> 1024 * 1024 \<and> length (render t) \<le> 1024 * 1024"

lemma flatten_fine:
  "list_all node_fine (flatten k t) \<longleftrightarrow> json_fine t"
  "list_all node_fine (snd (flatten_all k ts)) \<longleftrightarrow> list_all json_fine ts"
proof (induction k t and k ts rule: flatten_flatten_all.induct)
  case (6 k fs)
  let ?fl = "map2 (\<lambda>key i. \<lparr>wf_key = key, wf_value = i\<rparr>) (map fst fs) (fst (flatten_all k (map snd fs)))"
  have "list_all (\<lambda>f. scalar_safe (wf_key f) MAX_KEY_BYTES False = Inr ()) ?fl \<longleftrightarrow>
      list_all (\<lambda>s. scalar_safe s MAX_KEY_BYTES False = Inr ()) (map fst fs)"
    unfolding list_all_length by auto
  moreover have "map wf_key ?fl = map fst fs" by (rule map2_field(2)) simp
  ultimately have "node_fine (ObjectValue ?fl) \<longleftrightarrow> sorted_wrt (<) (map fst fs) \<and>
      list_all (\<lambda>s. scalar_safe s MAX_KEY_BYTES False = Inr ()) (map fst fs)"
    unfolding node_fine_def wire_json_node.case by (simp only:)
  then have "list_all node_fine (flatten k (JObject fs)) \<longleftrightarrow> list_all json_fine (map snd fs) \<and>
      sorted_wrt (<) (map fst fs) \<and> list_all (\<lambda>s. scalar_safe s MAX_KEY_BYTES False = Inr ()) (map fst fs)"
    using 6 by (auto simp only: flatten_proj list_all_append list.pred_inject)
  then show ?case unfolding json_fine.simps by (auto simp: list_all_iff)
qed (auto simp: node_fine_def)

lemma flatten_charge:
  "sum_list (map node_charge (flatten k t)) = json_charge t"
  "sum_list (map node_charge (snd (flatten_all k ts))) = sum_list (map json_charge ts)"
proof (induction k t and k ts rule: flatten_flatten_all.induct)
  case (6 k fs)
  have "map (\<lambda>f. 8 + length (wf_key f))
      (map2 (\<lambda>key i. \<lparr>wf_key = key, wf_value = i\<rparr>) (map fst fs) (fst (flatten_all k (map snd fs)))) =
    map (\<lambda>(k, _). 8 + length k) fs"
    by (rule nth_equalityI) (auto simp: case_prod_unfold)
  with 6 show ?case by (simp add: node_charge_def comp_def case_prod_unfold)
qed (auto simp: node_charge_def)

lemma flatten_root:
  "is_object (last (flatten k t)) \<longleftrightarrow> (\<exists>fs. t = JObject fs)"
  by (cases t) (auto simp: is_object_def)

lemma validate_document_of:
  assumes "validate_wire_json (document_of t) object_root = Inr stats"
  shows "(object_root \<longrightarrow> (\<exists>fs. t = JObject fs)) \<and> json_fine t \<and> ws_depth stats = json_depth t \<and>
    json_depth t \<le> 64 \<and> ws_logical_charge stats = 8 + json_charge t"
proof -
  note v = validated [OF assms, unfolded document_of_def wire_json_document.simps]
  have "tree_at (json_depth t) (flatten 0 t) (json_size t - 1) = Some t"
    using tree_at_flatten(1) [of "[]" 0 t "json_depth t" "[]"] by simp
  then have "\<And>u. tree_at (length (flatten 0 t)) (flatten 0 t) (length (flatten 0 t) - 1) = Some u \<Longrightarrow> u = t"
    using tree_at_unique by (fastforce simp: flatten_length)
  then show ?thesis using v by (auto simp: flatten_fine flatten_root flatten_charge MAX_WIRE_DEPTH_def)
qed

lemma document_of_validates:
  assumes "json_fine t" and "json_depth t \<le> 64" and "json_size t \<le> 16384"
    and "8 + json_charge t \<le> MAX_LOGICAL_CHARGE" and "object_root \<longrightarrow> (\<exists>fs. t = JObject fs)"
  shows "is_ok (validate_wire_json (document_of t) object_root)"
  unfolding document_of_def
proof (rule nodes_validate)
  fix i u assume i: "tree_at (Suc i) (flatten 0 t) i = Some u"
  then have "i < json_size t" by (auto simp: tree_at.simps flatten_length split: option.splits)
  from flatten_subtrees(1) [of "[]" 0 t "json_depth t" i "[]", OF _ _ this] i
  show "json_depth u \<le> MAX_WIRE_DEPTH"
    using tree_at_unique assms(2) by (fastforce simp: MAX_WIRE_DEPTH_def)
qed (use assms in \<open>auto simp: flatten_postorder_tree flatten_fine flatten_charge flatten_length flatten_root
    MAX_WIRE_NODES_def\<close>)

lemma validate_object_root:
  "validate_wire_json d True = Inr stats \<Longrightarrow> validate_wire_json d False = Inr stats"
  by (simp add: validate_wire_json_def Let_def del: and_then_eq_Inr split: if_splits)

lemma canonical_serialize_document:
  assumes "validate_wire_json (document_of t) False = Inr stats" and "json_depth t \<le> fuel"
  shows "canonical_serialize fuel (document_of t) =
    Some (if length (render t) \<le> MAX_LOGICAL_CHARGE then Inr (render t) else Inl Limit)"
proof -
  have t: "tree_at fuel (wd_nodes (document_of t)) (wd_root (document_of t)) = Some t"
    using tree_at_flatten(1) [of "[]" 0 t fuel "[]"] assms(2)
    by (simp add: document_of_def flatten_length)
  have "list_all node_fine (wd_nodes (document_of t))" using validated [OF assms(1)] by blast
  then show ?thesis
    using assms(1) node_stats_exact [OF fine_numbers_plain t] serialize_sized_exact [OF t refl]
    by (simp add: canonical_serialize_def advance_def max_charge_lt)
qed

lemma tool_arguments_sound:
  assumes "validate_tool_arguments fuel value = Some (Inr ())" and "64 \<le> fuel"
  shows "\<exists>t. value = render t \<and> tool_tree t \<and> parser_parse fuel value = Some (Inr (document_of t))"
proof -
  from assms(1) obtain d stats
    where v: "length value \<le> MAX_TOOL_ARGUMENT_BYTES" "parser_parse fuel value = Some (Inr d)"
      "length (wd_nodes d) \<le> MAX_TOOL_ARGUMENT_NODES" "validate_wire_json d True = Inr stats"
      "ws_depth stats \<le> MAX_TOOL_ARGUMENT_DEPTH" "ws_logical_charge stats \<le> MAX_TOOL_ARGUMENT_CHARGE"
      and ser: "canonical_serialize fuel d = Some (Inr value)"
    by (fastforce simp: validate_tool_arguments_def split: if_splits)
  from parser_parse_document [OF v(2)] obtain t where d: "d = document_of t" ..
  note t = validate_document_of [OF v(4) [unfolded d]]
  have "canonical_serialize fuel d =
      Some (if length (render t) \<le> MAX_LOGICAL_CHARGE then Inr (render t) else Inl Limit)"
    unfolding d using t assms(2)
    by (intro canonical_serialize_document [OF validate_object_root [OF v(4) [unfolded d]]]) simp
  with ser have "value = render t" by (auto split: if_splits)
  then show ?thesis using v t d
    by (auto simp: tool_tree_def document_of_def flatten_length MAX_TOOL_ARGUMENT_BYTES_def
        MAX_TOOL_ARGUMENT_NODES_def MAX_TOOL_ARGUMENT_CHARGE_def)
qed

subsection \<open>The parser inverts the rendering\<close>

text \<open>Strings whose bytes divide into UTF-8 sequences, as those of every \<open>str\<close> do.\<close>

fun utf8_ok :: "string \<Rightarrow> bool" where
  "utf8_ok [] = True"
| "utf8_ok (a # r) =
     (let w = utf8_width (of_char a) - 1 in
      w \<le> length r \<and> list_all is_continuation (take w r) \<and> utf8_ok (drop w r))"

fun json_utf8 :: "json \<Rightarrow> bool" where
  "json_utf8 (JString s) = utf8_ok s"
| "json_utf8 (JArray ts) = list_all json_utf8 ts"
| "json_utf8 (JObject fs) = list_all (\<lambda>(k, t). utf8_ok k \<and> json_utf8 t) fs"
| "json_utf8 _ = True"

lemma drop_peek:
  assumes "drop n xs = c # ys"
  shows "n < length xs" "xs ! n = c" "drop (Suc n) xs = ys"
proof -
  show "n < length xs" using assms by (metis drop_all list.discI not_le)
  show "xs ! n = c" using assms by (rule nth_via_drop)
  show "drop (Suc n) xs = ys" using assms by (metis drop_Suc list.sel(3) tl_drop)
qed

lemma peek_at: "drop (pr_position p) input = c # s \<Longrightarrow> peek_byte input p = Some c"
  using drop_peek [of "pr_position p" input c s] by (simp add: peek_byte_def)

lemma drop_advance: "drop n xs = s @ t \<Longrightarrow> drop (n + length s) xs = t"
  by (metis add.commute append_eq_conv_conj drop_drop)

lemma slice_at: "drop n xs = s @ t \<Longrightarrow> str_slice xs n (n + length s) = s"
  by (simp add: str_slice_def)

lemma escape_continuation: "is_continuation c \<Longrightarrow> escape_byte c = [c]"
  by (auto simp: is_continuation_def escape_byte_def)

lemma escape_continuations:
  "list_all is_continuation s \<Longrightarrow> concat (map escape_byte s) = s"
  by (induction s) (auto simp: escape_continuation)

lemma parse_chars_quoted:
  "utf8_ok s \<Longrightarrow> list_all (\<lambda>v. \<not> is_unsafe_char v) (utf8_chars s) \<Longrightarrow>
   drop (pr_position p) input = concat (map escape_byte s) @ CHR 0x22 # rest \<Longrightarrow>
   parse_chars input out p =
     Inr (out @ s, p\<lparr>pr_position := pr_position p + length (concat (map escape_byte s)) + 1\<rparr>)"
proof (induction s arbitrary: out p rule: utf8_ok.induct)
  case 1
  then show ?case by (simp add: parse_chars.simps peek_at)
next
  case (2 a r)
  define w where "w = utf8_width (of_char a) - 1"
  have r: "w \<le> length r" "list_all is_continuation (take w r)" "utf8_ok (drop w r)"
    using 2(2) by (simp_all add: Let_def w_def)
  have safe: "list_all (\<lambda>v. \<not> is_unsafe_char v) (utf8_chars (drop w r))" "\<not> is_unsafe_char (next_code_point a r)"
    using 2(3) by (simp_all add: w_def)
  have cont: "concat (map escape_byte r) = take w r @ concat (map escape_byte (drop w r))"
    using escape_continuations [OF r(2)] by (metis append_take_drop_id concat_append map_append)
  show ?case
  proof (cases "escaped_byte a")
    case True
    then have w0: "w = 0" by (auto simp: w_def escaped_byte_def utf8_width_def)
    from True obtain c where c: "escape_byte a = [CHR 0x5C, c]"
      and esc: "\<And>q. peek_byte input q = Some c \<Longrightarrow>
        parse_escape input out q = Inr (out @ [a], q\<lparr>pr_position := pr_position q + 1\<rparr>)"
      by (auto simp: escaped_byte_def escape_byte_def parse_escape_def)
    define q where "q = p\<lparr>pr_position := pr_position p + 1\<rparr>"
    have d: "drop (pr_position p) input = CHR 0x5C # c # concat (map escape_byte r) @ CHR 0x22 # rest"
      using 2(4) c by simp
    note d' = drop_peek(3) [OF d]
    have q: "peek_byte input q = Some c" using d' by (simp add: q_def peek_at)
    have "parse_chars input out p = parse_chars input (out @ [a]) (q\<lparr>pr_position := pr_position q + 1\<rparr>)"
      using peek_at [OF d] esc [OF q] by (simp add: parse_chars.simps [of input out p] q_def)
    also have "\<dots> = Inr ((out @ [a]) @ r, (q\<lparr>pr_position := pr_position q + 1\<rparr>)
        \<lparr>pr_position := pr_position (q\<lparr>pr_position := pr_position q + 1\<rparr>) + length (concat (map escape_byte r)) + 1\<rparr>)"
      using 2(1) [OF w_def, unfolded w0 drop_0] r(3) safe(1) drop_peek(3) [OF d'] w0
      by (simp add: q_def)
    finally show ?thesis using c by (simp add: q_def)
  next
    case False
    then have e: "escape_byte a = [a]" by (auto simp: escaped_byte_def escape_byte_def)
    have d: "drop (pr_position p) input = (a # take w r) @ concat (map escape_byte (drop w r)) @ CHR 0x22 # rest"
      using 2(4) e cont by simp
    have printable: "\<not> of_char a \<le> (31 :: nat)"
    proof
      assume small: "of_char a \<le> (31 :: nat)"
      then have "is_unsafe_char (of_char a) \<or> of_char a = (9 :: nat) \<or> of_char a = (10 :: nat)"
        by (auto simp: is_unsafe_char_def)
      moreover have "next_code_point a r = of_char a"
        using small by (simp add: next_code_point_def utf8_width_def)
      ultimately have "of_char a = (of_char (CHR 0x09) :: nat) \<or> of_char a = (of_char (CHR 0x0A) :: nat)"
        using safe(2) by auto
      then have "a = CHR 0x09 \<or> a = CHR 0x0A" by (simp only: of_char_eq_iff)
      then show False using False by (auto simp: escaped_byte_def)
    qed
    have len: "utf8_width (of_char a) = length (a # take w r)"
      using r(1) utf8_width_pos [of "of_char a"] by (simp add: w_def)
    define q where "q = p\<lparr>pr_position := pr_position p + length (a # take w r)\<rparr>"
    have "next_char input p = Inr (a # take w r, q)"
      using d drop_peek(1,2) [of "pr_position p" input a] slice_at [OF d]
      by (simp add: next_char_def len q_def not_le)
    then have "parse_chars input out p = parse_chars input (out @ a # take w r) q"
      using peek_at [of p input a] d printable False
      by (simp add: parse_chars.simps [of input out p] escaped_byte_def)
    also have "\<dots> = Inr ((out @ a # take w r) @ drop w r,
        q\<lparr>pr_position := pr_position q + length (concat (map escape_byte (drop w r))) + 1\<rparr>)"
      using 2(1) [OF w_def r(3) safe(1), of q "out @ a # take w r"] drop_advance [OF d] by (simp add: q_def)
    finally show ?thesis using e cont by (simp add: q_def)
  qed
qed

lemma parse_string_quoted:
  assumes "utf8_ok s" and "scalar_safe s n ne = Inr ()"
    and "drop (pr_position p) input = quote s @ rest"
  shows "parse_string input p = Inr (s, p\<lparr>pr_position := pr_position p + length (quote s)\<rparr>)"
proof -
  let ?q = "p\<lparr>pr_position := pr_position p + 1\<rparr>"
  have d: "drop (pr_position p) input = CHR 0x22 # concat (map escape_byte s) @ CHR 0x22 # rest"
    using assms(3) by (simp add: quote_def)
  have "expect_byte input (CHR 0x22) p = Inr ?q"
    using peek_at [OF d] by (simp add: expect_byte_Inr)
  moreover have "list_all (\<lambda>v. \<not> is_unsafe_char v) (utf8_chars s)"
    using assms(2) by (simp add: scalar_safe_Inr)
  ultimately show ?thesis
    using parse_chars_quoted [OF assms(1), of ?q input rest "[]"] drop_peek(3) [OF d]
    by (simp add: parse_string_def quote_def)
qed

lemma skip_bytes_run:
  assumes "drop n input = s @ rest" and "list_all P s" and "rest = [] \<or> \<not> P (hd rest)"
  shows "skip_bytes P input n = n + length s"
  using assms
proof (induction s arbitrary: n)
  case Nil
  then show ?case by (cases rest) (auto simp: skip_bytes.simps [of P input n] dest: drop_peek)
next
  case (Cons c s)
  from Cons.prems(1) have d: "drop n input = c # (s @ rest)" by simp
  show ?case using Cons.IH [of "Suc n"] Cons.prems(2,3) drop_peek [OF d]
    by (simp add: skip_bytes.simps [of P input n])
qed

lemma skip_whitespace_none:
  assumes "drop (pr_position p) input = rest" and "rest = [] \<or> \<not> is_json_space (hd rest)"
  shows "skip_whitespace input p = p"
  using skip_bytes_run [of "pr_position p" input "[]" rest is_json_space] assms
  by (simp add: skip_whitespace_def)

text \<open>What may follow a value.\<close>

definition delimited :: "string \<Rightarrow> bool" where
  "delimited rest \<longleftrightarrow> rest = [] \<or> hd rest \<in> {CHR '','', CHR '']'', CHR ''}''}"

lemma delimited_head:
  "delimited rest \<Longrightarrow> rest = [] \<or> \<not> is_json_space (hd rest)"
  "delimited rest \<Longrightarrow> rest = [] \<or> is_number_end (hd rest)"
  by (auto simp: delimited_def is_json_space_def is_number_end_def)

definition reads :: "string \<Rightarrow> (parser \<Rightarrow> (validation_error + nat \<times> parser) option) \<Rightarrow> json \<Rightarrow> bool" where
  "reads input elem t \<longleftrightarrow> (\<forall>p rest. drop (pr_position p) input = render t @ rest \<longrightarrow> delimited rest \<longrightarrow>
     length (pr_nodes p) + json_size t \<le> MAX_TOOL_ARGUMENT_NODES \<longrightarrow>
     elem p = Some (Inr (length (pr_nodes p) + json_size t - 1,
       \<lparr>pr_position = pr_position p + length (render t),
        pr_nodes = pr_nodes p @ flatten (length (pr_nodes p)) t\<rparr>)))"

lemma comma_tail_simps [simp]:
  "comma_tail [] = []" "comma_tail (r # rs) = CHR '','' # r @ comma_tail rs"
  by (simp_all add: comma_tail_def)

lemma parse_items_render:
  assumes "\<forall>u\<in>set (t # ts). reads input elem u" and "length ts < fuel"
    and "drop (pr_position p) input = render t @ comma_tail (map render ts) @ CHR '']'' # rest"
    and "length (pr_nodes p) + sum_list (map json_size (t # ts)) \<le> MAX_TOOL_ARGUMENT_NODES"
  shows "parse_items fuel elem input items p =
    Some (Inr (items @ fst (flatten_all (length (pr_nodes p)) (t # ts)),
      \<lparr>pr_position = pr_position p + length (render t @ comma_tail (map render ts)) + 1,
       pr_nodes = pr_nodes p @ snd (flatten_all (length (pr_nodes p)) (t # ts))\<rparr>))"
  using assms
proof (induction ts arbitrary: t items p fuel)
  case Nil
  then obtain f where f: "fuel = Suc f" by (cases fuel) auto
  let ?q = "\<lparr>pr_position = pr_position p + length (render t),
        pr_nodes = pr_nodes p @ flatten (length (pr_nodes p)) t\<rparr>"
  have "elem p = Some (Inr (length (pr_nodes p) + json_size t - 1, ?q))"
    using Nil.prems(1,3,4) by (simp add: reads_def delimited_def)
  moreover have d: "drop (pr_position ?q) input = CHR '']'' # rest"
    using drop_advance [of "pr_position p" input "render t" "CHR '']'' # rest"] Nil.prems(3) by simp
  then have "skip_whitespace input ?q = ?q" by (intro skip_whitespace_none) (auto simp: is_json_space_def)
  ultimately show ?case using peek_at [OF d]
    by (simp add: f parse_items.simps consume_byte_def flatten_length)
next
  case (Cons u ts)
  then obtain f where f: "fuel = Suc f" by (cases fuel) auto
  let ?q = "\<lparr>pr_position = pr_position p + length (render t),
        pr_nodes = pr_nodes p @ flatten (length (pr_nodes p)) t\<rparr>"
  let ?q' = "?q\<lparr>pr_position := pr_position ?q + 1\<rparr>"
  let ?rest = "render u @ comma_tail (map render ts) @ CHR '']'' # rest"
  have elem: "elem p = Some (Inr (length (pr_nodes p) + json_size t - 1, ?q))"
    using Cons.prems(1,3,4) by (simp add: reads_def delimited_def)
  have d: "drop (pr_position ?q) input = CHR '','' # ?rest"
    using drop_advance [of "pr_position p" input "render t" "CHR '','' # ?rest"] Cons.prems(3) by simp
  then have ws: "skip_whitespace input ?q = ?q"
    by (intro skip_whitespace_none) (auto simp: is_json_space_def)
  have "parse_items fuel elem input items p =
      parse_items f elem input (items @ [length (pr_nodes p) + json_size t - 1]) ?q'"
    using elem ws peek_at [OF d] by (simp add: f parse_items.simps consume_byte_def expect_byte_def)
  also have "\<dots> = Some (Inr ((items @ [length (pr_nodes p) + json_size t - 1]) @
        fst (flatten_all (length (pr_nodes ?q')) (u # ts)),
      \<lparr>pr_position = pr_position ?q' + length (render u @ comma_tail (map render ts)) + 1,
       pr_nodes = pr_nodes ?q' @ snd (flatten_all (length (pr_nodes ?q')) (u # ts))\<rparr>))"
    using Cons.prems f drop_peek(3) [OF d] by (intro Cons.IH) (auto simp: flatten_length)
  finally show ?case by (simp add: flatten_length)
qed

definition render_field :: "string \<times> json \<Rightarrow> string" where
  "render_field f = quote (fst f) @ CHR '':'' # render (snd f)"

definition key_ok :: "string \<Rightarrow> bool" where
  "key_ok k \<longleftrightarrow> utf8_ok k \<and> scalar_safe k MAX_KEY_BYTES False = Inr ()"

lemma quote_head: "quote s = CHR 0x22 # concat (map escape_byte s) @ [CHR 0x22]"
  by (simp add: quote_def)

text \<open>One turn of the field loop up to the byte after the value.\<close>

lemma parse_fields_turn:
  assumes key: "key_ok k" "k \<notin> keys" and read: "reads input elem t"
    and d: "drop (pr_position p) input = render_field (k, t) @ rest" and rest: "delimited rest" "rest \<noteq> []"
    and room: "length (pr_nodes p) + json_size t \<le> MAX_TOOL_ARGUMENT_NODES"
    and q: "q = \<lparr>pr_position = pr_position p + length (render_field (k, t)),
       pr_nodes = pr_nodes p @ flatten (length (pr_nodes p)) t\<rparr>"
  shows "parse_fields (Suc f) elem input keys flds p =
     (case consume_byte input (CHR ''}'') q of
        (True, p) \<Rightarrow> Some (Inr (flds @ [\<lparr>wf_key = k, wf_value = length (pr_nodes p) - 1\<rparr>], p))
      | (False, p) \<Rightarrow>
          fuel_then (Some (expect_byte input (CHR '','') p)) (\<lambda>p.
            parse_fields f elem input (insert k keys)
              (flds @ [\<lparr>wf_key = k, wf_value = length (pr_nodes p) - 1\<rparr>]) p))"
    and "drop (pr_position q) input = rest"
proof -
  let ?a = "p\<lparr>pr_position := pr_position p + length (quote k)\<rparr>"
  let ?b = "?a\<lparr>pr_position := pr_position ?a + 1\<rparr>"
  have d1: "drop (pr_position p) input = quote k @ (CHR '':'' # render t @ rest)"
    using d by (simp add: render_field_def)
  have ws1: "skip_whitespace input p = p"
    using d1 by (intro skip_whitespace_none) (auto simp: quote_head is_json_space_def)
  have ps: "parse_string input p = Inr (k, ?a)"
    using parse_string_quoted [OF _ _ d1] key(1) by (auto simp: key_ok_def)
  have d2: "drop (pr_position ?a) input = CHR '':'' # render t @ rest"
    using drop_advance [OF d1] by simp
  then have ws2: "skip_whitespace input ?a = ?a"
    by (intro skip_whitespace_none) (auto simp: is_json_space_def)
  have ex: "expect_byte input (CHR '':'') ?a = Inr ?b"
    using peek_at [OF d2] by (simp add: expect_byte_Inr)
  have d3: "drop (pr_position ?b) input = render t @ rest" using drop_peek(3) [OF d2] by simp
  have "elem ?b = Some (Inr (length (pr_nodes ?b) + json_size t - 1,
      \<lparr>pr_position = pr_position ?b + length (render t),
       pr_nodes = pr_nodes ?b @ flatten (length (pr_nodes ?b)) t\<rparr>))"
    using read [unfolded reads_def, rule_format, OF d3 rest(1)] room by simp
  then have el: "elem ?b = Some (Inr (length (pr_nodes q) - 1, q))"
    by (simp add: q render_field_def flatten_length)
  show dq: "drop (pr_position q) input = rest" using drop_advance [OF d] by (simp add: q)
  then have ws3: "skip_whitespace input q = q"
    using delimited_head(1) [OF rest(1)] by (intro skip_whitespace_none)
  have nodes: "pr_nodes (q\<lparr>pr_position := x\<rparr>) = pr_nodes q" for x by simp
  show "parse_fields (Suc f) elem input keys flds p =
     (case consume_byte input (CHR ''}'') q of
        (True, p) \<Rightarrow> Some (Inr (flds @ [\<lparr>wf_key = k, wf_value = length (pr_nodes p) - 1\<rparr>], p))
      | (False, p) \<Rightarrow>
          fuel_then (Some (expect_byte input (CHR '','') p)) (\<lambda>p.
            parse_fields f elem input (insert k keys)
              (flds @ [\<lparr>wf_key = k, wf_value = length (pr_nodes p) - 1\<rparr>]) p))"
    using key(2) ws1 ps ws2 ex el ws3
    by (auto simp: parse_fields.simps consume_byte_def expect_byte_def split: bool.split)
qed

lemma parse_fields_render:
  assumes "\<forall>f\<in>set (f # fs). key_ok (fst f) \<and> reads input elem (snd f)" and "length fs < fuel"
    and "drop (pr_position p) input = render_field f @ comma_tail (map render_field fs) @ CHR ''}'' # rest"
    and "length (pr_nodes p) + sum_list (map json_size (map snd (f # fs))) \<le> MAX_TOOL_ARGUMENT_NODES"
    and "distinct (map fst (f # fs))" and "set (map fst (f # fs)) \<inter> keys = {}"
  shows "parse_fields fuel elem input keys flds p =
    Some (Inr (flds @ map2 (\<lambda>key i. \<lparr>wf_key = key, wf_value = i\<rparr>) (map fst (f # fs))
          (fst (flatten_all (length (pr_nodes p)) (map snd (f # fs)))),
      \<lparr>pr_position = pr_position p + length (render_field f @ comma_tail (map render_field fs)) + 1,
       pr_nodes = pr_nodes p @ snd (flatten_all (length (pr_nodes p)) (map snd (f # fs)))\<rparr>))"
  using assms
proof (induction fs arbitrary: f keys flds p fuel)
  case Nil
  then obtain n where n: "fuel = Suc n" by (cases fuel) auto
  obtain k t where f: "f = (k, t)" by (cases f)
  let ?q = "\<lparr>pr_position = pr_position p + length (render_field (k, t)),
       pr_nodes = pr_nodes p @ flatten (length (pr_nodes p)) t\<rparr>"
  have d: "drop (pr_position p) input = render_field (k, t) @ CHR ''}'' # rest" using Nil.prems(3) f by simp
  have del: "delimited (CHR ''}'' # rest)" by (simp add: delimited_def)
  note turn = parse_fields_turn [where q = ?q, OF _ _ _ d del _ _ refl, of keys elem]
  have "peek_byte input ?q = Some (CHR ''}'')"
    using turn(2) Nil.prems f by (intro peek_at [of _ _ _ rest]) auto
  then show ?case using turn(1) [of n flds] Nil.prems f
    by (simp add: n consume_byte_def flatten_length)
next
  case (Cons g fs)
  then obtain n where n: "fuel = Suc n" by (cases fuel) auto
  obtain k t where f: "f = (k, t)" by (cases f)
  let ?q = "\<lparr>pr_position = pr_position p + length (render_field (k, t)),
       pr_nodes = pr_nodes p @ flatten (length (pr_nodes p)) t\<rparr>"
  let ?q' = "?q\<lparr>pr_position := pr_position ?q + 1\<rparr>"
  let ?rest = "render_field g @ comma_tail (map render_field fs) @ CHR ''}'' # rest"
  let ?flds = "flds @ [\<lparr>wf_key = k, wf_value = length (pr_nodes ?q) - 1\<rparr>]"
  have d: "drop (pr_position p) input = render_field (k, t) @ CHR '','' # ?rest" using Cons.prems(3) f by simp
  have del: "delimited (CHR '','' # ?rest)" by (simp add: delimited_def)
  note turn = parse_fields_turn [where q = ?q, OF _ _ _ d del _ _ refl, of keys elem]
  have dq: "drop (pr_position ?q) input = CHR '','' # ?rest"
    using turn(2) Cons.prems f by auto
  have "parse_fields fuel elem input keys flds p = parse_fields n elem input (insert k keys) ?flds ?q'"
    using turn(1) [of n flds] Cons.prems f peek_at [OF dq]
    by (simp add: n consume_byte_def expect_byte_def)
  also have "\<dots> = Some (Inr (?flds @ map2 (\<lambda>key i. \<lparr>wf_key = key, wf_value = i\<rparr>) (map fst (g # fs))
          (fst (flatten_all (length (pr_nodes ?q')) (map snd (g # fs)))),
      \<lparr>pr_position = pr_position ?q' + length (render_field g @ comma_tail (map render_field fs)) + 1,
       pr_nodes = pr_nodes ?q' @ snd (flatten_all (length (pr_nodes ?q')) (map snd (g # fs)))\<rparr>))"
    using Cons.prems f n drop_peek(3) [OF dq] by (intro Cons.IH) (auto simp: flatten_length)
  finally show ?case by (simp add: f flatten_length)
qed

lemma number_bytes:
  "\<not> (is_json_space c \<and> starts_number c)" "\<not> starts_number CHR '']''"
  "is_ascii_digit c \<or> c \<in> {CHR ''-'', CHR ''.'', CHR ''e''} \<Longrightarrow> \<not> is_number_end c"
  by (auto simp: is_json_space_def is_number_end_def starts_number_def ascii_defs)

lemma starts_number_other:
  "starts_number c \<Longrightarrow> c \<noteq> CHR ''n'' \<and> c \<noteq> CHR ''t'' \<and> c \<noteq> CHR ''f'' \<and> c \<noteq> CHR 0x22 \<and>
     c \<noteq> CHR ''['' \<and> c \<noteq> CHR ''{''"
  by (auto simp: starts_number_def ascii_defs)

lemma canonical_number_text:
  assumes "is_canonical_number s"
  shows "\<exists>c r. s = c # r \<and> starts_number c" and "list_all (\<lambda>b. \<not> is_number_end b) s"
proof -
  have g: "number_grammar s" using assms by (simp add: is_canonical_number_grammar)
  have "digits_from_1 ip \<Longrightarrow> \<exists>c r. ip = c # r \<and> starts_number c" for ip
    by (cases ip) (auto simp: digits_from_1_def starts_number_def dest: is_digit1_digit)
  moreover have "starts_number CHR ''0''" "starts_number CHR ''-''" by (simp_all add: starts_number_def ascii_defs)
  ultimately show "\<exists>c r. s = c # r \<and> starts_number c"
    using g unfolding number_grammar_def
    by (elim disjE exE conjE) (fastforce simp: Cons_eq_append_conv)+
  show "list_all (\<lambda>b. \<not> is_number_end b) s"
    unfolding list_all_iff by (intro ballI number_bytes(3)) (rule grammar_chars [OF g])
qed

lemma render_head:
  assumes "json_fine t"
  obtains c s where "render t = c # s" "\<not> is_json_space c" "c \<noteq> CHR '']''"
proof (cases t)
  case (JNumber s)
  with canonical_number_text(1) [of s] assms that number_bytes(1,2) show ?thesis by fastforce
next
  case (JBool b)
  with that show ?thesis by (cases b) (simp_all add: is_json_space_def)
qed (use that in \<open>auto simp: quote_head is_json_space_def split: if_splits\<close>)

lemma render_object:
  "render (JObject fs) = CHR ''{'' # commas (map render_field fs) @ ''}''"
proof -
  have "(\<lambda>(k, t). quote k @ '':'' @ render t) = render_field"
    by (auto simp: fun_eq_iff render_field_def)
  then show ?thesis by simp
qed

lemma parse_leaf_render:
  assumes "drop (pr_position p) input = s @ rest" and "pr_position p + length s < 2 ^ 64" and "s \<noteq> []"
  shows "consume_literal input s p = Inr (p\<lparr>pr_position := pr_position p + length s\<rparr>)"
proof -
  have "pr_position p + length s \<le> length input"
    using arg_cong [OF assms(1), of length] assms(3) by (cases s) auto
  then show ?thesis
    using slice_at [OF assms(1)] assms(2) by (simp add: consume_literal_Inr get_bytes_def)
qed

lemma push_node_ok:
  assumes "length (pr_nodes p) + 1 \<le> MAX_TOOL_ARGUMENT_NODES"
  shows "push_node node p = Inr (length (pr_nodes p), p\<lparr>pr_nodes := pr_nodes p @ [node]\<rparr>)"
  using assms by (simp add: push_node_Inr)

lemma length_le_sizes: "length ts \<le> sum_list (map json_size ts)"
proof (induction ts)
  case (Cons t ts)
  then show ?case using json_size_pos [of t] by simp
qed simp

lemma parse_array_render:
  assumes read: "\<And>u. u \<in> set ts \<Longrightarrow> reads input (value (depth + 1)) u" and fuel: "length ts \<le> fuel"
    and fine: "json_fine (JArray ts)" and depth: "depth + json_depth (JArray ts) \<le> 65"
    and d: "drop (pr_position p) input = render (JArray ts) @ rest"
    and room: "length (pr_nodes p) + json_size (JArray ts) \<le> MAX_TOOL_ARGUMENT_NODES"
  shows "parse_array fuel value input depth p = Some (Inr (length (pr_nodes p) + json_size (JArray ts) - 1,
     \<lparr>pr_position = pr_position p + length (render (JArray ts)),
      pr_nodes = pr_nodes p @ flatten (length (pr_nodes p)) (JArray ts)\<rparr>))"
proof -
  let ?q = "p\<lparr>pr_position := pr_position p + 1\<rparr>"
  have d': "drop (pr_position p) input = CHR ''['' # commas (map render ts) @ CHR '']'' # rest"
    using d by simp
  have opened: "expect_byte input (CHR ''['') p = Inr ?q"
    using peek_at [OF d'] by (simp add: expect_byte_Inr)
  have dq: "drop (pr_position ?q) input = commas (map render ts) @ CHR '']'' # rest"
    using drop_peek(3) [OF d'] by simp
  show ?thesis
  proof (cases ts)
    case Nil
    with dq have dq: "drop (pr_position ?q) input = CHR '']'' # rest" by simp
    then have "skip_whitespace input ?q = ?q"
      by (intro skip_whitespace_none) (auto simp: is_json_space_def)
    then show ?thesis using opened peek_at [OF dq] room Nil
      by (simp add: parse_array_def consume_byte_def push_node_ok)
  next
    case (Cons u us)
    obtain b bs where b: "render u = b # bs" "\<not> is_json_space b" "b \<noteq> CHR '']''"
      using fine Cons by (auto elim: render_head [of u])
    have ws: "skip_whitespace input ?q = ?q"
      using dq Cons b by (intro skip_whitespace_none) auto
    have "peek_byte input ?q = Some b" using dq Cons b(1) by (intro peek_at) simp
    moreover have "parse_items fuel (value (depth + 1)) input [] ?q =
      Some (Inr ([] @ fst (flatten_all (length (pr_nodes ?q)) (u # us)),
      \<lparr>pr_position = pr_position ?q + length (render u @ comma_tail (map render us)) + 1,
       pr_nodes = pr_nodes ?q @ snd (flatten_all (length (pr_nodes ?q)) (u # us))\<rparr>))"
      using read Cons dq fuel room by (intro parse_items_render) auto
    ultimately show ?thesis using opened ws b(3) Cons depth room
      by (simp add: parse_array_def consume_byte_def push_node_ok flatten_length)
  qed
qed

lemma parse_object_render:
  assumes read: "\<And>f. f \<in> set fs \<Longrightarrow> key_ok (fst f) \<and> reads input (value (depth + 1)) (snd f)"
    and fuel: "length fs \<le> fuel" and fine: "json_fine (JObject fs)"
    and depth: "depth + json_depth (JObject fs) \<le> 65"
    and d: "drop (pr_position p) input = render (JObject fs) @ rest"
    and room: "length (pr_nodes p) + json_size (JObject fs) \<le> MAX_TOOL_ARGUMENT_NODES"
  shows "parse_object fuel value input depth p = Some (Inr (length (pr_nodes p) + json_size (JObject fs) - 1,
     \<lparr>pr_position = pr_position p + length (render (JObject fs)),
      pr_nodes = pr_nodes p @ flatten (length (pr_nodes p)) (JObject fs)\<rparr>))"
proof -
  let ?q = "p\<lparr>pr_position := pr_position p + 1\<rparr>"
  have sizes: "json_size (JObject fs) = Suc (sum_list (map json_size (map snd fs)))"
    by (simp add: comp_def case_prod_unfold)
  have d': "drop (pr_position p) input = CHR ''{'' # commas (map render_field fs) @ CHR ''}'' # rest"
    using d by (simp add: render_object del: render.simps)
  have opened: "expect_byte input (CHR ''{'') p = Inr ?q"
    using peek_at [OF d'] by (simp add: expect_byte_Inr)
  have dq: "drop (pr_position ?q) input = commas (map render_field fs) @ CHR ''}'' # rest"
    using drop_peek(3) [OF d'] by simp
  show ?thesis
  proof (cases fs)
    case Nil
    with dq have dq: "drop (pr_position ?q) input = CHR ''}'' # rest" by simp
    then have "skip_whitespace input ?q = ?q"
      by (intro skip_whitespace_none) (auto simp: is_json_space_def)
    then show ?thesis using opened peek_at [OF dq] room Nil
      by (simp add: parse_object_def consume_byte_def push_node_ok)
  next
    case (Cons f us)
    have dc: "drop (pr_position ?q) input = CHR 0x22 # tl (render_field f) @ comma_tail (map render_field us) @ CHR ''}'' # rest"
      using dq Cons by (simp add: render_field_def quote_head)
    have ws: "skip_whitespace input ?q = ?q"
      using dc by (intro skip_whitespace_none) (auto simp: is_json_space_def)
    have "distinct (map fst fs)" using fine by (simp add: strict_sorted_iff)
    then have "parse_fields fuel (value (depth + 1)) input {} [] ?q =
      Some (Inr ([] @ map2 (\<lambda>key i. \<lparr>wf_key = key, wf_value = i\<rparr>) (map fst (f # us))
          (fst (flatten_all (length (pr_nodes ?q)) (map snd (f # us)))),
      \<lparr>pr_position = pr_position ?q + length (render_field f @ comma_tail (map render_field us)) + 1,
       pr_nodes = pr_nodes ?q @ snd (flatten_all (length (pr_nodes ?q)) (map snd (f # us)))\<rparr>))"
      using read Cons dq fuel room sizes by (intro parse_fields_render) auto
    moreover define flds where "flds = map2 (\<lambda>key i. \<lparr>wf_key = key, wf_value = i\<rparr>) (map fst fs)
      (fst (flatten_all (length (pr_nodes p)) (map snd fs)))"
    moreover define r where "r = \<lparr>pr_position = pr_position p + length (render (JObject fs)),
       pr_nodes = pr_nodes p @ snd (flatten_all (length (pr_nodes p)) (map snd fs))\<rparr>"
    ultimately have pf: "parse_fields fuel (value (depth + 1)) input {} [] ?q = Some (Inr (flds, r))"
      unfolding Cons [symmetric] using Cons by (simp add: render_object del: render.simps)
    have push: "push_node (ObjectValue flds) r = Inr (length (pr_nodes p) + json_size (JObject fs) - 1,
        r\<lparr>pr_nodes := pr_nodes r @ [ObjectValue flds]\<rparr>)"
      using room by (simp add: push_node_ok sizes flatten_length r_def del: json_size.simps)
    have "flatten (length (pr_nodes p)) (JObject fs) =
        snd (flatten_all (length (pr_nodes p)) (map snd fs)) @ [ObjectValue flds]"
      by (simp add: flds_def)
    then show ?thesis using opened ws peek_at [OF dc] depth pf push
      by (simp add: parse_object_def consume_byte_def r_def del: render.simps json_size.simps flatten_proj)
  qed
qed

lemma parse_value_render:
  assumes "length input < 2 ^ 64"
  shows "json_fine t \<Longrightarrow> json_utf8 t \<Longrightarrow> json_size t \<le> fuel \<Longrightarrow> depth + json_depth t \<le> 65 \<Longrightarrow>
    reads input (parse_value fuel input depth) t"
proof (induction fuel arbitrary: depth t)
  case 0
  then show ?case using json_size_pos [of t] by simp
next
  case (Suc fuel)
  show ?case
    unfolding reads_def
  proof (intro allI impI)
    fix p :: parser and rest
    assume d: "drop (pr_position p) input = render t @ rest" and del: "delimited rest"
      and room: "length (pr_nodes p) + json_size t \<le> MAX_TOOL_ARGUMENT_NODES"
    obtain c s where head: "render t = c # s" "\<not> is_json_space c" "c \<noteq> CHR '']''" using render_head [OF Suc.prems(1)] .
    have ws: "skip_whitespace input p = p" using d head by (intro skip_whitespace_none) auto
    have peek: "peek_byte input p = Some c" using d head by (intro peek_at) simp
    have dep: "\<not> MAX_TOOL_ARGUMENT_DEPTH < depth"
      using Suc.prems(4) by (cases t) (simp_all add: MAX_TOOL_ARGUMENT_DEPTH_def)
    have fits: "pr_position p + length (render t) < 2 ^ 64"
      using arg_cong [OF d, of length] head(1) assms by simp
    have ne: "render t \<noteq> []" using head by simp
    note lit = parse_leaf_render [OF d fits ne]
    let ?goal = "parse_value (Suc fuel) input depth p =
      Some (Inr (length (pr_nodes p) + json_size t - 1,
       \<lparr>pr_position = pr_position p + length (render t),
        pr_nodes = pr_nodes p @ flatten (length (pr_nodes p)) t\<rparr>))"
    show ?goal
    proof (cases t)
      case JNull
      with head ws peek dep lit room show ?thesis by (auto simp: parse_value.simps push_node_ok)
    next
      case (JBool b)
      with head ws peek dep lit room show ?thesis by (cases b) (auto simp: parse_value.simps push_node_ok)
    next
      case (JString u)
      have "parse_string input p = Inr (u, p\<lparr>pr_position := pr_position p + length (quote u)\<rparr>)"
        using Suc.prems(1,2) d JString by (intro parse_string_quoted) auto
      with JString head ws peek dep room show ?thesis
        by (auto simp: parse_value.simps push_node_ok quote_head)
    next
      case (JNumber u)
      have "skip_bytes (\<lambda>b. \<not> is_number_end b) input (pr_position p) = pr_position p + length u"
        using d JNumber canonical_number_text(2) [of u] Suc.prems(1) delimited_head(2) [OF del]
        by (intro skip_bytes_run) auto
      moreover have "starts_number c"
        using canonical_number_text(1) [of u] Suc.prems(1) head(1) JNumber by auto
      moreover have "str_slice input (pr_position p) (pr_position p + length u) = u"
        using slice_at d JNumber by simp
      ultimately show ?thesis using JNumber ws peek dep room starts_number_other [of c]
        by (simp add: parse_value.simps parse_number_def push_node_ok)
    next
      case (JArray ts)
      have "reads input (parse_value fuel input (depth + 1)) u" if "u \<in> set ts" for u
        using that Suc.prems JArray json_depth_child(1) [of u ts] member_le_sum_list [of "json_size u" "map json_size ts"]
        by (intro Suc.IH) (auto simp: list_all_iff)
      moreover have "length ts \<le> fuel"
        using Suc.prems(3) JArray length_le_sizes [of ts] by simp
      ultimately have "parse_array fuel (parse_value fuel input) input depth p =
          Some (Inr (length (pr_nodes p) + json_size t - 1,
          \<lparr>pr_position = pr_position p + length (render t),
           pr_nodes = pr_nodes p @ flatten (length (pr_nodes p)) t\<rparr>))"
        using d room Suc.prems(1,4) unfolding JArray
        by (intro parse_array_render) auto
      with JArray head ws peek dep show ?thesis by (auto simp: parse_value.simps)
    next
      case (JObject fs)
      have sizes: "json_size t = Suc (sum_list (map json_size (map snd fs)))"
        using JObject by (simp add: comp_def case_prod_unfold)
      have "key_ok (fst f) \<and> reads input (parse_value fuel input (depth + 1)) (snd f)" if "f \<in> set fs" for f
      proof
        show "key_ok (fst f)" using that Suc.prems(1,2) JObject by (auto simp: key_ok_def list_all_iff)
        have "snd f \<in> set (map snd fs)" using that by simp
        then show "reads input (parse_value fuel input (depth + 1)) (snd f)"
          using that Suc.prems JObject json_depth_child(2) [of "snd f" fs] sizes
            member_le_sum_list [of "json_size (snd f)" "map json_size (map snd fs)"]
          by (intro Suc.IH) (auto simp: list_all_iff simp del: json_depth.simps json_size.simps)
      qed
      moreover have "length fs \<le> fuel"
        using Suc.prems(3) length_le_sizes [of "map snd fs"] unfolding sizes by simp
      ultimately have "parse_object fuel (parse_value fuel input) input depth p =
          Some (Inr (length (pr_nodes p) + json_size t - 1,
          \<lparr>pr_position = pr_position p + length (render t),
           pr_nodes = pr_nodes p @ flatten (length (pr_nodes p)) t\<rparr>))"
        using d room Suc.prems(1,4) unfolding JObject
        by (intro parse_object_render) auto
      with JObject head ws peek dep show ?thesis by (auto simp: parse_value.simps)
    qed
  qed
qed

lemma parser_parse_render:
  assumes "json_fine t" and "json_utf8 t" and "json_depth t \<le> 64" and "json_size t \<le> 16384"
    and "length (render t) < 2 ^ 64" and "json_size t \<le> fuel"
  shows "parser_parse fuel (render t) = Some (Inr (document_of t))"
proof -
  obtain c s where head: "render t = c # s" "\<not> is_json_space c" using render_head [OF assms(1)] .
  have ws: "skip_whitespace (render t) parser_new = parser_new"
    using head by (intro skip_whitespace_none) (auto simp: parser_new_def)
  let ?r = "\<lparr>pr_position = length (render t), pr_nodes = flatten 0 t\<rparr>"
  have "parse_value fuel (render t) 1 parser_new = Some (Inr (json_size t - 1, ?r))"
    using parse_value_render [OF assms(5,1,2,6), of 1, unfolded reads_def, rule_format, of parser_new "[]"]
      assms(3,4) by (simp add: parser_new_def delimited_def MAX_TOOL_ARGUMENT_NODES_def)
  moreover have "skip_whitespace (render t) ?r = ?r" by (intro skip_whitespace_none) auto
  ultimately show ?thesis using ws
    by (simp add: parser_parse_def document_of_def flatten_length)
qed

lemma tool_arguments_complete:
  assumes "tool_tree t" and "json_utf8 t" and "16384 \<le> fuel"
  shows "parser_parse fuel (render t) = Some (Inr (document_of t)) \<and>
    validate_tool_arguments fuel (render t) = Some (Inr ())"
proof -
  note t = assms(1) [unfolded tool_tree_def]
  have parse: "parser_parse fuel (render t) = Some (Inr (document_of t))"
    using t assms(2,3) by (intro parser_parse_render) auto
  have "is_ok (validate_wire_json (document_of t) True)"
    using t by (intro document_of_validates) (auto simp: max_charge_lt)
  then obtain stats where v: "validate_wire_json (document_of t) True = Inr stats" by (auto simp: is_ok_iff)
  have "canonical_serialize fuel (document_of t) = Some (Inr (render t))"
    using canonical_serialize_document [OF validate_object_root [OF v], of fuel] t assms(3)
    by (simp add: max_charge_lt)
  then show ?thesis using parse v validate_document_of [OF v] t
    by (simp add: validate_tool_arguments_def document_of_def flatten_length MAX_TOOL_ARGUMENT_BYTES_def
        MAX_TOOL_ARGUMENT_NODES_def MAX_TOOL_ARGUMENT_DEPTH_def MAX_TOOL_ARGUMENT_CHARGE_def)
qed

subsection \<open>Properties of tool arguments\<close>

definition sample_arguments :: json where
  "sample_arguments = JObject [(''a'', JArray [JNumber ''0'', JBool True]), (''b'', JString [CHR 0x22, CHR 0x0A])]"

lemma sample_arguments_tree: "tool_tree sample_arguments" "json_utf8 sample_arguments"
  by (simp_all add: sample_arguments_def tool_tree_def is_canonical_number_def scalar_safe_def utf8_width_def
      next_code_point_def is_unsafe_char_def MAX_NUMBER_BYTES_def MAX_KEY_BYTES_def MAX_SAFE_TEXT_BYTES_def
      is_ascii_byte_def quote_def escape_byte_def comma_tail_def less_char_def)

text \<open>C26. The parser inverts the serializer: for the compact text of any tree within the limits of tool
  arguments, the parser returns the postorder document of that tree, from which the tree can be
  read back, and the whole validation accepts the text.\<close>

theorem tool_arguments_roundtrip:
  assumes "tool_tree t" and "json_utf8 t" and "16384 \<le> fuel"
  shows "parser_parse fuel (render t) = Some (Inr (document_of t)) \<and>
    tree_at fuel (wd_nodes (document_of t)) (wd_root (document_of t)) = Some t \<and>
    validate_tool_arguments fuel (render t) = Some (Inr ())"
  using tool_arguments_complete [OF assms] tree_at_flatten(1) [of "[]" 0 t fuel "[]"] assms(1,3)
  by (auto simp: document_of_def flatten_length tool_tree_def)

theorem tool_arguments_roundtrip_witness:
  "validate_tool_arguments 16384 (render sample_arguments) = Some (Inr ()) \<and>
   tree_at 16384 (wd_nodes (document_of sample_arguments)) 4 = Some sample_arguments"
proof -
  have "wd_root (document_of sample_arguments) = 4"
    by (simp add: document_of_def sample_arguments_def)
  then show ?thesis using tool_arguments_roundtrip [OF sample_arguments_tree order_refl] by simp
qed

text \<open>C27. Conversely nothing but canonical text passes: whatever bytes \<open>validate\_tool\_arguments\<close>
  accepts are the compact rendering of an object tree with sorted keys, canonical numbers and safe
  strings, of depth at most 64, at most 16384 nodes and a charge of at most 1 MiB, and the document
  the parser built is that tree's. So two accepted texts of the same tree are the same bytes.\<close>

theorem tool_arguments_canonical:
  assumes "validate_tool_arguments fuel value = Some (Inr ())" and "64 \<le> fuel"
  shows "\<exists>t. value = render t \<and> tool_tree t \<and> parser_parse fuel value = Some (Inr (document_of t))"
  using assms by (rule tool_arguments_sound)

theorem tool_arguments_canonical_witness:
  "\<exists>t. render sample_arguments = render t \<and> tool_tree t \<and>
     parser_parse 16384 (render sample_arguments) = Some (Inr (document_of t))"
  using tool_arguments_canonical [OF conjunct2 [OF tool_arguments_complete [OF sample_arguments_tree order_refl]]]
  by simp

text \<open>C28. The recursive parser returns on every input, whatever the bytes: with more fuel than bytes the
  recursion never runs out, so a hostile tool call ends in a result or an error.\<close>

theorem tool_arguments_total:
  assumes "length value < fuel" and "64 \<le> fuel"
  shows "validate_tool_arguments fuel value \<noteq> None"
proof (cases "parser_parse fuel value")
  case None
  with parser_parse_total [OF assms(1)] show ?thesis by simp
next
  case (Some r)
  show ?thesis
  proof (cases r)
    case (Inl e)
    with Some show ?thesis by (simp add: validate_tool_arguments_def)
  next
    case (Inr d)
    from parser_parse_document [of fuel "value" d] Some Inr obtain t where d: "d = document_of t" by auto
    have "canonical_serialize fuel d \<noteq> None" if v: "validate_wire_json d True = Inr stats" for stats
      using canonical_serialize_document [OF validate_object_root [OF v [unfolded d]], of fuel]
        validate_document_of [OF v [unfolded d]] assms(2) by (simp add: d)
    then show ?thesis using Some Inr
      by (auto simp: validate_tool_arguments_def simp del: not_None_eq)
  qed
qed

theorem tool_arguments_total_witness: "validate_tool_arguments 64 ''{ '' \<noteq> None"
  using tool_arguments_total [of "''{ ''" 64] by simp

end
