(* ===== verification/Decoder_Events.thy ===== *)
theory Decoder_Events
  imports Tool_Json
begin

section \<open>Normalized decoder events\<close>

text \<open>
  \<open>mcode-plugin-host/src/provider\_validation/decoder.rs\<close> (validation of one event and one batch) and
  \<open>decoder/events.rs\<close> (the stateful reducer that orders content slots, tool calls and the terminal).
  The WIT types of the Provider interface are records and variants with the interface's names. The
  reducer is a value behind \<open>&mut self\<close> whose methods may fail after they wrote some of its fields:
  they are \<open>sx\<close> computations, which keep the state on both branches. The one \<open>parse\_value\<close> fuel of
  \<open>end\_tool\<close> is chosen from the length of the arguments and is always enough.
\<close>

subsection \<open>The interface types\<close>

datatype completion_reason = ReasonStop | ReasonToolUse | ReasonLength

record usage_counts =
  us_input :: "nat option"
  us_output :: "nat option"
  us_cache_read :: "nat option"
  us_cache_write :: "nat option"

record completion_terminal =
  ct_reason :: completion_reason
  ct_reported_model :: "string option"
  ct_usage :: usage_counts

datatype unsupported_flow =
    FlowCatalogSource | FlowAuthentication | FlowModel | FlowTools | FlowToolChoice | FlowReasoning
  | FlowCache | FlowImage | FlowProof | FlowResponseMedia

datatype guest_error =
    GuestInvalidArgument | GuestLimit | GuestUnsupportedFlow unsupported_flow | GuestUnavailable
  | GuestCancelled | GuestFailed

datatype normalized_event =
    TextDelta nat string
  | ReasoningDelta nat reasoning_kind string
  | ReasoningProof nat reasoning_kind "8 word list"
  | ToolCallStart nat string string
  | ToolArgumentsDelta nat string string
  | ToolCallEnd nat string
  | Completed completion_terminal
  | Failed guest_error

datatype response_media = MediaJson | MediaEventStream

record response_head =
  rh_status :: nat
  rh_media :: response_media

datatype response_frame = FrameHead response_head | FrameData "8 word list" | FrameEnd

datatype decoder_pull = PullEvents "normalized_event list" | PullNeedFrame

subsection \<open>Validation (decoder.rs)\<close>

record decoder_policy =
  dp_proof_supported :: bool
  dp_tool_names :: "string set"
  dp_reported_models :: "string set"

definition decoder_policy_new :: "bool \<Rightarrow> string list \<Rightarrow> string list \<Rightarrow> decoder_policy" where
  "decoder_policy_new proof_supported tool_names reported_models =
     \<lparr>dp_proof_supported = proof_supported, dp_tool_names = set tool_names,
      dp_reported_models = set reported_models\<rparr>"

definition decoder_policy_empty :: decoder_policy where
  "decoder_policy_empty = decoder_policy_new False [] []"

definition MAX_PULL_LIMIT :: nat where "MAX_PULL_LIMIT = 16"
definition MAX_FRAME_DATA_BYTES :: nat where "MAX_FRAME_DATA_BYTES = 64 * 1024"
definition MAX_DELTA_BYTES :: nat where "MAX_DELTA_BYTES = 64 * 1024"
definition MAX_SINGLE_EVENT_CHARGE :: nat where "MAX_SINGLE_EVENT_CHARGE = 128 * KIB"
definition MAX_BATCH_CHARGE :: nat where "MAX_BATCH_CHARGE = 1024 * KIB"
definition MAX_USAGE :: nat where "MAX_USAGE = i64_max"

definition validate_pull_limit :: "nat \<Rightarrow> validation_error + unit" where
  "validate_pull_limit limit = (if \<not> (1 \<le> limit \<and> limit \<le> MAX_PULL_LIMIT) then Inl Limit else Inr ())"

fun validate_response_frame :: "response_frame \<Rightarrow> validation_error + unit" where
  "validate_response_frame (FrameHead head) =
     (if \<not> (200 \<le> rh_status head \<and> rh_status head \<le> 599) then Inl InvalidArgument else Inr ())"
| "validate_response_frame (FrameData data) =
     (if data = [] then Inl InvalidArgument
      else if length data > MAX_FRAME_DATA_BYTES then Inl Limit else Inr ())"
| "validate_response_frame FrameEnd = Inr ()"

definition validate_delta :: "string \<Rightarrow> logical_charge \<Rightarrow> validation_error + logical_charge" where
  "validate_delta value charge =
     and_then (scalar_safe value MAX_DELTA_BYTES True) (\<lambda>_. charge_string charge value)"

definition validate_content_index :: "nat \<Rightarrow> validation_error + unit" where
  "validate_content_index index = (if index > 63 then Inl InvalidArgument else Inr ())"

definition validate_usage_value :: "nat option \<Rightarrow> logical_charge \<Rightarrow> validation_error + logical_charge" where
  "validate_usage_value value charge =
     and_then (charge_add charge 4) (\<lambda>charge.
       case value of
         None \<Rightarrow> Inr charge
       | Some value \<Rightarrow> if value > MAX_USAGE then Inl Limit else charge_add charge 8)"

definition validate_usage :: "usage_counts \<Rightarrow> logical_charge \<Rightarrow> validation_error + logical_charge" where
  "validate_usage usage charge =
     and_then (validate_usage_value (us_input usage) charge) (\<lambda>charge.
     and_then (validate_usage_value (us_output usage) charge) (\<lambda>charge.
     and_then (validate_usage_value (us_cache_read usage) charge) (\<lambda>charge.
       validate_usage_value (us_cache_write usage) charge)))"

definition validate_terminal :: "completion_terminal \<Rightarrow> logical_charge \<Rightarrow> validation_error + logical_charge" where
  "validate_terminal terminal charge =
     and_then (charge_add charge 4) (\<lambda>charge.
     and_then (charge_add charge 4) (\<lambda>charge.
     and_then (case ct_reported_model terminal of
         None \<Rightarrow> Inr charge
       | Some model \<Rightarrow> and_then (scalar_model_id model) (\<lambda>_. charge_string charge model)) (\<lambda>charge.
       validate_usage (ct_usage terminal) charge)))"

fun validate_stable_error :: "guest_error \<Rightarrow> logical_charge \<Rightarrow> validation_error + logical_charge" where
  "validate_stable_error (GuestUnsupportedFlow _) charge =
     and_then (charge_add charge 4) (\<lambda>charge. charge_add charge 4)"
| "validate_stable_error _ charge = charge_add charge 4"

fun charge_event :: "normalized_event \<Rightarrow> logical_charge \<Rightarrow> validation_error + logical_charge" where
  "charge_event (TextDelta index text) charge =
     and_then (validate_content_index index) (\<lambda>_.
     and_then (charge_add charge 1) (\<lambda>charge. validate_delta text charge))"
| "charge_event (ReasoningDelta index _ text) charge =
     and_then (validate_content_index index) (\<lambda>_.
     and_then (charge_add charge 1) (\<lambda>charge.
     and_then (charge_add charge 4) (\<lambda>charge. validate_delta text charge)))"
| "charge_event (ReasoningProof index _ proof_bytes) charge =
     and_then (validate_content_index index) (\<lambda>_.
     and_then (charge_add charge 1) (\<lambda>charge.
     and_then (charge_add charge 4) (\<lambda>charge.
       if proof_bytes = [] then Inl InvalidArgument
       else if length proof_bytes > MAX_DELTA_BYTES then Inl Limit
       else and_then (charge_add charge 4) (\<lambda>charge.
         and_then (checked_len (length proof_bytes)) (charge_add charge)))))"
| "charge_event (ToolCallStart index call_id name) charge =
     and_then (validate_content_index index) (\<lambda>_.
     and_then (scalar_tracking_id call_id) (\<lambda>_.
     and_then (scalar_label name 128) (\<lambda>_.
     and_then (charge_add charge 1) (\<lambda>charge.
     and_then (charge_string charge call_id) (\<lambda>charge. charge_string charge name)))))"
| "charge_event (ToolArgumentsDelta index call_id delta) charge =
     and_then (validate_content_index index) (\<lambda>_.
     and_then (scalar_tracking_id call_id) (\<lambda>_.
     and_then (charge_add charge 1) (\<lambda>charge.
     and_then (charge_string charge call_id) (\<lambda>charge. validate_delta delta charge))))"
| "charge_event (ToolCallEnd index call_id) charge =
     and_then (validate_content_index index) (\<lambda>_.
     and_then (scalar_tracking_id call_id) (\<lambda>_.
     and_then (charge_add charge 1) (\<lambda>charge. charge_string charge call_id)))"
| "charge_event (Completed terminal) charge = validate_terminal terminal charge"
| "charge_event (Failed error) charge = validate_stable_error error charge"

definition validate_normalized_event :: "normalized_event \<Rightarrow> validation_error + nat" where
  "validate_normalized_event event =
     and_then (charge_add (charge_new MAX_SINGLE_EVENT_CHARGE) 4) (\<lambda>charge.
     and_then (charge_event event charge) (\<lambda>charge. Inr (lc_value charge)))"

definition validate_event_batch :: "normalized_event list \<Rightarrow> nat \<Rightarrow> validation_error + unit" where
  "validate_event_batch events limit =
     and_then (validate_pull_limit limit) (\<lambda>_.
       if events = [] then Inl InvalidArgument
       else if length events > limit then Inl InvalidArgument
       else
         and_then (charge_add (charge_new MAX_BATCH_CHARGE) 4) (\<lambda>batch.
         and_then (try_fold (\<lambda>batch event.
             and_then (validate_normalized_event event) (charge_add batch)) batch events) (\<lambda>_. Inr ())))"

definition validate_decoder_pull :: "decoder_pull \<Rightarrow> nat \<Rightarrow> validation_error + unit" where
  "validate_decoder_pull pull limit =
     (case pull of
        PullNeedFrame \<Rightarrow> validate_pull_limit limit
      | PullEvents events \<Rightarrow> validate_event_batch events limit)"

subsection \<open>The event reducer (events.rs)\<close>

definition MAX_EVENTS :: nat where "MAX_EVENTS = 65536"
definition MAX_CUMULATIVE_EVENT_CHARGE :: nat where "MAX_CUMULATIVE_EVENT_CHARGE = 8 * 1024 * 1024"
definition MAX_PROOF_BYTES :: nat where "MAX_PROOF_BYTES = 256 * 1024"
definition MAX_TOOL_DELTAS :: nat where "MAX_TOOL_DELTAS = 16384"
definition MAX_TOOL_BYTES :: nat where "MAX_TOOL_BYTES = 1024 * 1024"
definition MAX_ALL_TOOL_BYTES :: nat where "MAX_ALL_TOOL_BYTES = 2 * 1024 * 1024"

record open_tool =
  ot_call_id :: string
  ot_delta_count :: nat
  ot_bytes :: nat
  ot_arguments :: string

datatype tool_state = OpenTool open_tool | Sealed

datatype content_kind = TextKind | ReasoningContent reasoning_kind bool | ToolKind tool_state

record content_slot =
  cs_index :: nat
  cs_kind :: content_kind

datatype content_class = TextClass | ReasoningClass

record event_reducer =
  er_proof_supported :: bool
  er_tool_names :: "string set"
  er_reported_models :: "string set"
  er_call_ids :: "string set"
  er_current :: "content_slot option"
  er_event_count :: nat
  er_event_charge :: nat
  er_proof_bytes :: nat
  er_tool_bytes :: nat
  er_complete_calls :: nat
  er_terminal_seen :: bool

record event_batch =
  eb_accepted :: "normalized_event list"
  eb_terminal :: "normalized_event option"

definition event_reducer_new :: "decoder_policy \<Rightarrow> event_reducer" where
  "event_reducer_new policy =
     \<lparr>er_proof_supported = dp_proof_supported policy, er_tool_names = dp_tool_names policy,
      er_reported_models = dp_reported_models policy, er_call_ids = {}, er_current = None,
      er_event_count = 0, er_event_charge = 0, er_proof_bytes = 0, er_tool_bytes = 0,
      er_complete_calls = 0, er_terminal_seen = False\<rparr>"

type_synonym 'a reducer = "(event_reducer, validation_error, 'a) sx"

definition is_terminal_event :: "normalized_event \<Rightarrow> bool" where
  "is_terminal_event event = (case event of Completed _ \<Rightarrow> True | Failed _ \<Rightarrow> True | _ \<Rightarrow> False)"

definition new_content_kind :: "content_class \<Rightarrow> reasoning_kind option \<Rightarrow> validation_error + content_kind" where
  "new_content_kind class reasoning =
     (case (class, reasoning) of
        (TextClass, None) \<Rightarrow> Inr TextKind
      | (ReasoningClass, Some kind) \<Rightarrow> Inr (ReasoningContent kind False)
      | _ \<Rightarrow> Inl InvalidArgument)"

definition tool_open :: "content_slot \<Rightarrow> bool" where
  "tool_open slot = (case cs_kind slot of ToolKind (OpenTool _) \<Rightarrow> True | _ \<Rightarrow> False)"

definition ensure_slot_can_advance :: "content_slot \<Rightarrow> validation_error + unit" where
  "ensure_slot_can_advance slot = (if tool_open slot then Inl InvalidArgument else Inr ())"

definition select_content :: "nat \<Rightarrow> content_class \<Rightarrow> reasoning_kind option \<Rightarrow> unit reducer" where
  "select_content index class reasoning s =
     (case er_current s of
        None \<Rightarrow>
          if index \<noteq> 0 then sx_fail InvalidArgument s
          else sx_bind (sx_lift (new_content_kind class reasoning)) (\<lambda>kind.
            sx_put (s\<lparr>er_current := Some \<lparr>cs_index = index, cs_kind = kind\<rparr>\<rparr>)) s
      | Some current \<Rightarrow>
          if cs_index current = index then
            (case (cs_kind current, class) of
               (TextKind, TextClass) \<Rightarrow> sx_return () s
             | (ReasoningContent kind _, ReasoningClass) \<Rightarrow>
                 if Some kind = reasoning then sx_return () s else sx_fail InvalidArgument s
             | _ \<Rightarrow> sx_fail InvalidArgument s)
          else if checked_add 8 (cs_index current) 1 = Some index then
            sx_bind (sx_lift (ensure_slot_can_advance current)) (\<lambda>_.
            sx_bind (sx_lift (new_content_kind class reasoning)) (\<lambda>kind.
              sx_put (s\<lparr>er_current := Some \<lparr>cs_index = index, cs_kind = kind\<rparr>\<rparr>))) s
          else sx_fail InvalidArgument s)"

definition accept_proof :: "nat \<Rightarrow> reasoning_kind \<Rightarrow> nat \<Rightarrow> unit reducer" where
  "accept_proof index kind bytes s =
     (if \<not> er_proof_supported s then sx_fail InvalidArgument s
      else case er_current s of
        None \<Rightarrow> sx_fail InvalidArgument s
      | Some slot \<Rightarrow> (case cs_kind slot of
          ReasoningContent current_kind proof_seen \<Rightarrow>
            if cs_index slot \<noteq> index \<or> current_kind \<noteq> kind \<or> proof_seen then sx_fail InvalidArgument s
            else sx_bind (sx_lift (checked_len bytes)) (\<lambda>bytes.
              sx_bind (sx_lift (ok_or (checked_add 64 (er_proof_bytes s) bytes) Limit)) (\<lambda>sum.
              sx_bind (sx_put (s\<lparr>er_proof_bytes := sum\<rparr>)) (\<lambda>_.
                if sum > MAX_PROOF_BYTES then sx_fail Limit
                else sx_put (s\<lparr>er_proof_bytes := sum,
                       er_current := Some (slot\<lparr>cs_kind := ReasoningContent current_kind True\<rparr>)\<rparr>)))) s
        | _ \<Rightarrow> sx_fail InvalidArgument s))"

definition start_tool :: "nat \<Rightarrow> string \<Rightarrow> string \<Rightarrow> unit reducer" where
  "start_tool index call_id name s =
     (if name \<notin> er_tool_names s \<or> call_id \<in> er_call_ids s then sx_fail InvalidArgument s
      else if (case er_current s of
            None \<Rightarrow> index = 0
          | Some current \<Rightarrow> checked_add 8 (cs_index current) 1 = Some index \<and>
              is_ok (ensure_slot_can_advance current))
      then sx_put (s\<lparr>er_call_ids := {call_id} \<union> er_call_ids s,
             er_current := Some \<lparr>cs_index = index, cs_kind = ToolKind (OpenTool
               \<lparr>ot_call_id = call_id, ot_delta_count = 0, ot_bytes = 0, ot_arguments = []\<rparr>)\<rparr>\<rparr>) s
      else sx_fail InvalidArgument s)"

definition append_tool_delta :: "nat \<Rightarrow> string \<Rightarrow> string \<Rightarrow> unit reducer" where
  "append_tool_delta index call_id delta s =
     (case er_current s of
        None \<Rightarrow> sx_fail InvalidArgument s
      | Some slot \<Rightarrow> (case cs_kind slot of
          ToolKind (OpenTool tool) \<Rightarrow>
            if cs_index slot \<noteq> index \<or> ot_call_id tool \<noteq> call_id then sx_fail InvalidArgument s
            else sx_bind (sx_lift (ok_or (checked_add 32 (ot_delta_count tool) 1) Limit)) (\<lambda>next_count.
              if next_count > MAX_TOOL_DELTAS then sx_fail Limit
              else
                sx_bind (sx_lift (checked_len (length delta))) (\<lambda>delta_bytes.
                sx_bind (sx_lift (ok_or (checked_add 64 (ot_bytes tool) delta_bytes) Limit)) (\<lambda>next_bytes.
                sx_bind (sx_lift (ok_or (checked_add 64 (er_tool_bytes s) delta_bytes) Limit)) (\<lambda>next_total.
                  if next_bytes > MAX_TOOL_BYTES \<or> next_total > MAX_ALL_TOOL_BYTES then sx_fail Limit
                  else sx_put (s\<lparr>er_current := Some (slot\<lparr>cs_kind := ToolKind (OpenTool
                           (tool\<lparr>ot_delta_count := next_count, ot_bytes := next_bytes,
                                 ot_arguments := ot_arguments tool @ delta\<rparr>))\<rparr>),
                         er_tool_bytes := next_total\<rparr>))))) s
        | _ \<Rightarrow> sx_fail InvalidArgument s))"

text \<open>The fuel for the arguments: more than their bytes and than the nodes of any accepted document.\<close>

definition arguments_result :: "string \<Rightarrow> validation_error + unit" where
  "arguments_result arguments =
     (case validate_tool_arguments (length arguments + 16384) arguments of
        Some r \<Rightarrow> r | None \<Rightarrow> Inl Limit)"

definition end_tool :: "nat \<Rightarrow> string \<Rightarrow> unit reducer" where
  "end_tool index call_id s =
     (case er_current s of
        None \<Rightarrow> sx_fail InvalidArgument s
      | Some slot \<Rightarrow> (case cs_kind slot of
          ToolKind (OpenTool tool) \<Rightarrow>
            if cs_index slot \<noteq> index \<or> ot_call_id tool \<noteq> call_id \<or> ot_delta_count tool = 0
            then sx_fail InvalidArgument s
            else sx_bind (sx_lift (arguments_result (ot_arguments tool))) (\<lambda>_.
              let s = s\<lparr>er_current := Some (slot\<lparr>cs_kind := ToolKind Sealed\<rparr>)\<rparr> in
              sx_bind (sx_put s) (\<lambda>_.
              sx_bind (sx_lift (ok_or (checked_add 32 (er_complete_calls s) 1) Limit)) (\<lambda>n.
                sx_put (s\<lparr>er_complete_calls := n\<rparr>)))) s
        | _ \<Rightarrow> sx_fail InvalidArgument s))"

definition reject_open_tool :: "event_reducer \<Rightarrow> validation_error + unit" where
  "reject_open_tool s =
     (if (case er_current s of None \<Rightarrow> False | Some slot \<Rightarrow> tool_open slot)
      then Inl InvalidArgument else Inr ())"

definition accept_completed :: "completion_reason \<Rightarrow> event_reducer \<Rightarrow> validation_error + unit" where
  "accept_completed reason s =
     and_then (reject_open_tool s) (\<lambda>_.
       if (reason = ReasonToolUse) \<noteq> (er_complete_calls s > 0) then Inl InvalidArgument else Inr ())"

definition position_step :: "nat option \<Rightarrow> nat \<times> normalized_event \<Rightarrow> validation_error + nat option" where
  "position_step terminal_position pe = (case pe of (position, event) \<Rightarrow>
     if is_terminal_event event then
       (if terminal_position \<noteq> None then Inl InvalidArgument else Inr (Some position))
     else Inr terminal_position)"

definition validate_terminal_position ::
  "normalized_event list \<Rightarrow> bool \<Rightarrow> event_reducer \<Rightarrow> validation_error + unit" where
  "validate_terminal_position events after_end s =
     (if er_terminal_seen s then Inl InvalidArgument
      else and_then (try_fold position_step None (List.enumerate 0 events)) (\<lambda>terminal_position.
        if terminal_position \<noteq> None \<and> \<not> after_end then Inl InvalidArgument
        else if (case terminal_position of None \<Rightarrow> False | Some position \<Rightarrow> position + 1 \<noteq> length events)
        then Inl InvalidArgument else Inr ()))"

text \<open>The cumulative counters, written before they are compared with their limits.\<close>

definition add_event_count :: "nat \<Rightarrow> unit reducer" where
  "add_event_count n s =
     sx_bind (sx_lift (ok_or (checked_add 64 (er_event_count s) n) Limit)) (\<lambda>sum.
     sx_bind (sx_put (s\<lparr>er_event_count := sum\<rparr>)) (\<lambda>_.
       if sum > MAX_EVENTS then sx_fail Limit else sx_return ())) s"

definition add_event_charge :: "nat \<Rightarrow> unit reducer" where
  "add_event_charge n s =
     sx_bind (sx_lift (ok_or (checked_add 64 (er_event_charge s) n) Limit)) (\<lambda>sum.
     sx_bind (sx_put (s\<lparr>er_event_charge := sum\<rparr>)) (\<lambda>_.
       if sum > MAX_CUMULATIVE_EVENT_CHARGE then sx_fail Limit else sx_return ())) s"

definition see_terminal :: "normalized_event \<Rightarrow> normalized_event list \<Rightarrow>
  (normalized_event list \<times> normalized_event option) reducer" where
  "see_terminal event accepted s =
     sx_bind (sx_put (s\<lparr>er_terminal_seen := True\<rparr>)) (\<lambda>_. sx_return (accepted, Some event)) s"

fun accept_event ::
  "normalized_event list \<times> normalized_event option \<Rightarrow> normalized_event \<Rightarrow>
   (normalized_event list \<times> normalized_event option) reducer" where
  "accept_event (accepted, terminal) (TextDelta index text) =
     sx_bind (select_content index TextClass None) (\<lambda>_.
       sx_return (accepted @ [TextDelta index text], terminal))"
| "accept_event (accepted, terminal) (ReasoningDelta index kind text) =
     sx_bind (select_content index ReasoningClass (Some kind)) (\<lambda>_.
       sx_return (accepted @ [ReasoningDelta index kind text], terminal))"
| "accept_event (accepted, terminal) (ReasoningProof index kind proof_bytes) =
     sx_bind (accept_proof index kind (length proof_bytes)) (\<lambda>_.
       sx_return (accepted @ [ReasoningProof index kind proof_bytes], terminal))"
| "accept_event (accepted, terminal) (ToolCallStart index call_id name) =
     sx_bind (start_tool index call_id name) (\<lambda>_.
       sx_return (accepted @ [ToolCallStart index call_id name], terminal))"
| "accept_event (accepted, terminal) (ToolArgumentsDelta index call_id delta) =
     sx_bind (append_tool_delta index call_id delta) (\<lambda>_.
       sx_return (accepted @ [ToolArgumentsDelta index call_id delta], terminal))"
| "accept_event (accepted, terminal) (ToolCallEnd index call_id) =
     sx_bind (end_tool index call_id) (\<lambda>_.
       sx_return (accepted @ [ToolCallEnd index call_id], terminal))"
| "accept_event (accepted, terminal) (Completed completed) = (\<lambda>s.
     sx_bind (sx_lift (accept_completed (ct_reason completed) s)) (\<lambda>_.
       see_terminal (Completed
         (if (case ct_reported_model completed of None \<Rightarrow> False | Some model \<Rightarrow> model \<notin> er_reported_models s)
          then completed\<lparr>ct_reported_model := None\<rparr> else completed)) accepted) s)"
| "accept_event (accepted, terminal) (Failed error) = (\<lambda>s.
     sx_bind (sx_lift (reject_open_tool s)) (\<lambda>_. see_terminal (Failed error) accepted) s)"

definition reduce_event ::
  "normalized_event list \<times> normalized_event option \<Rightarrow> normalized_event \<Rightarrow>
   (normalized_event list \<times> normalized_event option) reducer" where
  "reduce_event out event =
     sx_bind (sx_lift (validate_normalized_event event)) (\<lambda>charge.
     sx_bind (add_event_charge charge) (\<lambda>_. accept_event out event))"

definition reduce_error_batch :: "normalized_event list \<Rightarrow> bool \<Rightarrow> event_batch reducer" where
  "reduce_error_batch events after_end =
     (case events of
        [Failed error] \<Rightarrow>
          if \<not> after_end then sx_fail InvalidArgument
          else
            sx_bind (add_event_count 1) (\<lambda>_.
            sx_bind (sx_lift (validate_normalized_event (Failed error))) (\<lambda>charge.
            sx_bind (add_event_charge charge) (\<lambda>_.
            sx_bind (see_terminal (Failed error) []) (\<lambda>(accepted, terminal).
              sx_return \<lparr>eb_accepted = accepted, eb_terminal = terminal\<rparr>))))
      | _ \<Rightarrow> sx_fail InvalidArgument)"

definition reduce_batch ::
  "normalized_event list \<Rightarrow> nat \<Rightarrow> bool \<Rightarrow> bool \<Rightarrow> event_batch reducer" where
  "reduce_batch events limit after_end successful_status s =
     sx_bind (sx_lift (validate_event_batch events limit)) (\<lambda>_.
     sx_bind (sx_lift (validate_terminal_position events after_end s)) (\<lambda>_.
       if \<not> successful_status then reduce_error_batch events after_end
       else
         sx_bind (sx_lift (checked_len (length events))) (\<lambda>event_count.
         sx_bind (add_event_count event_count) (\<lambda>_.
         sx_bind (sx_fold reduce_event ([], None) events) (\<lambda>(accepted, terminal).
           sx_return \<lparr>eb_accepted = accepted, eb_terminal = terminal\<rparr>))))) s"

subsection \<open>The specification: transcripts\<close>

text \<open>
  What the events of one completion mean: a list of content blocks, numbered from zero in order. A
  block is a run of text, a run of reasoning of one kind with at most one proof that does not come
  first, or a tool call with its argument fragments, sealed once their concatenation is a complete
  canonical JSON object.
\<close>

datatype reason_part = PartDelta string | PartProof "8 word list"

datatype block =
    TextBlock "string list"
  | ReasoningBlock reasoning_kind "reason_part list"
  | ToolBlock string string "string list" bool

fun part_event :: "nat \<Rightarrow> reasoning_kind \<Rightarrow> reason_part \<Rightarrow> normalized_event" where
  "part_event i k (PartDelta t) = ReasoningDelta i k t"
| "part_event i k (PartProof b) = ReasoningProof i k b"

fun proofs :: "reason_part list \<Rightarrow> 8 word list list" where
  "proofs [] = []"
| "proofs (PartDelta t # ps) = proofs ps"
| "proofs (PartProof b # ps) = b # proofs ps"

fun block_events :: "nat \<Rightarrow> block \<Rightarrow> normalized_event list" where
  "block_events i (TextBlock ts) = map (TextDelta i) ts"
| "block_events i (ReasoningBlock k ps) = map (part_event i k) ps"
| "block_events i (ToolBlock call_id name ds closed) =
     ToolCallStart i call_id name # map (ToolArgumentsDelta i call_id) ds @
     (if closed then [ToolCallEnd i call_id] else [])"

definition transcript :: "block list \<Rightarrow> normalized_event list" where
  "transcript bs = concat (map (\<lambda>(i, b). block_events i b) (List.enumerate 0 bs))"

fun block_closed :: "block \<Rightarrow> bool" where
  "block_closed (ToolBlock _ _ _ closed) = closed"
| "block_closed _ = True"

fun block_ok :: "bool \<Rightarrow> string set \<Rightarrow> block \<Rightarrow> bool" where
  "block_ok proof_supported tools (TextBlock ts) = (ts \<noteq> [])"
| "block_ok proof_supported tools (ReasoningBlock k ps) =
     ((\<exists>t rest. ps = PartDelta t # rest) \<and> length (proofs ps) \<le> 1 \<and> (proofs ps \<noteq> [] \<longrightarrow> proof_supported))"
| "block_ok proof_supported tools (ToolBlock call_id name ds closed) =
     (name \<in> tools \<and> (closed \<longrightarrow> ds \<noteq> [] \<and> arguments_result (concat ds) = Inr ()))"

fun block_calls :: "block \<Rightarrow> string list" where
  "block_calls (ToolBlock call_id _ _ _) = [call_id]"
| "block_calls _ = []"

fun block_tool_bytes :: "block \<Rightarrow> nat" where
  "block_tool_bytes (ToolBlock _ _ ds _) = length (concat ds)"
| "block_tool_bytes _ = 0"

fun block_proof_bytes :: "block \<Rightarrow> nat" where
  "block_proof_bytes (ReasoningBlock _ ps) = length (concat (proofs ps))"
| "block_proof_bytes _ = 0"

fun block_kind :: "block \<Rightarrow> content_kind" where
  "block_kind (TextBlock _) = TextKind"
| "block_kind (ReasoningBlock k ps) = ReasoningContent k (proofs ps \<noteq> [])"
| "block_kind (ToolBlock call_id _ ds closed) = ToolKind
     (if closed then Sealed
      else OpenTool \<lparr>ot_call_id = call_id, ot_delta_count = length ds, ot_bytes = length (concat ds),
             ot_arguments = concat ds\<rparr>)"

definition current_slot :: "block list \<Rightarrow> content_slot option" where
  "current_slot bs =
     (if bs = [] then None else Some \<lparr>cs_index = length bs - 1, cs_kind = block_kind (last bs)\<rparr>)"

text \<open>The reducer holds exactly what the next event needs to know of the transcript so far.\<close>

definition models_blocks :: "event_reducer \<Rightarrow> block list \<Rightarrow> bool" where
  "models_blocks s bs \<longleftrightarrow>
     er_current s = current_slot bs \<and>
     list_all (block_ok (er_proof_supported s) (er_tool_names s)) bs \<and>
     list_all block_closed (butlast bs) \<and>
     distinct (concat (map block_calls bs)) \<and> er_call_ids s = set (concat (map block_calls bs)) \<and>
     er_tool_bytes s = sum_list (map block_tool_bytes bs) \<and>
     er_proof_bytes s = sum_list (map block_proof_bytes bs) \<and>
     er_complete_calls s = length (filter (\<lambda>b. block_calls b \<noteq> [] \<and> block_closed b) bs) \<and>
     er_tool_bytes s \<le> MAX_ALL_TOOL_BYTES \<and> er_proof_bytes s \<le> MAX_PROOF_BYTES \<and> length bs \<le> 64"

lemma transcript_append: "transcript (bs @ [b]) = transcript bs @ block_events (length bs) b"
  by (simp add: transcript_def enumerate_append_eq)

lemma transcript_Nil [simp]: "transcript [] = []"
  by (simp add: transcript_def)

lemma proofs_append [simp]: "proofs (ps @ qs) = proofs ps @ proofs qs"
  by (induction ps rule: proofs.induct) auto

lemma current_slot_simps [simp]:
  "current_slot [] = None"
  "current_slot (bs @ [b]) = Some \<lparr>cs_index = length bs, cs_kind = block_kind b\<rparr>"
  by (simp_all add: current_slot_def)

lemma current_slot_None: "current_slot bs = None \<longleftrightarrow> bs = []"
  by (simp add: current_slot_def)

lemma current_slot_cases:
  assumes "current_slot bs = Some slot"
  obtains bs0 b where "bs = bs0 @ [b]" "slot = \<lparr>cs_index = length bs0, cs_kind = block_kind b\<rparr>"
  using assms by (cases bs rule: rev_cases) auto

lemma tool_open_kind: "tool_open \<lparr>cs_index = i, cs_kind = block_kind b\<rparr> \<longleftrightarrow> \<not> block_closed b"
  by (cases b) (auto simp: tool_open_def)

text \<open>A new block may only follow closed ones.\<close>

lemma models_new_block:
  assumes m: "models_blocks s bs" and closed: "bs = [] \<or> block_closed (last bs)"
    and ok: "block_ok (er_proof_supported s) (er_tool_names s) b"
    and calls: "set (block_calls b) \<inter> er_call_ids s = {}"
    and fresh: "block_tool_bytes b = 0" "block_proof_bytes b = 0" "block_calls b \<noteq> [] \<Longrightarrow> \<not> block_closed b"
    and room: "length bs \<le> 63"
    and t: "t = s\<lparr>er_call_ids := set (block_calls b) \<union> er_call_ids s,
       er_current := Some \<lparr>cs_index = length bs, cs_kind = block_kind b\<rparr>\<rparr>"
  shows "models_blocks t (bs @ [b])"
proof -
  have "list_all block_closed bs"
  proof (cases bs rule: rev_cases)
    case (snoc bs0 c)
    with m closed show ?thesis by (simp add: models_blocks_def)
  qed simp
  moreover have "distinct (block_calls b)" by (cases b) auto
  ultimately show ?thesis using m ok calls fresh room
    by (auto simp: models_blocks_def t)
qed

text \<open>The last block may grow.\<close>

lemma models_grow_block:
  assumes m: "models_blocks s (bs @ [b])"
    and ok: "block_ok (er_proof_supported s) (er_tool_names s) b'" and calls: "block_calls b' = block_calls b"
    and tool: "tb = er_tool_bytes s + (block_tool_bytes b' - block_tool_bytes b)" "block_tool_bytes b \<le> block_tool_bytes b'"
      "tb \<le> MAX_ALL_TOOL_BYTES"
    and pfs: "pb = er_proof_bytes s + (block_proof_bytes b' - block_proof_bytes b)" "block_proof_bytes b \<le> block_proof_bytes b'"
      "pb \<le> MAX_PROOF_BYTES"
    and cc: "cc = er_complete_calls s + (if block_calls b \<noteq> [] \<and> block_closed b' \<and> \<not> block_closed b then 1 else 0)"
      "block_closed b \<Longrightarrow> block_closed b'"
    and t: "er_current t = Some \<lparr>cs_index = length bs, cs_kind = block_kind b'\<rparr>" "er_call_ids t = er_call_ids s"
      "er_tool_bytes t = tb" "er_proof_bytes t = pb" "er_complete_calls t = cc"
      "er_proof_supported t = er_proof_supported s" "er_tool_names t = er_tool_names s"
  shows "models_blocks t (bs @ [b'])"
  using m ok calls tool pfs cc t by (auto simp: models_blocks_def)

subsection \<open>Every accepted event extends the transcript\<close>

lemma select_content_cases:
  assumes m: "models_blocks s bs" and run: "select_content index class reasoning s = (Inr u, t)"
  obtains (fresh) kind where "index = length bs" "bs = [] \<or> block_closed (last bs)"
      "new_content_kind class reasoning = Inr kind"
      "t = s\<lparr>er_current := Some \<lparr>cs_index = index, cs_kind = kind\<rparr>\<rparr>"
    | (same_text) bs0 b where "bs = bs0 @ [b]" "index = length bs0" "t = s" "class = TextClass" "block_kind b = TextKind"
    | (same_reasoning) bs0 b k seen where "bs = bs0 @ [b]" "index = length bs0" "t = s" "class = ReasoningClass"
      "block_kind b = ReasoningContent k seen" "reasoning = Some k"
proof (cases bs rule: rev_cases)
  case Nil
  with m have "er_current s = None" by (simp add: models_blocks_def)
  with run Nil fresh show ?thesis by (auto simp: select_content_def split: if_splits)
next
  case (snoc bs0 b)
  with m have slot: "er_current s = Some \<lparr>cs_index = length bs0, cs_kind = block_kind b\<rparr>"
    by (simp add: models_blocks_def)
  show ?thesis
  proof (cases "length bs0 = index")
    case True
    with run slot snoc same_text same_reasoning show ?thesis
      by (auto simp: select_content_def split: content_kind.splits content_class.splits if_splits)
  next
    case False
    with run slot snoc fresh show ?thesis
      by (auto simp: select_content_def ensure_slot_can_advance_def tool_open_kind split: if_splits)
  qed
qed

definition extends :: "event_reducer \<Rightarrow> block list \<Rightarrow> normalized_event \<Rightarrow> bool" where
  "extends t bs event \<longleftrightarrow> (\<exists>bs'. models_blocks t bs' \<and> transcript bs' = transcript bs @ [event])"

lemma block_kind_cases:
  "block_kind b = TextKind \<Longrightarrow> \<exists>ts. b = TextBlock ts"
  "block_kind b = ReasoningContent k seen \<Longrightarrow> \<exists>ps. b = ReasoningBlock k ps \<and> seen = (proofs ps \<noteq> [])"
  "block_kind b = ToolKind (OpenTool tool) \<Longrightarrow> \<exists>name ds. b = ToolBlock (ot_call_id tool) name ds False \<and>
     tool = \<lparr>ot_call_id = ot_call_id tool, ot_delta_count = length ds, ot_bytes = length (concat ds),
             ot_arguments = concat ds\<rparr>"
  by (cases b; auto split: if_splits)+

lemma text_extends:
  assumes m: "models_blocks s bs" and i: "index \<le> 63"
    and run: "select_content index TextClass None s = (Inr u, t)"
  shows "extends t bs (TextDelta index text)"
  using m run
proof (cases rule: select_content_cases)
  case (fresh kind)
  then have "models_blocks t (bs @ [TextBlock [text]])"
    using m i by (intro models_new_block) (auto simp: new_content_kind_def)
  moreover have "transcript (bs @ [TextBlock [text]]) = transcript bs @ [TextDelta index text]"
    using fresh(1) by (simp add: transcript_append)
  ultimately show ?thesis unfolding extends_def by blast
next
  case b: (same_text bs0 b)
  then obtain ts where ts: "b = TextBlock ts" using block_kind_cases(1) by blast
  have "models_blocks t (bs0 @ [TextBlock (ts @ [text])])"
    using m b ts by (intro models_grow_block [OF m [unfolded b(1)]]) (auto simp: models_blocks_def)
  moreover have "transcript (bs0 @ [TextBlock (ts @ [text])]) = transcript bs @ [TextDelta index text]"
    using b ts by (simp add: transcript_append)
  ultimately show ?thesis unfolding extends_def by blast
qed auto

lemma reasoning_extends:
  assumes m: "models_blocks s bs" and i: "index \<le> 63"
    and run: "select_content index ReasoningClass (Some k) s = (Inr u, t)"
  shows "extends t bs (ReasoningDelta index k text)"
  using m run
proof (cases rule: select_content_cases)
  case (fresh kind)
  then have "models_blocks t (bs @ [ReasoningBlock k [PartDelta text]])"
    using m i by (intro models_new_block) (auto simp: new_content_kind_def)
  moreover have "transcript (bs @ [ReasoningBlock k [PartDelta text]]) = transcript bs @ [ReasoningDelta index k text]"
    using fresh(1) by (simp add: transcript_append)
  ultimately show ?thesis unfolding extends_def by blast
next
  case b: (same_reasoning bs0 b k' seen)
  then obtain ps where ps: "b = ReasoningBlock k ps" using block_kind_cases(2) by blast
  have "models_blocks t (bs0 @ [ReasoningBlock k (ps @ [PartDelta text])])"
    using m b ps by (intro models_grow_block [OF m [unfolded b(1)]]) (auto simp: models_blocks_def)
  moreover have "transcript (bs0 @ [ReasoningBlock k (ps @ [PartDelta text])]) =
      transcript bs @ [ReasoningDelta index k text]"
    using b ps by (simp add: transcript_append)
  ultimately show ?thesis unfolding extends_def by blast
qed auto

lemma proof_extends:
  assumes m: "models_blocks s bs" and run: "accept_proof index k (length bytes) s = (Inr u, t)"
  shows "extends t bs (ReasoningProof index k bytes)"
proof -
  from run obtain slot where slot: "er_current s = Some slot" and kind: "cs_kind slot = ReasoningContent k False"
    and i: "cs_index slot = index" and sup: "er_proof_supported s"
    and le: "er_proof_bytes s + length bytes \<le> MAX_PROOF_BYTES"
    and t: "t = s\<lparr>er_proof_bytes := er_proof_bytes s + length bytes,
        er_current := Some (slot\<lparr>cs_kind := ReasoningContent k True\<rparr>)\<rparr>"
    by (auto simp: accept_proof_def checked_len_def split: option.splits content_kind.splits if_splits)
  from m slot have "current_slot bs = Some slot" by (simp add: models_blocks_def)
  then obtain bs0 b where b: "bs = bs0 @ [b]" "slot = \<lparr>cs_index = length bs0, cs_kind = block_kind b\<rparr>"
    by (rule current_slot_cases)
  with kind block_kind_cases(2) [of b k False] obtain ps where ps: "b = ReasoningBlock k ps" "proofs ps = []" by auto
  let ?b = "ReasoningBlock k (ps @ [PartProof bytes])"
  have "models_blocks t (bs0 @ [?b])"
    using m b ps sup le t by (intro models_grow_block [OF m [unfolded b(1)]]) (auto simp: models_blocks_def)
  moreover have "transcript (bs0 @ [?b]) = transcript bs @ [ReasoningProof index k bytes]"
    using b ps i by (simp add: transcript_append)
  ultimately show ?thesis unfolding extends_def by blast
qed

lemma start_extends:
  assumes m: "models_blocks s bs" and i: "index \<le> 63" and run: "start_tool index call_id name s = (Inr u, t)"
  shows "extends t bs (ToolCallStart index call_id name)"
proof -
  from run have new: "name \<in> er_tool_names s" "call_id \<notin> er_call_ids s"
    and pos: "case er_current s of None \<Rightarrow> index = 0 | Some current \<Rightarrow>
        checked_add 8 (cs_index current) 1 = Some index \<and> is_ok (ensure_slot_can_advance current)"
    and t: "t = s\<lparr>er_call_ids := {call_id} \<union> er_call_ids s,
        er_current := Some \<lparr>cs_index = index, cs_kind = ToolKind (OpenTool
          \<lparr>ot_call_id = call_id, ot_delta_count = 0, ot_bytes = 0, ot_arguments = []\<rparr>)\<rparr>\<rparr>"
    by (auto simp: start_tool_def split: if_splits)
  have cur: "er_current s = current_slot bs" using m by (simp add: models_blocks_def)
  have at: "index = length bs" "bs = [] \<or> block_closed (last bs)"
    using pos cur by (cases bs rule: rev_cases;
        auto simp: ensure_slot_can_advance_def tool_open_kind split: if_splits)+
  let ?b = "ToolBlock call_id name [] False"
  have "models_blocks t (bs @ [?b])"
    using m at new i t by (intro models_new_block) auto
  moreover have "transcript (bs @ [?b]) = transcript bs @ [ToolCallStart index call_id name]"
    using at by (simp add: transcript_append)
  ultimately show ?thesis unfolding extends_def by blast
qed

lemma append_extends:
  assumes m: "models_blocks s bs" and run: "append_tool_delta index call_id delta s = (Inr u, t)"
  shows "extends t bs (ToolArgumentsDelta index call_id delta)"
proof -
  from run obtain slot tool where slot: "er_current s = Some slot" and kind: "cs_kind slot = ToolKind (OpenTool tool)"
    and i: "cs_index slot = index" "ot_call_id tool = call_id"
    and le: "er_tool_bytes s + length delta \<le> MAX_ALL_TOOL_BYTES"
    and t: "t = s\<lparr>er_current := Some (slot\<lparr>cs_kind := ToolKind (OpenTool
        (tool\<lparr>ot_delta_count := ot_delta_count tool + 1, ot_bytes := ot_bytes tool + length delta,
              ot_arguments := ot_arguments tool @ delta\<rparr>))\<rparr>),
        er_tool_bytes := er_tool_bytes s + length delta\<rparr>"
    by (auto simp: append_tool_delta_def checked_len_def
        split: option.splits content_kind.splits tool_state.splits if_splits)
  from m slot have "current_slot bs = Some slot" by (simp add: models_blocks_def)
  then obtain bs0 b where b: "bs = bs0 @ [b]" "slot = \<lparr>cs_index = length bs0, cs_kind = block_kind b\<rparr>"
    by (rule current_slot_cases)
  with kind i block_kind_cases(3) [of b tool] obtain name ds where ds: "b = ToolBlock call_id name ds False"
    and tool: "tool = \<lparr>ot_call_id = call_id, ot_delta_count = length ds, ot_bytes = length (concat ds),
             ot_arguments = concat ds\<rparr>" by auto
  let ?b = "ToolBlock call_id name (ds @ [delta]) False"
  have "models_blocks t (bs0 @ [?b])"
    using m b ds le t tool by (intro models_grow_block [OF m [unfolded b(1)]]) (auto simp: models_blocks_def)
  moreover have "transcript (bs0 @ [?b]) = transcript bs @ [ToolArgumentsDelta index call_id delta]"
    using b ds i by (simp add: transcript_append)
  ultimately show ?thesis unfolding extends_def by blast
qed

lemma end_extends:
  assumes m: "models_blocks s bs" and run: "end_tool index call_id s = (Inr u, t)"
  shows "extends t bs (ToolCallEnd index call_id)"
proof -
  from run obtain slot tool where slot: "er_current s = Some slot" and kind: "cs_kind slot = ToolKind (OpenTool tool)"
    and i: "cs_index slot = index" "ot_call_id tool = call_id" "ot_delta_count tool \<noteq> 0"
    and args: "arguments_result (ot_arguments tool) = Inr ()"
    and t: "t = s\<lparr>er_current := Some (slot\<lparr>cs_kind := ToolKind Sealed\<rparr>),
        er_complete_calls := er_complete_calls s + 1\<rparr>"
    by (auto simp: end_tool_def Let_def split: option.splits content_kind.splits tool_state.splits if_splits)
  from m slot have "current_slot bs = Some slot" by (simp add: models_blocks_def)
  then obtain bs0 b where b: "bs = bs0 @ [b]" "slot = \<lparr>cs_index = length bs0, cs_kind = block_kind b\<rparr>"
    by (rule current_slot_cases)
  with kind i block_kind_cases(3) [of b tool] obtain name ds where ds: "b = ToolBlock call_id name ds False"
    and tool: "tool = \<lparr>ot_call_id = call_id, ot_delta_count = length ds, ot_bytes = length (concat ds),
             ot_arguments = concat ds\<rparr>" by auto
  let ?b = "ToolBlock call_id name ds True"
  have "models_blocks t (bs0 @ [?b])"
    using m b ds t tool i(3) args
    by (intro models_grow_block [OF m [unfolded b(1)]]) (auto simp: models_blocks_def)
  moreover have "transcript (bs0 @ [?b]) = transcript bs @ [ToolCallEnd index call_id]"
    using b ds i by (simp add: transcript_append)
  ultimately show ?thesis unfolding extends_def by blast
qed

subsection \<open>Batches\<close>

text \<open>The policy of a reducer never changes, and only a terminal marks it.\<close>

definition same_policy :: "event_reducer \<Rightarrow> event_reducer \<Rightarrow> bool" where
  "same_policy s t \<longleftrightarrow> er_proof_supported t = er_proof_supported s \<and> er_tool_names t = er_tool_names s \<and>
     er_reported_models t = er_reported_models s"

lemma charge_event_index:
  "charge_event (TextDelta i x) c = Inr d \<Longrightarrow> i \<le> 63"
  "charge_event (ReasoningDelta i k x) c = Inr d \<Longrightarrow> i \<le> 63"
  "charge_event (ToolCallStart i x n) c = Inr d \<Longrightarrow> i \<le> 63"
  by (auto simp: validate_content_index_def split: if_splits)

lemma models_counters:
  "models_blocks (s\<lparr>er_event_count := n\<rparr>) bs = models_blocks s bs"
  "models_blocks (s\<lparr>er_event_charge := n\<rparr>) bs = models_blocks s bs"
  "models_blocks (s\<lparr>er_terminal_seen := x\<rparr>) bs = models_blocks s bs"
  by (simp_all add: models_blocks_def)

lemma add_event_charge_run:
  "add_event_charge n s = (Inr u, t) \<longleftrightarrow>
     t = s\<lparr>er_event_charge := er_event_charge s + n\<rparr> \<and> er_event_charge s + n < 2 ^ 64 \<and>
     er_event_charge s + n \<le> MAX_CUMULATIVE_EVENT_CHARGE"
  by (auto simp: add_event_charge_def split: if_splits)

lemma add_event_count_run:
  "add_event_count n s = (Inr u, t) \<longleftrightarrow>
     t = s\<lparr>er_event_count := er_event_count s + n\<rparr> \<and> er_event_count s + n < 2 ^ 64 \<and>
     er_event_count s + n \<le> MAX_EVENTS"
  by (auto simp: add_event_count_def split: if_splits)

lemma operations_frame:
  "select_content i c r s = (Inr u, t) \<Longrightarrow> same_policy s t \<and> er_terminal_seen t = er_terminal_seen s \<and> er_event_count t = er_event_count s"
  "accept_proof i k n s = (Inr u, t) \<Longrightarrow> same_policy s t \<and> er_terminal_seen t = er_terminal_seen s \<and> er_event_count t = er_event_count s"
  "start_tool i x nm s = (Inr u, t) \<Longrightarrow> same_policy s t \<and> er_terminal_seen t = er_terminal_seen s \<and> er_event_count t = er_event_count s"
  "append_tool_delta i x dl s = (Inr u, t) \<Longrightarrow> same_policy s t \<and> er_terminal_seen t = er_terminal_seen s \<and> er_event_count t = er_event_count s"
  "end_tool i x s = (Inr u, t) \<Longrightarrow> same_policy s t \<and> er_terminal_seen t = er_terminal_seen s \<and> er_event_count t = er_event_count s"
  unfolding same_policy_def
  by (auto simp: select_content_def accept_proof_def start_tool_def append_tool_delta_def end_tool_def Let_def
      split: option.splits content_kind.splits tool_state.splits content_class.splits if_splits)

lemma event_extends:
  assumes m: "models_blocks s bs" and valid: "charge_event event c = Inr d" and nt: "\<not> is_terminal_event event"
    and run: "accept_event (accepted, terminal) event s = (Inr out, t)"
  shows "out = (accepted @ [event], terminal) \<and> extends t bs event \<and> same_policy s t \<and>
    er_terminal_seen t = er_terminal_seen s \<and> er_event_count t = er_event_count s"
proof (cases event)
  case (TextDelta i x)
  with run valid text_extends [OF m charge_event_index(1)] operations_frame(1) show ?thesis by fastforce
next
  case (ReasoningDelta i k x)
  with run valid reasoning_extends [OF m charge_event_index(2)] operations_frame(1) show ?thesis by fastforce
next
  case (ReasoningProof i k x)
  with run valid proof_extends [OF m] operations_frame(2) show ?thesis by fastforce
next
  case (ToolCallStart i x n)
  with run valid start_extends [OF m charge_event_index(3)] operations_frame(3) show ?thesis by fastforce
next
  case (ToolArgumentsDelta i x n)
  with run valid append_extends [OF m] operations_frame(4) show ?thesis by fastforce
next
  case (ToolCallEnd i x)
  with run valid end_extends [OF m] operations_frame(5) show ?thesis by fastforce
qed (use nt in \<open>simp_all add: is_terminal_event_def\<close>)

text \<open>What a terminal may say about the transcript it ends.\<close>

fun terminal_ok :: "string set \<Rightarrow> block list \<Rightarrow> normalized_event \<Rightarrow> bool" where
  "terminal_ok models bs (Completed c) =
     (list_all block_closed bs \<and>
      (ct_reason c = ReasonToolUse \<longleftrightarrow> (\<exists>b\<in>set bs. block_calls b \<noteq> [])) \<and>
      (case ct_reported_model c of None \<Rightarrow> True | Some m \<Rightarrow> m \<in> models))"
| "terminal_ok models bs (Failed e) = True"
| "terminal_ok models bs _ = False"

lemma no_open_tool:
  assumes m: "models_blocks s bs" and run: "reject_open_tool s = Inr u"
  shows "list_all block_closed bs"
proof (cases bs rule: rev_cases)
  case (snoc bs0 b)
  with m run show ?thesis
    by (auto simp: models_blocks_def reject_open_tool_def tool_open_kind split: if_splits)
qed simp

lemma terminal_accepted:
  assumes m: "models_blocks s bs" and tm: "is_terminal_event event"
    and run: "accept_event (accepted, terminal) event s = (Inr out, t)"
  shows "\<exists>e. out = (accepted, Some e) \<and> terminal_ok (er_reported_models s) bs e \<and>
    t = s\<lparr>er_terminal_seen := True\<rparr>"
proof (cases event)
  case (Completed c)
  with run have rej: "reject_open_tool s = Inr ()"
    and use: "(ct_reason c = ReasonToolUse) \<longleftrightarrow> er_complete_calls s > 0"
    by (auto simp: accept_completed_def split: if_splits)
  note closed = no_open_tool [OF m rej]
  have "er_complete_calls s > 0 \<longleftrightarrow> (\<exists>b\<in>set bs. block_calls b \<noteq> [])"
    using m closed by (auto simp: models_blocks_def length_greater_0_conv filter_empty_conv list_all_iff)
  with closed use Completed run show ?thesis
    by (auto simp: see_terminal_def split: option.splits)
next
  case (Failed e)
  with run show ?thesis by (auto simp: see_terminal_def)
qed (use tm in \<open>simp_all add: is_terminal_event_def\<close>)

lemma position_step_scan:
  assumes "try_fold position_step None (List.enumerate 0 events) = Inr p"
  shows "(p = None \<and> list_all (\<lambda>e. \<not> is_terminal_event e) events) \<or>
    (\<exists>xs e ys. events = xs @ e # ys \<and> p = Some (length xs) \<and> is_terminal_event e \<and>
       list_all (\<lambda>e. \<not> is_terminal_event e) xs \<and> list_all (\<lambda>e. \<not> is_terminal_event e) ys)"
  using assms
proof (induction events arbitrary: p rule: rev_induct)
  case Nil
  then show ?case by simp
next
  case (snoc e events)
  then obtain q where q: "try_fold position_step None (List.enumerate 0 events) = Inr q"
    and p: "position_step q (length events, e) = Inr p"
    by (auto simp: try_fold_append enumerate_append_eq)
  from snoc.IH [OF q] show ?case
  proof (elim disjE exE conjE)
    assume "q = None" and all: "list_all (\<lambda>e. \<not> is_terminal_event e) events"
    show ?thesis
    proof (cases "is_terminal_event e")
      case True
      with p \<open>q = None\<close> have "p = Some (length events)" by (simp add: position_step_def)
      with all True show ?thesis
        by (intro disjI2 exI [of _ events] exI [of _ e] exI [of _ "[]"]) simp
    next
      case False
      with p \<open>q = None\<close> all show ?thesis by (simp add: position_step_def)
    qed
  next
    fix xs f ys assume *: "events = xs @ f # ys" "q = Some (length xs)" "is_terminal_event f"
      "list_all (\<lambda>e. \<not> is_terminal_event e) xs" "list_all (\<lambda>e. \<not> is_terminal_event e) ys"
    then have "\<not> is_terminal_event e" "p = q" using p by (auto simp: position_step_def split: if_splits)
    with * show ?thesis
      by (intro disjI2 exI [of _ xs] exI [of _ f] exI [of _ "ys @ [e]"]) simp
  qed
qed

lemma terminal_position:
  assumes "validate_terminal_position events after_end s = Inr u"
  shows "\<not> er_terminal_seen s \<and>
    (list_all (\<lambda>e. \<not> is_terminal_event e) events \<or>
     after_end \<and> (\<exists>xs e. events = xs @ [e] \<and> is_terminal_event e \<and> list_all (\<lambda>e. \<not> is_terminal_event e) xs))"
proof -
  from assms obtain p where seen: "\<not> er_terminal_seen s"
    and p: "try_fold position_step None (List.enumerate 0 events) = Inr p"
    and ok: "p \<noteq> None \<longrightarrow> after_end" "\<forall>i. p = Some i \<longrightarrow> i + 1 = length events"
    by (auto simp: validate_terminal_position_def split: if_splits option.splits)
  from position_step_scan [OF p] show ?thesis
  proof (elim disjE exE conjE)
    fix xs e ys assume *: "events = xs @ e # ys" "p = Some (length xs)" "is_terminal_event e"
      "list_all (\<lambda>e. \<not> is_terminal_event e) xs"
    with ok(2) have "ys = []" by auto
    with * ok(1) seen show ?thesis by auto
  qed (use seen in simp)
qed

lemma reduce_event_run:
  assumes "reduce_event out event s = (Inr out', t)"
  obtains c d where "charge_event event c = Inr d"
    "accept_event out event (s\<lparr>er_event_charge := er_event_charge s + lc_value d\<rparr>) = (Inr out', t)"
  using assms
  by (auto simp: reduce_event_def validate_normalized_event_def add_event_charge_run)

lemma fold_extends:
  assumes "list_all (\<lambda>e. \<not> is_terminal_event e) xs" and "models_blocks s bs"
    and "sx_fold reduce_event (accepted, terminal) xs s = (Inr out, t)"
  shows "out = (accepted @ xs, terminal) \<and> same_policy s t \<and> er_terminal_seen t = er_terminal_seen s \<and>
    er_event_count t = er_event_count s \<and> (\<exists>bs'. models_blocks t bs' \<and> transcript bs' = transcript bs @ xs)"
  using assms
proof (induction xs arbitrary: accepted s bs)
  case Nil
  then show ?case by (auto simp: same_policy_def)
next
  case (Cons e xs)
  from Cons.prems(3) obtain out' u where e: "reduce_event (accepted, terminal) e s = (Inr out', u)"
    and rest: "sx_fold reduce_event out' xs u = (Inr out, t)" by auto
  from e obtain c d where valid: "charge_event e c = Inr d"
    and run: "accept_event (accepted, terminal) e (s\<lparr>er_event_charge := er_event_charge s + lc_value d\<rparr>) = (Inr out', u)"
    by (rule reduce_event_run)
  have "models_blocks (s\<lparr>er_event_charge := er_event_charge s + lc_value d\<rparr>) bs"
    using Cons.prems(2) by (simp add: models_counters)
  from event_extends [OF this valid _ run] Cons.prems(1)
  have step: "out' = (accepted @ [e], terminal)" "extends u bs e" "same_policy s u"
    "er_terminal_seen u = er_terminal_seen s" "er_event_count u = er_event_count s"
    by (auto simp: same_policy_def)
  then obtain bs1 where bs1: "models_blocks u bs1" "transcript bs1 = transcript bs @ [e]"
    by (auto simp: extends_def)
  from Cons.IH [OF _ bs1(1) rest [unfolded step(1)]] Cons.prems(1) step bs1(2)
  show ?case by (auto simp: same_policy_def)
qed

definition reducer_inv :: "event_reducer \<Rightarrow> block list \<Rightarrow> bool" where
  "reducer_inv s bs \<longleftrightarrow> models_blocks s bs \<and> length (transcript bs) \<le> er_event_count s \<and>
     er_event_count s \<le> MAX_EVENTS"

lemma error_batch_run:
  assumes "reduce_error_batch events after_end s = (Inr batch, t)"
  shows "after_end \<and> eb_accepted batch = [] \<and> (\<exists>e. eb_terminal batch = Some (Failed e)) \<and> er_terminal_seen t \<and>
    same_policy s t \<and> (models_blocks s bs \<longrightarrow> models_blocks t bs) \<and>
    er_event_count s \<le> er_event_count t \<and> er_event_count t \<le> MAX_EVENTS"
proof -
  from assms obtain e where "events = [Failed e]"
    by (auto simp: reduce_error_batch_def split: list.splits normalized_event.splits)
  with assms show ?thesis
    by (auto simp: reduce_error_batch_def add_event_count_run add_event_charge_run see_terminal_def
        same_policy_def models_counters split: if_splits)
qed

lemma reduce_batch_extends:
  assumes inv: "reducer_inv s bs" and run: "reduce_batch events limit after_end ok s = (Inr batch, t)"
  shows "\<not> er_terminal_seen s \<and> same_policy s t \<and> er_terminal_seen t = (eb_terminal batch \<noteq> None) \<and>
    length (eb_accepted batch) \<le> limit \<and> limit \<le> MAX_PULL_LIMIT \<and>
    (\<exists>bs'. reducer_inv t bs' \<and> transcript bs' = transcript bs @ eb_accepted batch \<and>
       (\<forall>e. eb_terminal batch = Some e \<longrightarrow> after_end \<and> terminal_ok (er_reported_models s) bs' e))"
proof -
  from run have valid: "validate_event_batch events limit = Inr ()"
    and pos: "validate_terminal_position events after_end s = Inr ()"
    and body: "(if \<not> ok then reduce_error_batch events after_end
       else sx_bind (sx_lift (checked_len (length events))) (\<lambda>event_count.
         sx_bind (add_event_count event_count) (\<lambda>_.
         sx_bind (sx_fold reduce_event ([], None) events) (\<lambda>(accepted, terminal).
           sx_return \<lparr>eb_accepted = accepted, eb_terminal = terminal\<rparr>)))) s = (Inr batch, t)"
    by (auto simp: reduce_batch_def)
  have len: "length events \<le> limit" "limit \<le> MAX_PULL_LIMIT"
    using valid by (auto simp: validate_event_batch_def validate_pull_limit_def split: if_splits)
  note position = terminal_position [OF pos]
  show ?thesis
  proof (cases ok)
    case False
    with body have "reduce_error_batch events after_end s = (Inr batch, t)" by simp
    from error_batch_run [OF this, of bs] inv position len show ?thesis
      by (auto simp: reducer_inv_def)
  next
    case True
    let ?s = "s\<lparr>er_event_count := er_event_count s + length events\<rparr>"
    from True body obtain accepted terminal where count: "er_event_count s + length events \<le> MAX_EVENTS"
      and fold: "sx_fold reduce_event ([], None) events ?s = (Inr (accepted, terminal), t)"
      and batch: "batch = \<lparr>eb_accepted = accepted, eb_terminal = terminal\<rparr>"
      by (auto simp: add_event_count_run checked_len_def split: if_splits)
    have m: "models_blocks ?s bs" using inv by (simp add: reducer_inv_def models_counters)
    from position consider
        (plain) "list_all (\<lambda>e. \<not> is_terminal_event e) events"
      | (final) xs e where "after_end" "events = xs @ [e]" "is_terminal_event e"
          "list_all (\<lambda>e. \<not> is_terminal_event e) xs" by blast
    then show ?thesis
    proof cases
      case plain
      from fold_extends [OF plain m fold] inv count batch len position show ?thesis
        by (auto simp: reducer_inv_def same_policy_def)
    next
      case final
      from fold final(2) obtain out u where xs: "sx_fold reduce_event ([], None) xs ?s = (Inr out, u)"
        and e: "reduce_event out e u = (Inr (accepted, terminal), t)" by (auto simp: sx_fold_append)
      from fold_extends [OF final(4) m xs] obtain bs' where out: "out = (xs, None)"
        and u: "same_policy ?s u" "er_event_count u = er_event_count ?s"
        and bs': "models_blocks u bs'" "transcript bs' = transcript bs @ xs" by auto
      from e obtain c d where "charge_event e c = Inr d"
        and acc: "accept_event out e (u\<lparr>er_event_charge := er_event_charge u + lc_value d\<rparr>) =
          (Inr (accepted, terminal), t)" by (rule reduce_event_run)
      from terminal_accepted [OF _ final(3) acc [unfolded out], of bs'] bs'(1)
      obtain f where f: "accepted = xs" "terminal = Some f" "terminal_ok (er_reported_models u) bs' f"
        "t = u\<lparr>er_event_charge := er_event_charge u + lc_value d, er_terminal_seen := True\<rparr>"
        by (auto simp: models_counters)
      have "reducer_inv t bs'"
        using bs' f(4) u(2) inv count final(2) by (simp add: reducer_inv_def models_counters)
      then show ?thesis using f u bs' batch len position final
        by (auto simp: same_policy_def)
    qed
  qed
qed

text \<open>A run of pulls: every batch the reducer accepts, in order. The decoder closes at the first
  error.\<close>

fun run_batches ::
  "(normalized_event list \<times> nat \<times> bool \<times> bool) list \<Rightarrow> event_reducer \<Rightarrow> (event_reducer \<times> event_batch list) option"
where
  "run_batches [] s = Some (s, [])"
| "run_batches ((events, limit, after_end, ok) # inputs) s =
     (case reduce_batch events limit after_end ok s of
        (Inl _, _) \<Rightarrow> None
      | (Inr batch, t) \<Rightarrow> map_option (\<lambda>(u, batches). (u, batch # batches)) (run_batches inputs t))"

lemma run_batches_extends:
  assumes "reducer_inv s bs" and "run_batches inputs s = Some (t, batches)"
  shows "same_policy s t \<and> list_all (\<lambda>b. eb_terminal b = None) (butlast batches) \<and>
    (er_terminal_seen s \<longrightarrow> batches = []) \<and>
    (\<exists>bs'. reducer_inv t bs' \<and> transcript bs' = transcript bs @ concat (map eb_accepted batches) \<and>
       (\<forall>e. batches \<noteq> [] \<and> eb_terminal (last batches) = Some e \<longrightarrow> terminal_ok (er_reported_models s) bs' e))"
  using assms
proof (induction inputs arbitrary: s bs batches)
  case Nil
  then show ?case by (auto simp: same_policy_def)
next
  case (Cons x inputs)
  obtain events limit after_end ok where x: "x = (events, limit, after_end, ok)" by (cases x)
  from Cons.prems(2) obtain batch u bs2 where run: "reduce_batch events limit after_end ok s = (Inr batch, u)"
    and rest: "run_batches inputs u = Some (t, bs2)" and batches: "batches = batch # bs2"
    by (auto simp: x split: prod.splits sum.splits)
  from reduce_batch_extends [OF Cons.prems(1) run] obtain bs1
    where b: "\<not> er_terminal_seen s" "same_policy s u" "er_terminal_seen u = (eb_terminal batch \<noteq> None)"
      "reducer_inv u bs1" "transcript bs1 = transcript bs @ eb_accepted batch"
      "\<forall>e. eb_terminal batch = Some e \<longrightarrow> terminal_ok (er_reported_models s) bs1 e" by blast
  from Cons.IH [OF b(4) rest] obtain bs' where r: "same_policy u t" "list_all (\<lambda>b. eb_terminal b = None) (butlast bs2)"
      "er_terminal_seen u \<longrightarrow> bs2 = []" "reducer_inv t bs'"
      "transcript bs' = transcript bs1 @ concat (map eb_accepted bs2)"
      "\<forall>e. bs2 \<noteq> [] \<and> eb_terminal (last bs2) = Some e \<longrightarrow> terminal_ok (er_reported_models u) bs' e" by blast
  show ?case
  proof (cases "bs2 = []")
    case True
    with rest have "u = t" by (cases inputs) (auto split: prod.splits sum.splits option.splits)
    with True b batches show ?thesis by auto
  next
    case False
    with r(3) b(3) have "eb_terminal batch = None" by auto
    with False b r batches show ?thesis by (auto simp: same_policy_def)
  qed
qed

lemma reducer_inv_new: "reducer_inv (event_reducer_new policy) []"
  by (simp add: reducer_inv_def models_blocks_def event_reducer_new_def)

subsection \<open>Properties of the event reducer\<close>

text \<open>C25. Whatever batches a guest decoder returns, the events the Host hands on form one transcript:
  content blocks numbered 0, 1, 2 and so on without gaps, each of one kind; at most one proof per
  reasoning block and only for a route that supports proofs; tool calls only of offered tools, with
  pairwise different ids, no block begun before the open call is sealed, every sealed call with
  arguments that are canonical JSON. There are at most 64 blocks, 65536 events and 2 MiB of
  arguments. Only the last batch can carry a terminal, a successful one finds no open call, says
  tool use exactly when the transcript holds a call, and never reports a model that was not expected.\<close>

theorem decoder_transcript:
  assumes "run_batches inputs (event_reducer_new policy) = Some (s, batches)"
  shows "\<exists>bs. concat (map eb_accepted batches) = transcript bs \<and>
    list_all (block_ok (dp_proof_supported policy) (dp_tool_names policy)) bs \<and>
    list_all block_closed (butlast bs) \<and> distinct (concat (map block_calls bs)) \<and>
    length bs \<le> 64 \<and> length (transcript bs) \<le> 65536 \<and>
    sum_list (map block_tool_bytes bs) \<le> 2 * 1024 * 1024 \<and>
    list_all (\<lambda>b. eb_terminal b = None) (butlast batches) \<and>
    (\<forall>e. batches \<noteq> [] \<and> eb_terminal (last batches) = Some e \<longrightarrow>
       terminal_ok (dp_reported_models policy) bs e)"
proof -
  from run_batches_extends [OF reducer_inv_new assms] obtain bs
    where bs: "same_policy (event_reducer_new policy) s" "list_all (\<lambda>b. eb_terminal b = None) (butlast batches)"
      "reducer_inv s bs" "transcript bs = concat (map eb_accepted batches)"
      "\<forall>e. batches \<noteq> [] \<and> eb_terminal (last batches) = Some e \<longrightarrow> terminal_ok (dp_reported_models policy) bs e"
    by (auto simp: event_reducer_new_def)
  then have "models_blocks s bs" "length (transcript bs) \<le> er_event_count s" "er_event_count s \<le> 65536"
    by (simp_all add: reducer_inv_def MAX_EVENTS_def)
  moreover have "er_proof_supported s = dp_proof_supported policy" "er_tool_names s = dp_tool_names policy"
    using bs(1) by (simp_all add: same_policy_def event_reducer_new_def)
  ultimately show ?thesis using bs
    by (intro exI [of _ bs]) (simp add: models_blocks_def MAX_ALL_TOOL_BYTES_def)
qed

definition sample_done :: completion_terminal where
  "sample_done = \<lparr>ct_reason = ReasonStop, ct_reported_model = None,
     ct_usage = \<lparr>us_input = None, us_output = None, us_cache_read = None, us_cache_write = None\<rparr>\<rparr>"

lemmas reducer_eval = reduce_batch_def validate_event_batch_def validate_pull_limit_def
  validate_terminal_position_def position_step_def is_terminal_event_def validate_normalized_event_def
  validate_content_index_def validate_delta_def validate_terminal_def validate_usage_def
  validate_usage_value_def add_event_count_def add_event_charge_def reduce_event_def select_content_def
  new_content_kind_def accept_completed_def reject_open_tool_def see_terminal_def sx_bind_def sx_defs
  checked_add_def checked_len_def charge_new_def charge_add_def charge_string_def scalar_safe_def
  is_unsafe_char_def utf8_width_def next_code_point_def Let_def KIB_def MAX_BATCH_CHARGE_def
  MAX_SINGLE_EVENT_CHARGE_def MAX_DELTA_BYTES_def MAX_PULL_LIMIT_def MAX_EVENTS_def
  MAX_CUMULATIVE_EVENT_CHARGE_def

lemma sample_run:
  "\<exists>s. run_batches [([TextDelta 0 ''hi''], 16, False, True), ([Completed sample_done], 15, True, True)]
     (event_reducer_new decoder_policy_empty) =
   Some (s, [\<lparr>eb_accepted = [TextDelta 0 ''hi''], eb_terminal = None\<rparr>,
             \<lparr>eb_accepted = [], eb_terminal = Some (Completed sample_done)\<rparr>])"
  by (simp add: reducer_eval sample_done_def event_reducer_new_def tool_open_def)

theorem decoder_transcript_witness:
  "\<exists>bs. [TextDelta 0 ''hi''] = transcript bs \<and> length bs \<le> 64 \<and> terminal_ok {} bs (Completed sample_done)"
proof -
  obtain s where "run_batches [([TextDelta 0 ''hi''], 16, False, True), ([Completed sample_done], 15, True, True)]
     (event_reducer_new decoder_policy_empty) =
   Some (s, [\<lparr>eb_accepted = [TextDelta 0 ''hi''], eb_terminal = None\<rparr>,
             \<lparr>eb_accepted = [], eb_terminal = Some (Completed sample_done)\<rparr>])"
    using sample_run ..
  from decoder_transcript [OF this] show ?thesis
    by (auto simp: decoder_policy_empty_def decoder_policy_new_def)
qed

end
