(* ===== verification/Decoder_Protocol.thy ===== *)
theory Decoder_Protocol
  imports Decoder_Events
begin

section \<open>The decoder protocol\<close>

text \<open>
  \<open>mcode-plugin-host/src/provider\_validation/decoder/protocol.rs\<close>: the reducer that drives a guest
  decoder. It decides the next action (pull events, read a frame, push a frame, wait, publish the
  terminal), takes the receipt of every action, counts pulls, frames, bytes and queued events, and
  closes on the first error. The methods of \<open>&mut self\<close> return their result with the new reducer.
\<close>

subsection \<open>Types\<close>

definition QUEUE_CAPACITY :: nat where "QUEUE_CAPACITY = 16"
definition MAX_PULLS :: nat where "MAX_PULLS = 65536"
definition MAX_DATA_FRAMES :: nat where "MAX_DATA_FRAMES = 1024"
definition MAX_SUCCESS_BYTES :: nat where "MAX_SUCCESS_BYTES = 16 * 1024 * 1024"
definition MAX_ERROR_BYTES :: nat where "MAX_ERROR_BYTES = 64 * 1024"

datatype decoder_state = InitialPull | NeedHead | DrainingBody | NeedBody | DrainingAfterEnd | Closed

datatype decoder_action =
    ActPull nat
  | ActReadFrame
  | ActPushFrame response_frame
  | ActAwaitReceipt
  | ActWaitForConsumer
  | ActPublishTerminal normalized_event
  | ActClosed

datatype transport_receipt = ReceiptFrame response_frame | ReceiptEof | ReceiptCancelled

datatype external_close = ExtCancelled | ExtDeadline | ExtTrap | ExtUnavailable | ExtFailed

datatype close_cause =
    CauseGuestMethod guest_error
  | CauseGuestTerminal
  | CauseProtocol
  | CauseLimit
  | CauseEof
  | CauseCancelled
  | CauseDeadline
  | CauseTrap
  | CauseUnavailable
  | CauseFailed

record close_receipt =
  cl_cause :: close_cause
  cl_terminal :: "normalized_event option"

record decoder_receipt =
  dr_accepted_events :: "normalized_event list"
  dr_close :: "close_receipt option"
  dr_transitioned :: bool

datatype in_flight = FlightPull nat | FlightReadFrame | FlightPushFrame | FlightPublishTerminal

record decoder =
  de_state :: decoder_state
  de_events :: event_reducer
  de_in_flight :: "in_flight option"
  de_pending_frame :: "response_frame option"
  de_close :: "close_receipt option"
  de_queue_len :: nat
  de_awaiting_consumer :: bool
  de_terminal_published :: bool
  de_pulls :: nat
  de_data_frames :: nat
  de_data_bytes :: nat
  de_status :: "nat option"

definition decoder_new :: "decoder_policy \<Rightarrow> decoder" where
  "decoder_new policy =
     \<lparr>de_state = InitialPull, de_events = event_reducer_new policy, de_in_flight = None,
      de_pending_frame = None, de_close = None, de_queue_len = 0, de_awaiting_consumer = False,
      de_terminal_published = False, de_pulls = 0, de_data_frames = 0, de_data_bytes = 0,
      de_status = None\<rparr>"

subsection \<open>Closing\<close>

definition receipt_transitioned :: decoder_receipt where
  "receipt_transitioned = \<lparr>dr_accepted_events = [], dr_close = None, dr_transitioned = True\<rparr>"

definition finish_close ::
  "close_receipt \<Rightarrow> normalized_event list \<Rightarrow> decoder \<Rightarrow> decoder_receipt \<times> decoder" where
  "finish_close receipt accepted d =
     (\<lparr>dr_accepted_events = accepted, dr_close = Some receipt, dr_transitioned = True\<rparr>,
      d\<lparr>de_state := Closed, de_in_flight := None, de_pending_frame := None, de_close := Some receipt\<rparr>)"

definition close_synthesized :: "close_cause \<Rightarrow> guest_error \<Rightarrow> decoder \<Rightarrow> decoder_receipt \<times> decoder" where
  "close_synthesized cause error d =
     finish_close \<lparr>cl_cause = cause, cl_terminal = Some (Failed error)\<rparr> [] d"

definition guest_error_close :: "guest_error \<Rightarrow> decoder \<Rightarrow> decoder_receipt \<times> decoder" where
  "guest_error_close error d =
     finish_close \<lparr>cl_cause = CauseGuestMethod error, cl_terminal = None\<rparr> [] d"

definition protocol_close :: "decoder \<Rightarrow> decoder_receipt \<times> decoder" where
  "protocol_close d = close_synthesized CauseProtocol GuestInvalidArgument d"

fun validation_close :: "validation_error \<Rightarrow> decoder \<Rightarrow> decoder_receipt \<times> decoder" where
  "validation_close InvalidArgument d = close_synthesized CauseProtocol GuestInvalidArgument d"
| "validation_close Limit d = close_synthesized CauseLimit GuestLimit d"

definition stable_closed_receipt :: "decoder \<Rightarrow> decoder_receipt" where
  "stable_closed_receipt d =
     \<lparr>dr_accepted_events = [], dr_close = de_close d, dr_transitioned = False\<rparr>"

definition free_capacity :: "decoder \<Rightarrow> nat" where
  "free_capacity d = QUEUE_CAPACITY - de_queue_len d"

definition closed_action :: "decoder \<Rightarrow> decoder_action \<times> decoder" where
  "closed_action d =
     (if de_queue_len d \<noteq> 0 then (ActWaitForConsumer, d)
      else if de_in_flight d \<noteq> None then (ActAwaitReceipt, d)
      else
        case (if de_terminal_published d then None else Option.bind (de_close d) cl_terminal) of
          Some terminal \<Rightarrow> (ActPublishTerminal terminal, d\<lparr>de_in_flight := Some FlightPublishTerminal\<rparr>)
        | None \<Rightarrow> (ActClosed, d))"

subsection \<open>The next action\<close>

definition begin_pull :: "decoder \<Rightarrow> decoder_action \<times> decoder" where
  "begin_pull d =
     (let free = free_capacity d in
      if free = 0 then (ActWaitForConsumer, d)
      else if de_pulls d \<ge> MAX_PULLS then
        closed_action (snd (close_synthesized CauseLimit GuestLimit d))
      else
        (ActPull free, d\<lparr>de_pulls := de_pulls d + 1, de_in_flight := Some (FlightPull free)\<rparr>))"

definition next_action :: "decoder \<Rightarrow> decoder_action \<times> decoder" where
  "next_action d =
     (if de_state d = Closed then closed_action d
      else if de_awaiting_consumer d \<and> de_queue_len d \<noteq> 0 then (ActWaitForConsumer, d)
      else if de_in_flight d \<noteq> None then (ActAwaitReceipt, d)
      else case de_pending_frame d of
          Some frame \<Rightarrow>
            if free_capacity d = 0 then (ActWaitForConsumer, d)
            else (ActPushFrame frame, d\<lparr>de_in_flight := Some FlightPushFrame\<rparr>)
        | None \<Rightarrow> (case de_state d of
            InitialPull \<Rightarrow> begin_pull d
          | DrainingBody \<Rightarrow> begin_pull d
          | DrainingAfterEnd \<Rightarrow> begin_pull d
          | Closed \<Rightarrow> closed_action d
          | _ \<Rightarrow>
              if de_queue_len d \<noteq> 0 \<or> free_capacity d = 0 then (ActWaitForConsumer, d)
              else (ActReadFrame, d\<lparr>de_in_flight := Some FlightReadFrame\<rparr>)))"

subsection \<open>Receipts\<close>

definition successful_status :: "decoder \<Rightarrow> bool" where
  "successful_status d = (case de_status d of None \<Rightarrow> False | Some status \<Rightarrow> 200 \<le> status \<and> status < 300)"

definition enqueue_and_maybe_close :: "event_batch \<Rightarrow> decoder \<Rightarrow> decoder_receipt \<times> decoder" where
  "enqueue_and_maybe_close batch d =
     (let d = d\<lparr>de_queue_len := de_queue_len d + length (eb_accepted batch),
                de_awaiting_consumer := (eb_accepted batch \<noteq> [])\<rparr> in
      case eb_terminal batch of
        Some terminal \<Rightarrow>
          finish_close \<lparr>cl_cause = CauseGuestTerminal, cl_terminal = Some terminal\<rparr> (eb_accepted batch) d
      | None \<Rightarrow>
          (\<lparr>dr_accepted_events = eb_accepted batch, dr_close = None, dr_transitioned = True\<rparr>, d))"

definition accept_events ::
  "normalized_event list \<Rightarrow> nat \<Rightarrow> bool \<Rightarrow> decoder \<Rightarrow> decoder_receipt \<times> decoder" where
  "accept_events events limit after_end d =
     (case reduce_batch events limit after_end (successful_status d) (de_events d) of
        (Inl error, reducer) \<Rightarrow> validation_close error (d\<lparr>de_events := reducer\<rparr>)
      | (Inr batch, reducer) \<Rightarrow> enqueue_and_maybe_close batch (d\<lparr>de_events := reducer\<rparr>))"

definition pull_receipt :: "guest_error + decoder_pull \<Rightarrow> decoder \<Rightarrow> decoder_receipt \<times> decoder" where
  "pull_receipt result d =
     (if de_state d = Closed then (stable_closed_receipt d, d)
      else
        let taken = de_in_flight d; d = d\<lparr>de_in_flight := None\<rparr> in
        case taken of
          Some (FlightPull limit) \<Rightarrow>
            (case result of
               Inl error \<Rightarrow> guest_error_close error d
             | Inr pull \<Rightarrow>
                (case (de_state d, pull) of
                   (InitialPull, PullNeedFrame) \<Rightarrow> (receipt_transitioned, d\<lparr>de_state := NeedHead\<rparr>)
                 | (DrainingBody, PullNeedFrame) \<Rightarrow> (receipt_transitioned, d\<lparr>de_state := NeedBody\<rparr>)
                 | (DrainingBody, PullEvents events) \<Rightarrow> accept_events events limit False d
                 | (DrainingAfterEnd, PullEvents events) \<Rightarrow> accept_events events limit True d
                 | _ \<Rightarrow> protocol_close d))
        | _ \<Rightarrow> protocol_close d)"

definition validate_pending_frame :: "response_frame \<Rightarrow> decoder \<Rightarrow> validation_error + unit" where
  "validate_pending_frame frame d =
     and_then (validate_response_frame frame) (\<lambda>_.
       case (de_state d, frame) of
         (NeedHead, FrameHead _) \<Rightarrow> Inr ()
       | (NeedBody, FrameEnd) \<Rightarrow> Inr ()
       | (NeedBody, FrameData data) \<Rightarrow>
           and_then (ok_or (checked_add 64 (de_data_frames d) 1) Limit) (\<lambda>next_frames.
             if next_frames > MAX_DATA_FRAMES then Inl Limit
             else
               and_then (checked_len (length data)) (\<lambda>bytes.
               and_then (ok_or (checked_add 64 (de_data_bytes d) bytes) Limit) (\<lambda>next_bytes.
                 if next_bytes > (if successful_status d then MAX_SUCCESS_BYTES else MAX_ERROR_BYTES)
                 then Inl Limit else Inr ())))
       | _ \<Rightarrow> Inl InvalidArgument)"

definition transport_receipt :: "transport_receipt \<Rightarrow> decoder \<Rightarrow> decoder_receipt \<times> decoder" where
  "transport_receipt receipt d =
     (if de_state d = Closed then (stable_closed_receipt d, d)
      else
        let taken = de_in_flight d; d = d\<lparr>de_in_flight := None\<rparr> in
        if taken \<noteq> Some FlightReadFrame then protocol_close d
        else case receipt of
            ReceiptEof \<Rightarrow> close_synthesized CauseEof GuestUnavailable d
          | ReceiptCancelled \<Rightarrow> close_synthesized CauseCancelled GuestCancelled d
          | ReceiptFrame frame \<Rightarrow>
              (case validate_pending_frame frame d of
                 Inl error \<Rightarrow> validation_close error d
               | Inr _ \<Rightarrow> (receipt_transitioned, d\<lparr>de_pending_frame := Some frame\<rparr>)))"

definition push_receipt :: "guest_error + unit \<Rightarrow> decoder \<Rightarrow> decoder_receipt \<times> decoder" where
  "push_receipt result d =
     (if de_state d = Closed then (stable_closed_receipt d, d)
      else
        let taken = de_in_flight d; d = d\<lparr>de_in_flight := None\<rparr> in
        if taken \<noteq> Some FlightPushFrame then protocol_close d
        else
          let pending = de_pending_frame d; d = d\<lparr>de_pending_frame := None\<rparr> in
          case pending of
            None \<Rightarrow> protocol_close d
          | Some frame \<Rightarrow>
             (case result of
                Inl error \<Rightarrow> guest_error_close error d
              | Inr _ \<Rightarrow>
                 (case (de_state d, frame) of
                    (NeedHead, FrameHead head) \<Rightarrow>
                      (receipt_transitioned, d\<lparr>de_status := Some (rh_status head), de_state := DrainingBody\<rparr>)
                  | (NeedBody, FrameData data) \<Rightarrow>
                      (receipt_transitioned,
                       d\<lparr>de_data_frames := de_data_frames d + 1,
                         de_data_bytes := de_data_bytes d + length data, de_state := DrainingBody\<rparr>)
                  | (NeedBody, FrameEnd) \<Rightarrow> (receipt_transitioned, d\<lparr>de_state := DrainingAfterEnd\<rparr>)
                  | _ \<Rightarrow> protocol_close d)))"

definition consumer_receipt :: "nat \<Rightarrow> decoder \<Rightarrow> (validation_error + unit) \<times> decoder" where
  "consumer_receipt n d =
     (if n = 0 \<or> n > de_queue_len d then (Inl InvalidArgument, d)
      else (Inr (), d\<lparr>de_queue_len := de_queue_len d - n, de_awaiting_consumer := False\<rparr>))"

definition terminal_published :: "decoder \<Rightarrow> (validation_error + unit) \<times> decoder" where
  "terminal_published d =
     (if de_state d \<noteq> Closed \<or> de_queue_len d \<noteq> 0 \<or> de_terminal_published d \<or>
         (case de_close d of None \<Rightarrow> True | Some receipt \<Rightarrow> cl_terminal receipt = None)
      then (Inl InvalidArgument, d)
      else
        let taken = de_in_flight d; d = d\<lparr>de_in_flight := None\<rparr> in
        if taken \<noteq> Some FlightPublishTerminal then (Inl InvalidArgument, d)
        else (Inr (), d\<lparr>de_terminal_published := True\<rparr>))"

fun external_cause :: "external_close \<Rightarrow> close_cause \<times> guest_error" where
  "external_cause ExtCancelled = (CauseCancelled, GuestCancelled)"
| "external_cause ExtDeadline = (CauseDeadline, GuestCancelled)"
| "external_cause ExtTrap = (CauseTrap, GuestFailed)"
| "external_cause ExtUnavailable = (CauseUnavailable, GuestUnavailable)"
| "external_cause ExtFailed = (CauseFailed, GuestFailed)"

definition close_external :: "external_close \<Rightarrow> decoder \<Rightarrow> decoder_receipt \<times> decoder" where
  "close_external cause d =
     (if de_state d = Closed then (stable_closed_receipt d, d)
      else case external_cause cause of (cause, error) \<Rightarrow> close_synthesized cause error d)"

subsection \<open>Runs\<close>

text \<open>The caller may call any method at any time; a run is the list of the calls with their outputs.\<close>

datatype decoder_op =
    OpNext
  | OpPull "guest_error + decoder_pull"
  | OpTransport transport_receipt
  | OpPush "guest_error + unit"
  | OpConsume nat
  | OpPublished
  | OpClose external_close

datatype decoder_output =
    OutAction decoder_action
  | OutReceipt decoder_receipt
  | OutUnit "validation_error + unit"

fun decoder_apply :: "decoder_op \<Rightarrow> decoder \<Rightarrow> decoder_output \<times> decoder" where
  "decoder_apply OpNext d = map_prod OutAction id (next_action d)"
| "decoder_apply (OpPull result) d = map_prod OutReceipt id (pull_receipt result d)"
| "decoder_apply (OpTransport receipt) d = map_prod OutReceipt id (transport_receipt receipt d)"
| "decoder_apply (OpPush result) d = map_prod OutReceipt id (push_receipt result d)"
| "decoder_apply (OpConsume n) d = map_prod OutUnit id (consumer_receipt n d)"
| "decoder_apply OpPublished d = map_prod OutUnit id (terminal_published d)"
| "decoder_apply (OpClose cause) d = map_prod OutReceipt id (close_external cause d)"

inductive decoder_step :: "decoder \<Rightarrow> decoder \<Rightarrow> bool" where
  decoder_stepI: "decoder_apply op d = (out, d') \<Longrightarrow> decoder_step d d'"

definition decoder_start :: "decoder \<Rightarrow> bool" where
  "decoder_start d \<longleftrightarrow> (\<exists>policy. d = decoder_new policy)"

subsection \<open>The invariant\<close>

text \<open>The conditions are stated on the fields they depend on, so that an update of another field is
  simplified away.\<close>

definition status_limit :: "nat option \<Rightarrow> nat" where
  "status_limit status =
     (if \<exists>code. status = Some code \<and> 200 \<le> code \<and> code < 300 then MAX_SUCCESS_BYTES else MAX_ERROR_BYTES)"

lemma successful_limit:
  "(if successful_status d then MAX_SUCCESS_BYTES else MAX_ERROR_BYTES) = status_limit (de_status d)"
  by (cases "de_status d") (auto simp: successful_status_def status_limit_def)

text \<open>A frame that may be pushed in the present state.\<close>

definition frame_fits :: "decoder_state \<Rightarrow> nat \<Rightarrow> nat \<Rightarrow> nat option \<Rightarrow> response_frame \<Rightarrow> bool" where
  "frame_fits state frames bytes status frame \<longleftrightarrow> (case frame of
       FrameHead head \<Rightarrow> state = NeedHead \<and> 200 \<le> rh_status head \<and> rh_status head \<le> 599
     | FrameData data \<Rightarrow> state = NeedBody \<and> data \<noteq> [] \<and> frames < MAX_DATA_FRAMES \<and>
         bytes + length data \<le> status_limit status
     | FrameEnd \<Rightarrow> state = NeedBody)"

abbreviation frame_ok :: "decoder \<Rightarrow> response_frame \<Rightarrow> bool" where
  "frame_ok d \<equiv> frame_fits (de_state d) (de_data_frames d) (de_data_bytes d) (de_status d)"

definition flight_ok :: "decoder \<Rightarrow> in_flight \<Rightarrow> bool" where
  "flight_ok d flight \<longleftrightarrow> (case flight of
       FlightPull limit \<Rightarrow> de_state d \<in> {InitialPull, DrainingBody, DrainingAfterEnd} \<and> 1 \<le> limit \<and>
         de_queue_len d + limit \<le> QUEUE_CAPACITY \<and> de_pending_frame d = None
     | FlightReadFrame \<Rightarrow> de_state d \<in> {NeedHead, NeedBody} \<and> de_pending_frame d = None
     | FlightPushFrame \<Rightarrow> de_pending_frame d \<noteq> None \<and> de_state d \<in> {NeedHead, NeedBody}
     | FlightPublishTerminal \<Rightarrow> de_state d = Closed \<and> de_queue_len d = 0 \<and> \<not> de_terminal_published d \<and>
         Option.bind (de_close d) cl_terminal \<noteq> None)"

text \<open>The bounds that hold in every state, and what ties the fields to the state.\<close>

definition counters :: "nat \<Rightarrow> nat \<Rightarrow> nat \<Rightarrow> nat \<Rightarrow> nat option \<Rightarrow> bool" where
  "counters queue_len pulls frames bytes status \<longleftrightarrow> queue_len \<le> QUEUE_CAPACITY \<and> pulls \<le> MAX_PULLS \<and>
     frames \<le> MAX_DATA_FRAMES \<and> bytes \<le> status_limit status \<and>
     (status = None \<longrightarrow> frames = 0 \<and> bytes = 0) \<and>
     (\<forall>code. status = Some code \<longrightarrow> 200 \<le> code \<and> code \<le> 599)"

abbreviation counters_ok :: "decoder \<Rightarrow> bool" where
  "counters_ok d \<equiv> counters (de_queue_len d) (de_pulls d) (de_data_frames d) (de_data_bytes d) (de_status d)"

definition running_ok :: "decoder \<Rightarrow> bool" where
  "running_ok d \<longleftrightarrow> de_close d = None \<and> \<not> de_terminal_published d \<and> \<not> er_terminal_seen (de_events d) \<and>
     (de_status d = None \<longleftrightarrow> de_state d \<in> {InitialPull, NeedHead}) \<and>
     (\<forall>frame. de_pending_frame d = Some frame \<longrightarrow> frame_ok d frame) \<and>
     (\<forall>flight. de_in_flight d = Some flight \<longrightarrow> flight_ok d flight) \<and>
     (\<exists>bs. reducer_inv (de_events d) bs)"

definition closed_ok :: "decoder \<Rightarrow> bool" where
  "closed_ok d \<longleftrightarrow> de_close d \<noteq> None \<and> de_pending_frame d = None \<and>
     (\<forall>flight. de_in_flight d = Some flight \<longrightarrow> flight_ok d flight) \<and>
     (de_terminal_published d \<longrightarrow>
        Option.bind (de_close d) cl_terminal \<noteq> None \<and> de_queue_len d = 0 \<and> de_in_flight d = None)"

definition decoder_inv :: "decoder \<Rightarrow> bool" where
  "decoder_inv d \<longleftrightarrow> counters_ok d \<and> (if de_state d = Closed then closed_ok d else running_ok d)"

lemmas decoder_limits = QUEUE_CAPACITY_def MAX_PULLS_def MAX_DATA_FRAMES_def

lemma decoder_inv_new: "decoder_inv (decoder_new policy)"
proof -
  have "\<exists>bs. reducer_inv (event_reducer_new policy) bs" using reducer_inv_new by blast
  moreover have "\<not> er_terminal_seen (event_reducer_new policy)" by (simp add: event_reducer_new_def)
  ultimately show ?thesis
    by (simp add: decoder_inv_def decoder_new_def counters_def running_ok_def)
qed

lemma finish_close_inv:
  assumes "counters_ok d" and "\<not> de_terminal_published d"
  shows "decoder_inv (snd (finish_close receipt accepted d))"
  using assms by (simp add: decoder_inv_def finish_close_def closed_ok_def)

lemmas closes = close_synthesized_def guest_error_close_def protocol_close_def

lemma closing_inv:
  assumes "counters_ok d" and "\<not> de_terminal_published d"
  shows "decoder_inv (snd (close_synthesized c e d))" "decoder_inv (snd (guest_error_close e d))"
    "decoder_inv (snd (protocol_close d))" "decoder_inv (snd (validation_close ve d))"
  using finish_close_inv [OF assms] by (cases ve; simp add: closes)+

lemma closed_action_cases:
  obtains "snd (closed_action d) = d"
  | t where "de_queue_len d = 0" "de_in_flight d = None" "\<not> de_terminal_published d"
      "Option.bind (de_close d) cl_terminal = Some t"
      "closed_action d = (ActPublishTerminal t, d\<lparr>de_in_flight := Some FlightPublishTerminal\<rparr>)"
  by (cases "\<not> de_terminal_published d \<and> de_queue_len d = 0 \<and> de_in_flight d = None";
      cases "Option.bind (de_close d) cl_terminal") (auto simp: closed_action_def)

lemma closed_action_inv:
  assumes "counters_ok d" and "closed_ok d" and "de_state d = Closed"
  shows "decoder_inv (snd (closed_action d))"
proof (cases rule: closed_action_cases [of d])
  case 1
  with assms show ?thesis by (simp add: decoder_inv_def)
next
  case (2 t)
  with assms show ?thesis by (simp add: decoder_inv_def closed_ok_def flight_ok_def)
qed

lemma closed_action_state: "de_state (snd (closed_action d)) = de_state d"
  by (simp add: closed_action_def split: option.split)

lemma begin_pull_inv:
  assumes "counters_ok d" and "running_ok d" and "de_pending_frame d = None" and "de_in_flight d = None"
    and "de_state d \<in> {InitialPull, DrainingBody, DrainingAfterEnd}"
  shows "decoder_inv (snd (begin_pull d))"
proof -
  consider "free_capacity d = 0" | "free_capacity d \<noteq> 0" "de_pulls d \<ge> MAX_PULLS"
    | "free_capacity d \<noteq> 0" "\<not> de_pulls d \<ge> MAX_PULLS" by blast
  then show ?thesis
  proof cases
    case 1
    with assms show ?thesis by (auto simp: begin_pull_def decoder_inv_def)
  next
    case 2
    let ?c = "snd (close_synthesized CauseLimit GuestLimit d)"
    have "decoder_inv ?c" using assms(1,2) by (intro closing_inv) (auto simp: running_ok_def)
    then have "decoder_inv (snd (closed_action ?c))"
      by (intro closed_action_inv) (auto simp: decoder_inv_def closes finish_close_def)
    with 2 show ?thesis by (simp add: begin_pull_def Let_def)
  next
    case 3
    then have "flight_ok (d\<lparr>de_pulls := de_pulls d + 1, de_in_flight := Some (FlightPull (free_capacity d))\<rparr>)
        (FlightPull (free_capacity d))"
      using assms by (simp add: flight_ok_def free_capacity_def counters_def)
    with 3 assms show ?thesis
      by (auto simp: begin_pull_def Let_def decoder_inv_def running_ok_def counters_def)
  qed
qed

lemma flight_inv:
  assumes "counters_ok d" and "running_ok d" and "de_state d \<noteq> Closed"
    and "flight_ok (d\<lparr>de_in_flight := Some flight\<rparr>) flight"
  shows "decoder_inv (d\<lparr>de_in_flight := Some flight\<rparr>)"
  using assms by (simp add: decoder_inv_def running_ok_def)

lemma next_action_inv:
  assumes inv: "decoder_inv d"
  shows "decoder_inv (snd (next_action d))"
proof (cases "de_state d = Closed")
  case True
  with inv have "counters_ok d" "closed_ok d" by (simp_all add: decoder_inv_def)
  with True show ?thesis by (simp add: next_action_def closed_action_inv)
next
  case False
  with inv have ok: "counters_ok d" "running_ok d" by (simp_all add: decoder_inv_def)
  consider (idle) "(de_awaiting_consumer d \<and> de_queue_len d \<noteq> 0) \<or> de_in_flight d \<noteq> None"
    | (push) frame where "\<not> (de_awaiting_consumer d \<and> de_queue_len d \<noteq> 0)" "de_in_flight d = None"
        "de_pending_frame d = Some frame"
    | (act) "\<not> (de_awaiting_consumer d \<and> de_queue_len d \<noteq> 0)" "de_in_flight d = None"
        "de_pending_frame d = None" by blast
  then show ?thesis
  proof cases
    case idle
    with inv False show ?thesis by (auto simp: next_action_def)
  next
    case (push frame)
    then have "frame_ok d frame" using ok(2) by (simp add: running_ok_def)
    then have "flight_ok (d\<lparr>de_in_flight := Some FlightPushFrame\<rparr>) FlightPushFrame"
      using push(3) by (auto simp: flight_ok_def frame_fits_def split: response_frame.splits)
    with push inv False ok show ?thesis by (auto simp: next_action_def intro: flight_inv)
  next
    case act
    have "flight_ok (d\<lparr>de_in_flight := Some FlightReadFrame\<rparr>) FlightReadFrame"
      if "de_state d = NeedHead \<or> de_state d = NeedBody"
      using act that by (auto simp: flight_ok_def)
    then show ?thesis
      using act inv False ok begin_pull_inv [OF ok act(3,2)]
      by (auto simp: next_action_def intro: flight_inv split: decoder_state.split)
  qed
qed

lemma enqueue_inv:
  assumes "counters_ok d" and "\<not> de_terminal_published d" and "de_in_flight d = None" and "de_close d = None"
    and "de_queue_len d + length (eb_accepted batch) \<le> QUEUE_CAPACITY"
    and "reducer_inv (de_events d) bs" and "er_terminal_seen (de_events d) \<longrightarrow> eb_terminal batch \<noteq> None"
    and "de_state d \<in> {DrainingBody, DrainingAfterEnd}" and "de_status d \<noteq> None" and "de_pending_frame d = None"
  shows "decoder_inv (snd (enqueue_and_maybe_close batch d))"
proof (cases "eb_terminal batch")
  case (Some e)
  let ?d = "d\<lparr>de_queue_len := de_queue_len d + length (eb_accepted batch),
                de_awaiting_consumer := (eb_accepted batch \<noteq> [])\<rparr>"
  have "counters_ok ?d" using assms(1,5) by (simp add: counters_def)
  from finish_close_inv [OF this] Some assms(2) show ?thesis
    by (simp add: enqueue_and_maybe_close_def Let_def)
next
  case None
  have "\<exists>bs. reducer_inv (de_events d) bs" using assms(6) ..
  with None assms show ?thesis
    by (auto simp: enqueue_and_maybe_close_def Let_def decoder_inv_def counters_def running_ok_def)
qed

lemma accept_events_inv:
  assumes "counters_ok d" and "running_ok d" and "de_in_flight d = None"
    and "de_queue_len d + limit \<le> QUEUE_CAPACITY" and "de_pending_frame d = None"
    and "de_state d \<in> {DrainingBody, DrainingAfterEnd}"
  shows "decoder_inv (snd (accept_events events limit after_end d))"
proof -
  obtain bs where bs: "reducer_inv (de_events d) bs" using assms(2) by (auto simp: running_ok_def)
  obtain r er where run: "reduce_batch events limit after_end (successful_status d) (de_events d) = (r, er)"
    by (cases "reduce_batch events limit after_end (successful_status d) (de_events d)")
  show ?thesis
  proof (cases r)
    case (Inl e)
    with run assms(1,2) show ?thesis
      by (simp add: accept_events_def closing_inv running_ok_def)
  next
    case (Inr batch)
    from reduce_batch_extends [OF bs run [unfolded Inr]] obtain bs'
      where "er_terminal_seen er = (eb_terminal batch \<noteq> None)" "length (eb_accepted batch) \<le> limit"
        "reducer_inv er bs'" by blast
    then have "decoder_inv (snd (enqueue_and_maybe_close batch (d\<lparr>de_events := er\<rparr>)))"
      using assms by (intro enqueue_inv [of _ _ bs']) (auto simp: running_ok_def)
    with run Inr show ?thesis by (simp add: accept_events_def)
  qed
qed

text \<open>Taking the receipt of the action in flight.\<close>

lemma running_takes:
  assumes "decoder_inv d" and "de_state d \<noteq> Closed"
  shows "counters_ok d" "running_ok d" "\<not> de_terminal_published d" "de_close d = None"
    "running_ok (d\<lparr>de_in_flight := None\<rparr>)" "\<And>f. de_in_flight d = Some f \<Longrightarrow> flight_ok d f"
  using assms by (auto simp: decoder_inv_def running_ok_def)

lemma pull_receipt_inv:
  assumes inv: "decoder_inv d"
  shows "decoder_inv (snd (pull_receipt result d))"
proof (cases "de_state d = Closed")
  case True
  with inv show ?thesis by (simp add: pull_receipt_def)
next
  case False
  note ok = running_takes [OF inv False]
  let ?d = "d\<lparr>de_in_flight := None\<rparr>"
  have close: "decoder_inv (snd (protocol_close ?d))" "decoder_inv (snd (guest_error_close e ?d))" for e
    using ok by (intro closing_inv; simp)+
  show ?thesis
  proof (cases "de_in_flight d")
    case None
    with False close show ?thesis by (simp add: pull_receipt_def Let_def)
  next
    case (Some f)
    show ?thesis
    proof (cases f)
      case (FlightPull limit)
      with ok(6) [OF Some] have fl: "de_state d \<in> {InitialPull, DrainingBody, DrainingAfterEnd}"
        "de_queue_len d + limit \<le> QUEUE_CAPACITY" "de_pending_frame d = None"
        by (simp_all add: flight_ok_def)
      have events: "decoder_inv (snd (accept_events events limit after ?d))"
        if "de_state d = DrainingBody \<or> de_state d = DrainingAfterEnd" for events after
        using ok fl that by (intro accept_events_inv) auto
      have need: "decoder_inv (?d\<lparr>de_state := NeedHead\<rparr>)" if "de_state d = InitialPull"
        using ok that fl by (simp add: decoder_inv_def running_ok_def)
      have body: "decoder_inv (?d\<lparr>de_state := NeedBody\<rparr>)" if "de_state d = DrainingBody"
        using ok that fl by (simp add: decoder_inv_def running_ok_def)
      show ?thesis using Some FlightPull False fl(1) close events need body
        by (auto simp: pull_receipt_def Let_def split: sum.split decoder_pull.split)
    qed (use Some False close in \<open>simp_all add: pull_receipt_def Let_def\<close>)
  qed
qed

lemma pending_frame_fits:
  assumes "validate_pending_frame frame d = Inr u"
  shows "frame_ok d frame"
  using assms
  by (cases frame; cases "de_state d")
    (auto simp: validate_pending_frame_def frame_fits_def checked_len_def successful_limit split: if_splits)

lemma transport_receipt_inv:
  assumes inv: "decoder_inv d"
  shows "decoder_inv (snd (transport_receipt receipt d))"
proof (cases "de_state d = Closed")
  case True
  with inv show ?thesis by (simp add: transport_receipt_def)
next
  case False
  note ok = running_takes [OF inv False]
  let ?d = "d\<lparr>de_in_flight := None\<rparr>"
  have close: "decoder_inv (snd (protocol_close ?d))" "decoder_inv (snd (close_synthesized c e ?d))"
    "decoder_inv (snd (validation_close ve ?d))" for c e ve
    using ok by (intro closing_inv; simp)+
  have frame: "decoder_inv (?d\<lparr>de_pending_frame := Some frame\<rparr>)"
    if "validate_pending_frame frame ?d = Inr u" for frame u
    using ok False pending_frame_fits [OF that] by (simp add: decoder_inv_def running_ok_def)
  show ?thesis using False close frame
    by (auto simp: transport_receipt_def Let_def split: transport_receipt.split sum.split)
qed

lemma push_receipt_inv:
  assumes inv: "decoder_inv d"
  shows "decoder_inv (snd (push_receipt result d))"
proof (cases "de_state d \<noteq> Closed \<and> de_in_flight d = Some FlightPushFrame")
  case False
  have "decoder_inv (snd (protocol_close (d\<lparr>de_in_flight := None\<rparr>)))" if "de_state d \<noteq> Closed"
    using running_takes [OF inv that] by (intro closing_inv) simp_all
  with False inv show ?thesis by (auto simp: push_receipt_def Let_def)
next
  case True
  note ok = running_takes [OF inv conjunct1 [OF True]]
  let ?d = "d\<lparr>de_in_flight := None, de_pending_frame := None\<rparr>"
  have close: "decoder_inv (snd (protocol_close ?d))" "decoder_inv (snd (guest_error_close e ?d))" for e
    using ok by (intro closing_inv; simp)+
  from ok(6) True obtain frame where frame: "de_pending_frame d = Some frame" by (auto simp: flight_ok_def)
  with ok(2) have fits: "frame_ok d frame" by (simp add: running_ok_def)
  have head: "decoder_inv (?d\<lparr>de_status := Some (rh_status h), de_state := DrainingBody\<rparr>)"
    if "frame = FrameHead h" for h
    using ok fits that by (auto simp: decoder_inv_def running_ok_def frame_fits_def counters_def)
  have data: "decoder_inv (?d\<lparr>de_data_frames := de_data_frames d + 1,
        de_data_bytes := de_data_bytes d + length b, de_state := DrainingBody\<rparr>)"
    if "frame = FrameData b" for b
    using ok fits that by (auto simp: decoder_inv_def running_ok_def frame_fits_def counters_def)
  have fin: "decoder_inv (?d\<lparr>de_state := DrainingAfterEnd\<rparr>)" if "frame = FrameEnd"
    using ok fits that by (auto simp: decoder_inv_def running_ok_def frame_fits_def)
  show ?thesis using True frame close fits head data fin
    by (auto simp: push_receipt_def Let_def frame_fits_def split: sum.split response_frame.splits)
qed

lemma consumer_receipt_inv:
  assumes inv: "decoder_inv d"
  shows "decoder_inv (snd (consumer_receipt n d))"
proof (cases "n = 0 \<or> n > de_queue_len d")
  case True
  with inv show ?thesis by (simp add: consumer_receipt_def)
next
  case False
  let ?d = "d\<lparr>de_queue_len := de_queue_len d - n, de_awaiting_consumer := False\<rparr>"
  have flight: "flight_ok ?d f" if "flight_ok d f" for f
    using that by (auto simp: flight_ok_def split: in_flight.splits)
  have "decoder_inv ?d" using inv flight
    by (auto simp: decoder_inv_def counters_def running_ok_def closed_ok_def)
  with False show ?thesis by (simp add: consumer_receipt_def)
qed

lemma terminal_published_inv:
  assumes inv: "decoder_inv d"
  shows "decoder_inv (snd (terminal_published d))"
  using inv
  by (auto simp: terminal_published_def Let_def decoder_inv_def closed_ok_def flight_ok_def
      split: option.splits in_flight.splits)

lemma close_external_inv:
  assumes inv: "decoder_inv d"
  shows "decoder_inv (snd (close_external cause d))"
  using inv running_takes(1,3) [OF inv] closing_inv(1) [of d]
  by (cases "de_state d = Closed") (simp_all add: close_external_def case_prod_unfold)

lemma decoder_apply_inv: "decoder_inv d \<Longrightarrow> decoder_inv (snd (decoder_apply op d))"
  by (cases op)
    (simp_all add: next_action_inv pull_receipt_inv transport_receipt_inv push_receipt_inv
      consumer_receipt_inv terminal_published_inv close_external_inv)

interpretation decoding: invariant_system decoder_start decoder_step decoder_inv
proof unfold_locales
  show "decoder_start d \<Longrightarrow> decoder_inv d" for d
    by (auto simp: decoder_start_def decoder_inv_new)
  show "decoder_inv d \<Longrightarrow> decoder_step d d' \<Longrightarrow> decoder_inv d'" for d d'
    by (auto elim!: decoder_step.cases dest: decoder_apply_inv)
      (metis decoder_apply_inv snd_conv)
qed

subsection \<open>Runs and their transcripts\<close>

fun decoder_run :: "decoder_op list \<Rightarrow> decoder \<Rightarrow> decoder_output list \<times> decoder" where
  "decoder_run [] d = ([], d)"
| "decoder_run (op # ops) d =
     (case decoder_apply op d of (out, d) \<Rightarrow> (case decoder_run ops d of (outs, d) \<Rightarrow> (out # outs, d)))"

fun accepted_of :: "decoder_output \<Rightarrow> normalized_event list" where
  "accepted_of (OutReceipt r) = dr_accepted_events r"
| "accepted_of _ = []"

fun published_of :: "decoder_output \<Rightarrow> normalized_event list" where
  "published_of (OutAction (ActPublishTerminal t)) = [t]"
| "published_of _ = []"

definition close_terminal :: "decoder \<Rightarrow> normalized_event option" where
  "close_terminal d = Option.bind (de_close d) cl_terminal"

definition blocks_fit :: "decoder_policy \<Rightarrow> block list \<Rightarrow> bool" where
  "blocks_fit policy bs \<longleftrightarrow>
     list_all (block_ok (dp_proof_supported policy) (dp_tool_names policy)) bs \<and>
     list_all block_closed (butlast bs) \<and> distinct (concat (map block_calls bs)) \<and> length bs \<le> 64"

text \<open>The transcript so far against the decoder: while it runs, its event reducer stands for the blocks;
  once closed, the terminal fits them.\<close>

definition accounts :: "decoder_policy \<Rightarrow> block list \<Rightarrow> decoder \<Rightarrow> bool" where
  "accounts policy bs d \<longleftrightarrow> blocks_fit policy bs \<and>
     (if de_state d = Closed
      then \<forall>t. close_terminal d = Some t \<longrightarrow> terminal_ok (dp_reported_models policy) bs t
      else reducer_inv (de_events d) bs \<and> same_policy (event_reducer_new policy) (de_events d))"

lemma reducer_blocks_fit:
  "reducer_inv er bs \<Longrightarrow> same_policy (event_reducer_new policy) er \<Longrightarrow> blocks_fit policy bs"
  by (simp add: reducer_inv_def models_blocks_def blocks_fit_def same_policy_def event_reducer_new_def)

text \<open>The closing helpers hand on no event and end with a failure, or with no terminal at all.\<close>

lemma closing_accounts:
  assumes "blocks_fit policy bs"
  shows "accounts policy bs (snd (close_synthesized c e d))" "accounts policy bs (snd (guest_error_close e d))"
    "accounts policy bs (snd (protocol_close d))" "accounts policy bs (snd (validation_close ve d))"
  using assms by (cases ve; simp add: closes finish_close_def accounts_def close_terminal_def)+

lemma closing_accepts_nothing [simp]:
  "dr_accepted_events (fst (close_synthesized c e d)) = []"
  "dr_accepted_events (fst (guest_error_close e d)) = []"
  "dr_accepted_events (fst (protocol_close d)) = []"
  "dr_accepted_events (fst (validation_close ve d)) = []"
  "dr_accepted_events (stable_closed_receipt d) = []"
  "dr_accepted_events receipt_transitioned = []"
  by (cases ve; simp add: closes finish_close_def stable_closed_receipt_def receipt_transitioned_def)+

definition extends_run :: "decoder_policy \<Rightarrow> block list \<Rightarrow> normalized_event list \<times> decoder \<Rightarrow> bool" where
  "extends_run policy bs r \<longleftrightarrow> (\<exists>bs'. transcript bs' = transcript bs @ fst r \<and> accounts policy bs' (snd r))"

lemma extends_runI: "accounts policy bs d \<Longrightarrow> extends_run policy bs ([], d)"
  by (auto simp: extends_run_def)

lemma accept_events_extends:
  assumes acc: "reducer_inv (de_events d) bs" "same_policy (event_reducer_new policy) (de_events d)"
    and open_d: "de_state d \<noteq> Closed"
  shows "extends_run policy bs
    (dr_accepted_events (fst (accept_events events limit after_end d)), snd (accept_events events limit after_end d))"
proof -
  obtain r er where run: "reduce_batch events limit after_end (successful_status d) (de_events d) = (r, er)"
    by (cases "reduce_batch events limit after_end (successful_status d) (de_events d)")
  have fit: "blocks_fit policy bs" using reducer_blocks_fit acc by blast
  show ?thesis
  proof (cases r)
    case (Inl e)
    with run fit show ?thesis by (simp add: accept_events_def closing_accounts extends_runI)
  next
    case (Inr batch)
    from reduce_batch_extends [OF acc(1) run [unfolded Inr]] obtain bs' where b: "same_policy (de_events d) er"
      "reducer_inv er bs'" "transcript bs' = transcript bs @ eb_accepted batch"
      "\<forall>e. eb_terminal batch = Some e \<longrightarrow> terminal_ok (er_reported_models (de_events d)) bs' e" by blast
    have pol: "same_policy (event_reducer_new policy) er" using acc(2) b(1) by (simp add: same_policy_def)
    have models: "er_reported_models (de_events d) = dp_reported_models policy"
      using acc(2) by (simp add: same_policy_def event_reducer_new_def)
    have fit': "blocks_fit policy bs'" using reducer_blocks_fit b(2) pol by blast
    let ?x = "enqueue_and_maybe_close batch (d\<lparr>de_events := er\<rparr>)"
    have "dr_accepted_events (fst ?x) = eb_accepted batch"
      by (simp add: enqueue_and_maybe_close_def Let_def finish_close_def split: option.split)
    moreover have "accounts policy bs' (snd ?x)"
      using fit' b(2,4) models pol open_d
      by (auto simp: enqueue_and_maybe_close_def Let_def finish_close_def accounts_def close_terminal_def
          split: option.split)
    ultimately show ?thesis using run Inr b(3) by (auto simp: accept_events_def extends_run_def)
  qed
qed

text \<open>A running decoder: every method extends the transcript by what it hands on.\<close>

lemma running_extends:
  assumes acc: "accounts policy bs d" and open_d: "de_state d \<noteq> Closed"
    and run: "decoder_apply op d = (out, d')"
  shows "extends_run policy bs (accepted_of out, d')"
proof -
  have r: "reducer_inv (de_events d) bs" "same_policy (event_reducer_new policy) (de_events d)" "blocks_fit policy bs"
    using acc open_d by (auto simp: accounts_def)
  note closed = closing_accounts [OF r(3)]
  have keep: "extends_run policy bs ([], e)" if "de_state e \<noteq> Closed" "de_events e = de_events d" for e
    using that r by (intro extends_runI) (simp add: accounts_def)
  have act: "accounts policy bs (snd (closed_action e))" if "accounts policy bs e" "de_state e = Closed" for e
    using that by (cases rule: closed_action_cases [of e]) (auto simp: accounts_def close_terminal_def)
  show ?thesis
  proof (cases op)
    case OpNext
    have "accounts policy bs (snd (begin_pull d))"
      using r open_d act [OF closed(1) [of CauseLimit GuestLimit d]] acc
      by (auto simp: begin_pull_def Let_def accounts_def closes finish_close_def)
    then have "accounts policy bs (snd (next_action d))"
      using r open_d acc by (auto simp: next_action_def accounts_def split: option.split decoder_state.split)
    with run OpNext show ?thesis by (auto simp: map_prod_def case_prod_unfold intro: extends_runI)
  next
    case (OpPull result)
    have "extends_run policy bs (dr_accepted_events (fst (pull_receipt result d)), snd (pull_receipt result d))"
      using open_d r closed accept_events_extends [of "d\<lparr>de_in_flight := None\<rparr>" bs policy] keep
      by (auto simp: pull_receipt_def Let_def intro!: extends_runI
          split: option.split in_flight.split sum.split decoder_state.split decoder_pull.split)
    with run OpPull show ?thesis by (auto simp: map_prod_def case_prod_unfold)
  next
    case (OpTransport receipt)
    have "extends_run policy bs (dr_accepted_events (fst (transport_receipt receipt d)), snd (transport_receipt receipt d))"
      using open_d closed keep
      by (auto simp: transport_receipt_def Let_def intro!: extends_runI split: transport_receipt.split sum.split)
    with run OpTransport show ?thesis by (auto simp: map_prod_def case_prod_unfold)
  next
    case (OpPush result)
    have "extends_run policy bs (dr_accepted_events (fst (push_receipt result d)), snd (push_receipt result d))"
      using open_d closed keep
      by (auto simp: push_receipt_def Let_def intro!: extends_runI
          split: option.split sum.split decoder_state.split response_frame.split)
    with run OpPush show ?thesis by (auto simp: map_prod_def case_prod_unfold)
  next
    case (OpConsume n)
    with run keep open_d show ?thesis
      by (auto simp: consumer_receipt_def map_prod_def split: if_splits)
  next
    case OpPublished
    with run keep open_d show ?thesis by (auto simp: terminal_published_def)
  next
    case (OpClose cause)
    with run open_d closed show ?thesis
      by (auto simp: close_external_def map_prod_def case_prod_unfold intro!: extends_runI)
  qed
qed

text \<open>A closed decoder answers every receipt with the same close receipt and nothing else.\<close>

lemma closed_step:
  assumes inv: "decoder_inv d" and closed: "de_state d = Closed" and run: "decoder_apply op d = (out, d')"
  shows "de_state d' = Closed \<and> de_close d' = de_close d \<and> accepted_of out = [] \<and>
    (\<forall>r. out = OutReceipt r \<longrightarrow> dr_close r = de_close d \<and> \<not> dr_transitioned r)"
proof -
  have act: "de_state (snd (closed_action d)) = Closed \<and> de_close (snd (closed_action d)) = de_close d"
    using closed by (cases rule: closed_action_cases [of d]) auto
  show ?thesis using run closed act
    by (cases op) (auto simp: next_action_def pull_receipt_def transport_receipt_def push_receipt_def
        consumer_receipt_def terminal_published_def close_external_def stable_closed_receipt_def Let_def
        map_prod_def case_prod_unfold split: if_splits)
qed

lemma apply_accounts:
  assumes inv: "decoder_inv d" and acc: "accounts policy bs d" and run: "decoder_apply op d = (out, d')"
  shows "extends_run policy bs (accepted_of out, d')"
proof (cases "de_state d = Closed")
  case True
  from closed_step [OF inv True run] acc True show ?thesis
    by (auto simp: extends_run_def accounts_def close_terminal_def)
qed (rule running_extends [OF acc _ run])

lemma run_accounts:
  assumes "decoder_inv d" and "accounts policy bs d" and "decoder_run ops d = (outs, d')"
  shows "decoder_inv d' \<and> extends_run policy bs (concat (map accepted_of outs), d')"
  using assms
proof (induction ops arbitrary: d bs outs)
  case Nil
  then show ?case by (auto intro: extends_runI)
next
  case (Cons op ops)
  from Cons.prems(3) obtain out e outs' where step: "decoder_apply op d = (out, e)"
    and rest: "decoder_run ops e = (outs', d')" and outs: "outs = out # outs'"
    by (auto split: prod.splits)
  have inv: "decoder_inv e" using decoder_apply_inv [OF Cons.prems(1), of op] step by simp
  from apply_accounts [OF Cons.prems(1,2) step] obtain bs1
    where bs1: "transcript bs1 = transcript bs @ accepted_of out" "accounts policy bs1 e"
    by (auto simp: extends_run_def)
  from Cons.IH [OF inv bs1(2) rest] bs1(1) outs show ?case by (auto simp: extends_run_def)
qed

lemma accounts_new: "accounts policy [] (decoder_new policy)"
  using reducer_inv_new [of policy]
  by (simp add: accounts_def decoder_new_def blocks_fit_def same_policy_def)

text \<open>What was published, from the fields of the decoder.\<close>

definition publications :: "decoder \<Rightarrow> normalized_event list" where
  "publications d =
     (if de_terminal_published d \<or> de_in_flight d = Some FlightPublishTerminal
      then (case close_terminal d of None \<Rightarrow> [] | Some t \<Rightarrow> [t]) else [])"

lemma open_publications: "decoder_inv d \<Longrightarrow> de_state d \<noteq> Closed \<Longrightarrow> publications d = []"
  by (auto simp: publications_def decoder_inv_def running_ok_def flight_ok_def)

lemma closed_action_publishes:
  assumes "closed_ok d" and "de_state d = Closed"
  shows "publications (snd (closed_action d)) = publications d @ published_of (OutAction (fst (closed_action d)))"
proof (cases rule: closed_action_cases [of d])
  case 1
  have "fst (closed_action d) \<in> {ActWaitForConsumer, ActAwaitReceipt, ActClosed} \<or>
      snd (closed_action d) \<noteq> d"
    by (auto simp: closed_action_def split: option.split)
      (metis decoder.ext_inject decoder.surjective decoder.update_convs(3) option.distinct(1))
  with 1 show ?thesis by auto
next
  case (2 t)
  then show ?thesis by (simp add: publications_def close_terminal_def)
qed

definition quiet :: "decoder \<Rightarrow> bool" where
  "quiet d \<longleftrightarrow> \<not> de_terminal_published d \<and> de_in_flight d \<noteq> Some FlightPublishTerminal"

lemma quiet_publications: "quiet d \<Longrightarrow> publications d = []"
  by (simp add: quiet_def publications_def)

lemma open_quiet: "decoder_inv d \<Longrightarrow> de_state d \<noteq> Closed \<Longrightarrow> quiet d"
  by (auto simp: quiet_def decoder_inv_def running_ok_def flight_ok_def)

text \<open>Closing clears the action in flight, so a decoder that has not published stays quiet.\<close>

lemma quiet_closing:
  assumes "\<not> de_terminal_published d"
  shows "quiet (snd (finish_close r acc d))" "quiet (snd (close_synthesized c e d))"
    "quiet (snd (guest_error_close e d))" "quiet (snd (protocol_close d))" "quiet (snd (validation_close ve d))"
  using assms by (cases ve; simp add: closes finish_close_def quiet_def)+

lemma quiet_accept:
  assumes "\<not> de_terminal_published d" and "de_in_flight d = None"
  shows "quiet (snd (accept_events events limit after d))"
proof -
  have enq: "quiet (snd (enqueue_and_maybe_close batch (d\<lparr>de_events := er\<rparr>)))" for batch er
    using assms
    by (cases "eb_terminal batch") (simp_all add: enqueue_and_maybe_close_def Let_def finish_close_def quiet_def)
  have val: "quiet (snd (validation_close e (d\<lparr>de_events := er\<rparr>)))" for e er
    using assms by (intro quiet_closing) simp
  show ?thesis using enq val by (simp add: accept_events_def split: prod.split sum.split)
qed

lemma quiet_receipts:
  assumes "decoder_inv d" and "de_state d \<noteq> Closed"
  shows "quiet (snd (pull_receipt result d))" "quiet (snd (transport_receipt receipt d))"
    "quiet (snd (push_receipt pushed d))" "quiet (snd (close_external cause d))"
proof -
  note up = running_takes(3) [OF assms]
  let ?d = "d\<lparr>de_in_flight := None\<rparr>"
  have q: "quiet (?d\<lparr>de_state := s\<rparr>)" for s using up by (simp add: quiet_def)
  have c: "quiet (snd (protocol_close ?d))" "quiet (snd (guest_error_close e ?d))"
    "quiet (snd (close_synthesized cs e ?d))" "quiet (snd (validation_close ve ?d))"
    "quiet (snd (accept_events events limit after ?d))" for e cs ve events limit after
    using up by (intro quiet_closing quiet_accept; simp)+
  show "quiet (snd (pull_receipt result d))"
    using assms(2) q c
    by (simp add: pull_receipt_def Let_def
        split: option.split in_flight.split sum.split decoder_state.split decoder_pull.split)
  show "quiet (snd (transport_receipt receipt d))"
    using assms(2) c up
    by (simp add: transport_receipt_def Let_def quiet_def split: transport_receipt.split sum.split)
  have "quiet (snd (protocol_close (?d\<lparr>de_pending_frame := None\<rparr>)))"
    "quiet (snd (guest_error_close e (?d\<lparr>de_pending_frame := None\<rparr>)))" for e
    using up by (intro quiet_closing; simp)+
  then show "quiet (snd (push_receipt pushed d))"
    using assms(2) c up
    by (simp add: push_receipt_def Let_def quiet_def
        split: option.split sum.split decoder_state.split response_frame.split)
  show "quiet (snd (close_external cause d))"
    using assms(2) quiet_closing [OF up] by (simp add: close_external_def split: prod.split)
qed

lemma receipts_publish_nothing:
  assumes "decoder_apply op d = (out, d')" and "op \<noteq> OpNext"
  shows "published_of out = []"
  using assms by (cases op) (auto simp: map_prod_def case_prod_unfold)

lemma apply_publications:
  assumes inv: "decoder_inv d" and run: "decoder_apply op d = (out, d')"
  shows "publications d' = publications d @ published_of out"
proof (cases "de_state d = Closed")
  case True
  then have ok: "closed_ok d" using inv by (simp add: decoder_inv_def)
  show ?thesis
  proof (cases "op = OpNext \<or> op = OpPublished")
    case next_published: True
    show ?thesis
    proof (cases "op = OpNext")
      case True
      with run \<open>de_state d = Closed\<close> closed_action_publishes [OF ok \<open>de_state d = Closed\<close>] show ?thesis
        by (auto simp: next_action_def map_prod_def case_prod_unfold)
    next
      case False
      with next_published run have out: "published_of out = []" "d' = snd (terminal_published d)"
        by (auto simp: map_prod_def case_prod_unfold)
      have "publications (snd (terminal_published d)) = publications d"
        using ok by (auto simp: terminal_published_def Let_def publications_def close_terminal_def closed_ok_def
            flight_ok_def split: option.splits in_flight.splits)
      with out show ?thesis by simp
    qed
  next
    case False
    then have "publications d' = publications d"
      using run True by (cases op) (auto simp: pull_receipt_def transport_receipt_def push_receipt_def
          consumer_receipt_def close_external_def publications_def close_terminal_def split: if_splits)
    with False receipts_publish_nothing [OF run] show ?thesis by simp
  qed
next
  case False
  note none = open_publications [OF inv False]
  have inv': "decoder_inv d'" using decoder_apply_inv [OF inv, of op] run by simp
  show ?thesis
  proof (cases "de_state d' = Closed")
    case open': False
    have "published_of out = []"
      using run False open' none open_publications [OF inv' open']
      by (cases op) (auto simp: next_action_def begin_pull_def closed_action_def Let_def map_prod_def
          case_prod_unfold closes finish_close_def split: if_splits option.splits decoder_state.splits)
    with open_publications [OF inv' open'] none show ?thesis by simp
  next
    case True
    note up = running_takes(3) [OF inv False]
    show ?thesis
    proof (cases "op = OpNext")
      case next': True
      let ?c = "snd (close_synthesized CauseLimit GuestLimit d)"
      have c: "closed_ok ?c" "de_state ?c = Closed" "publications ?c = []"
        using up by (simp_all add: closes finish_close_def closed_ok_def publications_def)
      have "next_action d = closed_action ?c"
        using run next' True False
        by (auto simp: next_action_def begin_pull_def Let_def map_prod_def case_prod_unfold
            split: if_splits option.splits decoder_state.splits)
      with run next' closed_action_publishes [OF c(1,2)] c(3) none show ?thesis
        by (auto simp: map_prod_def case_prod_unfold)
    next
      case other: False
      have "quiet d'"
        using run other False True quiet_receipts [OF inv False]
        by (cases op) (auto simp: consumer_receipt_def terminal_published_def map_prod_def case_prod_unfold
            split: if_splits)
      with none receipts_publish_nothing [OF run other] show ?thesis by (simp add: quiet_publications)
    qed
  qed
qed

subsection \<open>Claims about the protocol\<close>

text \<open>C29. Whatever the guest decoder, the transport and the consumer answer, and in whatever order the
  methods are called, the reducer never counts past its limits: 16 queued events, 65536 pulls, 1024
  data frames and the byte limit of the response status. A pull it asks for always fits the queue, and a
  data frame it lets the host push always fits the byte limit.\<close>

theorem decoder_bounds:
  assumes "reach decoder_start decoder_step d"
  shows "de_queue_len d \<le> 16 \<and> de_pulls d \<le> 65536 \<and> de_data_frames d \<le> 1024 \<and>
    de_data_bytes d \<le> (if successful_status d then 16 * 1024 * 1024 else 64 * 1024) \<and>
    (case fst (next_action d) of
       ActPull limit \<Rightarrow> 1 \<le> limit \<and> de_queue_len d + limit \<le> 16
     | ActPushFrame (FrameData data) \<Rightarrow>
         de_data_bytes d + length data \<le> (if successful_status d then 16 * 1024 * 1024 else 64 * 1024)
     | _ \<Rightarrow> True)"
proof -
  have inv: "decoder_inv d" by (rule decoding.reach_inv [OF assms])
  have inv': "decoder_inv (snd (next_action d))" by (rule next_action_inv [OF inv])
  have limit: "(if successful_status d then 16 * 1024 * 1024 else 64 * 1024) = status_limit (de_status d)"
    by (simp add: successful_limit [symmetric] MAX_SUCCESS_BYTES_def MAX_ERROR_BYTES_def)
  have pull: "1 \<le> n \<and> de_queue_len d + n \<le> 16" if "fst (next_action d) = ActPull n" for n
    using that by (auto simp: next_action_def begin_pull_def closed_action_def free_capacity_def QUEUE_CAPACITY_def
        Let_def split: if_splits option.splits decoder_state.splits)
  have push: "de_data_bytes d + length data \<le> status_limit (de_status d)"
    if "fst (next_action d) = ActPushFrame (FrameData data)" for data
  proof -
    from that have "de_state d \<noteq> Closed" "de_pending_frame d = Some (FrameData data)"
      by (auto simp: next_action_def begin_pull_def closed_action_def Let_def
          split: if_splits option.splits decoder_state.splits)
    then show ?thesis using running_takes(2) [OF inv] by (simp add: running_ok_def frame_fits_def)
  qed
  from inv have "counters_ok d" by (simp add: decoder_inv_def)
  then show ?thesis using pull push unfolding limit
    by (simp add: counters_def decoder_limits split: decoder_action.split response_frame.split)
qed

theorem decoder_bounds_witness:
  "fst (next_action (decoder_new decoder_policy_empty)) = ActPull 16 \<and> de_queue_len (decoder_new decoder_policy_empty) \<le> 16"
proof -
  have "reach decoder_start decoder_step (decoder_new decoder_policy_empty)"
    by (intro reach_init) (auto simp: decoder_start_def)
  from decoder_bounds [OF this] show ?thesis
    by (simp add: next_action_def decoder_new_def begin_pull_def free_capacity_def decoder_limits)
qed

text \<open>C30. Closing is final. Once the reducer is closed, every later call leaves it closed with the same
  close receipt, hands on no event, and every receipt it answers repeats that close receipt and says that
  nothing changed.\<close>

theorem decoder_close_final:
  assumes "reach decoder_start decoder_step d" and "de_state d = Closed"
    and "decoder_apply op d = (out, d')"
  shows "de_state d' = Closed \<and> de_close d' = de_close d \<and> de_close d \<noteq> None \<and> accepted_of out = [] \<and>
    (case out of OutReceipt r \<Rightarrow> r = stable_closed_receipt d | _ \<Rightarrow> True)"
proof -
  have inv: "decoder_inv d" by (rule decoding.reach_inv [OF assms(1)])
  then have "de_close d \<noteq> None" using assms(2) by (simp add: decoder_inv_def closed_ok_def)
  moreover have "\<forall>r. out = OutReceipt r \<longrightarrow> r = stable_closed_receipt d"
    using assms(2,3) by (cases op) (auto simp: pull_receipt_def transport_receipt_def push_receipt_def
        close_external_def map_prod_def case_prod_unfold)
  ultimately show ?thesis using closed_step [OF inv assms(2,3)] by (simp split: decoder_output.split)
qed

definition cancelled_decoder :: decoder where
  "cancelled_decoder = snd (close_external ExtCancelled (decoder_new decoder_policy_empty))"

theorem decoder_close_final_witness:
  "fst (decoder_apply (OpPull (Inr PullNeedFrame)) cancelled_decoder) =
     OutReceipt (stable_closed_receipt cancelled_decoder) \<and>
   de_close cancelled_decoder =
     Some \<lparr>cl_cause = CauseCancelled, cl_terminal = Some (Failed GuestCancelled)\<rparr>"
proof -
  have "decoder_apply (OpClose ExtCancelled) (decoder_new decoder_policy_empty) =
      (OutReceipt (fst (close_external ExtCancelled (decoder_new decoder_policy_empty))), cancelled_decoder)"
    by (simp add: cancelled_decoder_def map_prod_def case_prod_unfold)
  from decoder_stepI [OF this] have "reach decoder_start decoder_step cancelled_decoder"
    by (rule reach_step [OF reach_init, rotated]) (auto simp: decoder_start_def)
  moreover have closed: "de_state cancelled_decoder = Closed"
    "de_close cancelled_decoder =
      Some \<lparr>cl_cause = CauseCancelled, cl_terminal = Some (Failed GuestCancelled)\<rparr>"
    by (simp_all add: cancelled_decoder_def close_external_def decoder_new_def closes finish_close_def)
  moreover obtain out d' where
    run: "decoder_apply (OpPull (Inr PullNeedFrame)) cancelled_decoder = (out, d')" by fastforce
  ultimately have "case out of OutReceipt r \<Rightarrow> r = stable_closed_receipt cancelled_decoder | _ \<Rightarrow> True"
    using decoder_close_final [OF _ closed(1) run] by simp
  with run closed show ?thesis by (auto simp: map_prod_def case_prod_unfold)
qed

text \<open>Publishing over a run.\<close>

lemma run_publications:
  assumes "decoder_inv d" and "decoder_run ops d = (outs, d')"
  shows "publications d' = publications d @ concat (map published_of outs)"
  using assms
proof (induction ops arbitrary: d outs)
  case (Cons op ops)
  from Cons.prems(2) obtain out e outs' where step: "decoder_apply op d = (out, e)"
    and rest: "decoder_run ops e = (outs', d')" and outs: "outs = out # outs'"
    by (auto split: prod.splits)
  have inv: "decoder_inv e" using decoder_apply_inv [OF Cons.prems(1), of op] step by simp
  from Cons.IH [OF inv rest] apply_publications [OF Cons.prems(1) step] outs show ?case by simp
qed simp

text \<open>C23. Over every sequence of calls, with any answers, the events handed to the consumer are the
  events of a well-formed list of content blocks (the specification of \<open>Decoder_Events\<close>): contiguous
  indices, one open block at a time, declared tools with distinct call ids and complete JSON arguments,
  at most one proof per reasoning block. The terminal event is published at most once, only after
  closing, and it fits what was handed on: a completion never leaves a tool call open.\<close>

theorem decoder_run_transcript:
  assumes "decoder_run ops (decoder_new policy) = (outs, d)"
  shows "\<exists>bs. concat (map accepted_of outs) = transcript bs \<and> blocks_fit policy bs \<and>
    (case concat (map published_of outs) of
       [] \<Rightarrow> True
     | t # ts \<Rightarrow> ts = [] \<and> de_state d = Closed \<and> close_terminal d = Some t \<and>
         terminal_ok (dp_reported_models policy) bs t)"
proof -
  from run_accounts [OF decoder_inv_new accounts_new assms] obtain bs
    where inv: "decoder_inv d" and bs: "transcript bs = concat (map accepted_of outs)" "accounts policy bs d"
    by (auto simp: extends_run_def)
  have pub: "concat (map published_of outs) = publications d"
    using run_publications [OF decoder_inv_new assms] by (simp add: publications_def decoder_new_def)
  show ?thesis unfolding pub
  proof (cases "publications d")
    case Nil
    with bs show "\<exists>bs. concat (map accepted_of outs) = transcript bs \<and> blocks_fit policy bs \<and>
      (case publications d of [] \<Rightarrow> True
       | t # ts \<Rightarrow> ts = [] \<and> de_state d = Closed \<and> close_terminal d = Some t \<and>
           terminal_ok (dp_reported_models policy) bs t)"
      by (intro exI [of _ bs]) (simp add: accounts_def)
  next
    case (Cons t ts)
    then have "de_state d = Closed" using open_publications [OF inv] by auto
    with Cons bs show "\<exists>bs. concat (map accepted_of outs) = transcript bs \<and> blocks_fit policy bs \<and>
      (case publications d of [] \<Rightarrow> True
       | t # ts \<Rightarrow> ts = [] \<and> de_state d = Closed \<and> close_terminal d = Some t \<and>
           terminal_ok (dp_reported_models policy) bs t)"
      by (intro exI [of _ bs]) (auto simp: publications_def accounts_def split: if_splits option.splits)
  qed
qed

theorem decoder_run_transcript_witness:
  "\<exists>bs. [] = transcript bs \<and> terminal_ok {} bs (Failed GuestCancelled)"
proof -
  obtain d where "decoder_run [OpNext, OpClose ExtCancelled, OpNext] (decoder_new decoder_policy_empty) =
      ([OutAction (ActPull 16),
        OutReceipt \<lparr>dr_accepted_events = [],
          dr_close = Some \<lparr>cl_cause = CauseCancelled, cl_terminal = Some (Failed GuestCancelled)\<rparr>,
          dr_transitioned = True\<rparr>,
        OutAction (ActPublishTerminal (Failed GuestCancelled))], d)"
    by (simp add: next_action_def decoder_new_def begin_pull_def free_capacity_def decoder_limits
        close_external_def closes finish_close_def closed_action_def)
  from decoder_run_transcript [OF this] show ?thesis
    by (auto simp: decoder_policy_empty_def decoder_policy_new_def)
qed

subsection \<open>A driver always finishes\<close>

text \<open>
  A driver asks for the next action and answers it; the answers are arbitrary. A turn may begin with an
  external close. \<open>WaitForConsumer\<close> is answered when the consumer has taken between one and all of the
  queued events. The measure of a running reducer outweighs that of every closed one; a pull lowers it
  by more than the 16 events and the two frame phases it can bring.
\<close>

record driver_answer =
  an_external :: "external_close option"
  an_pull :: "guest_error + decoder_pull"
  an_transport :: transport_receipt
  an_push :: "guest_error + unit"
  an_taken :: nat

fun answer_action :: "driver_answer \<Rightarrow> decoder_action \<times> decoder \<Rightarrow> decoder" where
  "answer_action a (ActPull _, d) = snd (pull_receipt (an_pull a) d)"
| "answer_action a (ActReadFrame, d) = snd (transport_receipt (an_transport a) d)"
| "answer_action a (ActPushFrame _, d) = snd (push_receipt (an_push a) d)"
| "answer_action a (ActWaitForConsumer, d) =
     snd (consumer_receipt (max 1 (min (an_taken a) (de_queue_len d))) d)"
| "answer_action a (ActPublishTerminal _, d) = snd (terminal_published d)"
| "answer_action a (ActAwaitReceipt, d) = d"
| "answer_action a (ActClosed, d) = d"

definition close_first :: "driver_answer \<Rightarrow> decoder \<Rightarrow> decoder" where
  "close_first a d = (case an_external a of None \<Rightarrow> d | Some cause \<Rightarrow> snd (close_external cause d))"

definition drive_turn :: "driver_answer \<Rightarrow> decoder \<Rightarrow> decoder" where
  "drive_turn a d = answer_action a (next_action (close_first a d))"

definition frame_phase :: "decoder \<Rightarrow> nat" where
  "frame_phase d =
     (if de_state d = NeedHead \<or> de_state d = NeedBody
      then (if de_pending_frame d = None then 2 else 1) else 0)"

definition decoder_measure :: "decoder \<Rightarrow> nat" where
  "decoder_measure d =
     (if de_state d = Closed
      then de_queue_len d + (if close_terminal d \<noteq> None \<and> \<not> de_terminal_published d then 1 else 0)
      else 18 + (MAX_PULLS - de_pulls d) * 19 + frame_phase d + de_queue_len d)"

definition settled :: "decoder \<Rightarrow> bool" where
  "settled d \<longleftrightarrow> decoder_inv d \<and> de_in_flight d = None"

lemma closed_measure: "decoder_inv d \<Longrightarrow> de_state d = Closed \<Longrightarrow> decoder_measure d \<le> 17"
  by (simp add: decoder_inv_def counters_def decoder_measure_def QUEUE_CAPACITY_def)

lemma answer_inv: "decoder_inv (snd x) \<Longrightarrow> decoder_inv (answer_action a x)"
  by (cases "(a, x)" rule: answer_action.cases)
    (simp_all add: pull_receipt_inv transport_receipt_inv push_receipt_inv consumer_receipt_inv terminal_published_inv)

lemma answer_closed: "de_state (snd x) = Closed \<Longrightarrow> de_state (answer_action a x) = Closed"
  by (cases "(a, x)" rule: answer_action.cases)
    (simp_all add: pull_receipt_def transport_receipt_def push_receipt_def consumer_receipt_def
      terminal_published_def Let_def)

text \<open>Taking queued events.\<close>

lemma consume_measure:
  assumes "settled d" and "de_queue_len d \<noteq> 0"
  shows "settled (answer_action a (ActWaitForConsumer, d))"
    "decoder_measure (answer_action a (ActWaitForConsumer, d)) < decoder_measure d"
proof -
  obtain n where n: "answer_action a (ActWaitForConsumer, d) = snd (consumer_receipt n d)"
    "1 \<le> n" "n \<le> de_queue_len d"
    using assms(2) that [of "max 1 (min (an_taken a) (de_queue_len d))"] by simp
  show "settled (answer_action a (ActWaitForConsumer, d))" unfolding n(1)
    using assms consumer_receipt_inv [of d n] by (simp add: settled_def consumer_receipt_def)
  have "de_queue_len d - n < de_queue_len d" using n by linarith
  then show "decoder_measure (answer_action a (ActWaitForConsumer, d)) < decoder_measure d"
    unfolding n(1) using n(2,3) assms(2)
    by (simp add: consumer_receipt_def decoder_measure_def close_terminal_def frame_phase_def)
qed

lemma closed_turn:
  assumes s: "settled d" and closed: "de_state d = Closed" and busy: "fst (next_action d) \<noteq> ActClosed"
  shows "settled (answer_action a (next_action d)) \<and> decoder_measure (answer_action a (next_action d)) < decoder_measure d"
proof (cases "de_queue_len d = 0")
  case False
  then have "next_action d = (ActWaitForConsumer, d)" using closed by (simp add: next_action_def closed_action_def)
  with consume_measure [OF s False] show ?thesis by simp
next
  case True
  then obtain t where t: "\<not> de_terminal_published d" "close_terminal d = Some t"
    "next_action d = (ActPublishTerminal t, d\<lparr>de_in_flight := Some FlightPublishTerminal\<rparr>)"
    using s closed busy
    by (auto simp: next_action_def closed_action_def settled_def close_terminal_def split: if_splits option.splits)
  from t(2) obtain r where r: "de_close d = Some r" "cl_terminal r = Some t"
    by (auto simp: close_terminal_def bind_eq_Some_conv)
  have "decoder_inv (answer_action a (next_action d))"
    using s next_action_inv [of d] by (intro answer_inv) (simp add: settled_def)
  with t r True closed show ?thesis
    by (simp add: settled_def terminal_published_def decoder_measure_def close_terminal_def)
qed

lemma receipts_settle:
  assumes "de_state d \<noteq> Closed"
  shows "de_in_flight (snd (pull_receipt p d)) = None" "de_in_flight (snd (transport_receipt t d)) = None"
    "de_in_flight (snd (push_receipt u d)) = None"
proof -
  have close: "de_in_flight (snd (validation_close e d)) = None" for e d
    by (cases e) (simp_all add: closes finish_close_def)
  then have acc: "de_in_flight (snd (accept_events events limit after d)) = None"
    if "de_in_flight d = None" for events limit after d
    using that by (simp add: accept_events_def enqueue_and_maybe_close_def Let_def finish_close_def
        split: prod.split sum.split option.split)
  show "de_in_flight (snd (pull_receipt p d)) = None" using assms acc
    by (simp add: pull_receipt_def Let_def closes finish_close_def
        split: option.split in_flight.split sum.split decoder_state.split decoder_pull.split)
  show "de_in_flight (snd (transport_receipt t d)) = None" using assms close
    by (simp add: transport_receipt_def Let_def closes finish_close_def split: transport_receipt.split sum.split)
  show "de_in_flight (snd (push_receipt u d)) = None" using assms
    by (simp add: push_receipt_def Let_def closes finish_close_def
        split: option.split sum.split decoder_state.split response_frame.split)
qed

lemma pull_receipt_pulls: "de_pulls (snd (pull_receipt p d)) = de_pulls d"
proof -
  have close: "de_pulls (snd (validation_close e d)) = de_pulls d" for e d
    by (cases e) (simp_all add: closes finish_close_def)
  then have "de_pulls (snd (accept_events events limit after d)) = de_pulls d" for events limit after d
    by (simp add: accept_events_def enqueue_and_maybe_close_def Let_def finish_close_def
        split: prod.split sum.split option.split)
  then show ?thesis
    by (simp add: pull_receipt_def Let_def closes finish_close_def
        split: option.split in_flight.split sum.split decoder_state.split decoder_pull.split)
qed

text \<open>The turns of a running reducer. Closing always lowers the measure, so only the others count.\<close>

lemma running_measure:
  assumes "decoder_inv e" and "de_state d \<noteq> Closed"
    and "de_state e \<noteq> Closed \<Longrightarrow> decoder_measure e < decoder_measure d"
  shows "decoder_measure e < decoder_measure d"
proof (cases "de_state e = Closed")
  case True
  have "18 \<le> decoder_measure d" using assms(2) by (simp add: decoder_measure_def)
  with closed_measure [OF assms(1) True] show ?thesis by linarith
qed (rule assms(3))

lemma read_turn:
  assumes "de_state d = NeedHead \<or> de_state d = NeedBody" and "de_pending_frame d = None" and "settled d"
  shows "decoder_measure (snd (transport_receipt t (d\<lparr>de_in_flight := Some FlightReadFrame\<rparr>))) < decoder_measure d"
proof -
  let ?e = "snd (transport_receipt t (d\<lparr>de_in_flight := Some FlightReadFrame\<rparr>))"
  have open_d: "de_state d \<noteq> Closed" using assms(1) by auto
  have flight: "flight_ok (d\<lparr>de_in_flight := Some FlightReadFrame\<rparr>) FlightReadFrame"
    using assms by (auto simp: flight_ok_def)
  have "decoder_inv (d\<lparr>de_in_flight := Some FlightReadFrame\<rparr>)"
    using assms(3) open_d flight by (intro flight_inv) (auto simp: settled_def decoder_inv_def)
  then have "decoder_inv ?e" by (rule transport_receipt_inv)
  then show ?thesis
  proof (rule running_measure [OF _ open_d])
    assume "de_state ?e \<noteq> Closed"
    moreover have "de_state (snd (validation_close e d)) = Closed" for e d
      by (cases e) (simp_all add: closes finish_close_def)
    ultimately show "decoder_measure ?e < decoder_measure d"
      using assms(1,2) by (auto simp: transport_receipt_def Let_def closes finish_close_def
          decoder_measure_def frame_phase_def split: transport_receipt.splits sum.splits)
  qed
qed

lemma push_turn:
  assumes "de_pending_frame d = Some frame" and "settled d" and open_d: "de_state d \<noteq> Closed"
  shows "decoder_measure (snd (push_receipt u (d\<lparr>de_in_flight := Some FlightPushFrame\<rparr>))) < decoder_measure d"
proof -
  let ?e = "snd (push_receipt u (d\<lparr>de_in_flight := Some FlightPushFrame\<rparr>))"
  have ok: "counters_ok d" "running_ok d" using assms(2) open_d by (simp_all add: settled_def decoder_inv_def)
  then have fits: "frame_ok d frame" using assms(1) by (simp add: running_ok_def)
  then have "flight_ok (d\<lparr>de_in_flight := Some FlightPushFrame\<rparr>) FlightPushFrame"
    using assms(1) by (auto simp: flight_ok_def frame_fits_def split: response_frame.splits)
  then have "decoder_inv ?e" by (intro push_receipt_inv flight_inv ok open_d)
  then show ?thesis
  proof (rule running_measure [OF _ open_d])
    assume running: "de_state ?e \<noteq> Closed"
    show "decoder_measure ?e < decoder_measure d"
    proof (cases u)
      case (Inl e)
      with running assms(1) open_d show ?thesis by (simp add: push_receipt_def Let_def closes finish_close_def)
    next
      case (Inr v)
      with fits assms(1) open_d show ?thesis
        by (cases frame)
          (simp_all add: push_receipt_def Let_def decoder_measure_def frame_phase_def frame_fits_def)
    qed
  qed
qed

lemma pull_turn:
  assumes "de_pulls d < MAX_PULLS" and "decoder_inv (d\<lparr>de_pulls := de_pulls d + 1, de_in_flight := Some f\<rparr>)"
    and open_d: "de_state d \<noteq> Closed"
  shows "decoder_measure (snd (pull_receipt p (d\<lparr>de_pulls := de_pulls d + 1, de_in_flight := Some f\<rparr>))) < decoder_measure d"
proof -
  let ?e = "snd (pull_receipt p (d\<lparr>de_pulls := de_pulls d + 1, de_in_flight := Some f\<rparr>))"
  have inv: "decoder_inv ?e" by (rule pull_receipt_inv [OF assms(2)])
  then show ?thesis
  proof (rule running_measure [OF _ open_d])
    assume "de_state ?e \<noteq> Closed"
    moreover have "frame_phase ?e \<le> 2" by (simp add: frame_phase_def)
    moreover have "de_queue_len ?e \<le> 16" using inv by (simp add: decoder_inv_def counters_def QUEUE_CAPACITY_def)
    moreover have "de_pulls ?e = de_pulls d + 1" by (simp add: pull_receipt_pulls)
    moreover have "(MAX_PULLS - de_pulls d) * 19 = (MAX_PULLS - (de_pulls d + 1)) * 19 + 19"
      using assms(1) by simp
    ultimately show "decoder_measure ?e < decoder_measure d"
      using open_d by (simp add: decoder_measure_def)
  qed
qed

text \<open>A turn leaves nothing in flight.\<close>

lemma closed_settles:
  assumes "settled d" and "de_state d = Closed"
  shows "settled (answer_action a (next_action d))"
proof (cases "fst (next_action d) = ActClosed")
  case True
  with assms(2) have "next_action d = (ActClosed, d)"
    by (auto simp: next_action_def closed_action_def split: if_splits option.splits)
  with assms(1) show ?thesis by simp
next
  case False
  from closed_turn [OF assms False] show ?thesis by blast
qed

lemma begin_pull_turn:
  assumes s: "settled d" and st: "de_state d \<in> {InitialPull, DrainingBody, DrainingAfterEnd}"
    and frame: "de_pending_frame d = None"
  shows "settled (answer_action a (begin_pull d))"
    "decoder_measure (answer_action a (begin_pull d)) < decoder_measure d"
proof -
  have open_d: "de_state d \<noteq> Closed" and ok: "counters_ok d" "running_ok d" "de_in_flight d = None"
    using s st by (auto simp: settled_def decoder_inv_def)
  have inv: "decoder_inv (answer_action a (begin_pull d))"
    using begin_pull_inv [OF ok(1,2) frame ok(3) st] by (rule answer_inv)
  consider "free_capacity d = 0" | "free_capacity d \<noteq> 0" "de_pulls d \<ge> MAX_PULLS"
    | "free_capacity d \<noteq> 0" "de_pulls d < MAX_PULLS" by linarith
  then have "settled (answer_action a (begin_pull d)) \<and>
    decoder_measure (answer_action a (begin_pull d)) < decoder_measure d"
  proof cases
    case 1
    then have "de_queue_len d \<noteq> 0" by (simp add: free_capacity_def QUEUE_CAPACITY_def)
    with 1 consume_measure [OF s] show ?thesis by (simp add: begin_pull_def)
  next
    case 2
    let ?c = "snd (close_synthesized CauseLimit GuestLimit d)"
    have c: "settled ?c" "de_state ?c = Closed" using ok closing_inv(1) [OF ok(1)]
      by (simp_all add: settled_def closes finish_close_def running_ok_def)
    then have same: "begin_pull d = next_action ?c"
      using 2 by (simp add: begin_pull_def Let_def next_action_def)
    have "de_state (snd (next_action ?c)) = Closed" using c(2) by (simp add: next_action_def closed_action_state)
    then have "de_state (answer_action a (begin_pull d)) = Closed" unfolding same by (rule answer_closed)
    with running_measure [OF inv open_d] have "decoder_measure (answer_action a (begin_pull d)) < decoder_measure d"
      by simp
    with closed_settles [OF c] same show ?thesis by simp
  next
    case 3
    let ?d = "d\<lparr>de_pulls := de_pulls d + 1, de_in_flight := Some (FlightPull (free_capacity d))\<rparr>"
    have pull: "begin_pull d = (ActPull (free_capacity d), ?d)" using 3 by (simp add: begin_pull_def Let_def)
    have "decoder_inv ?d" using begin_pull_inv [OF ok(1,2) frame ok(3) st] pull by simp
    note lt = pull_turn [OF 3(2) this open_d]
    have "de_in_flight (answer_action a (begin_pull d)) = None"
      using receipts_settle(1) [of ?d] open_d by (simp add: pull)
    with inv lt show ?thesis by (simp only: pull answer_action.simps settled_def simp_thms)
  qed
  then show "settled (answer_action a (begin_pull d))"
    "decoder_measure (answer_action a (begin_pull d)) < decoder_measure d" by simp_all
qed

lemma running_turn_cases:
  assumes flight: "de_in_flight d = None" and open_d: "de_state d \<noteq> Closed"
  obtains (wait) "de_queue_len d \<noteq> 0" "next_action d = (ActWaitForConsumer, d)"
    | (push) frame where "de_pending_frame d = Some frame"
        "next_action d = (ActPushFrame frame, d\<lparr>de_in_flight := Some FlightPushFrame\<rparr>)"
    | (pull) "de_pending_frame d = None" "de_state d \<in> {InitialPull, DrainingBody, DrainingAfterEnd}"
        "next_action d = begin_pull d"
    | (read) "de_pending_frame d = None" "de_state d = NeedHead \<or> de_state d = NeedBody"
        "next_action d = (ActReadFrame, d\<lparr>de_in_flight := Some FlightReadFrame\<rparr>)"
proof (cases "next_action d = (ActWaitForConsumer, d)")
  case True
  then have "de_queue_len d \<noteq> 0"
    using flight open_d
    by (auto simp: next_action_def begin_pull_def closed_action_def Let_def free_capacity_def QUEUE_CAPACITY_def
        split: if_splits option.splits decoder_state.splits)
  with wait True show ?thesis by blast
next
  case False
  then have calm: "\<not> (de_awaiting_consumer d \<and> de_queue_len d \<noteq> 0)" using open_d
    by (auto simp: next_action_def split: if_splits)
  show ?thesis
  proof (cases "de_pending_frame d")
    case (Some frame)
    with False calm flight open_d show ?thesis by (intro push) (auto simp: next_action_def split: if_splits)
  next
    case None
    with False calm flight open_d pull read show ?thesis
      by (cases "de_state d") (auto simp: next_action_def split: if_splits)
  qed
qed

lemma running_turn:
  assumes s: "settled d" and open_d: "de_state d \<noteq> Closed"
  shows "settled (answer_action a (next_action d)) \<and>
    decoder_measure (answer_action a (next_action d)) < decoder_measure d"
proof -
  have none: "de_in_flight d = None" and inv: "decoder_inv d" using s by (simp_all add: settled_def)
  note inv' = answer_inv [OF next_action_inv [OF inv], of a]
  from none open_d show ?thesis
  proof (cases rule: running_turn_cases)
    case wait
    with consume_measure [OF s] show ?thesis by simp
  next
    case (push frame)
    then have "de_in_flight (answer_action a (next_action d)) = None"
      using receipts_settle(3) [of "d\<lparr>de_in_flight := Some FlightPushFrame\<rparr>"] open_d by simp
    with push push_turn [OF push(1) s open_d] inv' show ?thesis by (simp add: settled_def)
  next
    case pull
    with begin_pull_turn [OF s] show ?thesis by simp
  next
    case read
    then have "de_in_flight (answer_action a (next_action d)) = None"
      using receipts_settle(2) [of "d\<lparr>de_in_flight := Some FlightReadFrame\<rparr>"] open_d by simp
    with read read_turn [OF read(2,1) s] inv' show ?thesis by (simp add: settled_def)
  qed
qed

text \<open>One turn: the external close, when there is one, never raises the measure.\<close>

lemma close_first_measure:
  assumes "settled d"
  shows "settled (close_first a d) \<and> decoder_measure (close_first a d) \<le> decoder_measure d"
proof (cases "an_external a")
  case None
  with assms show ?thesis by (simp add: close_first_def)
next
  case (Some cause)
  show ?thesis
  proof (cases "de_state d = Closed")
    case True
    with Some assms show ?thesis by (simp add: close_first_def close_external_def)
  next
    case False
    let ?e = "snd (close_external cause d)"
    have inv: "decoder_inv ?e" using assms by (intro close_external_inv) (simp add: settled_def)
    have e: "de_state ?e = Closed" "de_in_flight ?e = None"
      using False by (simp_all add: close_external_def closes finish_close_def split: prod.split)
    with running_measure [OF inv False] Some inv show ?thesis by (simp add: close_first_def settled_def)
  qed
qed

lemma drive_turn_measure:
  assumes "settled d"
  shows "settled (drive_turn a d) \<and> (decoder_measure (drive_turn a d) < decoder_measure d \<or>
    fst (next_action (drive_turn a d)) = ActClosed)"
proof -
  let ?d = "close_first a d"
  have d: "settled ?d" "decoder_measure ?d \<le> decoder_measure d" using close_first_measure [OF assms] by simp_all
  consider "de_state ?d \<noteq> Closed" | "de_state ?d = Closed" "fst (next_action ?d) \<noteq> ActClosed"
    | "de_state ?d = Closed" "fst (next_action ?d) = ActClosed" by blast
  then show ?thesis
  proof cases
    case 1
    with running_turn [OF d(1) 1, of a] d(2) show ?thesis by (simp add: drive_turn_def)
  next
    case 2
    with closed_turn [OF d(1) 2, of a] d(2) show ?thesis by (simp add: drive_turn_def)
  next
    case 3
    then have "next_action ?d = (ActClosed, ?d)"
      by (auto simp: next_action_def closed_action_def split: if_splits option.splits)
    with d(1) show ?thesis by (simp add: drive_turn_def)
  qed
qed

text \<open>A finished reducer stays finished.\<close>

lemma finished_closed:
  assumes "settled d" and "fst (next_action d) = ActClosed"
  shows "de_state d = Closed"
proof (rule ccontr)
  assume open_d: "de_state d \<noteq> Closed"
  then have ok: "de_in_flight d = None" "\<not> de_terminal_published d"
    using assms(1) by (auto simp: settled_def decoder_inv_def running_ok_def)
  from ok(1) open_d show False
  proof (cases rule: running_turn_cases)
    case pull
    with assms(2) ok show False
      by (auto simp: begin_pull_def closed_action_def Let_def closes finish_close_def split: if_splits)
  qed (use assms(2) in auto)
qed

lemma finished_turn:
  assumes "settled d" and "fst (next_action d) = ActClosed"
  shows "drive_turn a d = d"
proof -
  note closed = finished_closed [OF assms]
  then have "close_first a d = d" by (simp add: close_first_def close_external_def split: option.split)
  moreover from closed assms(2) have "next_action d = (ActClosed, d)"
    by (auto simp: next_action_def closed_action_def split: if_splits option.splits)
  ultimately show ?thesis by (simp add: drive_turn_def)
qed

fun drive :: "driver_answer list \<Rightarrow> decoder \<Rightarrow> decoder" where
  "drive [] d = d"
| "drive (a # as) d = drive as (drive_turn a d)"

lemma drive_finishes:
  assumes "settled d" and "decoder_measure d < length as \<or> fst (next_action d) = ActClosed"
  shows "settled (drive as d) \<and> fst (next_action (drive as d)) = ActClosed"
  using assms
proof (induction as arbitrary: d)
  case (Cons a as)
  note step = drive_turn_measure [OF Cons.prems(1), of a]
  have "decoder_measure (drive_turn a d) < length as \<or> fst (next_action (drive_turn a d)) = ActClosed"
    using step Cons.prems(2) finished_turn [OF Cons.prems(1), of a] by auto
  with step Cons.IH [of "drive_turn a d"] show ?case by simp
qed simp

lemma finished_published:
  assumes "settled d" and "fst (next_action d) = ActClosed"
  shows "de_state d = Closed \<and> de_queue_len d = 0 \<and> (de_terminal_published d \<longleftrightarrow> close_terminal d \<noteq> None)"
proof -
  from finished_closed [OF assms] have closed: "de_state d = Closed" .
  with assms have "closed_ok d" by (simp add: settled_def decoder_inv_def)
  with closed assms(2) show ?thesis
    by (auto simp: next_action_def closed_action_def close_terminal_def closed_ok_def split: if_splits option.splits)
qed

text \<open>C24. The protocol cannot hang. Drive a new reducer with arbitrary answers: any guest results, any
  frames or transport failures, any consumer that takes at least one event when asked to wait, external
  closes at any turn. After at most 1245203 turns the reducer is closed and answers \<open>Closed\<close>, every
  accepted event was taken, and the terminal event was published exactly when the close receipt
  carries one.\<close>

theorem decoder_driver_finishes:
  assumes "length answers \<ge> 1245203"
  shows "fst (next_action (drive answers (decoder_new policy))) = ActClosed \<and>
    de_state (drive answers (decoder_new policy)) = Closed \<and>
    de_queue_len (drive answers (decoder_new policy)) = 0 \<and>
    de_terminal_published (drive answers (decoder_new policy)) =
      (close_terminal (drive answers (decoder_new policy)) \<noteq> None)"
proof -
  have s: "settled (decoder_new policy)" using decoder_inv_new by (simp add: settled_def decoder_new_def)
  have "decoder_measure (decoder_new policy) < length answers"
    using assms by (simp add: decoder_measure_def decoder_new_def frame_phase_def MAX_PULLS_def)
  then have "settled (drive answers (decoder_new policy)) \<and>
      fst (next_action (drive answers (decoder_new policy))) = ActClosed"
    using s by (intro drive_finishes) simp_all
  with finished_published show ?thesis by blast
qed

definition silent_answer :: driver_answer where
  "silent_answer = \<lparr>an_external = None, an_pull = Inr (PullEvents []), an_transport = ReceiptEof,
     an_push = Inr (), an_taken = 0\<rparr>"

theorem decoder_driver_finishes_witness:
  "de_queue_len (drive (replicate 1245203 silent_answer) (decoder_new decoder_policy_empty)) = 0"
  using decoder_driver_finishes [of "replicate 1245203 silent_answer" decoder_policy_empty] by simp

end
