(* ===== verification/Fence.thy ===== *)
theory Fence
  imports Identifiers "HOL-Library.Word"
begin

unbundle bit_operations_syntax

section \<open>Generation fence and admission counters\<close>

text \<open>
  \<open>mcode-plugin-host/src/generation.rs\<close> (the fence that orders Pack activity, commit windows and
  retirement of one generation) and \<open>runtime/admission.rs\<close> (the two bounded permit counters of a
  Store owner). The fence is shared by threads without a common lock, so its model is a step
  relation: one rule per atomic access, one program counter per thread. The atomics are 64-bit words
  and every access is taken in one total order; \<open>Arc\<close> is sharing. The wake-up of \<open>wait\_drained\<close>
  (\<open>tokio::sync::Notify\<close>) is not modelled, only the condition it waits for.
\<close>

subsection \<open>The packed state word\<close>

definition MAX_HOST_GENERATION :: nat where "MAX_HOST_GENERATION = 9007199254740991"

definition host_generation_new :: "nat \<Rightarrow> nat option" where
  "host_generation_new v = (if v = 0 \<or> v > MAX_HOST_GENERATION then None else Some v)"

definition PUBLICATION_CLOSED :: "64 word" where "PUBLICATION_CLOSED = - 1"

definition GENERATION_PHASE_MASK :: "64 word" where "GENERATION_PHASE_MASK = 3"
definition GENERATION_PREPARING :: "64 word" where "GENERATION_PREPARING = 0"
definition GENERATION_CURRENT :: "64 word" where "GENERATION_CURRENT = 1"
definition GENERATION_RETIRED :: "64 word" where "GENERATION_RETIRED = 2"

definition GENERATION_ACTIVITY_INCREMENT :: "64 word" where
  "GENERATION_ACTIVITY_INCREMENT = GENERATION_PHASE_MASK + 1"

definition MAX_GENERATION_ACTIVITIES :: "64 word" where
  "MAX_GENERATION_ACTIVITIES = drop_bit 2 (- 1)"

definition generation_phase :: "64 word \<Rightarrow> 64 word" where
  "generation_phase state = state AND GENERATION_PHASE_MASK"

definition generation_activity_count :: "64 word \<Rightarrow> 64 word" where
  "generation_activity_count state = drop_bit 2 state"

definition retired_word :: "64 word \<Rightarrow> 64 word" where
  "retired_word state = (state AND NOT GENERATION_PHASE_MASK) OR GENERATION_RETIRED"

lemmas fence_consts = PUBLICATION_CLOSED_def GENERATION_PHASE_MASK_def GENERATION_PREPARING_def
  GENERATION_CURRENT_def GENERATION_RETIRED_def GENERATION_ACTIVITY_INCREMENT_def

lemma phase_mask: "GENERATION_PHASE_MASK = mask 2"
  by (simp add: fence_consts mask_eq_exp_minus_1)

lemma unat_phase: "unat (generation_phase s) = unat s mod 4"
proof -
  have "generation_phase s = take_bit 2 s"
    by (simp add: generation_phase_def phase_mask take_bit_eq_mask)
  then show ?thesis by (simp add: take_bit_eq_mod unat_mod)
qed

lemma unat_count: "unat (generation_activity_count s) = unat s div 4"
  unfolding generation_activity_count_def by (simp add: drop_bit_eq_div unat_div)

lemma unat_max_activities: "unat MAX_GENERATION_ACTIVITIES = 2 ^ 62 - 1"
  using unat_count [of "- 1"]
  by (simp add: generation_activity_count_def MAX_GENERATION_ACTIVITIES_def unsigned_minus_1_eq_mask
      mask_eq_exp_minus_1)

lemma count_le_max: "unat (generation_activity_count s) \<le> 2 ^ 62 - 1"
  using unsigned_less [of s, where 'a = nat] by (simp add: unat_count)

lemma unat_increment:
  assumes "generation_activity_count s \<noteq> MAX_GENERATION_ACTIVITIES"
  shows "unat (s + GENERATION_ACTIVITY_INCREMENT) = unat s + 4"
proof -
  have "unat (generation_activity_count s) \<noteq> 2 ^ 62 - 1"
    using assms unat_max_activities by (metis unsigned_word_eqI)
  then have "unat s div 4 < 2 ^ 62 - 1" using count_le_max [of s] by (simp add: unat_count)
  then show ?thesis by (simp add: unat_word_ariths fence_consts)
qed

lemma unat_decrement:
  assumes "generation_activity_count s > 0"
  shows "unat (s - GENERATION_ACTIVITY_INCREMENT) = unat s - 4" and "4 \<le> unat s"
proof -
  have "0 < unat s div 4" using assms by (simp add: word_less_nat_alt unat_count)
  then show le: "4 \<le> unat s" by simp
  then show "unat (s - GENERATION_ACTIVITY_INCREMENT) = unat s - 4"
    by (subst unat_sub) (auto simp: word_le_nat_alt fence_consts)
qed

lemma phase_unatI: "unat (generation_phase s) = unat (generation_phase t) \<Longrightarrow> generation_phase s = generation_phase t"
  by (rule unsigned_word_eqI)

lemma increment_phase:
  assumes "generation_activity_count s \<noteq> MAX_GENERATION_ACTIVITIES"
  shows "generation_phase (s + GENERATION_ACTIVITY_INCREMENT) = generation_phase s"
  by (rule phase_unatI) (simp add: unat_phase unat_increment [OF assms])

lemma increment_count:
  assumes "generation_activity_count s \<noteq> MAX_GENERATION_ACTIVITIES"
  shows "unat (generation_activity_count (s + GENERATION_ACTIVITY_INCREMENT)) =
    Suc (unat (generation_activity_count s))"
  by (simp add: unat_count unat_increment [OF assms])

lemma decrement_phase:
  assumes "generation_activity_count s > 0"
  shows "generation_phase (s - GENERATION_ACTIVITY_INCREMENT) = generation_phase s"
  using unat_decrement [OF assms] by (intro phase_unatI) (simp add: unat_phase mod_if)

lemma decrement_count:
  assumes "generation_activity_count s > 0"
  shows "unat (generation_activity_count s) =
    Suc (unat (generation_activity_count (s - GENERATION_ACTIVITY_INCREMENT)))"
  using unat_decrement [OF assms] by (simp add: unat_count)

lemma bit_two: "bit (2 :: 64 word) n \<longleftrightarrow> n = 1"
  using bit_exp_iff [of 1 n, where 'a = "64 word"] by auto

lemma retired_phase: "generation_phase (retired_word s) = GENERATION_RETIRED"
  unfolding generation_phase_def retired_word_def phase_mask GENERATION_RETIRED_def
  by (rule bit_word_eqI) (auto simp: bit_simps bit_two)

lemma retired_count: "generation_activity_count (retired_word s) = generation_activity_count s"
  unfolding generation_activity_count_def retired_word_def phase_mask GENERATION_RETIRED_def
  by (rule bit_word_eqI) (auto simp: bit_simps bit_two dest: bit_imp_le_length)

subsection \<open>The fence and its atomic operations\<close>

record fence =
  gf_publication :: "64 word"
  gf_family :: plugin_family
  gf_generation :: nat
  gf_state :: "64 word"
  gf_locked :: bool
  gf_poisoned :: bool

definition fence_new :: "64 word \<Rightarrow> plugin_family \<Rightarrow> nat \<Rightarrow> fence" where
  "fence_new publication family generation =
     \<lparr>gf_publication = publication, gf_family = family, gf_generation = generation,
      gf_state = GENERATION_PREPARING, gf_locked = False, gf_poisoned = False\<rparr>"

definition publication_closed :: "fence \<Rightarrow> bool" where
  "publication_closed f \<longleftrightarrow> gf_publication f = PUBLICATION_CLOSED"

definition close_publication :: "fence \<Rightarrow> fence" where
  "close_publication f = f\<lparr>gf_publication := PUBLICATION_CLOSED\<rparr>"

text \<open>\<open>enter\<close>: the first load of the publication word, the guard inside the CAS loop, and the body of a
  CAS that succeeds.\<close>

definition enter_epoch :: "fence \<Rightarrow> 64 word option" where
  "enter_epoch f =
     (let epoch = gf_publication f in
      if epoch = PUBLICATION_CLOSED \<or> epoch mod 2 \<noteq> 0 then None else Some epoch)"

definition enter_refused :: "64 word \<Rightarrow> bool" where
  "enter_refused state \<longleftrightarrow> generation_phase state \<noteq> GENERATION_CURRENT \<or>
     generation_activity_count state = MAX_GENERATION_ACTIVITIES"

definition enter_cas :: "64 word \<Rightarrow> fence \<Rightarrow> fence" where
  "enter_cas state f = f\<lparr>gf_state := state + GENERATION_ACTIVITY_INCREMENT\<rparr>"

text \<open>\<open>release\<close> and \<open>mark\_current\<close> panic (\<open>None\<close>) when their \<open>expect\<close> fails.\<close>

definition fence_release :: "fence \<Rightarrow> fence option" where
  "fence_release f =
     (if generation_activity_count (gf_state f) > 0
      then Some (f\<lparr>gf_state := gf_state f - GENERATION_ACTIVITY_INCREMENT\<rparr>) else None)"

definition mark_current :: "fence \<Rightarrow> fence option" where
  "mark_current f =
     (if gf_state f = GENERATION_PREPARING then Some (f\<lparr>gf_state := GENERATION_CURRENT\<rparr>) else None)"

definition drained :: "fence \<Rightarrow> bool" where
  "drained f \<longleftrightarrow> generation_activity_count (gf_state f) = 0"

datatype generation_commit_error = Stale | Unavailable

text \<open>\<open>begin\_commit\<close> once it holds the mutex: a failing guard releases it again.\<close>

definition begin_commit :: "fence \<Rightarrow> generation_commit_error + fence" where
  "begin_commit f =
     (if gf_poisoned f then Inl Unavailable
      else if publication_closed f \<or> generation_phase (gf_state f) \<noteq> GENERATION_CURRENT then Inl Stale
      else Inr (f\<lparr>gf_locked := True\<rparr>))"

text \<open>\<open>enter\<close> and \<open>mark\_retired\<close> run by one thread while no other thread moves.\<close>

definition enter :: "fence \<Rightarrow> bool \<times> fence" where
  "enter f =
     (case enter_epoch f of
        None \<Rightarrow> (False, f)
      | Some epoch \<Rightarrow>
          if enter_refused (gf_state f) then (False, f)
          else
            let f = enter_cas (gf_state f) f in
            if gf_publication f \<noteq> epoch
            then (case fence_release f of None \<Rightarrow> (False, f) | Some f \<Rightarrow> (False, f))
            else (True, f))"

definition mark_retired :: "fence \<Rightarrow> fence" where
  "mark_retired f =
     (if generation_phase (gf_state f) = GENERATION_RETIRED then f
      else f\<lparr>gf_state := retired_word (gf_state f)\<rparr>)"

subsection \<open>Threads\<close>

text \<open>Where a thread is: outside; in \<open>enter\<close> after each of its atomic accesses; holding an activity;
  holding an activity and its commit window; in \<open>mark\_retired\<close> with the commit mutex held.\<close>

datatype thread =
    Outside
  | Opened "64 word"
  | Trying "64 word" "64 word"
  | Rechecking "64 word"
  | Active
  | Committing
  | RetireLocked
  | Retiring "64 word"
  | RetireDone

inductive fence_step :: "fence \<times> thread list \<Rightarrow> fence \<times> thread list \<Rightarrow> bool" where
  load_epoch: "\<lbrakk>i < length ts; ts ! i = Outside; enter_epoch f = Some e\<rbrakk>
     \<Longrightarrow> fence_step (f, ts) (f, ts[i := Opened e])"
| load_state: "\<lbrakk>i < length ts; ts ! i = Opened e\<rbrakk>
     \<Longrightarrow> fence_step (f, ts) (f, ts[i := Trying e (gf_state f)])"
| refuse: "\<lbrakk>i < length ts; ts ! i = Trying e s; enter_refused s\<rbrakk>
     \<Longrightarrow> fence_step (f, ts) (f, ts[i := Outside])"
| cas_won: "\<lbrakk>i < length ts; ts ! i = Trying e s; \<not> enter_refused s; gf_state f = s\<rbrakk>
     \<Longrightarrow> fence_step (f, ts) (enter_cas s f, ts[i := Rechecking e])"
| cas_lost: "\<lbrakk>i < length ts; ts ! i = Trying e s; \<not> enter_refused s\<rbrakk>
     \<Longrightarrow> fence_step (f, ts) (f, ts[i := Trying e (gf_state f)])"
| recheck: "\<lbrakk>i < length ts; ts ! i = Rechecking e; gf_publication f = e\<rbrakk>
     \<Longrightarrow> fence_step (f, ts) (f, ts[i := Active])"
| back_out: "\<lbrakk>i < length ts; ts ! i = Rechecking e; gf_publication f \<noteq> e; fence_release f = Some f'\<rbrakk>
     \<Longrightarrow> fence_step (f, ts) (f', ts[i := Outside])"
| leave: "\<lbrakk>i < length ts; ts ! i = Active; fence_release f = Some f'\<rbrakk>
     \<Longrightarrow> fence_step (f, ts) (f', ts[i := Outside])"
| commit: "\<lbrakk>i < length ts; ts ! i = Active; \<not> gf_locked f; begin_commit f = Inr f'\<rbrakk>
     \<Longrightarrow> fence_step (f, ts) (f', ts[i := Committing])"
| end_commit: "\<lbrakk>i < length ts; ts ! i = Committing\<rbrakk>
     \<Longrightarrow> fence_step (f, ts) (f\<lparr>gf_locked := False\<rparr>, ts[i := Active])"
| panic_commit: "\<lbrakk>i < length ts; ts ! i = Committing\<rbrakk>
     \<Longrightarrow> fence_step (f, ts) (f\<lparr>gf_locked := False, gf_poisoned := True\<rparr>, ts[i := Active])"
| lock_retire: "\<lbrakk>i < length ts; ts ! i = Outside; \<not> gf_locked f\<rbrakk>
     \<Longrightarrow> fence_step (f, ts) (f\<lparr>gf_locked := True\<rparr>, ts[i := RetireLocked])"
| load_retire: "\<lbrakk>i < length ts; ts ! i = RetireLocked\<rbrakk>
     \<Longrightarrow> fence_step (f, ts) (f, ts[i := Retiring (gf_state f)])"
| already_retired: "\<lbrakk>i < length ts; ts ! i = Retiring s; generation_phase s = GENERATION_RETIRED\<rbrakk>
     \<Longrightarrow> fence_step (f, ts) (f, ts[i := RetireDone])"
| retire_won: "\<lbrakk>i < length ts; ts ! i = Retiring s; generation_phase s \<noteq> GENERATION_RETIRED; gf_state f = s\<rbrakk>
     \<Longrightarrow> fence_step (f, ts) (f\<lparr>gf_state := retired_word s\<rparr>, ts[i := RetireDone])"
| retire_lost: "\<lbrakk>i < length ts; ts ! i = Retiring s; generation_phase s \<noteq> GENERATION_RETIRED\<rbrakk>
     \<Longrightarrow> fence_step (f, ts) (f, ts[i := Retiring (gf_state f)])"
| unlock_retire: "\<lbrakk>i < length ts; ts ! i = RetireDone\<rbrakk>
     \<Longrightarrow> fence_step (f, ts) (f\<lparr>gf_locked := False\<rparr>, ts[i := Outside])"
| make_current: "mark_current f = Some f' \<Longrightarrow> fence_step (f, ts) (f', ts)"
| publish: "\<lbrakk>gf_publication f \<noteq> PUBLICATION_CLOSED; gf_publication f < e\<rbrakk>
     \<Longrightarrow> fence_step (f, ts) (f\<lparr>gf_publication := e\<rparr>, ts)"
| close: "fence_step (f, ts) (close_publication f, ts)"

inductive_cases fence_stepE: "fence_step (f, ts) (f', ts')"

definition fence_start :: "fence \<times> thread list \<Rightarrow> bool" where
  "fence_start x \<longleftrightarrow> (\<exists>p fam g n. x = (fence_new p fam g, replicate n Outside))"

subsection \<open>The invariant\<close>

fun holds_activity :: "thread \<Rightarrow> bool" where
  "holds_activity (Rechecking _) = True"
| "holds_activity Active = True"
| "holds_activity Committing = True"
| "holds_activity _ = False"

fun holds_mutex :: "thread \<Rightarrow> bool" where
  "holds_mutex Committing = True"
| "holds_mutex RetireLocked = True"
| "holds_mutex (Retiring _) = True"
| "holds_mutex RetireDone = True"
| "holds_mutex _ = False"

fun pending_epoch :: "thread \<Rightarrow> 64 word option" where
  "pending_epoch (Opened e) = Some e"
| "pending_epoch (Trying e _) = Some e"
| "pending_epoch (Rechecking e) = Some e"
| "pending_epoch _ = None"

text \<open>The number of threads with a property.\<close>

definition how_many :: "(thread \<Rightarrow> bool) \<Rightarrow> thread list \<Rightarrow> nat" where
  "how_many P ts = length (filter P ts)"

lemma how_many_update:
  assumes "i < length ts"
  shows "how_many P (ts[i := t]) + (if P (ts ! i) then 1 else 0) = how_many P ts + (if P t then 1 else 0)"
  using assms length_filter_update [of i ts P t] by (simp only: how_many_def)

lemma how_many_pos: "i < length ts \<Longrightarrow> P (ts ! i) \<Longrightarrow> 0 < how_many P ts"
  by (auto simp: how_many_def filter_empty_conv)

definition epoch_ok :: "fence \<Rightarrow> thread \<Rightarrow> bool" where
  "epoch_ok f t \<longleftrightarrow> (case pending_epoch t of
     None \<Rightarrow> True | Some e \<Rightarrow> e \<noteq> PUBLICATION_CLOSED \<and> e mod 2 = 0 \<and> e \<le> gf_publication f)"

definition fence_inv :: "fence \<times> thread list \<Rightarrow> bool" where
  "fence_inv x = (case x of (f, ts) \<Rightarrow>
     unat (generation_activity_count (gf_state f)) = how_many holds_activity ts \<and>
     how_many holds_mutex ts = (if gf_locked f then 1 else 0) \<and>
     generation_phase (gf_state f) \<in> {GENERATION_PREPARING, GENERATION_CURRENT, GENERATION_RETIRED} \<and>
     (Committing \<in> set ts \<longrightarrow> generation_phase (gf_state f) = GENERATION_CURRENT) \<and>
     (\<forall>t\<in>set ts. epoch_ok f t))"

lemma epoch_ok_publication: "gf_publication f' = gf_publication f \<Longrightarrow> epoch_ok f' t = epoch_ok f t"
  unfolding epoch_ok_def by (simp split: option.split)

lemma fence_inv_start: "fence_start x \<Longrightarrow> fence_inv x"
  by (auto simp: fence_start_def fence_inv_def fence_new_def how_many_def epoch_ok_def
      generation_phase_def generation_activity_count_def GENERATION_PREPARING_def)

text \<open>One thread moves and the fence word is unchanged, or changes as the move accounts for.\<close>

lemma fence_inv_move:
  assumes inv: "fence_inv (f, ts)" and i: "i < length ts"
    and count: "unat (generation_activity_count (gf_state f')) + (if holds_activity (ts ! i) then 1 else 0)
      = unat (generation_activity_count (gf_state f)) + (if holds_activity t then 1 else 0)"
    and lock: "(if gf_locked f' then 1 else (0::nat)) + (if holds_mutex (ts ! i) then 1 else 0)
      = (if gf_locked f then 1 else 0) + (if holds_mutex t then 1 else 0)"
    and phase: "generation_phase (gf_state f') = generation_phase (gf_state f) \<or>
      generation_phase (gf_state f') = GENERATION_RETIRED \<and> holds_mutex (ts ! i) \<and>
      ts ! i \<noteq> Committing \<and> t \<noteq> Committing"
    and start: "t = Committing \<Longrightarrow> generation_phase (gf_state f') = GENERATION_CURRENT"
    and pub: "gf_publication f' = gf_publication f" and ep: "epoch_ok f t"
  shows "fence_inv (f', ts[i := t])"
proof -
  have c1: "how_many holds_activity (ts[i := t]) + (if holds_activity (ts ! i) then 1 else 0) =
    how_many holds_activity ts + (if holds_activity t then 1 else 0)"
    and c2: "how_many holds_mutex (ts[i := t]) + (if holds_mutex (ts ! i) then 1 else 0) =
    how_many holds_mutex ts + (if holds_mutex t then 1 else 0)"
    using how_many_update [OF i] by blast+
  have ok: "epoch_ok f' u" if "u \<in> set (ts[i := t])" for u
    using that inv ep set_update_subset_insert [of ts i t] epoch_ok_publication [OF pub]
    by (auto simp: fence_inv_def)
  have "generation_phase (gf_state f') = GENERATION_CURRENT" if com: "Committing \<in> set (ts[i := t])"
  proof (cases "generation_phase (gf_state f') = generation_phase (gf_state f)")
    case True
    then show ?thesis
      using com inv start set_update_subset_insert [of ts i t] by (auto simp: fence_inv_def)
  next
    case False
    with phase have p: "holds_mutex (ts ! i)" "ts ! i \<noteq> Committing" "t \<noteq> Committing" by auto
    from com obtain j where j': "j < length ts" "ts[i := t] ! j = Committing"
      by (auto simp: in_set_conv_nth)
    with p i have j: "j < length ts" "j \<noteq> i" "ts ! j = Committing"
      by (auto simp: nth_list_update split: if_splits)
    have "how_many holds_mutex (ts[i := Outside]) > 0"
      using j by (intro how_many_pos [of j]) auto
    moreover have "how_many holds_mutex (ts[i := Outside]) + 1 = how_many holds_mutex ts"
      using how_many_update [OF i, of holds_mutex Outside] p(1) by simp
    ultimately have False using inv by (auto simp: fence_inv_def split: if_splits)
    then show ?thesis ..
  qed
  moreover have "unat (generation_activity_count (gf_state f')) = how_many holds_activity (ts[i := t])"
  proof -
    have "unat (generation_activity_count (gf_state f)) = how_many holds_activity ts"
      using inv by (simp add: fence_inv_def)
    with c1 count show ?thesis by linarith
  qed
  moreover have "how_many holds_mutex (ts[i := t]) = (if gf_locked f' then 1 else 0)"
  proof -
    have "how_many holds_mutex ts = (if gf_locked f then 1 else 0)" using inv by (simp add: fence_inv_def)
    with c2 lock show ?thesis by linarith
  qed
  moreover have "generation_phase (gf_state f') \<in>
      {GENERATION_PREPARING, GENERATION_CURRENT, GENERATION_RETIRED}"
    using inv phase by (auto simp: fence_inv_def)
  ultimately show ?thesis using ok by (simp add: fence_inv_def)
qed

lemma fence_release_cases:
  assumes "fence_release f = Some f'"
  shows "gf_publication f' = gf_publication f" and "gf_locked f' = gf_locked f"
    and "generation_phase (gf_state f') = generation_phase (gf_state f)"
    and "unat (generation_activity_count (gf_state f)) = Suc (unat (generation_activity_count (gf_state f')))"
  using assms decrement_phase decrement_count
  by (auto simp: fence_release_def split: if_splits)

lemma enter_cas_cases:
  assumes "\<not> enter_refused (gf_state f)"
  shows "gf_publication (enter_cas (gf_state f) f) = gf_publication f"
    and "gf_locked (enter_cas (gf_state f) f) = gf_locked f"
    and "generation_phase (gf_state (enter_cas (gf_state f) f)) = generation_phase (gf_state f)"
    and "unat (generation_activity_count (gf_state (enter_cas (gf_state f) f))) =
      Suc (unat (generation_activity_count (gf_state f)))"
  using assms increment_phase increment_count by (auto simp: enter_cas_def enter_refused_def)

lemma fence_inv_publish:
  assumes "fence_inv (f, ts)" and "gf_publication f \<le> gf_publication f'"
    and "gf_state f' = gf_state f" and "gf_locked f' = gf_locked f"
  shows "fence_inv (f', ts)"
  using assms unfolding fence_inv_def epoch_ok_def by (auto split: option.splits intro: order_trans)

lemma epoch_ok_none: "pending_epoch t = None \<Longrightarrow> epoch_ok f t"
  by (simp add: epoch_ok_def)

lemma fence_inv_step: "fence_step x y \<Longrightarrow> fence_inv x \<Longrightarrow> fence_inv y"
proof (induction rule: fence_step.induct)
  case (load_epoch i ts f e)
  then show ?case
    by (intro fence_inv_move [where t = "Opened e" and f = f])
      (auto simp: enter_epoch_def epoch_ok_def Let_def split: if_splits)
next
  case (load_state i ts e f)
  then have "epoch_ok f (Opened e)" using nth_mem [of i ts] by (auto simp: fence_inv_def)
  with load_state show ?case
    by (intro fence_inv_move [where t = "Trying e (gf_state f)" and f = f]) (auto simp: epoch_ok_def)
next
  case (refuse i ts e s f)
  then show ?case
    by (intro fence_inv_move [where t = Outside and f = f]) (auto simp: epoch_ok_def)
next
  case (cas_won i ts e s f)
  then have "epoch_ok f (Trying e s)" using nth_mem [of i ts] by (auto simp: fence_inv_def)
  with cas_won enter_cas_cases [of f] show ?case
    by (intro fence_inv_move [where t = "Rechecking e" and f = f]) (auto simp: epoch_ok_def)
next
  case (cas_lost i ts e s f)
  then have "epoch_ok f (Trying e s)" using nth_mem [of i ts] by (auto simp: fence_inv_def)
  with cas_lost show ?case
    by (intro fence_inv_move [where t = "Trying e (gf_state f)" and f = f]) (auto simp: epoch_ok_def)
next
  case (recheck i ts e f)
  then show ?case
    by (intro fence_inv_move [where t = Active and f = f]) (auto simp: epoch_ok_def)
next
  case (back_out i ts e f f')
  with fence_release_cases [OF back_out(4)] show ?case
    by (intro fence_inv_move [where t = Outside and f = f]) (auto simp: epoch_ok_def)
next
  case (leave i ts f f')
  with fence_release_cases [OF leave(3)] show ?case
    by (intro fence_inv_move [where t = Outside and f = f]) (auto simp: epoch_ok_def)
next
  case (commit i ts f f')
  then show ?case
    by (intro fence_inv_move [where t = Committing and f = f])
      (auto simp: epoch_ok_def begin_commit_def split: if_splits)
next
  case (end_commit i ts f)
  then have "gf_locked f" using how_many_pos [of i ts holds_mutex] by (auto simp: fence_inv_def split: if_splits)
  with end_commit show ?case
    by (intro fence_inv_move [where t = Active and f = f]) (auto simp: epoch_ok_def)
next
  case (panic_commit i ts f)
  then have "gf_locked f" using how_many_pos [of i ts holds_mutex] by (auto simp: fence_inv_def split: if_splits)
  with panic_commit show ?case
    by (intro fence_inv_move [where t = Active and f = f]) (auto simp: epoch_ok_def)
next
  case (lock_retire i ts f)
  then show ?case
    by (intro fence_inv_move [where t = RetireLocked and f = f]) (auto simp: epoch_ok_def)
next
  case (load_retire i ts f)
  then show ?case
    by (intro fence_inv_move [where t = "Retiring (gf_state f)" and f = f]) (auto simp: epoch_ok_def)
next
  case (already_retired i ts s f)
  then show ?case
    by (intro fence_inv_move [where t = RetireDone and f = f]) (auto simp: epoch_ok_def)
next
  case (retire_won i ts s f)
  then show ?case
    by (intro fence_inv_move [where t = RetireDone and f = f])
      (auto simp: epoch_ok_def retired_phase retired_count)
next
  case (retire_lost i ts s f)
  then show ?case
    by (intro fence_inv_move [where t = "Retiring (gf_state f)" and f = f]) (auto simp: epoch_ok_def)
next
  case (unlock_retire i ts f)
  then have "gf_locked f" using how_many_pos [of i ts holds_mutex] by (auto simp: fence_inv_def split: if_splits)
  with unlock_retire show ?case
    by (intro fence_inv_move [where t = Outside and f = f]) (auto simp: epoch_ok_def)
next
  case (make_current f f' ts)
  then have f': "f' = f\<lparr>gf_state := GENERATION_CURRENT\<rparr>" and p: "gf_state f = GENERATION_PREPARING"
    by (auto simp: mark_current_def split: if_splits)
  have "generation_activity_count GENERATION_CURRENT = 0" "generation_phase GENERATION_CURRENT = GENERATION_CURRENT"
    "generation_activity_count GENERATION_PREPARING = 0"
    by (simp_all add: generation_activity_count_def generation_phase_def fence_consts drop_bit_eq_div)
  with make_current f' p epoch_ok_publication [of f' f] show ?case by (auto simp: fence_inv_def)
next
  case (publish f e ts)
  then show ?case using fence_inv_publish [of f ts] by auto
next
  case (close f ts)
  then show ?case
    using fence_inv_publish [of f ts "close_publication f"]
    by (simp add: close_publication_def PUBLICATION_CLOSED_def)
qed

interpretation fence: invariant_system fence_start fence_step fence_inv
  using fence_inv_start fence_inv_step by unfold_locales

subsection \<open>What the fence guarantees\<close>

text \<open>C17. In every interleaving of any number of threads the packed word counts the activities exactly:
  its count is the number of threads that hold one (or are about to re-check or give one back), so the
  count never wraps, and no release of a held activity can hit its panic.\<close>

theorem fence_counts_activities:
  assumes "reach fence_start fence_step (f, ts)"
  shows "unat (generation_activity_count (gf_state f)) = how_many holds_activity ts \<and>
    (\<forall>i<length ts. holds_activity (ts ! i) \<longrightarrow> fence_release f \<noteq> None)"
proof -
  have inv: "fence_inv (f, ts)" using assms by (rule fence.reach_inv)
  have "fence_release f \<noteq> None" if "i < length ts" "holds_activity (ts ! i)" for i
  proof -
    have "0 < unat (generation_activity_count (gf_state f))"
      using how_many_pos [of i ts holds_activity] that inv by (simp add: fence_inv_def)
    then have "generation_activity_count (gf_state f) \<noteq> 0" by auto
    then show ?thesis by (simp add: fence_release_def word_neq_0_conv)
  qed
  with inv show ?thesis by (simp add: fence_inv_def)
qed

text \<open>C19. A commit window excludes retirement and every other window: while a thread is committing the
  generation is current, that thread owns the commit mutex, and no other thread is committing or
  retiring.\<close>

theorem commit_excludes_retirement:
  assumes "reach fence_start fence_step (f, ts)" and "i < length ts" and "ts ! i = Committing"
  shows "generation_phase (gf_state f) = GENERATION_CURRENT \<and> gf_locked f \<and>
    (\<forall>j<length ts. j \<noteq> i \<longrightarrow> \<not> holds_mutex (ts ! j))"
proof -
  have inv: "fence_inv (f, ts)" using assms(1) by (rule fence.reach_inv)
  have pos: "0 < how_many holds_mutex ts" using how_many_pos [OF assms(2), of holds_mutex] assms(3) by simp
  with inv have locked: "gf_locked f" and one: "how_many holds_mutex ts = 1"
    by (auto simp: fence_inv_def split: if_splits)
  have "\<not> holds_mutex (ts ! j)" if j: "j < length ts" "j \<noteq> i" for j
  proof
    assume "holds_mutex (ts ! j)"
    then have "0 < how_many holds_mutex (ts[i := Outside])"
      using j by (intro how_many_pos [of j]) auto
    then show False
      using how_many_update [OF assms(2), of holds_mutex Outside] assms(3) one by simp
  qed
  with inv locked assms(2,3) nth_mem [OF assms(2)] show ?thesis by (auto simp: fence_inv_def)
qed

text \<open>Retirement is final and quiescence is stable.\<close>

definition newly_held :: "thread list \<Rightarrow> thread list \<Rightarrow> bool" where
  "newly_held ts us \<longleftrightarrow> (\<exists>i<length us. holds_activity (us ! i) \<and> \<not> (i < length ts \<and> holds_activity (ts ! i)))"

lemma retired_step:
  assumes "fence_step x y" and "fence_inv x" and "generation_phase (gf_state (fst x)) = GENERATION_RETIRED"
  shows "generation_phase (gf_state (fst y)) = GENERATION_RETIRED \<and> \<not> newly_held (snd x) (snd y)"
  using assms
proof (induction rule: fence_step.induct)
  case (cas_won i ts e s f)
  then show ?case by (auto simp: enter_refused_def fence_consts)
next
  case (back_out i ts e f f')
  then show ?case
    using fence_release_cases(3) [OF back_out(4)] by (auto simp: newly_held_def nth_list_update split: if_splits)
next
  case (leave i ts f f')
  then show ?case
    using fence_release_cases(3) [OF leave(3)] by (auto simp: newly_held_def nth_list_update split: if_splits)
next
  case (commit i ts f f')
  then show ?case
    by (auto simp: begin_commit_def fence_consts split: if_splits)
next
  case (make_current f f' ts)
  then show ?case
    by (auto simp: mark_current_def generation_phase_def fence_consts split: if_splits)
qed (auto simp: newly_held_def nth_list_update retired_phase close_publication_def split: if_splits)

lemma newly_held_trans:
  "\<not> newly_held ts us \<Longrightarrow> \<not> newly_held us vs \<Longrightarrow> \<not> newly_held ts vs"
  unfolding newly_held_def by blast

lemma retired_steps:
  assumes "fence_step\<^sup>*\<^sup>* x y" and "fence_inv x" and "generation_phase (gf_state (fst x)) = GENERATION_RETIRED"
  shows "generation_phase (gf_state (fst y)) = GENERATION_RETIRED \<and> \<not> newly_held (snd x) (snd y)"
  using assms
proof (induction rule: rtranclp_induct)
  case base
  then show ?case by (simp add: newly_held_def)
next
  case (step y z)
  have "fence_inv y" using step(1,4) by (rule fence.steps_inv)
  with step show ?case using retired_step [of y z] newly_held_trans by blast
qed

text \<open>C18. Retirement is a one-way gate: once a reachable fence is retired it stays retired, no thread
  that holds no activity ever gets one, and once it has drained it stays drained, so the quiescence
  point \<open>wait\_drained\<close> waits for is final and the Store behind it can be reclaimed.\<close>

theorem retirement_is_final:
  assumes "reach fence_start fence_step (f, ts)" and "generation_phase (gf_state f) = GENERATION_RETIRED"
    and "fence_step\<^sup>*\<^sup>* (f, ts) (f', ts')"
  shows "generation_phase (gf_state f') = GENERATION_RETIRED \<and>
    (\<forall>i<length ts'. holds_activity (ts' ! i) \<longrightarrow> i < length ts \<and> holds_activity (ts ! i)) \<and>
    (drained f \<longrightarrow> drained f')"
proof -
  have inv: "fence_inv (f, ts)" using assms(1) by (rule fence.reach_inv)
  then have inv': "fence_inv (f', ts')" by (rule fence.steps_inv [OF assms(3)])
  from retired_steps [OF assms(3) inv] assms(2)
  have ret: "generation_phase (gf_state f') = GENERATION_RETIRED" and new: "\<not> newly_held ts ts'" by auto
  have "drained f'" if "drained f"
  proof -
    have "how_many holds_activity ts = 0" using inv that by (simp add: fence_inv_def drained_def)
    then have "\<not> holds_activity (ts ! i)" if "i < length ts" for i
      using that by (simp add: how_many_def filter_empty_conv)
    with new have "\<forall>t\<in>set ts'. \<not> holds_activity t" by (auto simp: newly_held_def in_set_conv_nth)
    then have "how_many holds_activity ts' = 0" by (simp add: how_many_def filter_empty_conv)
    with inv' have "unat (generation_activity_count (gf_state f')) = 0" by (simp add: fence_inv_def)
    then show ?thesis by (simp add: drained_def unat_eq_0)
  qed
  with ret new show ?thesis by (auto simp: newly_held_def)
qed

text \<open>C22. Admission linearizes with publication: the step that gives a thread its activity reads the
  same epoch that the thread read when it entered, and that epoch is a published one (even) and open.
  As the publisher only raises the epoch, no publication change fell between the two reads. A thread
  whose re-check fails can always give its reservation back.\<close>

theorem admission_sees_stable_publication:
  assumes "reach fence_start fence_step (f, ts)" and "i < length ts" and "ts ! i = Rechecking e"
  shows "e \<le> gf_publication f \<and> e mod 2 = 0 \<and> e \<noteq> PUBLICATION_CLOSED \<and>
    (\<forall>f' ts'. fence_step (f, ts) (f', ts') \<and> ts' ! i = Active \<longrightarrow> gf_publication f = e) \<and>
    (gf_publication f \<noteq> e \<longrightarrow> (\<exists>f'. fence_release f = Some f' \<and> fence_step (f, ts) (f', ts[i := Outside])))"
proof -
  have inv: "fence_inv (f, ts)" using assms(1) by (rule fence.reach_inv)
  then have "epoch_ok f (Rechecking e)"
    using nth_mem [OF assms(2)] assms(3) by (auto simp: fence_inv_def)
  then have e: "e \<le> gf_publication f \<and> e mod 2 = 0 \<and> e \<noteq> PUBLICATION_CLOSED"
    by (simp add: epoch_ok_def)
  have "gf_publication f = e" if "fence_step (f, ts) (f', ts')" "ts' ! i = Active" for f' ts'
    using that assms(2,3) by (elim fence_stepE) (auto simp: nth_list_update split: if_splits)
  moreover have "\<exists>f'. fence_release f = Some f' \<and> fence_step (f, ts) (f', ts[i := Outside])"
    if ne: "gf_publication f \<noteq> e"
  proof -
    have "0 < unat (generation_activity_count (gf_state f))"
      using how_many_pos [of i ts holds_activity] assms(2,3) inv by (simp add: fence_inv_def)
    then obtain f' where f': "fence_release f = Some f'"
      by (auto simp: fence_release_def word_less_nat_alt)
    with back_out [OF assms(2,3) ne f'] show ?thesis by blast
  qed
  ultimately show ?thesis using e by blast
qed

subsection \<open>A run through the fence\<close>

definition sample_fence :: "64 word \<Rightarrow> bool \<Rightarrow> fence" where
  "sample_fence s locked =
     \<lparr>gf_publication = 0, gf_family = Providers, gf_generation = 1, gf_state = s, gf_locked = locked,
      gf_poisoned = False\<rparr>"

lemmas fence_eval = sample_fence_def fence_consts generation_phase_def generation_activity_count_def
  enter_epoch_def enter_refused_def enter_cas_def fence_release_def begin_commit_def mark_current_def
  publication_closed_def MAX_GENERATION_ACTIVITIES_def drop_bit_eq_div

lemma reach_then:
  assumes "reach fence_start fence_step x" and "fence_step x y'" and "y' = y"
  shows "reach fence_start fence_step y"
  using reach_step [OF assms(1,2)] assms(3) by simp

lemma sample_rechecking: "reach fence_start fence_step (sample_fence 5 False, [Rechecking 0])"
proof -
  have "fence_start (sample_fence 0 False, replicate 1 Outside)"
    unfolding fence_start_def fence_new_def sample_fence_def
    by (intro exI [of _ 0] exI [of _ Providers] exI [of _ 1]) (simp add: fence_consts)
  then have "reach fence_start fence_step (sample_fence 0 False, [Outside])"
    by (simp add: reach_init)
  then have "reach fence_start fence_step (sample_fence 1 False, [Outside])"
    by (rule reach_then) (rule make_current, simp_all add: fence_eval)
  then have "reach fence_start fence_step (sample_fence 1 False, [Opened 0])"
    by (rule reach_then) (rule load_epoch [where i = 0], simp_all add: fence_eval)
  then have "reach fence_start fence_step (sample_fence 1 False, [Trying 0 1])"
    by (rule reach_then) (rule load_state [where i = 0], simp_all add: fence_eval)
  then show ?thesis
    by (rule reach_then) (rule cas_won [where i = 0], simp_all add: fence_eval)
qed

lemma sample_active: "reach fence_start fence_step (sample_fence 5 False, [Active])"
  using sample_rechecking by (rule reach_then) (rule recheck [where i = 0], simp_all add: fence_eval)

lemma sample_committing: "reach fence_start fence_step (sample_fence 5 True, [Committing])"
  using sample_active by (rule reach_then) (rule commit [where i = 0], simp_all add: fence_eval)

lemma sample_retired: "reach fence_start fence_step (sample_fence 2 True, [RetireDone])"
proof -
  have "reach fence_start fence_step (sample_fence 1 False, [Outside])"
    using sample_active by (rule reach_then) (rule leave [where i = 0], simp_all add: fence_eval)
  then have "reach fence_start fence_step (sample_fence 1 True, [RetireLocked])"
    by (rule reach_then) (rule lock_retire [where i = 0], simp_all add: fence_eval)
  then have "reach fence_start fence_step (sample_fence 1 True, [Retiring 1])"
    by (rule reach_then) (rule load_retire [where i = 0], simp_all add: fence_eval)
  then have "reach fence_start fence_step (sample_fence (retired_word 1) True, [RetireDone])"
    by (rule reach_then) (rule retire_won [where i = 0], simp_all add: fence_eval)
  moreover have "retired_word 1 = 2"
    unfolding retired_word_def phase_mask GENERATION_RETIRED_def
    by (rule bit_word_eqI) (auto simp: bit_simps bit_two)
  ultimately show ?thesis by simp
qed

theorem fence_counts_activities_witness:
  "unat (generation_activity_count (gf_state (sample_fence 5 False))) = how_many holds_activity [Active]
   \<and> fence_release (sample_fence 5 False) \<noteq> None"
  using fence_counts_activities [OF sample_active] by simp

theorem commit_excludes_retirement_witness:
  "generation_phase (gf_state (sample_fence 5 True)) = GENERATION_CURRENT \<and> gf_locked (sample_fence 5 True)"
  using commit_excludes_retirement [OF sample_committing, of 0] by simp

theorem retirement_is_final_witness:
  "generation_phase (gf_state (sample_fence 2 False)) = GENERATION_RETIRED \<and>
   drained (sample_fence 2 True) \<and> drained (sample_fence 2 False)"
proof -
  have "fence_step (sample_fence 2 True, [RetireDone]) (sample_fence 2 True\<lparr>gf_locked := False\<rparr>, [RetireDone][0 := Outside])"
    by (rule unlock_retire) simp_all
  then have "fence_step\<^sup>*\<^sup>* (sample_fence 2 True, [RetireDone]) (sample_fence 2 False, [Outside])"
    by (simp add: sample_fence_def r_into_rtranclp)
  moreover have "drained (sample_fence 2 True)" by (simp add: drained_def fence_eval)
  moreover have "generation_phase (gf_state (sample_fence 2 True)) = GENERATION_RETIRED"
    by (simp add: fence_eval)
  ultimately show ?thesis using retirement_is_final [OF sample_retired] by blast
qed

theorem admission_sees_stable_publication_witness:
  "(0 :: 64 word) \<le> gf_publication (sample_fence 5 False) \<and> (0 :: 64 word) \<noteq> PUBLICATION_CLOSED"
  using admission_sees_stable_publication [OF sample_rechecking, of 0 0] by simp

text \<open>With no other thread moving, the micro-steps of \<open>enter\<close> are the code's function read from top
  to bottom: from outside, a thread can take exactly the activity that \<open>enter\<close> returns, in the state
  it leaves, and when \<open>enter\<close> refuses it leaves the fence as it was.\<close>

theorem enter_uninterrupted:
  assumes "i < length ts" and "ts ! i = Outside"
  shows "(case enter f of
     (True, f') \<Rightarrow> fence_step\<^sup>*\<^sup>* (f, ts) (f', ts[i := Active]) \<and>
       unat (generation_activity_count (gf_state f')) = Suc (unat (generation_activity_count (gf_state f)))
   | (False, f') \<Rightarrow> f' = f \<and> (enter_epoch f = None \<or> enter_refused (gf_state f)))"
proof (cases "enter_epoch f")
  case None
  then show ?thesis by (simp add: enter_def)
next
  case (Some e)
  then have pub: "gf_publication f = e" by (auto simp: enter_epoch_def Let_def split: if_splits)
  show ?thesis
  proof (cases "enter_refused (gf_state f)")
    case True
    with Some show ?thesis by (simp add: enter_def)
  next
    case False
    let ?f = "enter_cas (gf_state f) f"
    have pub': "gf_publication ?f = e" using enter_cas_cases(1) [OF False] pub by simp
    have "fence_step (f, ts) (f, ts[i := Opened e])" using assms Some by (rule load_epoch)
    moreover have "fence_step (f, ts[i := Opened e]) (f, ts[i := Opened e, i := Trying e (gf_state f)])"
      using assms by (intro load_state) simp_all
    moreover have "fence_step (f, ts[i := Trying e (gf_state f)])
        (?f, ts[i := Trying e (gf_state f), i := Rechecking e])"
      using assms False by (intro cas_won) simp_all
    moreover have "fence_step (?f, ts[i := Rechecking e]) (?f, ts[i := Rechecking e, i := Active])"
      using assms pub' by (intro recheck) simp_all
    ultimately have "fence_step\<^sup>*\<^sup>* (f, ts) (?f, ts[i := Active])" by simp
    with Some False pub' enter_cas_cases(4) [OF False] show ?thesis by (simp add: enter_def Let_def)
  qed
qed

theorem enter_uninterrupted_witness:
  "enter (sample_fence 1 False) = (True, sample_fence 5 False) \<and>
   fence_step\<^sup>*\<^sup>* (sample_fence 1 False, [Outside]) (sample_fence 5 False, [Active])"
proof -
  have "enter (sample_fence 1 False) = (True, sample_fence 5 False)"
    by (simp add: enter_def fence_eval)
  with enter_uninterrupted [of 0 "[Outside]" "sample_fence 1 False"] show ?thesis by simp
qed

subsection \<open>Admission counters (admission.rs)\<close>

definition MAX_LIVE_RESOURCES :: nat where "MAX_LIVE_RESOURCES = 4096"
definition MAX_OPEN_OPERATIONS :: nat where "MAX_OPEN_OPERATIONS = 1024"

datatype admission_error = ResourceCapacity | OperationCapacity

record admission_ledger =
  al_live_resources :: nat
  al_open_operations :: nat

definition admission_ledger_new :: admission_ledger where
  "admission_ledger_new = \<lparr>al_live_resources = 0, al_open_operations = 0\<rparr>"

text \<open>\<open>fetch\_update\<close> of one counter: the new value, or \<open>None\<close> when the closure refuses.\<close>

definition reserve :: "nat \<Rightarrow> nat \<Rightarrow> nat option" where
  "reserve counter maximum =
     Option.bind (checked_add 64 counter 1) (\<lambda>n. if n \<le> maximum then Some n else None)"

text \<open>\<open>release\<close> panics (\<open>None\<close>) when nothing is held.\<close>

definition permit_release :: "nat \<Rightarrow> nat option" where
  "permit_release counter = (if counter > 0 then Some (counter - 1) else None)"

definition admit_resource :: "admission_ledger \<Rightarrow> admission_error + admission_ledger" where
  "admit_resource l =
     (case reserve (al_live_resources l) MAX_LIVE_RESOURCES of
        None \<Rightarrow> Inl ResourceCapacity | Some n \<Rightarrow> Inr (l\<lparr>al_live_resources := n\<rparr>))"

definition open_operation :: "admission_ledger \<Rightarrow> admission_error + admission_ledger" where
  "open_operation l =
     (case reserve (al_open_operations l) MAX_OPEN_OPERATIONS of
        None \<Rightarrow> Inl OperationCapacity | Some n \<Rightarrow> Inr (l\<lparr>al_open_operations := n\<rparr>))"

definition resource_permit_drop :: "admission_ledger \<Rightarrow> admission_ledger option" where
  "resource_permit_drop l =
     map_option (\<lambda>n. l\<lparr>al_live_resources := n\<rparr>) (permit_release (al_live_resources l))"

definition operation_permit_drop :: "admission_ledger \<Rightarrow> admission_ledger option" where
  "operation_permit_drop l =
     map_option (\<lambda>n. l\<lparr>al_open_operations := n\<rparr>) (permit_release (al_open_operations l))"

definition admitted :: "'e + 'a \<Rightarrow> 'a option" where
  "admitted r = (case r of Inl _ \<Rightarrow> None | Inr x \<Rightarrow> Some x)"

lemmas ledger_defs = reserve_def checked_add_def permit_release_def admit_resource_def open_operation_def
  resource_permit_drop_def operation_permit_drop_def admitted_def

interpretation resources: reservation al_live_resources MAX_LIVE_RESOURCES
  "\<lambda>l. admitted (admit_resource l)" resource_permit_drop
  by unfold_locales (auto simp: ledger_defs MAX_LIVE_RESOURCES_def split: if_splits option.splits)

interpretation operations: reservation al_open_operations MAX_OPEN_OPERATIONS
  "\<lambda>l. admitted (open_operation l)" operation_permit_drop
  by unfold_locales (auto simp: ledger_defs MAX_OPEN_OPERATIONS_def split: if_splits option.splits)

text \<open>A Store owner interleaves both classes; a refused admission leaves the ledger as it was.\<close>

datatype ledger_op = AdmitResource | DropResource | OpenOperation | DropOperation

fun ledger_step :: "ledger_op \<Rightarrow> admission_ledger \<Rightarrow> admission_ledger option" where
  "ledger_step AdmitResource l = Some (case admitted (admit_resource l) of None \<Rightarrow> l | Some m \<Rightarrow> m)"
| "ledger_step DropResource l = resource_permit_drop l"
| "ledger_step OpenOperation l = Some (case admitted (open_operation l) of None \<Rightarrow> l | Some m \<Rightarrow> m)"
| "ledger_step DropOperation l = operation_permit_drop l"

definition resource_ops :: "ledger_op list \<Rightarrow> permit_op list" where
  "resource_ops = List.map_filter (\<lambda>x. case x of
     AdmitResource \<Rightarrow> Some Acquire | DropResource \<Rightarrow> Some Release | _ \<Rightarrow> None)"

definition operation_ops :: "ledger_op list \<Rightarrow> permit_op list" where
  "operation_ops = List.map_filter (\<lambda>x. case x of
     OpenOperation \<Rightarrow> Some Acquire | DropOperation \<Rightarrow> Some Release | _ \<Rightarrow> None)"

definition plain_acquire :: "nat \<Rightarrow> nat \<Rightarrow> nat option" where
  "plain_acquire maximum n = (if n < maximum then Some (Suc n) else None)"

lemma reserve_plain: "maximum < 2 ^ 64 \<Longrightarrow> reserve n maximum = plain_acquire maximum n"
  by (auto simp: reserve_def checked_add_def plain_acquire_def)

lemma map_filter_Cons:
  "List.map_filter f (x # xs) = (case f x of None \<Rightarrow> List.map_filter f xs | Some y \<Rightarrow> y # List.map_filter f xs)"
  by (simp add: List.map_filter_def split: option.split)

text \<open>The two admission classes of a Store owner are independent bounded counters: however resource
  and operation permits are interleaved, each counter runs exactly as a counter of its own class with
  its own bound, neither ever exceeds it (4096 resources, 1024 operations), and an admission is
  refused exactly when its class is full.\<close>

theorem admission_classes_independent:
  assumes "fold_opt (\<lambda>l x. ledger_step x l) admission_ledger_new ops = Some l"
  shows "run_permits (plain_acquire 4096) permit_release 0 (resource_ops ops) = Some (al_live_resources l) \<and>
    run_permits (plain_acquire 1024) permit_release 0 (operation_ops ops) = Some (al_open_operations l) \<and>
    al_live_resources l \<le> 4096 \<and> al_open_operations l \<le> 1024 \<and>
    (admit_resource l = Inl ResourceCapacity \<longleftrightarrow> al_live_resources l = 4096) \<and>
    (open_operation l = Inl OperationCapacity \<longleftrightarrow> al_open_operations l = 1024)"
proof -
  have run: "run_permits (plain_acquire 4096) permit_release (al_live_resources m) (resource_ops xs) =
        Some (al_live_resources l) \<and>
      run_permits (plain_acquire 1024) permit_release (al_open_operations m) (operation_ops xs) =
        Some (al_open_operations l) \<and>
      (al_live_resources m \<le> 4096 \<longrightarrow> al_live_resources l \<le> 4096) \<and>
      (al_open_operations m \<le> 1024 \<longrightarrow> al_open_operations l \<le> 1024)"
    if "fold_opt (\<lambda>l x. ledger_step x l) m xs = Some l" for m xs
    using that
  proof (induction xs arbitrary: m)
    case Nil
    then show ?case by (simp add: resource_ops_def operation_ops_def List.map_filter_def)
  next
    case (Cons x xs)
    then obtain m' where m': "ledger_step x m = Some m'"
      and rest: "fold_opt (\<lambda>l x. ledger_step x l) m' xs = Some l"
      by (auto split: option.splits)
    from Cons.IH [OF rest] m' show ?case
      by (cases x) (auto simp: resource_ops_def operation_ops_def map_filter_Cons admitted_def
          admit_resource_def open_operation_def reserve_plain MAX_LIVE_RESOURCES_def
          MAX_OPEN_OPERATIONS_def plain_acquire_def resource_permit_drop_def operation_permit_drop_def
          permit_release_def split: if_splits)
  qed
  from run [OF assms] have "al_live_resources l \<le> 4096" "al_open_operations l \<le> 1024"
    by (simp_all add: admission_ledger_new_def)
  moreover have "admit_resource l = Inl ResourceCapacity \<longleftrightarrow> admitted (admit_resource l) = None"
    and "open_operation l = Inl OperationCapacity \<longleftrightarrow> admitted (open_operation l) = None"
    by (auto simp: admit_resource_def open_operation_def admitted_def split: option.splits)
  ultimately show ?thesis
    using run [OF assms] resources.saturated_iff [of l] operations.saturated_iff [of l]
    by (simp add: admission_ledger_new_def MAX_LIVE_RESOURCES_def MAX_OPEN_OPERATIONS_def)
qed

theorem admission_classes_independent_witness:
  "admit_resource \<lparr>al_live_resources = 1, al_open_operations = 1\<rparr> \<noteq> Inl ResourceCapacity"
proof -
  have "fold_opt (\<lambda>l x. ledger_step x l) admission_ledger_new
      [AdmitResource, OpenOperation, AdmitResource, DropResource] =
    Some \<lparr>al_live_resources = 1, al_open_operations = 1\<rparr>"
    by (simp add: admission_ledger_new_def ledger_defs MAX_LIVE_RESOURCES_def MAX_OPEN_OPERATIONS_def)
  from admission_classes_independent [OF this] show ?thesis by simp
qed

end
