(* ===== verification/Host_Vault.thy ===== *)
theory Host_Vault
  imports Identifiers
begin

section \<open>The Host credential vault\<close>

text \<open>
  \<open>mcode-config/src/host\_vault\<close>: the document model and its validation (\<open>model.rs\<close>), and the
  command reducer with its optimistic concurrency control (\<open>reducer.rs\<close>, \<open>host\_vault.rs\<close>).
  A document is the decoded one: a secret is its bytes, and the text form (\<open>parser.rs\<close>,
  \<open>serializer.rs\<close>, base64 of the \<open>base64\<close> crate) and the locked file are not modelled. The
  stored vault is therefore an optional document, \<open>None\<close> for a file that does not exist.
\<close>

subsection \<open>Revisions and versions\<close>

definition HOST_VAULT_KIND :: string where "HOST_VAULT_KIND = ''mcode-host-auth''"
definition HOST_VAULT_FORMAT_VERSION :: nat where "HOST_VAULT_FORMAT_VERSION = 1"
definition MAX_ACTIVE_CREDENTIALS :: nat where "MAX_ACTIVE_CREDENTIALS = 64"
definition MAX_CREDENTIALS :: nat where "MAX_CREDENTIALS = 320"
definition MAX_GRANTS :: nat where "MAX_GRANTS = 1024"
definition MAX_SECRET_BYTES :: nat where "MAX_SECRET_BYTES = 8192"

definition vault_revision_new :: "nat \<Rightarrow> config_error + nat" where
  "vault_revision_new v = (if v > i64_max then Inl AuthorityValidation else Inr v)"

definition credential_version_new :: "nat \<Rightarrow> config_error + nat" where
  "credential_version_new v = (if \<not> (1 \<le> v \<and> v \<le> i64_max) then Inl AuthorityValidation else Inr v)"

definition bounded_successor :: "nat \<Rightarrow> config_error + nat" where
  "bounded_successor v =
     ok_or (Option.bind (checked_add 64 v 1) (\<lambda>n. if n \<le> i64_max then Some n else None)) RevisionExhausted"

definition checked_increment :: "nat \<Rightarrow> config_error + nat" where
  "checked_increment v = bounded_successor v"

definition next_revision :: "nat \<Rightarrow> config_error + nat" where
  "next_revision current = bounded_successor current"

definition secret_from_input :: "string \<Rightarrow> config_error + string" where
  "secret_from_input bytes =
     (if \<not> (1 \<le> length bytes \<and> length bytes \<le> MAX_SECRET_BYTES) then Inl AuthorityValidation else Inr bytes)"

subsection \<open>The document (model.rs)\<close>

datatype credential_state = CrActive | CrRevoked

record credential =
  cr_service :: string
  cr_account :: string
  cr_issuer :: string
  cr_auth_schema :: string
  cr_version :: nat
  cr_state :: credential_state
  cr_secret :: "string option"

datatype consumer_family = CProviders | CWeb | CUsage

fun consumer_plugin_family :: "consumer_family \<Rightarrow> plugin_family" where
  "consumer_plugin_family CProviders = Providers"
| "consumer_plugin_family CWeb = Web"
| "consumer_plugin_family CUsage = Usage"

fun consumer_sort_key :: "consumer_family \<Rightarrow> string" where
  "consumer_sort_key CProviders = ''providers''"
| "consumer_sort_key CWeb = ''web''"
| "consumer_sort_key CUsage = ''usage''"

record grant =
  gr_consumer :: consumer_family
  gr_manager :: string
  gr_pack :: string
  gr_operation :: string
  gr_service :: string
  gr_account :: string
  gr_digest :: string

record vault_document =
  vd_format_version :: nat
  vd_kind :: string
  vd_revision :: nat
  vd_credentials :: "credential list"
  vd_grants :: "grant list"

type_synonym credential_id = "string \<times> string"
type_synonym grant_id = "string \<times> string \<times> string \<times> string"

definition credential_key :: "credential \<Rightarrow> credential_id" where
  "credential_key c = (cr_service c, cr_account c)"

definition grant_key :: "grant \<Rightarrow> grant_id" where
  "grant_key g = (consumer_sort_key (gr_consumer g), gr_manager g, gr_pack g, gr_operation g)"

definition validate_grant_coordinates ::
  "consumer_family \<Rightarrow> string \<Rightarrow> string \<Rightarrow> string \<Rightarrow> config_error + unit" where
  "validate_grant_coordinates family manager pack operation =
     (if \<not> vault_is_valid_operation_id operation then Inl AuthorityValidation
      else if manager \<noteq> family_id (consumer_plugin_family family) \<or> \<not> is_valid_portable_id pack
      then Inl AuthorityValidation else Inr ())"

definition validate_grant :: "grant \<Rightarrow> config_error + unit" where
  "validate_grant g =
     and_then (validate_grant_coordinates (gr_consumer g) (gr_manager g) (gr_pack g) (gr_operation g)) (\<lambda>_.
     and_then (validate_local_id (gr_service g)) (\<lambda>_.
     and_then (validate_local_id (gr_account g)) (\<lambda>_.
       if \<not> is_valid_sha256_digest (gr_digest g) then Inl AuthorityValidation else Inr ())))"

text \<open>One turn of the credential loop of \<open>validate\_document\<close>, counting the active ones, and one of
  its grant loop.\<close>

definition check_credential :: "nat \<Rightarrow> credential \<Rightarrow> config_error + nat" where
  "check_credential active c =
     and_then (validate_local_id (cr_service c)) (\<lambda>_.
     and_then (validate_local_id (cr_account c)) (\<lambda>_.
     and_then (validate_local_id (cr_issuer c)) (\<lambda>_.
     and_then (validate_local_id (cr_auth_schema c)) (\<lambda>_.
       case (cr_state c, cr_secret c) of
         (CrActive, Some _) \<Rightarrow> Inr (active + 1)
       | (CrRevoked, None) \<Rightarrow> Inr active
       | _ \<Rightarrow> Inl AuthorityValidation))))"

definition active_for :: "string \<Rightarrow> string \<Rightarrow> credential \<Rightarrow> bool" where
  "active_for service account c \<longleftrightarrow>
     cr_state c = CrActive \<and> cr_service c = service \<and> cr_account c = account"

definition check_grant :: "credential list \<Rightarrow> unit \<Rightarrow> grant \<Rightarrow> config_error + unit" where
  "check_grant cs u g =
     and_then (validate_grant g) (\<lambda>_.
       if length (filter (active_for (gr_service g) (gr_account g)) cs) \<noteq> 1
       then Inl AuthorityValidation else Inr ())"

definition validate_document :: "vault_document \<Rightarrow> config_error + unit" where
  "validate_document d =
     (if vd_format_version d \<noteq> HOST_VAULT_FORMAT_VERSION \<or> vd_kind d \<noteq> HOST_VAULT_KIND \<or>
         vd_revision d > i64_max
      then Inl AuthorityValidation
      else
        and_then (try_fold check_credential 0 (vd_credentials d)) (\<lambda>active.
          if active > MAX_ACTIVE_CREDENTIALS \<or> length (vd_credentials d) > MAX_CREDENTIALS
          then Inl AuthorityValidation
          else if any_window2 (\<lambda>a b. credential_key a \<ge> credential_key b) (vd_credentials d)
          then Inl AuthorityValidation
          else if length (vd_grants d) > MAX_GRANTS then Inl AuthorityValidation
          else
            and_then (try_fold (check_grant (vd_credentials d)) () (vd_grants d)) (\<lambda>_.
              if any_window2 (\<lambda>a b. grant_key a \<ge> grant_key b) (vd_grants d)
              then Inl AuthorityValidation else Inr ())))"

subsection \<open>Commands (reducer.rs)\<close>

datatype expected_vault_state = Absent | Present nat

record mutation_result =
  mr_revision :: nat
  mr_credential_version :: "nat option"

record credential_descriptor =
  de_service :: string
  de_account :: string
  de_issuer :: string
  de_auth_schema :: string

record credential_target =
  ta_descriptor :: credential_descriptor
  ta_expected_version :: nat

record grant_key_input =
  gk_consumer :: consumer_family
  gk_pack :: string
  gk_operation :: string

record grant_approval =
  ga_key :: grant_key_input
  ga_digest :: string

record bind_approval =
  ba_key :: grant_key_input
  ba_target :: credential_target
  ba_digest :: string

record persisted_binding =
  pb_service :: string
  pb_account :: string
  pb_digest :: string

datatype vault_command =
    InitializeEmpty
  | Insert expected_vault_state credential_descriptor string "grant_approval list"
  | Rotate expected_vault_state string string nat string
  | Revoke expected_vault_state string string nat
  | Bind expected_vault_state "bind_approval list"
  | Rebind expected_vault_state grant_key_input persisted_binding credential_target string
  | Unbind expected_vault_state grant_key_input persisted_binding

fun command_expected :: "vault_command \<Rightarrow> expected_vault_state option" where
  "command_expected InitializeEmpty = None"
| "command_expected (Insert e _ _ _) = Some e"
| "command_expected (Rotate e _ _ _ _) = Some e"
| "command_expected (Revoke e _ _ _) = Some e"
| "command_expected (Bind e _) = Some e"
| "command_expected (Rebind e _ _ _ _) = Some e"
| "command_expected (Unbind e _ _) = Some e"

fun can_create :: "vault_command \<Rightarrow> bool" where
  "can_create InitializeEmpty = True"
| "can_create (Insert _ _ _ _) = True"
| "can_create _ = False"

definition empty_document :: vault_document where
  "empty_document =
     \<lparr>vd_format_version = HOST_VAULT_FORMAT_VERSION, vd_kind = HOST_VAULT_KIND, vd_revision = 0,
      vd_credentials = [], vd_grants = []\<rparr>"

definition compare_outer :: "bool \<Rightarrow> nat \<Rightarrow> expected_vault_state \<Rightarrow> config_error + unit" where
  "compare_outer present actual expected =
     (let matches = (case expected of Absent \<Rightarrow> \<not> present | Present r \<Rightarrow> present \<and> actual = r) in
      if matches then Inr () else Inl RevisionConflict)"

definition input_grant_tuple :: "grant_key_input \<Rightarrow> grant_id" where
  "input_grant_tuple k =
     (consumer_sort_key (gk_consumer k), family_id (consumer_plugin_family (gk_consumer k)),
      gk_pack k, gk_operation k)"

definition find_credential :: "vault_document \<Rightarrow> string \<Rightarrow> string \<Rightarrow> nat + nat" where
  "find_credential d service account =
     binary_search_by (\<lambda>c. cmp (cr_service c, cr_account c) (service, account)) (vd_credentials d)"

definition find_grant :: "vault_document \<Rightarrow> grant_key_input \<Rightarrow> nat + nat" where
  "find_grant d k = binary_search_by (\<lambda>g. cmp (grant_key g) (input_grant_tuple k)) (vd_grants d)"

definition active_credential_index ::
  "vault_document \<Rightarrow> string \<Rightarrow> string \<Rightarrow> nat \<Rightarrow> config_error + nat" where
  "active_credential_index d service account version =
     (case find_credential d service account of
        Inl _ \<Rightarrow> Inl RevisionConflict
      | Inr i \<Rightarrow>
          let c = vd_credentials d ! i in
          if cr_state c \<noteq> CrActive \<or> cr_version c \<noteq> version then Inl RevisionConflict else Inr i)"

definition exact_active_credential :: "vault_document \<Rightarrow> credential_target \<Rightarrow> config_error + nat" where
  "exact_active_credential d t =
     (let de = ta_descriptor t in
      and_then (active_credential_index d (de_service de) (de_account de) (ta_expected_version t)) (\<lambda>i.
        let c = vd_credentials d ! i in
        if cr_issuer c \<noteq> de_issuer de \<or> cr_auth_schema c \<noteq> de_auth_schema de
        then Inl RevisionConflict else Inr i))"

definition ensure_new_grant_keys :: "vault_document \<Rightarrow> grant_key_input list \<Rightarrow> config_error + unit" where
  "ensure_new_grant_keys d ks =
     (let pending = sort_key input_grant_tuple ks in
      if any_window2 (\<lambda>a b. input_grant_tuple a = input_grant_tuple b) pending \<or>
         list_ex (\<lambda>k. is_ok (find_grant d k)) pending
      then Inl RevisionConflict else Inr ())"

definition exact_grant_index ::
  "vault_document \<Rightarrow> grant_key_input \<Rightarrow> persisted_binding \<Rightarrow> config_error + nat" where
  "exact_grant_index d k old =
     (case find_grant d k of
        Inl _ \<Rightarrow> Inl RevisionConflict
      | Inr i \<Rightarrow>
          let g = vd_grants d ! i in
          if gr_service g \<noteq> pb_service old \<or> gr_account g \<noteq> pb_account old \<or> gr_digest g \<noteq> pb_digest old
          then Inl RevisionConflict else Inr i)"

definition validate_descriptor :: "credential_descriptor \<Rightarrow> config_error + unit" where
  "validate_descriptor de =
     and_then (validate_local_id (de_service de)) (\<lambda>_.
     and_then (validate_local_id (de_account de)) (\<lambda>_.
     and_then (validate_local_id (de_issuer de)) (\<lambda>_.
       validate_local_id (de_auth_schema de))))"

definition validate_grant_input :: "grant_key_input \<Rightarrow> config_error + unit" where
  "validate_grant_input k =
     validate_grant_coordinates (gk_consumer k) (family_id (consumer_plugin_family (gk_consumer k)))
       (gk_pack k) (gk_operation k)"

definition validate_binding :: "persisted_binding \<Rightarrow> config_error + unit" where
  "validate_binding b =
     and_then (validate_local_id (pb_service b)) (\<lambda>_. validate_local_id (pb_account b))"

definition owned_grant :: "grant_key_input \<Rightarrow> string \<Rightarrow> string \<Rightarrow> string \<Rightarrow> grant" where
  "owned_grant k service account digest =
     \<lparr>gr_consumer = gk_consumer k, gr_manager = family_id (consumer_plugin_family (gk_consumer k)),
      gr_pack = gk_pack k, gr_operation = gk_operation k, gr_service = service,
      gr_account = account, gr_digest = digest\<rparr>"

definition active_count :: "vault_document \<Rightarrow> nat" where
  "active_count d = length (filter (\<lambda>c. cr_state c = CrActive) (vd_credentials d))"

definition finish_mutation ::
  "vault_document \<Rightarrow> nat \<Rightarrow> nat option \<Rightarrow> config_error + vault_document \<times> mutation_result" where
  "finish_mutation d revision version =
     Inr (d\<lparr>vd_revision := revision,
            vd_credentials := sort_key credential_key (vd_credentials d),
            vd_grants := sort_key grant_key (vd_grants d)\<rparr>,
          \<lparr>mr_revision = revision, mr_credential_version = version\<rparr>)"

definition check_all :: "('a \<Rightarrow> config_error + 'b) \<Rightarrow> 'a list \<Rightarrow> config_error + unit" where
  "check_all f xs = try_fold (\<lambda>_ x. and_then (f x) (\<lambda>_. Inr ())) () xs"

definition insert ::
  "vault_document \<Rightarrow> credential_descriptor \<Rightarrow> string \<Rightarrow> grant_approval list \<Rightarrow>
   config_error + vault_document \<times> mutation_result" where
  "insert d de secret approvals =
     (if length approvals > MAX_GRANTS then Inl AuthorityValidation
      else if is_ok (find_credential d (de_service de) (de_account de)) then Inl RevisionConflict
      else
        and_then (ensure_new_grant_keys d (map ga_key approvals)) (\<lambda>_.
        and_then (validate_descriptor de) (\<lambda>_.
        and_then (secret_from_input secret) (\<lambda>secret.
        and_then (check_all (\<lambda>a. validate_grant_input (ga_key a)) approvals) (\<lambda>_.
          if length approvals > MAX_GRANTS - length (vd_grants d) \<or>
             active_count d \<ge> MAX_ACTIVE_CREDENTIALS \<or>
             length (vd_credentials d) \<ge> MAX_CREDENTIALS
          then Inl AuthorityValidation
          else
            and_then (next_revision (vd_revision d)) (\<lambda>revision.
              let c = \<lparr>cr_service = de_service de, cr_account = de_account de, cr_issuer = de_issuer de,
                       cr_auth_schema = de_auth_schema de, cr_version = 1, cr_state = CrActive,
                       cr_secret = Some secret\<rparr>;
                  gs = map (\<lambda>a. owned_grant (ga_key a) (de_service de) (de_account de) (ga_digest a)) approvals
              in finish_mutation (d\<lparr>vd_credentials := vd_credentials d @ [c], vd_grants := vd_grants d @ gs\<rparr>)
                   revision (Some 1)))))))"

definition rotate ::
  "vault_document \<Rightarrow> string \<Rightarrow> string \<Rightarrow> nat \<Rightarrow> string \<Rightarrow>
   config_error + vault_document \<times> mutation_result" where
  "rotate d service account expected secret =
     and_then (active_credential_index d service account expected) (\<lambda>i.
     and_then (secret_from_input secret) (\<lambda>secret.
     and_then (checked_increment (cr_version (vd_credentials d ! i))) (\<lambda>version.
     and_then (next_revision (vd_revision d)) (\<lambda>revision.
       let c = (vd_credentials d ! i)\<lparr>cr_version := version, cr_secret := Some secret\<rparr> in
       finish_mutation (d\<lparr>vd_credentials := (vd_credentials d)[i := c]\<rparr>) revision (Some version)))))"

definition revoke ::
  "vault_document \<Rightarrow> string \<Rightarrow> string \<Rightarrow> nat \<Rightarrow> config_error + vault_document \<times> mutation_result" where
  "revoke d service account expected =
     and_then (active_credential_index d service account expected) (\<lambda>i.
     and_then (checked_increment (cr_version (vd_credentials d ! i))) (\<lambda>version.
     and_then (next_revision (vd_revision d)) (\<lambda>revision.
       let c = (vd_credentials d ! i)\<lparr>cr_version := version, cr_state := CrRevoked, cr_secret := None\<rparr> in
       finish_mutation
         (d\<lparr>vd_credentials := (vd_credentials d)[i := c],
            vd_grants := filter (\<lambda>g. gr_service g \<noteq> service \<or> gr_account g \<noteq> account) (vd_grants d)\<rparr>)
         revision (Some version))))"

definition bind :: "vault_document \<Rightarrow> bind_approval list \<Rightarrow> config_error + vault_document \<times> mutation_result" where
  "bind d approvals =
     (if approvals = [] \<or> length approvals > MAX_GRANTS then Inl AuthorityValidation
      else
        and_then (ensure_new_grant_keys d (map ba_key approvals)) (\<lambda>_.
        and_then (check_all (\<lambda>a. exact_active_credential d (ba_target a)) approvals) (\<lambda>_.
        and_then (check_all (\<lambda>a. and_then (validate_grant_input (ba_key a)) (\<lambda>_.
                    validate_descriptor (ta_descriptor (ba_target a)))) approvals) (\<lambda>_.
          if length approvals > MAX_GRANTS - length (vd_grants d) then Inl AuthorityValidation
          else
            and_then (next_revision (vd_revision d)) (\<lambda>revision.
              let gs = map (\<lambda>a. owned_grant (ba_key a) (de_service (ta_descriptor (ba_target a)))
                              (de_account (ta_descriptor (ba_target a))) (ba_digest a)) approvals
              in finish_mutation (d\<lparr>vd_grants := vd_grants d @ gs\<rparr>) revision None)))))"

definition rebind ::
  "vault_document \<Rightarrow> grant_key_input \<Rightarrow> persisted_binding \<Rightarrow> credential_target \<Rightarrow> string \<Rightarrow>
   config_error + vault_document \<times> mutation_result" where
  "rebind d k old replacement digest =
     and_then (exact_grant_index d k old) (\<lambda>i.
     and_then (exact_active_credential d replacement) (\<lambda>_.
     and_then (validate_grant_input k) (\<lambda>_.
     and_then (validate_binding old) (\<lambda>_.
     and_then (validate_descriptor (ta_descriptor replacement)) (\<lambda>_.
     and_then (next_revision (vd_revision d)) (\<lambda>revision.
       let g = (vd_grants d ! i)\<lparr>gr_service := de_service (ta_descriptor replacement),
                 gr_account := de_account (ta_descriptor replacement), gr_digest := digest\<rparr>
       in finish_mutation (d\<lparr>vd_grants := (vd_grants d)[i := g]\<rparr>) revision None))))))"

definition unbind ::
  "vault_document \<Rightarrow> grant_key_input \<Rightarrow> persisted_binding \<Rightarrow>
   config_error + vault_document \<times> mutation_result" where
  "unbind d k old =
     and_then (exact_grant_index d k old) (\<lambda>i.
     and_then (validate_grant_input k) (\<lambda>_.
     and_then (validate_binding old) (\<lambda>_.
     and_then (next_revision (vd_revision d)) (\<lambda>revision.
       finish_mutation (d\<lparr>vd_grants := remove_at i (vd_grants d)\<rparr>) revision None))))"

fun apply_command :: "vault_document \<Rightarrow> vault_command \<Rightarrow> config_error + vault_document \<times> mutation_result" where
  "apply_command d InitializeEmpty = Inr (d, \<lparr>mr_revision = 0, mr_credential_version = None\<rparr>)"
| "apply_command d (Insert _ de secret approvals) = insert d de secret approvals"
| "apply_command d (Rotate _ service account v secret) = rotate d service account v secret"
| "apply_command d (Revoke _ service account v) = revoke d service account v"
| "apply_command d (Bind _ approvals) = bind d approvals"
| "apply_command d (Rebind _ k old replacement digest) = rebind d k old replacement digest"
| "apply_command d (Unbind _ k old) = unbind d k old"

text \<open>\<open>persist\_command\<close> on the stored document: the new stored document and the result, or the error
  that leaves the file alone. A stored document is one that \<open>parse\_vault\<close> accepted.\<close>

definition stored :: "vault_document option \<Rightarrow> vault_document" where
  "stored current = (case current of Some d \<Rightarrow> d | None \<Rightarrow> empty_document)"

definition outer_check :: "vault_document option \<Rightarrow> vault_command \<Rightarrow> config_error + unit" where
  "outer_check current command =
     (case command_expected command of
        Some expected \<Rightarrow> compare_outer (current \<noteq> None) (vd_revision (stored current)) expected
      | None \<Rightarrow> if current \<noteq> None then Inl RevisionConflict else Inr ())"

definition persist_command ::
  "vault_document option \<Rightarrow> vault_command \<Rightarrow> config_error + vault_document \<times> mutation_result" where
  "persist_command current command =
     and_then (outer_check current command) (\<lambda>_.
       if current = None \<and> \<not> can_create command then Inl RevisionConflict
       else
         and_then (apply_command (stored current) command) (\<lambda>(d, r).
         and_then (validate_document d) (\<lambda>_. Inr (d, r))))"

definition persist_step :: "vault_document option \<Rightarrow> vault_command \<Rightarrow> vault_document option" where
  "persist_step current command =
     (case persist_command current command of Inl _ \<Rightarrow> current | Inr (d, _) \<Rightarrow> Some d)"

section \<open>Valid documents\<close>

lemma no_window_sorted:
  fixes key :: "'a \<Rightarrow> 'k::linorder"
  shows "\<not> any_window2 (\<lambda>a b. key a \<ge> key b) xs \<longleftrightarrow> sorted_wrt (<) (map key xs)"
proof (induction xs rule: induct_list012)
  case (3 x y zs)
  then show ?case by (auto simp: not_le intro: less_trans)
qed simp_all

lemma window_sorted:
  fixes key :: "'a \<Rightarrow> 'k::linorder"
  shows "any_window2 (\<lambda>a b. key b \<le> key a) xs \<longleftrightarrow> \<not> sorted_wrt (<) (map key xs)"
  using no_window_sorted [of key xs] by blast
lemma check_all_Inr: "check_all f xs = Inr () \<longleftrightarrow> (\<forall>x\<in>set xs. is_ok (f x))"
  by (induction xs) (auto simp: check_all_def is_ok_iff)

definition credential_ok :: "credential \<Rightarrow> bool" where
  "credential_ok c \<longleftrightarrow>
     (\<forall>s\<in>{cr_service c, cr_account c, cr_issuer c, cr_auth_schema c}. validate_local_id s = Inr ()) \<and>
     (cr_state c = CrActive \<longleftrightarrow> cr_secret c \<noteq> None)"

definition live_ids :: "credential list \<Rightarrow> credential_id set" where
  "live_ids cs = credential_key ` {c \<in> set cs. cr_state c = CrActive}"

definition credentials_ok :: "credential list \<Rightarrow> bool" where
  "credentials_ok cs \<longleftrightarrow> (\<forall>c\<in>set cs. credential_ok c) \<and>
     length (filter (\<lambda>c. cr_state c = CrActive) cs) \<le> MAX_ACTIVE_CREDENTIALS \<and>
     length cs \<le> MAX_CREDENTIALS \<and> sorted_wrt (<) (map credential_key cs)"

definition grants_ok :: "credential_id set \<Rightarrow> grant list \<Rightarrow> bool" where
  "grants_ok live gs \<longleftrightarrow> length gs \<le> MAX_GRANTS \<and> sorted_wrt (<) (map grant_key gs) \<and>
     (\<forall>g\<in>set gs. validate_grant g = Inr () \<and> (gr_service g, gr_account g) \<in> live)"

definition document_ok :: "vault_document \<Rightarrow> bool" where
  "document_ok d \<longleftrightarrow> vd_format_version d = HOST_VAULT_FORMAT_VERSION \<and> vd_kind d = HOST_VAULT_KIND \<and>
     vd_revision d \<le> i64_max \<and> credentials_ok (vd_credentials d) \<and>
     grants_ok (live_ids (vd_credentials d)) (vd_grants d)"

lemma check_credential_Inr:
  "check_credential n c = Inr m \<longleftrightarrow>
     credential_ok c \<and> m = (if cr_state c = CrActive then n + 1 else n)"
  by (auto simp: check_credential_def credential_ok_def split: credential_state.splits option.splits)

lemma check_credentials_Inr:
  "try_fold check_credential n cs = Inr m \<longleftrightarrow>
     (\<forall>c\<in>set cs. credential_ok c) \<and> m = n + length (filter (\<lambda>c. cr_state c = CrActive) cs)"
  by (induction cs arbitrary: n) (auto simp: check_credential_Inr)

lemma one_active:
  assumes "sorted_wrt (<) (map credential_key cs)"
  shows "length (filter (active_for s a) cs) = 1 \<longleftrightarrow> (s, a) \<in> live_ids cs"
proof -
  have "distinct (map credential_key cs)" using assms by (simp add: strict_sorted_iff)
  then have "length (filter (\<lambda>c. credential_key c = (s, a)) cs) \<le> 1"
    by (induction cs) (auto simp: image_iff filter_empty_conv)
  moreover have "filter (active_for s a) cs =
      filter (\<lambda>c. cr_state c = CrActive) (filter (\<lambda>c. credential_key c = (s, a)) cs)"
    by (auto simp: active_for_def credential_key_def intro: filter_cong)
  ultimately have "length (filter (active_for s a) cs) \<le> 1"
    by (metis length_filter_le order_trans)
  then have "length (filter (active_for s a) cs) = 1 \<longleftrightarrow> filter (active_for s a) cs \<noteq> []"
    by (cases "filter (active_for s a) cs") auto
  then show ?thesis
    by (auto simp: filter_empty_conv live_ids_def active_for_def credential_key_def image_iff)
qed

lemma check_grants_Inr:
  assumes "sorted_wrt (<) (map credential_key cs)"
  shows "try_fold (check_grant cs) u gs = Inr () \<longleftrightarrow>
    (\<forall>g\<in>set gs. validate_grant g = Inr () \<and> (gr_service g, gr_account g) \<in> live_ids cs)"
proof (induction gs)
  case (Cons g gs)
  have "check_grant cs u g = Inr () \<longleftrightarrow>
      validate_grant g = Inr () \<and> (gr_service g, gr_account g) \<in> live_ids cs"
    unfolding check_grant_def one_active [OF assms, symmetric] by auto
  with Cons.IH show ?case by auto
qed simp

lemma validate_document_iff: "validate_document d = Inr () \<longleftrightarrow> document_ok d"
proof (cases "sorted_wrt (<) (map credential_key (vd_credentials d))")
  case True
  then show ?thesis
    by (auto simp: validate_document_def document_ok_def credentials_ok_def grants_ok_def
        window_sorted check_credentials_Inr check_grants_Inr)
next
  case False
  then show ?thesis
    by (auto simp: validate_document_def document_ok_def credentials_ok_def window_sorted)
qed

subsection \<open>The two sorted tables\<close>

interpretation credentials: sorted_table credential_key
  "\<lambda>cs k. find_credential (empty_document\<lparr>vd_credentials := cs\<rparr>) (fst k) (snd k)"
  by unfold_locales (simp add: find_credential_def credential_key_def)

interpretation grants: sorted_table grant_key
  "\<lambda>gs k. binary_search_by (\<lambda>g. cmp (grant_key g) k) gs"
  by unfold_locales simp

lemma find_credential_table:
  "find_credential d s a = find_credential (empty_document\<lparr>vd_credentials := vd_credentials d\<rparr>) (fst (s, a)) (snd (s, a))"
  by (simp add: find_credential_def)

lemma document_ok_sorted:
  assumes "document_ok d"
  shows "sorted_wrt (<) (map credential_key (vd_credentials d))"
    and "sorted_wrt (<) (map grant_key (vd_grants d))"
  using assms by (simp_all add: document_ok_def credentials_ok_def grants_ok_def)

lemma find_credential_ok:
  assumes "document_ok d"
  shows "is_ok (find_credential d s a) \<longleftrightarrow> (s, a) \<in> credential_key ` set (vd_credentials d)"
  by (subst find_credential_table) (rule credentials.is_ok_find [OF document_ok_sorted(1) [OF assms]])

lemma find_grant_ok:
  assumes "document_ok d"
  shows "is_ok (find_grant d k) \<longleftrightarrow> input_grant_tuple k \<in> grant_key ` set (vd_grants d)"
  unfolding find_grant_def by (rule grants.is_ok_find [OF document_ok_sorted(2) [OF assms]])

lemma active_credential_index_Inr:
  assumes "document_ok d" and "active_credential_index d s a v = Inr i"
  shows "i < length (vd_credentials d)" and "credential_key (vd_credentials d ! i) = (s, a)"
    and "cr_state (vd_credentials d ! i) = CrActive" and "cr_version (vd_credentials d ! i) = v"
    and "(s, a) \<in> live_ids (vd_credentials d)"
proof -
  have "find_credential d s a = Inr i"
    using assms(2) by (auto simp: active_credential_index_def Let_def split: sum.splits if_splits)
  then have f: "find_credential (empty_document\<lparr>vd_credentials := vd_credentials d\<rparr>) (fst (s, a)) (snd (s, a)) = Inr i"
    by (rule trans [OF find_credential_table [symmetric]])
  from credentials.find_Inr [OF document_ok_sorted(1) [OF assms(1)] f]
  show i: "i < length (vd_credentials d)" and k: "credential_key (vd_credentials d ! i) = (s, a)" by auto
  show act: "cr_state (vd_credentials d ! i) = CrActive" and "cr_version (vd_credentials d ! i) = v"
    using assms(2) by (auto simp: active_credential_index_def Let_def split: sum.splits if_splits)
  show "(s, a) \<in> live_ids (vd_credentials d)"
    using i k act by (force simp: live_ids_def image_iff)
qed

lemma exact_active_credential_live:
  assumes "document_ok d" and "is_ok (exact_active_credential d t)"
  shows "(de_service (ta_descriptor t), de_account (ta_descriptor t)) \<in> live_ids (vd_credentials d)"
  using assms active_credential_index_Inr(5) by (auto simp: exact_active_credential_def is_ok_iff Let_def)

lemma exact_grant_index_Inr:
  assumes "document_ok d" and "exact_grant_index d k old = Inr i"
  shows "i < length (vd_grants d)" and "grant_key (vd_grants d ! i) = input_grant_tuple k"
proof -
  have "find_grant d k = Inr i"
    using assms(2) by (auto simp: exact_grant_index_def Let_def split: sum.splits if_splits)
  then show "i < length (vd_grants d)" and "grant_key (vd_grants d ! i) = input_grant_tuple k"
    using grants.find_Inr [OF document_ok_sorted(2) [OF assms(1)]] by (auto simp: find_grant_def)
qed

lemma owned_grant_key [simp]: "grant_key (owned_grant k s a dg) = input_grant_tuple k"
  by (simp add: owned_grant_def grant_key_def input_grant_tuple_def)

lemma owned_grant_binding [simp]:
  "gr_service (owned_grant k s a dg) = s" "gr_account (owned_grant k s a dg) = a"
  "gr_digest (owned_grant k s a dg) = dg"
  by (simp_all add: owned_grant_def)

lemma any_window2_adjacent:
  assumes "sorted (map f xs)" and "\<not> any_window2 (\<lambda>a b. f a = f b) xs"
  shows "distinct (map f xs)"
  using assms
proof (induction xs rule: induct_list012)
  case (3 x y zs)
  then have "f x < f y" by (auto simp: less_le)
  with 3 show ?case by (auto simp: image_iff dest: not_le_imp_less)
qed simp_all

lemma ensure_new_grant_keys_Inr:
  assumes "document_ok d" and "ensure_new_grant_keys d ks = Inr ()"
  shows "distinct (map input_grant_tuple ks)"
    and "grant_key ` set (vd_grants d) \<inter> input_grant_tuple ` set ks = {}"
proof -
  have "\<not> any_window2 (\<lambda>a b. input_grant_tuple a = input_grant_tuple b) (sort_key input_grant_tuple ks)"
    and new: "\<not> list_ex (\<lambda>k. is_ok (find_grant d k)) (sort_key input_grant_tuple ks)"
    using assms(2) by (auto simp: ensure_new_grant_keys_def Let_def split: if_splits)
  then have "distinct (map input_grant_tuple (sort_key input_grant_tuple ks))"
    by (intro any_window2_adjacent) simp_all
  then show "distinct (map input_grant_tuple ks)"
    by (metis distinct_map distinct_sort set_sort)
  show "grant_key ` set (vd_grants d) \<inter> input_grant_tuple ` set ks = {}"
    using new by (auto simp: list_ex_iff find_grant_ok [OF assms(1)])
qed

lemma validate_descriptor_Inr:
  "validate_descriptor de = Inr () \<longleftrightarrow>
    (\<forall>s\<in>{de_service de, de_account de, de_issuer de, de_auth_schema de}. validate_local_id s = Inr ())"
  by (auto simp: validate_descriptor_def)

lemma validate_owned_grant:
  assumes "validate_grant_input k = Inr ()" and "validate_local_id s = Inr ()" and "validate_local_id a = Inr ()"
    and "is_valid_sha256_digest dg"
  shows "validate_grant (owned_grant k s a dg) = Inr ()"
  using assms by (simp add: validate_grant_def owned_grant_def validate_grant_input_def)

lemma next_revision_Inr: "next_revision r = Inr n \<longleftrightarrow> n = r + 1 \<and> n \<le> i64_max"
  using i64_max_lt
  by (auto simp: next_revision_def bounded_successor_def bind_eq_Some_conv split: if_splits)

lemma checked_increment_Inr: "checked_increment r = Inr n \<longleftrightarrow> n = r + 1 \<and> n \<le> i64_max"
  using next_revision_Inr by (simp add: checked_increment_def next_revision_def)

lemma live_ids_sort [simp]: "live_ids (sort_key f cs) = live_ids cs"
  by (simp add: live_ids_def)

lemma credentials_ok_sort:
  assumes "\<forall>c\<in>set cs. credential_ok c"
    and "length (filter (\<lambda>c. cr_state c = CrActive) cs) \<le> MAX_ACTIVE_CREDENTIALS"
    and "length cs \<le> MAX_CREDENTIALS" and "sorted_wrt (<) (map credential_key (sort_key credential_key cs))"
  shows "credentials_ok (sort_key credential_key cs)"
  using assms by (simp add: credentials_ok_def filter_sort)

lemma grants_ok_sort:
  assumes "\<forall>g\<in>set gs. validate_grant g = Inr () \<and> (gr_service g, gr_account g) \<in> live"
    and "length gs \<le> MAX_GRANTS" and "sorted_wrt (<) (map grant_key (sort_key grant_key gs))"
  shows "grants_ok live (sort_key grant_key gs)"
  using assms by (simp add: grants_ok_def)

lemma credentials_ok_sort_same:
  assumes "credentials_ok cs" shows "sort_key credential_key cs = cs"
  using assms by (intro credentials.sort_same) (simp add: credentials_ok_def)

lemma grants_ok_sort_same:
  assumes "grants_ok live gs" shows "sort_key grant_key gs = gs"
  using assms by (intro grants.sort_same) (simp add: grants_ok_def)

lemma live_ids_append: "live_ids (xs @ ys) = live_ids xs \<union> live_ids ys"
  by (auto simp: live_ids_def)

lemma live_ids_Cons: "live_ids (c # cs) =
    (if cr_state c = CrActive then Set.insert (credential_key c) (live_ids cs) else live_ids cs)"
  by (auto simp: live_ids_def)

lemma live_ids_Nil: "live_ids [] = {}"
  by (simp add: live_ids_def)

subsection \<open>Every command keeps the document valid\<close>

text \<open>A digest in a command is a \<open>Sha256Digest\<close>, which its constructor has validated.\<close>

fun command_typed :: "vault_command \<Rightarrow> bool" where
  "command_typed (Insert _ _ _ approvals) = list_all (\<lambda>a. is_valid_sha256_digest (ga_digest a)) approvals"
| "command_typed (Bind _ approvals) = list_all (\<lambda>a. is_valid_sha256_digest (ba_digest a)) approvals"
| "command_typed (Rebind _ _ _ _ digest) = is_valid_sha256_digest digest"
| "command_typed _ = True"

lemma finish_mutation_ok:
  assumes "finish_mutation d' revision v = Inr (d'', r)" and "document_ok d"
    and "vd_format_version d' = vd_format_version d" and "vd_kind d' = vd_kind d"
    and "revision \<le> i64_max" and "credentials_ok (sort_key credential_key (vd_credentials d'))"
    and "grants_ok (live_ids (vd_credentials d')) (sort_key grant_key (vd_grants d'))"
  shows "document_ok d''"
  using assms by (auto simp: finish_mutation_def document_ok_def)

lemma insert_ok:
  assumes ok: "document_ok d" and typed: "list_all (\<lambda>a. is_valid_sha256_digest (ga_digest a)) approvals"
    and res: "insert d de secret approvals = Inr (d', r)"
  shows "document_ok d'"
proof -
  let ?c = "\<lambda>secret. \<lparr>cr_service = de_service de, cr_account = de_account de, cr_issuer = de_issuer de,
    cr_auth_schema = de_auth_schema de, cr_version = 1, cr_state = CrActive, cr_secret = Some secret\<rparr>"
  let ?gs = "map (\<lambda>a. owned_grant (ga_key a) (de_service de) (de_account de) (ga_digest a)) approvals"
  from res obtain s revision where
    new: "\<not> is_ok (find_credential d (de_service de) (de_account de))" and
    keys: "ensure_new_grant_keys d (map ga_key approvals) = Inr ()" and
    de: "validate_descriptor de = Inr ()" and
    inp: "check_all (\<lambda>a. validate_grant_input (ga_key a)) approvals = Inr ()" and
    room: "length approvals \<le> MAX_GRANTS - length (vd_grants d)" "active_count d < MAX_ACTIVE_CREDENTIALS"
      "length (vd_credentials d) < MAX_CREDENTIALS" and
    rev: "next_revision (vd_revision d) = Inr revision" and
    fin: "finish_mutation (d\<lparr>vd_credentials := vd_credentials d @ [?c s], vd_grants := vd_grants d @ ?gs\<rparr>)
      revision (Some 1) = Inr (d', r)"
    by (auto simp: insert_def Let_def not_le not_less split: if_splits)
  note cs = ok [unfolded document_ok_def credentials_ok_def grants_ok_def]
  note nk = ensure_new_grant_keys_Inr [OF ok keys]
  have live: "live_ids (vd_credentials d @ [?c s]) =
      Set.insert (de_service de, de_account de) (live_ids (vd_credentials d))"
    by (simp add: live_ids_append live_ids_Cons live_ids_Nil credential_key_def)
  have "sorted_wrt (<) (map credential_key (sort_key credential_key (vd_credentials d @ [?c s])))"
    using new by (intro credentials.sort_insert document_ok_sorted(1) [OF ok])
      (auto simp: find_credential_ok [OF ok] credential_key_def)
  then have c': "credentials_ok (sort_key credential_key (vd_credentials d @ [?c s]))"
    using cs de room by (intro credentials_ok_sort)
      (auto simp: credential_ok_def validate_descriptor_Inr active_count_def)
  have "sorted_wrt (<) (map grant_key (sort_key grant_key (vd_grants d @ ?gs)))"
    using nk by (intro grants.sort_insert document_ok_sorted(2) [OF ok]) (auto simp: comp_def image_image)
  moreover have "validate_grant g = Inr ()" if "g \<in> set ?gs" for g
    using that inp de typed by (auto simp: check_all_Inr is_ok_iff validate_descriptor_Inr list_all_iff
        intro!: validate_owned_grant)
  ultimately have g': "grants_ok (live_ids (vd_credentials d @ [?c s])) (sort_key grant_key (vd_grants d @ ?gs))"
    using cs room unfolding live by (intro grants_ok_sort) (auto simp: owned_grant_def)
  from fin show ?thesis
    by (rule finish_mutation_ok [OF _ ok]) (use rev c' g' in \<open>auto simp: next_revision_Inr\<close>)
qed

lemma update_active_ok:
  assumes ok: "document_ok d" and i: "i < length (vd_credentials d)"
    and key: "credential_key c = credential_key (vd_credentials d ! i)"
    and "cr_issuer c = cr_issuer (vd_credentials d ! i)"
    and "cr_auth_schema c = cr_auth_schema (vd_credentials d ! i)"
    and st: "cr_state c = CrActive \<longleftrightarrow> cr_secret c \<noteq> None"
    and old: "cr_state (vd_credentials d ! i) = CrActive"
  shows "credentials_ok ((vd_credentials d)[i := c])"
proof -
  note cs = ok [unfolded document_ok_def credentials_ok_def]
  have "credential_ok (vd_credentials d ! i)" using cs i nth_mem by blast
  then have "credential_ok c" using assms(3-6) by (simp add: credential_ok_def credential_key_def)
  moreover have "length (filter (\<lambda>c. cr_state c = CrActive) ((vd_credentials d)[i := c])) \<le>
      length (filter (\<lambda>c. cr_state c = CrActive) (vd_credentials d))"
    using length_filter_update [OF i, of "\<lambda>c. cr_state c = CrActive" c] old by (simp split: if_splits)
  moreover have "sorted_wrt (<) (map credential_key ((vd_credentials d)[i := c]))"
    using cs i key by (intro credentials.sorted_update) simp_all
  ultimately show ?thesis
    using cs set_update_subset_insert [of "vd_credentials d" i c] unfolding credentials_ok_def by auto
qed

lemma live_ids_update:
  assumes "sorted_wrt (<) (map credential_key cs)" and "i < length cs" and "cr_state (cs ! i) = CrActive"
    and "credential_key c = credential_key (cs ! i)"
  shows "live_ids (cs[i := c]) =
    (if cr_state c = CrActive then live_ids cs else live_ids cs - {credential_key (cs ! i)})"
proof -
  let ?k = "credential_key (cs ! i)" and ?A = "take i cs" and ?B = "drop (Suc i) cs"
  have split: "?A @ cs ! i # ?B = cs" using assms(2) by (simp add: id_take_nth_drop [symmetric])
  have "distinct (map credential_key (?A @ cs ! i # ?B))"
    using assms(1) unfolding split by (simp add: strict_sorted_iff)
  then have "?k \<notin> live_ids ?A \<union> live_ids ?B" by (auto simp: live_ids_def)
  moreover have "live_ids (?A @ cs ! i # ?B) = Set.insert ?k (live_ids ?A \<union> live_ids ?B)"
    using assms(3) by (simp add: live_ids_append live_ids_Cons)
  moreover have "live_ids (cs[i := c]) =
      (if cr_state c = CrActive then Set.insert ?k (live_ids ?A \<union> live_ids ?B) else live_ids ?A \<union> live_ids ?B)"
    using assms(2,4) by (simp add: upd_conv_take_nth_drop live_ids_append live_ids_Cons)
  ultimately show ?thesis unfolding split by auto
qed

lemma rotate_ok:
  assumes ok: "document_ok d" and res: "rotate d s a v secret = Inr (d', r)"
  shows "document_ok d'"
proof -
  from res obtain i sec version revision where
    idx: "active_credential_index d s a v = Inr i" and
    rev: "next_revision (vd_revision d) = Inr revision" and
    fin: "finish_mutation (d\<lparr>vd_credentials := (vd_credentials d)
        [i := (vd_credentials d ! i)\<lparr>cr_version := version, cr_secret := Some sec\<rparr>]\<rparr>)
      revision (Some version) = Inr (d', r)"
    by (auto simp: rotate_def Let_def)
  note i = active_credential_index_Inr [OF ok idx]
  let ?c = "(vd_credentials d ! i)\<lparr>cr_version := version, cr_secret := Some sec\<rparr>"
  have c': "credentials_ok ((vd_credentials d)[i := ?c])"
    using i by (intro update_active_ok [OF ok]) (simp_all add: credential_key_def)
  have "live_ids ((vd_credentials d)[i := ?c]) = live_ids (vd_credentials d)"
    using i live_ids_update [OF document_ok_sorted(1) [OF ok], of i ?c] by (simp add: credential_key_def)
  then have "grants_ok (live_ids ((vd_credentials d)[i := ?c])) (vd_grants d)"
    using ok by (simp add: document_ok_def)
  with fin rev c' show ?thesis
    by (elim finish_mutation_ok [OF _ ok])
      (simp_all add: next_revision_Inr credentials_ok_sort_same grants_ok_sort_same)
qed

lemma grants_ok_filter:
  assumes "grants_ok live gs" and "\<And>g. g \<in> set gs \<Longrightarrow> P g \<Longrightarrow> (gr_service g, gr_account g) \<in> live'"
  shows "grants_ok live' (filter P gs)"
  using assms grants.sorted_filter_key [of gs P]
  by (auto simp: grants_ok_def intro: order_trans [OF length_filter_le])

lemma revoke_ok:
  assumes ok: "document_ok d" and res: "revoke d s a v = Inr (d', r)"
  shows "document_ok d'"
proof -
  let ?P = "\<lambda>g. gr_service g \<noteq> s \<or> gr_account g \<noteq> a"
  from res obtain i version revision where
    idx: "active_credential_index d s a v = Inr i" and
    rev: "next_revision (vd_revision d) = Inr revision" and
    fin: "finish_mutation (d\<lparr>vd_credentials := (vd_credentials d)
        [i := (vd_credentials d ! i)\<lparr>cr_version := version, cr_state := CrRevoked, cr_secret := None\<rparr>],
        vd_grants := filter ?P (vd_grants d)\<rparr>) revision (Some version) = Inr (d', r)"
    by (auto simp: revoke_def Let_def)
  note i = active_credential_index_Inr [OF ok idx]
  let ?c = "(vd_credentials d ! i)\<lparr>cr_version := version, cr_state := CrRevoked, cr_secret := None\<rparr>"
  have c': "credentials_ok ((vd_credentials d)[i := ?c])"
    using i by (intro update_active_ok [OF ok]) (simp_all add: credential_key_def)
  have live: "live_ids ((vd_credentials d)[i := ?c]) = live_ids (vd_credentials d) - {(s, a)}"
    using i live_ids_update [OF document_ok_sorted(1) [OF ok], of i ?c] by (simp add: credential_key_def)
  have "grants_ok (live_ids (vd_credentials d)) (vd_grants d)"
    using ok by (simp add: document_ok_def)
  then have "grants_ok (live_ids ((vd_credentials d)[i := ?c])) (filter ?P (vd_grants d))"
    unfolding live by (rule grants_ok_filter) (use ok in \<open>auto simp: document_ok_def grants_ok_def\<close>)
  with fin rev c' show ?thesis
    by (elim finish_mutation_ok [OF _ ok])
      (simp_all add: next_revision_Inr credentials_ok_sort_same grants_ok_sort_same)
qed

lemma bind_ok:
  assumes ok: "document_ok d" and typed: "list_all (\<lambda>a. is_valid_sha256_digest (ba_digest a)) approvals"
    and res: "bind d approvals = Inr (d', r)"
  shows "document_ok d'"
proof -
  let ?gs = "map (\<lambda>a. owned_grant (ba_key a) (de_service (ta_descriptor (ba_target a)))
    (de_account (ta_descriptor (ba_target a))) (ba_digest a)) approvals"
  from res obtain revision where
    keys: "ensure_new_grant_keys d (map ba_key approvals) = Inr ()" and
    act: "check_all (\<lambda>a. exact_active_credential d (ba_target a)) approvals = Inr ()" and
    inp: "check_all (\<lambda>a. and_then (validate_grant_input (ba_key a)) (\<lambda>_.
      validate_descriptor (ta_descriptor (ba_target a)))) approvals = Inr ()" and
    room: "length approvals \<le> MAX_GRANTS - length (vd_grants d)" and
    rev: "next_revision (vd_revision d) = Inr revision" and
    fin: "finish_mutation (d\<lparr>vd_grants := vd_grants d @ ?gs\<rparr>) revision None = Inr (d', r)"
    by (auto simp: bind_def Let_def not_less split: if_splits)
  note nk = ensure_new_grant_keys_Inr [OF ok keys]
  have c': "credentials_ok (vd_credentials d)" using ok by (simp add: document_ok_def)
  have "sorted_wrt (<) (map grant_key (sort_key grant_key (vd_grants d @ ?gs)))"
    using nk by (intro grants.sort_insert document_ok_sorted(2) [OF ok]) (auto simp: comp_def image_image)
  moreover have "validate_grant g = Inr () \<and> (gr_service g, gr_account g) \<in> live_ids (vd_credentials d)"
    if g: "g \<in> set ?gs" for g
  proof -
    from g obtain x where x: "x \<in> set approvals" and gx: "g = owned_grant (ba_key x)
      (de_service (ta_descriptor (ba_target x))) (de_account (ta_descriptor (ba_target x))) (ba_digest x)"
      by auto
    have "validate_grant g = Inr ()"
      using inp x typed unfolding gx
      by (auto simp: check_all_Inr is_ok_iff validate_descriptor_Inr list_all_iff intro!: validate_owned_grant)
    moreover have "is_ok (exact_active_credential d (ba_target x))" using act x by (simp add: check_all_Inr)
    ultimately show ?thesis
      using exact_active_credential_live [OF ok] unfolding gx by (simp add: owned_grant_def)
  qed
  ultimately have g': "grants_ok (live_ids (vd_credentials d)) (sort_key grant_key (vd_grants d @ ?gs))"
    using ok room by (intro grants_ok_sort) (auto simp: document_ok_def grants_ok_def)
  with fin rev c' show ?thesis
    by (elim finish_mutation_ok [OF _ ok]) (simp_all add: next_revision_Inr credentials_ok_sort_same)
qed

lemma rebind_ok:
  assumes ok: "document_ok d" and typed: "is_valid_sha256_digest digest"
    and res: "rebind d k old replacement digest = Inr (d', r)"
  shows "document_ok d'"
proof -
  let ?t = "ta_descriptor replacement"
  from res obtain i j revision where
    idx: "exact_grant_index d k old = Inr i" and
    act: "exact_active_credential d replacement = Inr j" and
    de: "validate_descriptor ?t = Inr ()" and
    rev: "next_revision (vd_revision d) = Inr revision" and
    fin: "finish_mutation (d\<lparr>vd_grants := (vd_grants d)[i := (vd_grants d ! i)
        \<lparr>gr_service := de_service ?t, gr_account := de_account ?t, gr_digest := digest\<rparr>]\<rparr>)
      revision None = Inr (d', r)"
    by (auto simp: rebind_def Let_def)
  let ?g = "(vd_grants d ! i)\<lparr>gr_service := de_service ?t, gr_account := de_account ?t, gr_digest := digest\<rparr>"
  note i = exact_grant_index_Inr [OF ok idx]
  note gs = ok [unfolded document_ok_def grants_ok_def]
  have c': "credentials_ok (vd_credentials d)" using ok by (simp add: document_ok_def)
  have "validate_grant (vd_grants d ! i) = Inr ()" using gs i by simp
  then have "validate_grant ?g = Inr ()"
    using de typed by (auto simp: validate_grant_def validate_descriptor_Inr)
  moreover have "(de_service ?t, de_account ?t) \<in> live_ids (vd_credentials d)"
    using exact_active_credential_live [OF ok] act by simp
  moreover have "sorted_wrt (<) (map grant_key ((vd_grants d)[i := ?g]))"
    using gs i by (intro grants.sorted_update) (simp_all add: grant_key_def)
  ultimately have "grants_ok (live_ids (vd_credentials d)) ((vd_grants d)[i := ?g])"
    using gs set_update_subset_insert [of "vd_grants d" i ?g] by (auto simp: grants_ok_def)
  with fin rev c' show ?thesis
    by (elim finish_mutation_ok [OF _ ok])
      (simp_all add: next_revision_Inr credentials_ok_sort_same grants_ok_sort_same)
qed

lemma unbind_ok:
  assumes ok: "document_ok d" and res: "unbind d k old = Inr (d', r)"
  shows "document_ok d'"
proof -
  from res obtain i revision where
    idx: "exact_grant_index d k old = Inr i" and
    rev: "next_revision (vd_revision d) = Inr revision" and
    fin: "finish_mutation (d\<lparr>vd_grants := remove_at i (vd_grants d)\<rparr>) revision None = Inr (d', r)"
    by (auto simp: unbind_def)
  note i = exact_grant_index_Inr [OF ok idx]
  have c': "credentials_ok (vd_credentials d)" using ok by (simp add: document_ok_def)
  have "grants_ok (live_ids (vd_credentials d)) (remove_at i (vd_grants d))"
    using ok i set_remove_at_subset [of i "vd_grants d"] sorted_wrt_remove_at [of "(<)" grant_key "vd_grants d" i]
    by (auto simp: document_ok_def grants_ok_def length_remove_at)
  with fin rev c' show ?thesis
    by (elim finish_mutation_ok [OF _ ok])
      (simp_all add: next_revision_Inr credentials_ok_sort_same grants_ok_sort_same)
qed

lemma apply_command_ok:
  assumes "document_ok d" and "command_typed c" and "apply_command d c = Inr (d', r)"
  shows "document_ok d'"
proof (cases c)
  case InitializeEmpty
  with assms show ?thesis by simp
next
  case (Insert e de s gs)
  with assms(2,3) show ?thesis by (simp add: insert_ok [OF assms(1), of gs de s d' r])
next
  case (Rotate e s a v x)
  with assms(3) show ?thesis by (simp add: rotate_ok [OF assms(1), of s a v x d' r])
next
  case (Revoke e s a v)
  with assms(3) show ?thesis by (simp add: revoke_ok [OF assms(1), of s a v d' r])
next
  case (Bind e gs)
  with assms(2,3) show ?thesis by (simp add: bind_ok [OF assms(1), of gs d' r])
next
  case (Rebind e k old t digest)
  with assms(2,3) show ?thesis by (simp add: rebind_ok [OF assms(1), of digest k old t d' r])
next
  case (Unbind e k old)
  with assms(3) show ?thesis by (simp add: unbind_ok [OF assms(1), of k old d' r])
qed

lemma empty_document_ok: "document_ok empty_document"
  by (simp add: document_ok_def empty_document_def credentials_ok_def grants_ok_def)

subsection \<open>The vault as two maps\<close>

text \<open>The abstract vault: for each credential id its issuer, schema, version and secret (none once it is
  revoked), for each grant id the credential it is bound to and the approved digest.\<close>

type_synonym credential_map = "credential_id \<rightharpoonup> string \<times> string \<times> nat \<times> string option"
type_synonym grant_map = "grant_id \<rightharpoonup> string \<times> string \<times> string"

definition credential_entry :: "credential \<Rightarrow> credential_id \<times> string \<times> string \<times> nat \<times> string option" where
  "credential_entry c = (credential_key c, cr_issuer c, cr_auth_schema c, cr_version c, cr_secret c)"

definition grant_entry :: "grant \<Rightarrow> grant_id \<times> string \<times> string \<times> string" where
  "grant_entry g = (grant_key g, gr_service g, gr_account g, gr_digest g)"

definition vault_credentials :: "vault_document \<Rightarrow> credential_map" where
  "vault_credentials d = map_of (map credential_entry (vd_credentials d))"

definition vault_grants :: "vault_document \<Rightarrow> grant_map" where
  "vault_grants d = map_of (map grant_entry (vd_grants d))"

definition approved :: "(grant_key_input \<times> string \<times> string \<times> string) list \<Rightarrow> grant_map" where
  "approved xs = map_of (map (\<lambda>(k, b). (input_grant_tuple k, b)) xs)"

definition new_grants :: "grant_map \<Rightarrow> (grant_key_input \<times> string \<times> string \<times> string) list \<Rightarrow> bool" where
  "new_grants grants xs \<longleftrightarrow> distinct (map (\<lambda>x. input_grant_tuple (fst x)) xs) \<and>
     (\<forall>x\<in>set xs. grants (input_grant_tuple (fst x)) = None)"

definition target_live :: "credential_map \<Rightarrow> credential_target \<Rightarrow> bool" where
  "target_live creds t \<longleftrightarrow> (let de = ta_descriptor t in
     \<exists>secret. creds (de_service de, de_account de) =
       Some (de_issuer de, de_auth_schema de, ta_expected_version t, Some secret))"

text \<open>What each command does to the two maps, when it is allowed.\<close>

fun spec_command :: "vault_command \<Rightarrow> credential_map \<times> grant_map \<Rightarrow> (credential_map \<times> grant_map) \<Rightarrow> bool" where
  "spec_command InitializeEmpty (creds, grants) after \<longleftrightarrow> after = (creds, grants)"
| "spec_command (Insert _ de secret approvals) (creds, grants) after \<longleftrightarrow>
     (let id = (de_service de, de_account de);
          new = map (\<lambda>a. (ga_key a, de_service de, de_account de, ga_digest a)) approvals in
      creds id = None \<and> new_grants grants new \<and>
      after = (creds(id \<mapsto> (de_issuer de, de_auth_schema de, 1, Some secret)), grants ++ approved new))"
| "spec_command (Rotate _ s a v secret) (creds, grants) after \<longleftrightarrow>
     (\<exists>iss sch old. creds (s, a) = Some (iss, sch, v, Some old) \<and>
      after = (creds((s, a) \<mapsto> (iss, sch, v + 1, Some secret)), grants))"
| "spec_command (Revoke _ s a v) (creds, grants) after \<longleftrightarrow>
     (\<exists>iss sch old. creds (s, a) = Some (iss, sch, v, Some old) \<and>
      after = (creds((s, a) \<mapsto> (iss, sch, v + 1, None)),
               \<lambda>k. case grants k of Some (s', a', dg) \<Rightarrow> if s' = s \<and> a' = a then None else Some (s', a', dg)
                   | None \<Rightarrow> None))"
| "spec_command (Bind _ approvals) (creds, grants) after \<longleftrightarrow>
     (let new = map (\<lambda>b. (ba_key b, de_service (ta_descriptor (ba_target b)),
                  de_account (ta_descriptor (ba_target b)), ba_digest b)) approvals in
      new_grants grants new \<and> (\<forall>b\<in>set approvals. target_live creds (ba_target b)) \<and>
      after = (creds, grants ++ approved new))"
| "spec_command (Rebind _ k old t digest) (creds, grants) after \<longleftrightarrow>
     grants (input_grant_tuple k) = Some (pb_service old, pb_account old, pb_digest old) \<and>
     target_live creds t \<and>
     after = (creds, grants(input_grant_tuple k \<mapsto>
       (de_service (ta_descriptor t), de_account (ta_descriptor t), digest)))"
| "spec_command (Unbind _ k old) (creds, grants) after \<longleftrightarrow>
     grants (input_grant_tuple k) = Some (pb_service old, pb_account old, pb_digest old) \<and>
     after = (creds, grants(input_grant_tuple k := None))"

lemma map_of_sort_key:
  assumes "distinct (map (\<lambda>x. fst (f x)) xs)"
  shows "map_of (map f (sort_key g xs)) = map_of (map f xs)"
proof (rule map_of_inject_set [THEN iffD2])
  have "distinct (map fst (map f xs))" using assms by (simp add: comp_def)
  then show "distinct (map fst (map f (sort_key g xs)))" and "distinct (map fst (map f xs))"
    by (simp_all add: comp_def) (metis distinct_map distinct_sort set_sort)+
  show "set (map f (sort_key g xs)) = set (map f xs)" by simp
qed

lemma map_of_update_key:
  assumes "distinct (map fst xs)" and "i < length xs" and "fst y = fst (xs ! i)"
  shows "map_of (xs[i := y]) = (map_of xs)(fst (xs ! i) \<mapsto> snd y)"
  using assms
proof (induction xs arbitrary: i)
  case (Cons x xs)
  then show ?case
  proof (cases i)
    case (Suc j)
    with Cons.prems have "xs ! j \<in> set xs" by simp
    with Cons.prems(1) have "fst x \<noteq> fst (xs ! j)" by (auto simp: image_iff)
    with Cons Suc show ?thesis by (cases x) (auto simp: fun_upd_twist)
  qed (cases y; auto)
qed simp

lemma map_of_remove_at:
  assumes "distinct (map fst xs)" and "i < length xs"
  shows "map_of (remove_at i xs) = (map_of xs)(fst (xs ! i) := None)"
  using assms
proof (induction xs arbitrary: i)
  case (Cons x xs)
  show ?case
  proof (cases i)
    case 0
    have "map_of xs (fst x) = None" using Cons.prems(1) by (auto simp: map_of_eq_None_iff)
    with 0 show ?thesis by (cases x) (auto simp: remove_at_def fun_upd_idem)
  next
    case (Suc j)
    with Cons.prems have "xs ! j \<in> set xs" by simp
    with Cons.prems(1) have "fst x \<noteq> fst (xs ! j)" by (auto simp: image_iff)
    moreover have "map_of (remove_at j xs) = (map_of xs)(fst (xs ! j) := None)"
      using Cons Suc by (simp add: fun_upd_def)
    ultimately show ?thesis using Suc by (cases x) (auto simp: remove_at_def fun_upd_twist)
  qed
qed simp

lemma map_of_filter_values:
  assumes "distinct (map fst xs)"
  shows "map_of (filter (\<lambda>x. P (snd x)) xs) k =
    (case map_of xs k of Some v \<Rightarrow> if P v then Some v else None | None \<Rightarrow> None)"
  using assms
proof (induction xs)
  case (Cons x xs)
  then have "map_of xs (fst x) = None" by (auto simp: map_of_eq_None_iff)
  with Cons show ?case by (cases x) auto
qed simp

lemma map_of_append_new:
  assumes "distinct (map fst (xs @ ys))"
  shows "map_of (xs @ ys) = map_of xs ++ map_of ys"
proof -
  have "dom (map_of ys) \<inter> dom (map_of xs) = {}"
    using assms by (auto simp: dom_map_of_conv_image_fst)
  from map_add_comm [OF this] show ?thesis by simp
qed

lemma document_ok_distinct:
  assumes "document_ok d"
  shows "distinct (map fst (map credential_entry (vd_credentials d)))"
    and "distinct (map fst (map grant_entry (vd_grants d)))"
  using document_ok_sorted [OF assms]
  by (simp_all add: comp_def credential_entry_def grant_entry_def strict_sorted_iff)

lemma finish_mutation_maps:
  assumes "finish_mutation d' revision v = Inr (d'', r)"
    and "distinct (map fst (map credential_entry (vd_credentials d')))"
    and "distinct (map fst (map grant_entry (vd_grants d')))"
  shows "vault_credentials d'' = vault_credentials d'" and "vault_grants d'' = vault_grants d'"
    and "vd_revision d'' = revision" and "mr_revision r = revision"
proof -
  have d'': "vd_credentials d'' = sort_key credential_key (vd_credentials d')"
    "vd_grants d'' = sort_key grant_key (vd_grants d')" "vd_revision d'' = revision" "mr_revision r = revision"
    using assms(1) by (auto simp: finish_mutation_def)
  show "vault_credentials d'' = vault_credentials d'"
    using assms(2) unfolding vault_credentials_def d'' by (intro map_of_sort_key) (simp add: comp_def)
  show "vault_grants d'' = vault_grants d'"
    using assms(3) unfolding vault_grants_def d'' by (intro map_of_sort_key) (simp add: comp_def)
  show "vd_revision d'' = revision" "mr_revision r = revision" using d'' by simp_all
qed

lemma vault_credentials_nth:
  assumes "document_ok d" and "i < length (vd_credentials d)"
  shows "vault_credentials d (credential_key (vd_credentials d ! i)) =
    Some (snd (credential_entry (vd_credentials d ! i)))"
  using assms(2) document_ok_distinct(1) [OF assms(1)] unfolding vault_credentials_def
  by (intro map_of_is_SomeI) (auto simp: credential_entry_def)

lemma vault_grants_nth:
  assumes "document_ok d" and "i < length (vd_grants d)"
  shows "vault_grants d (grant_key (vd_grants d ! i)) = Some (snd (grant_entry (vd_grants d ! i)))"
  using assms(2) document_ok_distinct(2) [OF assms(1)] unfolding vault_grants_def
  by (intro map_of_is_SomeI) (auto simp: grant_entry_def)

lemma active_credential_entry:
  assumes ok: "document_ok d" and idx: "active_credential_index d s a v = Inr i"
  shows "\<exists>secret. vault_credentials d (s, a) =
    Some (cr_issuer (vd_credentials d ! i), cr_auth_schema (vd_credentials d ! i), v, Some secret)"
proof -
  note i = active_credential_index_Inr [OF ok idx]
  have "credential_ok (vd_credentials d ! i)"
    using ok i(1) nth_mem by (fastforce simp: document_ok_def credentials_ok_def)
  then obtain secret where "cr_secret (vd_credentials d ! i) = Some secret"
    using i(3) by (auto simp: credential_ok_def)
  with vault_credentials_nth [OF ok i(1)] i show ?thesis by (simp add: credential_entry_def)
qed

lemma exact_active_target:
  assumes "document_ok d" and "is_ok (exact_active_credential d t)"
  shows "target_live (vault_credentials d) t"
  using assms active_credential_entry [OF assms(1)]
  by (fastforce simp: exact_active_credential_def is_ok_iff Let_def target_live_def split: if_splits)

lemma exact_grant_entry:
  assumes ok: "document_ok d" and idx: "exact_grant_index d k old = Inr i"
  shows "vault_grants d (input_grant_tuple k) = Some (pb_service old, pb_account old, pb_digest old)"
proof -
  note i = exact_grant_index_Inr [OF ok idx]
  from vault_grants_nth [OF ok i(1)] i(2) idx show ?thesis
    by (auto simp: grant_entry_def exact_grant_index_def Let_def split: sum.splits if_splits)
qed

lemma vault_grants_none: "k \<notin> grant_key ` set (vd_grants d) \<Longrightarrow> vault_grants d k = None"
  by (auto simp: vault_grants_def map_of_eq_None_iff grant_entry_def)

lemma vault_grants_append:
  assumes ok: "document_ok d" and keys: "ensure_new_grant_keys d (map fst xs) = Inr ()"
  shows "map_of (map grant_entry (vd_grants d @ map (\<lambda>(k, s, a, dg). owned_grant k s a dg) xs)) =
      vault_grants d ++ approved xs" and "new_grants (vault_grants d) xs"
    and "distinct (map fst (map grant_entry (vd_grants d @ map (\<lambda>(k, s, a, dg). owned_grant k s a dg) xs)))"
proof -
  let ?ys = "map (\<lambda>(k, b). (input_grant_tuple k, b)) xs"
  have entry: "map grant_entry (map (\<lambda>(k, s, a, dg). owned_grant k s a dg) xs) = ?ys"
    by (auto simp: grant_entry_def)
  note nk = ensure_new_grant_keys_Inr [OF ok keys]
  have fst_ys: "map fst ?ys = map input_grant_tuple (map fst xs)" by auto
  have "fst ` set (map grant_entry (vd_grants d)) = grant_key ` set (vd_grants d)"
    by (force simp: grant_entry_def)
  then have "distinct (map fst (map grant_entry (vd_grants d) @ ?ys))"
    unfolding map_append fst_ys distinct_append using nk document_ok_distinct(2) [OF ok]
    by (auto simp: image_image)
  then show "distinct (map fst (map grant_entry (vd_grants d @ map (\<lambda>(k, s, a, dg). owned_grant k s a dg) xs)))"
    and "map_of (map grant_entry (vd_grants d @ map (\<lambda>(k, s, a, dg). owned_grant k s a dg) xs)) =
      vault_grants d ++ approved xs"
    by (simp_all only: map_append entry map_of_append_new vault_grants_def approved_def)
  show "new_grants (vault_grants d) xs"
    using nk by (auto simp: new_grants_def comp_def intro!: vault_grants_none)
qed

lemma distinct_remove_at: "distinct xs \<Longrightarrow> distinct (remove_at i xs)"
  using set_take_disj_set_drop_if_distinct [of xs i "Suc i"] by (simp add: remove_at_def)

lemma map_update: "i < length xs \<Longrightarrow> map f (xs[i := x]) = (map f xs)[i := f x]"
  by (simp add: map_update)

text \<open>A replaced credential entry.\<close>

lemma vault_credentials_update:
  assumes ok: "document_ok d" and i: "i < length (vd_credentials d)"
    and key: "credential_key c = credential_key (vd_credentials d ! i)"
  shows "map_of (map credential_entry ((vd_credentials d)[i := c])) =
      (vault_credentials d)(credential_key c \<mapsto> snd (credential_entry c))"
    and "distinct (map fst (map credential_entry ((vd_credentials d)[i := c])))"
proof -
  note dist = document_ok_distinct(1) [OF ok]
  have fst_eq: "fst (credential_entry c) = fst (map credential_entry (vd_credentials d) ! i)"
    using i key by (simp add: credential_entry_def)
  show "map_of (map credential_entry ((vd_credentials d)[i := c])) =
      (vault_credentials d)(credential_key c \<mapsto> snd (credential_entry c))"
    using i map_of_update_key [OF dist, of i "credential_entry c"] fst_eq
    by (simp add: map_update vault_credentials_def) (simp add: credential_entry_def)
  have "map fst (map credential_entry ((vd_credentials d)[i := c])) = map fst (map credential_entry (vd_credentials d))"
    using i fst_eq by (simp add: map_update list_update_same_conv)
  with dist show "distinct (map fst (map credential_entry ((vd_credentials d)[i := c])))" by simp
qed

lemma vault_grants_update:
  assumes ok: "document_ok d" and i: "i < length (vd_grants d)"
    and key: "grant_key g = grant_key (vd_grants d ! i)"
  shows "map_of (map grant_entry ((vd_grants d)[i := g])) =
      (vault_grants d)(grant_key g \<mapsto> snd (grant_entry g))"
    and "distinct (map fst (map grant_entry ((vd_grants d)[i := g])))"
proof -
  note dist = document_ok_distinct(2) [OF ok]
  have fst_eq: "fst (grant_entry g) = fst (map grant_entry (vd_grants d) ! i)"
    using i key by (simp add: grant_entry_def)
  show "map_of (map grant_entry ((vd_grants d)[i := g])) =
      (vault_grants d)(grant_key g \<mapsto> snd (grant_entry g))"
    using i map_of_update_key [OF dist, of i "grant_entry g"] fst_eq
    by (simp add: map_update vault_grants_def) (simp add: grant_entry_def)
  have "map fst (map grant_entry ((vd_grants d)[i := g])) = map fst (map grant_entry (vd_grants d))"
    using i fst_eq by (simp add: map_update list_update_same_conv)
  with dist show "distinct (map fst (map grant_entry ((vd_grants d)[i := g])))" by simp
qed

definition after_maps :: "vault_document \<Rightarrow> credential_map \<times> grant_map" where
  "after_maps d = (vault_credentials d, vault_grants d)"

definition advanced :: "vault_document \<Rightarrow> vault_document \<Rightarrow> mutation_result \<Rightarrow> bool" where
  "advanced d d' r \<longleftrightarrow> vd_revision d' = vd_revision d + 1 \<and> mr_revision r = vd_revision d'"

lemma rotate_refines:
  assumes ok: "document_ok d" and res: "rotate d s a v secret = Inr (d', r)"
  shows "advanced d d' r \<and> spec_command (Rotate e s a v secret) (after_maps d) (after_maps d')"
proof -
  from res obtain i sec version revision where
    idx: "active_credential_index d s a v = Inr i" and sec: "sec = secret" and
    ver: "checked_increment (cr_version (vd_credentials d ! i)) = Inr version" and
    rev: "next_revision (vd_revision d) = Inr revision" and
    fin: "finish_mutation (d\<lparr>vd_credentials := (vd_credentials d)
        [i := (vd_credentials d ! i)\<lparr>cr_version := version, cr_secret := Some sec\<rparr>]\<rparr>)
      revision (Some version) = Inr (d', r)"
    by (auto simp: rotate_def Let_def secret_from_input_def split: if_splits)
  let ?c = "(vd_credentials d ! i)\<lparr>cr_version := version, cr_secret := Some sec\<rparr>"
  note i = active_credential_index_Inr [OF ok idx]
  have key: "credential_key ?c = credential_key (vd_credentials d ! i)" by (simp add: credential_key_def)
  note upd = vault_credentials_update [OF ok i(1) key]
  have d: "distinct (map fst (map credential_entry (vd_credentials (d\<lparr>vd_credentials := (vd_credentials d)[i := ?c]\<rparr>))))"
    and dg: "distinct (map fst (map grant_entry (vd_grants (d\<lparr>vd_credentials := (vd_credentials d)[i := ?c]\<rparr>))))"
    using upd(2) document_ok_distinct(2) [OF ok] by simp_all
  note m = finish_mutation_maps [OF fin d dg]
  have "vault_credentials d' = (vault_credentials d)((s, a) \<mapsto>
      (cr_issuer (vd_credentials d ! i), cr_auth_schema (vd_credentials d ! i), v + 1, Some secret))"
    using m(1) upd(1) i(2,4) ver sec key
    by (simp add: vault_credentials_def credential_entry_def checked_increment_Inr)
  moreover have "vault_grants d' = vault_grants d" using m(2) by (simp add: vault_grants_def)
  ultimately show ?thesis
    using active_credential_entry [OF ok idx] m(3,4) rev
    by (auto simp: advanced_def after_maps_def next_revision_Inr)
qed

lemma revoke_refines:
  assumes ok: "document_ok d" and res: "revoke d s a v = Inr (d', r)"
  shows "advanced d d' r \<and> spec_command (Revoke e s a v) (after_maps d) (after_maps d')"
proof -
  let ?P = "\<lambda>g. gr_service g \<noteq> s \<or> gr_account g \<noteq> a"
  let ?Q = "\<lambda>(s', a', dg :: string). \<not> (s' = s \<and> a' = a)"
  from res obtain i version revision where
    idx: "active_credential_index d s a v = Inr i" and
    ver: "checked_increment (cr_version (vd_credentials d ! i)) = Inr version" and
    rev: "next_revision (vd_revision d) = Inr revision" and
    fin: "finish_mutation (d\<lparr>vd_credentials := (vd_credentials d)
        [i := (vd_credentials d ! i)\<lparr>cr_version := version, cr_state := CrRevoked, cr_secret := None\<rparr>],
        vd_grants := filter ?P (vd_grants d)\<rparr>) revision (Some version) = Inr (d', r)"
    by (auto simp: revoke_def Let_def)
  let ?c = "(vd_credentials d ! i)\<lparr>cr_version := version, cr_state := CrRevoked, cr_secret := None\<rparr>"
  let ?d = "d\<lparr>vd_credentials := (vd_credentials d)[i := ?c], vd_grants := filter ?P (vd_grants d)\<rparr>"
  note i = active_credential_index_Inr [OF ok idx]
  have key: "credential_key ?c = credential_key (vd_credentials d ! i)" by (simp add: credential_key_def)
  note upd = vault_credentials_update [OF ok i(1) key]
  have gs: "map grant_entry (filter ?P (vd_grants d)) = filter (\<lambda>x. ?Q (snd x)) (map grant_entry (vd_grants d))"
    by (auto simp: filter_map comp_def grant_entry_def intro: arg_cong [of _ _ "map _"] filter_cong)
  have d: "distinct (map fst (map credential_entry (vd_credentials ?d)))"
    and dg: "distinct (map fst (map grant_entry (vd_grants ?d)))"
    using upd(2) document_ok_distinct(2) [OF ok] by (simp_all add: distinct_map_filter)
  note m = finish_mutation_maps [OF fin d dg]
  have "vault_credentials d' = (vault_credentials d)((s, a) \<mapsto>
      (cr_issuer (vd_credentials d ! i), cr_auth_schema (vd_credentials d ! i), v + 1, None))"
    using m(1) upd(1) i(2,4) ver key
    by (simp add: vault_credentials_def credential_entry_def checked_increment_Inr)
  moreover have "vault_grants d' = (\<lambda>k. case vault_grants d k of
      Some (s', a', dg) \<Rightarrow> if s' = s \<and> a' = a then None else Some (s', a', dg) | None \<Rightarrow> None)"
  proof (rule ext)
    fix k
    have "vault_grants d' k = map_of (filter (\<lambda>x. ?Q (snd x)) (map grant_entry (vd_grants d))) k"
      using m(2) gs by (simp add: vault_grants_def del: map_map)
    also have "\<dots> = (case vault_grants d k of Some b \<Rightarrow> if ?Q b then Some b else None | None \<Rightarrow> None)"
      unfolding vault_grants_def by (rule map_of_filter_values [OF document_ok_distinct(2) [OF ok]])
    finally show "vault_grants d' k = (case vault_grants d k of
      Some (s', a', dg) \<Rightarrow> if s' = s \<and> a' = a then None else Some (s', a', dg) | None \<Rightarrow> None)"
      by (auto split: option.splits)
  qed
  ultimately show ?thesis
    using active_credential_entry [OF ok idx] m(3,4) rev
    by (auto simp: advanced_def after_maps_def next_revision_Inr)
qed

lemma check_allD: "check_all f xs = Inr () \<Longrightarrow> x \<in> set xs \<Longrightarrow> is_ok (f x)"
  by (simp add: check_all_Inr)

lemma bind_refines:
  assumes ok: "document_ok d" and res: "bind d approvals = Inr (d', r)"
  shows "advanced d d' r \<and> spec_command (Bind e approvals) (after_maps d) (after_maps d')"
proof -
  let ?new = "map (\<lambda>b. (ba_key b, de_service (ta_descriptor (ba_target b)),
    de_account (ta_descriptor (ba_target b)), ba_digest b)) approvals"
  let ?gs = "map (\<lambda>(k, s, a, dg). owned_grant k s a dg) ?new"
  have gs: "map (\<lambda>a. owned_grant (ba_key a) (de_service (ta_descriptor (ba_target a)))
      (de_account (ta_descriptor (ba_target a))) (ba_digest a)) approvals = ?gs"
    by simp
  from res obtain revision where
    keys: "ensure_new_grant_keys d (map fst ?new) = Inr ()" and
    act: "check_all (\<lambda>a. exact_active_credential d (ba_target a)) approvals = Inr ()" and
    rev: "next_revision (vd_revision d) = Inr revision" and
    fin: "finish_mutation (d\<lparr>vd_grants := vd_grants d @ ?gs\<rparr>) revision None = Inr (d', r)"
    by (auto simp: bind_def Let_def comp_def split: if_splits)
  note app = vault_grants_append [OF ok keys]
  have d: "distinct (map fst (map credential_entry (vd_credentials (d\<lparr>vd_grants := vd_grants d @ ?gs\<rparr>))))"
    and dg: "distinct (map fst (map grant_entry (vd_grants (d\<lparr>vd_grants := vd_grants d @ ?gs\<rparr>))))"
    using document_ok_distinct(1) [OF ok] app(3) by simp_all
  note m = finish_mutation_maps [OF fin d dg]
  have "vault_grants d' = vault_grants d ++ approved ?new"
    using m(2) app(1) unfolding vault_grants_def by simp
  moreover have "vault_credentials d' = vault_credentials d"
    using m(1) by (simp add: vault_credentials_def)
  moreover have "target_live (vault_credentials d) (ba_target b)" if "b \<in> set approvals" for b
    by (rule exact_active_target [OF ok]) (rule check_allD [OF act that])
  ultimately show ?thesis
    using app(2) m(3,4) rev by (simp add: advanced_def after_maps_def next_revision_Inr)
qed

lemma insert_refines:
  assumes ok: "document_ok d" and res: "insert d de secret approvals = Inr (d', r)"
  shows "advanced d d' r \<and> spec_command (Insert e de secret approvals) (after_maps d) (after_maps d')"
proof -
  let ?c = "\<lambda>secret. \<lparr>cr_service = de_service de, cr_account = de_account de, cr_issuer = de_issuer de,
    cr_auth_schema = de_auth_schema de, cr_version = 1, cr_state = CrActive, cr_secret = Some secret\<rparr>"
  let ?new = "map (\<lambda>a. (ga_key a, de_service de, de_account de, ga_digest a)) approvals"
  let ?gs = "map (\<lambda>(k, s, a, dg). owned_grant k s a dg) ?new"
  have gs: "map (\<lambda>a. owned_grant (ga_key a) (de_service de) (de_account de) (ga_digest a)) approvals = ?gs"
    by simp
  from res obtain sec revision where
    absent: "\<not> is_ok (find_credential d (de_service de) (de_account de))" and
    keys: "ensure_new_grant_keys d (map fst ?new) = Inr ()" and
    sec: "secret_from_input secret = Inr sec" and
    rev: "next_revision (vd_revision d) = Inr revision" and
    fin: "finish_mutation (d\<lparr>vd_credentials := vd_credentials d @ [?c sec], vd_grants := vd_grants d @ ?gs\<rparr>)
      revision (Some 1) = Inr (d', r)"
    by (auto simp: insert_def Let_def comp_def split: if_splits)
  let ?d = "d\<lparr>vd_credentials := vd_credentials d @ [?c sec], vd_grants := vd_grants d @ ?gs\<rparr>"
  note app = vault_grants_append [OF ok keys]
  have fresh: "(de_service de, de_account de) \<notin> credential_key ` set (vd_credentials d)"
    using absent by (simp add: find_credential_ok [OF ok])
  have d: "distinct (map fst (map credential_entry (vd_credentials ?d)))"
    using document_ok_distinct(1) [OF ok] fresh
    by (auto simp: credential_entry_def credential_key_def image_iff)
  have dg: "distinct (map fst (map grant_entry (vd_grants ?d)))" using app(3) by simp
  note m = finish_mutation_maps [OF fin d dg]
  have "vault_grants d' = vault_grants d ++ approved ?new"
    using m(2) app(1) unfolding vault_grants_def by simp
  moreover have "vault_credentials d' = (vault_credentials d)((de_service de, de_account de) \<mapsto>
      (de_issuer de, de_auth_schema de, 1, Some secret))"
  proof -
    have "vault_credentials d' = map_of (map credential_entry (vd_credentials d) @ map credential_entry [?c sec])"
      using m(1) by (simp add: vault_credentials_def)
    also have "\<dots> = vault_credentials d ++ map_of (map credential_entry [?c sec])"
      unfolding vault_credentials_def using d by (intro map_of_append_new) simp
    finally show ?thesis
      using sec by (simp add: credential_entry_def credential_key_def secret_from_input_def split: if_splits)
  qed
  moreover have "vault_credentials d (de_service de, de_account de) = None"
    using fresh by (auto simp: vault_credentials_def map_of_eq_None_iff credential_entry_def)
  ultimately show ?thesis
    using app(2) m(3,4) rev by (simp add: advanced_def after_maps_def next_revision_Inr Let_def)
qed

lemma rebind_refines:
  assumes ok: "document_ok d" and res: "rebind d k old t digest = Inr (d', r)"
  shows "advanced d d' r \<and> spec_command (Rebind e k old t digest) (after_maps d) (after_maps d')"
proof -
  let ?t = "ta_descriptor t"
  from res obtain i j revision where
    idx: "exact_grant_index d k old = Inr i" and
    act: "exact_active_credential d t = Inr j" and
    rev: "next_revision (vd_revision d) = Inr revision" and
    fin: "finish_mutation (d\<lparr>vd_grants := (vd_grants d)[i := (vd_grants d ! i)
        \<lparr>gr_service := de_service ?t, gr_account := de_account ?t, gr_digest := digest\<rparr>]\<rparr>)
      revision None = Inr (d', r)"
    by (auto simp: rebind_def Let_def)
  let ?g = "(vd_grants d ! i)\<lparr>gr_service := de_service ?t, gr_account := de_account ?t, gr_digest := digest\<rparr>"
  note i = exact_grant_index_Inr [OF ok idx]
  have key: "grant_key ?g = grant_key (vd_grants d ! i)" by (simp add: grant_key_def)
  note upd = vault_grants_update [OF ok i(1) key]
  have d: "distinct (map fst (map credential_entry (vd_credentials (d\<lparr>vd_grants := (vd_grants d)[i := ?g]\<rparr>))))"
    and dg: "distinct (map fst (map grant_entry (vd_grants (d\<lparr>vd_grants := (vd_grants d)[i := ?g]\<rparr>))))"
    using document_ok_distinct(1) [OF ok] upd(2) by simp_all
  note m = finish_mutation_maps [OF fin d dg]
  have "vault_grants d' = (vault_grants d)(input_grant_tuple k \<mapsto> (de_service ?t, de_account ?t, digest))"
    using m(2) upd(1) i(2) key by (simp add: vault_grants_def grant_entry_def)
  moreover have "vault_credentials d' = vault_credentials d"
    using m(1) by (simp add: vault_credentials_def)
  moreover have "target_live (vault_credentials d) t" using act by (intro exact_active_target [OF ok]) simp
  ultimately show ?thesis
    using exact_grant_entry [OF ok idx] m(3,4) rev by (simp add: advanced_def after_maps_def next_revision_Inr)
qed

lemma unbind_refines:
  assumes ok: "document_ok d" and res: "unbind d k old = Inr (d', r)"
  shows "advanced d d' r \<and> spec_command (Unbind e k old) (after_maps d) (after_maps d')"
proof -
  from res obtain i revision where
    idx: "exact_grant_index d k old = Inr i" and
    rev: "next_revision (vd_revision d) = Inr revision" and
    fin: "finish_mutation (d\<lparr>vd_grants := remove_at i (vd_grants d)\<rparr>) revision None = Inr (d', r)"
    by (auto simp: unbind_def)
  note i = exact_grant_index_Inr [OF ok idx]
  note dist = document_ok_distinct(2) [OF ok]
  have rem: "map grant_entry (remove_at i (vd_grants d)) = remove_at i (map grant_entry (vd_grants d))"
    by (simp add: remove_at_def take_map drop_map)
  have "distinct (map fst (remove_at i (map grant_entry (vd_grants d))))"
    using distinct_remove_at [OF dist, of i] by (simp add: remove_at_def take_map drop_map)
  then have d: "distinct (map fst (map credential_entry (vd_credentials (d\<lparr>vd_grants := remove_at i (vd_grants d)\<rparr>))))"
    and dg: "distinct (map fst (map grant_entry (vd_grants (d\<lparr>vd_grants := remove_at i (vd_grants d)\<rparr>))))"
    using document_ok_distinct(1) [OF ok] rem by (simp_all del: map_map)
  note m = finish_mutation_maps [OF fin d dg]
  have "vault_grants d' = (vault_grants d)(input_grant_tuple k := None)"
    using m(2) map_of_remove_at [OF dist, of i] i rem by (simp add: vault_grants_def grant_entry_def del: map_map)
  moreover have "vault_credentials d' = vault_credentials d"
    using m(1) by (simp add: vault_credentials_def)
  ultimately show ?thesis
    using exact_grant_entry [OF ok idx] m(3,4) rev by (simp add: advanced_def after_maps_def next_revision_Inr)
qed

lemma apply_command_refines:
  assumes "document_ok d" and "c \<noteq> InitializeEmpty" and "apply_command d c = Inr (d', r)"
  shows "advanced d d' r \<and> spec_command c (after_maps d) (after_maps d')"
proof (cases c)
  case InitializeEmpty
  with assms show ?thesis by simp
next
  case (Insert e de s gs)
  with assms(3) show ?thesis by (simp only: apply_command.simps insert_refines [OF assms(1)])
next
  case (Rotate e s a v x)
  with assms(3) show ?thesis by (simp only: apply_command.simps rotate_refines [OF assms(1)])
next
  case (Revoke e s a v)
  with assms(3) show ?thesis by (simp only: apply_command.simps revoke_refines [OF assms(1)])
next
  case (Bind e gs)
  with assms(3) show ?thesis by (simp only: apply_command.simps bind_refines [OF assms(1)])
next
  case (Rebind e k old t digest)
  with assms(3) show ?thesis by (simp only: apply_command.simps rebind_refines [OF assms(1)])
next
  case (Unbind e k old)
  with assms(3) show ?thesis by (simp only: apply_command.simps unbind_refines [OF assms(1)])
qed

section \<open>What the vault guarantees\<close>

definition vault_history :: "vault_command list \<Rightarrow> vault_document option \<Rightarrow> vault_document option" where
  "vault_history cs current = fold (\<lambda>c s. persist_step s c) cs current"

lemma persist_command_Inr:
  "persist_command current c = Inr (d', r) \<longleftrightarrow>
    outer_check current c = Inr () \<and> (current = None \<longrightarrow> can_create c) \<and> apply_command (stored current) c = Inr (d', r) \<and>
    validate_document d' = Inr ()"
  by (auto simp: persist_command_def)

lemma persist_step_Inr: "persist_command current c = Inr (d', r) \<Longrightarrow> persist_step current c = Some d'"
  by (simp add: persist_step_def)

lemma persist_step_ok:
  assumes "document_ok (stored current)"
  shows "document_ok (stored (persist_step current c))"
proof (cases "persist_command current c")
  case (Inr p)
  obtain d' r where "p = (d', r)" by (cases p)
  with Inr have "persist_step current c = Some d'" and "document_ok d'"
    using persist_step_Inr [of current c d' r] by (simp_all add: persist_command_Inr validate_document_iff)
  then show ?thesis by (simp add: stored_def)
qed (use assms in \<open>simp add: persist_step_def\<close>)

lemma vault_history_ok: "document_ok (stored current) \<Longrightarrow> document_ok (stored (vault_history cs current))"
  unfolding vault_history_def by (induction cs arbitrary: current) (simp_all add: persist_step_ok)

text \<open>C16. The vault stays valid, and the last validation before a write is redundant: from an absent
  file, whatever commands are tried and whichever fail, the stored document validates; and every
  command that a stored document accepts already yields a document that validates (sorted unique
  credentials and grants within their bounds, every grant bound to exactly one active credential).\<close>

theorem vault_stays_valid:
  assumes "vault_history cs None = Some d"
  shows "validate_document d = Inr () \<and>
    (\<forall>c d' r. command_typed c \<and> apply_command d c = Inr (d', r) \<longrightarrow> validate_document d' = Inr ())"
proof -
  have "document_ok (stored (vault_history cs None))"
    by (rule vault_history_ok) (simp add: stored_def empty_document_ok)
  with assms have "document_ok d" by (simp add: stored_def)
  with apply_command_ok [OF this] show ?thesis by (auto simp: validate_document_iff)
qed

text \<open>C15. The reducer refines the two-map vault: on a valid document every accepted command but
  \<open>InitializeEmpty\<close> advances the revision by one and reports it, \<open>InitializeEmpty\<close> leaves the document
  alone and reports revision 0; and every accepted command changes the credential map and the grant
  map exactly as the abstract command does, whose guards (fresh id, live target at the expected
  version, exact old binding, new grant keys) then hold.\<close>

theorem vault_refines_maps:
  assumes "validate_document d = Inr ()" and "apply_command d c = Inr (d', r)"
  shows "(if c = InitializeEmpty then d' = d \<and> mr_revision r = 0
     else vd_revision d' = vd_revision d + 1 \<and> mr_revision r = vd_revision d') \<and>
    spec_command c (vault_credentials d, vault_grants d) (vault_credentials d', vault_grants d')"
proof (cases "c = InitializeEmpty")
  case True
  then show ?thesis using assms(2) by auto
next
  case False
  then show ?thesis
    using apply_command_refines [of d c d' r] assms
    by (simp add: validate_document_iff advanced_def after_maps_def)
qed

text \<open>C20. Optimistic concurrency: a stored revision admits one write. After a command has been persisted,
  every command that was prepared against the state before it (an equal expected revision, or
  \<open>Absent\<close>) is refused with a revision conflict and changes nothing.\<close>

theorem stale_command_rejected:
  assumes "validate_document (stored current) = Inr ()" and "persist_command current c = Inr (d, r)"
    and "command_expected c' = Some (case current of None \<Rightarrow> Absent | Some e \<Rightarrow> Present (vd_revision e))"
  shows "persist_command (Some d) c' = Inl RevisionConflict \<and> persist_step (Some d) c' = Some d"
proof -
  have app: "apply_command (stored current) c = Inr (d, r)" using assms(2) by (simp add: persist_command_Inr)
  have init: "c = InitializeEmpty \<Longrightarrow> current = None"
    using assms(2) by (auto simp: persist_command_Inr outer_check_def split: if_splits)
  have "vd_revision d \<noteq> vd_revision e" if "current = Some e" for e
  proof -
    have "c \<noteq> InitializeEmpty" using init that by auto
    from apply_command_refines [OF _ this app] assms(1) that show ?thesis
      by (simp add: validate_document_iff advanced_def stored_def)
  qed
  then have "persist_command (Some d) c' = Inl RevisionConflict"
    using assms(3) by (cases current) (auto simp: persist_command_def outer_check_def compare_outer_def stored_def)
  then show ?thesis by (simp add: persist_step_def)
qed

text \<open>What a command leaves of a credential: it stays, with its issuer and schema, at the same or a later
  version, and once revoked it does not change.\<close>

definition succeeds :: "credential_map \<Rightarrow> credential_map \<Rightarrow> bool" where
  "succeeds m m' \<longleftrightarrow> (\<forall>id iss sch v secret. m id = Some (iss, sch, v, secret) \<longrightarrow>
     (\<exists>v' secret'. m' id = Some (iss, sch, v', secret') \<and> v \<le> v' \<and>
       (v' = v \<longrightarrow> secret' = secret) \<and> (secret = None \<longrightarrow> v' = v)))"

lemma succeeds_refl: "succeeds m m"
  by (auto simp: succeeds_def)

lemma succeeds_trans: "succeeds m m' \<Longrightarrow> succeeds m' m'' \<Longrightarrow> succeeds m m''"
  unfolding succeeds_def by (fastforce intro: order_trans)

lemma spec_command_succeeds: "spec_command c (m, g) (m', g') \<Longrightarrow> succeeds m m'"
  by (cases c) (auto simp: succeeds_def Let_def)

lemma persist_step_succeeds:
  assumes "document_ok (stored current)"
  shows "succeeds (vault_credentials (stored current)) (vault_credentials (stored (persist_step current c)))"
proof (cases "persist_command current c")
  case (Inr p)
  obtain d' r where p: "p = (d', r)" by (cases p)
  with Inr have "persist_step current c = Some d'"
    and app: "apply_command (stored current) c = Inr (d', r)"
    using persist_step_Inr [of current c d' r] by (simp_all add: persist_command_Inr)
  then have step: "stored (persist_step current c) = d'" by (simp add: stored_def)
  show ?thesis
  proof (cases "c = InitializeEmpty")
    case True
    with app step show ?thesis by (simp add: succeeds_refl)
  next
    case False
    from apply_command_refines [OF assms this app] step show ?thesis
      by (auto simp: after_maps_def intro: spec_command_succeeds)
  qed
qed (simp add: persist_step_def succeeds_refl)

text \<open>C21. Credentials are never dropped or rolled back: along any history of commands a credential keeps
  its issuer and schema, its version never decreases, two states with the same version hold the same
  secret, and a revoked credential stays revoked at its version for ever.\<close>

theorem credentials_never_roll_back:
  assumes "validate_document (stored current) = Inr ()"
  shows "succeeds (vault_credentials (stored current)) (vault_credentials (stored (vault_history cs current)))"
proof -
  have "document_ok (stored current)" using assms by (simp add: validate_document_iff)
  then show ?thesis
    unfolding vault_history_def
  proof (induction cs arbitrary: current)
    case (Cons c cs)
    from persist_step_succeeds [OF Cons.prems, of c] Cons.IH [OF persist_step_ok [OF Cons.prems], of c]
    show ?case by (auto intro: succeeds_trans)
  qed (simp add: succeeds_refl)
qed

subsection \<open>A concrete vault\<close>

definition sample_descriptor :: credential_descriptor where
  "sample_descriptor = \<lparr>de_service = ''svc'', de_account = ''me'', de_issuer = ''iss'', de_auth_schema = ''key''\<rparr>"

definition sample_insert :: vault_command where
  "sample_insert = Insert Absent sample_descriptor ''s3cret'' []"

definition sample_vault :: vault_document where
  "sample_vault =
     \<lparr>vd_format_version = 1, vd_kind = ''mcode-host-auth'', vd_revision = 1,
      vd_credentials = [\<lparr>cr_service = ''svc'', cr_account = ''me'', cr_issuer = ''iss'',
        cr_auth_schema = ''key'', cr_version = 1, cr_state = CrActive, cr_secret = Some ''s3cret''\<rparr>],
      vd_grants = []\<rparr>"

lemma sample_ids [simp]: "validate_local_id ''svc'' = Inr ()" "validate_local_id ''me'' = Inr ()"
  "validate_local_id ''iss'' = Inr ()" "validate_local_id ''key'' = Inr ()"
  by (simp_all add: validate_local_id_def is_ascii_lowercase_def is_ascii_digit_def is_id_separator_def)

lemmas vault_eval = sample_descriptor_def sample_insert_def sample_vault_def empty_document_def
  HOST_VAULT_KIND_def HOST_VAULT_FORMAT_VERSION_def MAX_ACTIVE_CREDENTIALS_def MAX_CREDENTIALS_def
  MAX_GRANTS_def MAX_SECRET_BYTES_def insert_def finish_mutation_def find_credential_def
  ensure_new_grant_keys_def validate_descriptor_def secret_from_input_def check_all_def active_count_def
  binary_search_by_def

lemma sample_applied:
  "apply_command empty_document sample_insert =
    Inr (sample_vault, \<lparr>mr_revision = 1, mr_credential_version = Some 1\<rparr>)"
proof -
  have "next_revision 0 = Inr 1" by (simp add: next_revision_Inr i64_max_def)
  then show ?thesis by (simp add: vault_eval)
qed

lemma sample_vault_ok: "document_ok sample_vault"
  using apply_command_ok [OF empty_document_ok _ sample_applied] by (simp add: sample_insert_def)

lemma sample_persisted: "persist_command None sample_insert =
    Inr (sample_vault, \<lparr>mr_revision = 1, mr_credential_version = Some 1\<rparr>)"
  using sample_applied sample_vault_ok
  by (simp add: persist_command_Inr stored_def validate_document_iff outer_check_def compare_outer_def
      sample_insert_def)

theorem vault_stays_valid_witness: "validate_document sample_vault = Inr ()"
proof -
  have "vault_history [sample_insert] None = Some sample_vault"
    using persist_step_Inr [OF sample_persisted] by (simp add: vault_history_def)
  from vault_stays_valid [OF this] show ?thesis ..
qed

theorem vault_refines_maps_witness:
  "vd_revision sample_vault = 1 \<and>
   spec_command sample_insert (Map.empty, Map.empty) (vault_credentials sample_vault, vault_grants sample_vault)"
proof -
  have ok: "validate_document empty_document = Inr ()"
    using empty_document_ok by (rule validate_document_iff [THEN iffD2])
  have ne: "sample_insert \<noteq> InitializeEmpty" unfolding sample_insert_def by (rule vault_command.distinct)
  have maps: "vault_credentials empty_document = Map.empty" "vault_grants empty_document = Map.empty"
    unfolding vault_credentials_def vault_grants_def empty_document_def by simp_all
  have "vd_revision empty_document = 0" unfolding empty_document_def by simp
  with vault_refines_maps [OF ok sample_applied, unfolded maps if_not_P [OF ne]] show ?thesis by linarith
qed

theorem stale_command_rejected_witness:
  "persist_command (Some sample_vault) sample_insert = Inl RevisionConflict"
proof -
  have "validate_document (stored None) = Inr ()" by (simp add: validate_document_iff stored_def empty_document_ok)
  from stale_command_rejected [OF this sample_persisted, of sample_insert] show ?thesis
    by (simp add: sample_insert_def)
qed

theorem credentials_never_roll_back_witness:
  "\<exists>v secret. vault_credentials (stored (vault_history [Revoke (Present 1) ''svc'' ''me'' 1] (Some sample_vault)))
    (''svc'', ''me'') = Some (''iss'', ''key'', v, secret) \<and> 1 \<le> v"
proof -
  have "validate_document (stored (Some sample_vault)) = Inr ()"
    using sample_vault_ok by (simp add: validate_document_iff stored_def)
  note h = credentials_never_roll_back [OF this, of "[Revoke (Present 1) ''svc'' ''me'' 1]"]
  have "vault_credentials (stored (Some sample_vault)) (''svc'', ''me'') = Some (''iss'', ''key'', 1, Some ''s3cret'')"
    by (simp add: vault_credentials_def stored_def sample_vault_def credential_entry_def credential_key_def)
  from h [unfolded succeeds_def, rule_format, OF this] show ?thesis by blast
qed

end
