(* ===== verification/Route_Ledger.thy ===== *)
theory Route_Ledger
  imports Identifiers "HOL-Library.AList"
begin

section \<open>Provider routes and usage stamps\<close>

text \<open>
  \<open>mcode-plugin-host/src/provider\_routes/stamps.rs\<close> and \<open>ledger.rs\<close>: owners claim providers, routes and
  authentication slots in one atomic registration; leases and usage contexts are capabilities minted
  by a ledger; a context ends with exactly one usage sample.

  A BTreeMap is an association list with distinct keys (the code never iterates over it). The identity
  of an \<open>Arc\<close> is an address: a ledger's seal is its position in the list of ledgers, a usage stamp its
  position in the list of stamps, whose terminal flag all the clones of a context share. Each method
  runs under the ledger's mutex, so it is one step; \<open>None\<close> stands for a panic.
\<close>

subsection \<open>Stamps (stamps.rs)\<close>

definition MAX_PROVIDER_ROUTE_CLAIMS_PER_BATCH :: nat where "MAX_PROVIDER_ROUTE_CLAIMS_PER_BATCH = 256"
definition MAX_PROVIDER_ROUTE_CLAIMS :: nat where "MAX_PROVIDER_ROUTE_CLAIMS = 4096"
definition MAX_USAGE_CONTEXTS_PER_LEDGER :: nat where "MAX_USAGE_CONTEXTS_PER_LEDGER = 4096"

record route_owner =
  po_manager_family :: plugin_family
  po_manager_artifact :: artifact_ref
  po_pack_id :: string
  po_pack_source :: string
  po_pack_artifact :: artifact_ref
  po_generation :: nat

definition matches_except_generation :: "route_owner \<Rightarrow> route_owner \<Rightarrow> bool" where
  "matches_except_generation self other \<longleftrightarrow>
     po_manager_family self = po_manager_family other \<and>
     po_manager_artifact self = po_manager_artifact other \<and>
     po_pack_id self = po_pack_id other \<and>
     po_pack_source self = po_pack_source other \<and>
     po_pack_artifact self = po_pack_artifact other"

record route_claim =
  pc_provider_id :: string
  pc_route_id :: string
  pc_auth_slot_id :: string
  pc_endpoint_fingerprint :: string
  pc_auth_fingerprint :: string

record route_ownership =
  ow_owner :: route_owner
  ow_claim :: route_claim

type_synonym seal = nat

record route_lease =
  ml_seal :: seal
  ml_ownership :: route_ownership
  ml_current_model :: string

definition lease_belongs_to :: "seal \<Rightarrow> route_lease \<Rightarrow> bool" where
  "lease_belongs_to seal lease \<longleftrightarrow> ml_seal lease = seal"

text \<open>\<open>same\_stamp\<close> compares every field of a lease.\<close>

definition same_stamp :: "route_lease \<Rightarrow> route_lease \<Rightarrow> bool" where
  "same_stamp self other \<longleftrightarrow> ml_seal self = ml_seal other \<and> ml_ownership self = ml_ownership other \<and>
     ml_current_model self = ml_current_model other"

record usage_stamp =
  us_ledger :: seal
  us_terminal :: bool

definition usage_stamp_new :: "seal \<Rightarrow> usage_stamp" where
  "usage_stamp_new ledger = \<lparr>us_ledger = ledger, us_terminal = False\<rparr>"

record usage_context =
  uc_lease :: route_lease
  uc_request_id :: string
  uc_turn_id :: string
  uc_requested_model :: string
  uc_requested_alias :: "string option"
  uc_resolved_model :: "string option"
  uc_stamp :: nat

text \<open>The stamp of a new context is allocated at the end of the store.\<close>

definition usage_context_new ::
  "seal \<Rightarrow> route_lease \<Rightarrow> string \<Rightarrow> string \<Rightarrow> string \<Rightarrow> string option \<Rightarrow> usage_stamp list \<Rightarrow>
   usage_context \<times> usage_stamp list" where
  "usage_context_new ledger lease request_id turn_id requested_model requested_alias stamps =
     (\<lparr>uc_lease = lease, uc_request_id = request_id, uc_turn_id = turn_id,
       uc_requested_model = requested_model, uc_requested_alias = requested_alias,
       uc_resolved_model = None, uc_stamp = length stamps\<rparr>,
      stamps @ [usage_stamp_new ledger])"

definition context_belongs_to :: "usage_stamp list \<Rightarrow> seal \<Rightarrow> usage_context \<Rightarrow> bool" where
  "context_belongs_to stamps ledger c \<longleftrightarrow>
     lease_belongs_to ledger (uc_lease c) \<and> us_ledger (stamps ! uc_stamp c) = ledger"

definition context_is_terminal :: "usage_stamp list \<Rightarrow> usage_context \<Rightarrow> bool" where
  "context_is_terminal stamps c = us_terminal (stamps ! uc_stamp c)"

text \<open>The swap of \<open>mark\_terminal\<close>: the assertion fails on a terminal stamp.\<close>

definition mark_terminal :: "usage_context \<Rightarrow> usage_stamp list \<Rightarrow> usage_stamp list option" where
  "mark_terminal c stamps =
     (if context_is_terminal stamps c then None
      else Some (stamps[uc_stamp c := (stamps ! uc_stamp c)\<lparr>us_terminal := True\<rparr>]))"

definition same_request_instance :: "usage_context \<Rightarrow> usage_context \<Rightarrow> bool" where
  "same_request_instance self other \<longleftrightarrow> uc_stamp self = uc_stamp other"

definition with_resolved_model :: "string \<Rightarrow> usage_context \<Rightarrow> usage_context" where
  "with_resolved_model model c = c\<lparr>uc_resolved_model := Some model\<rparr>"

definition same_snapshot :: "usage_context \<Rightarrow> usage_context \<Rightarrow> bool" where
  "same_snapshot self other \<longleftrightarrow>
     same_request_instance self other \<and> same_stamp (uc_lease self) (uc_lease other) \<and>
     uc_request_id self = uc_request_id other \<and> uc_turn_id self = uc_turn_id other \<and>
     uc_requested_model self = uc_requested_model other \<and>
     uc_requested_alias self = uc_requested_alias other \<and>
     uc_resolved_model self = uc_resolved_model other"

record usage_counters =
  cn_input_tokens :: "nat option"
  cn_output_tokens :: "nat option"
  cn_cache_read_tokens :: "nat option"
  cn_cache_write_tokens :: "nat option"

record usage_sample =
  sm_context :: usage_context
  sm_counters :: usage_counters

subsection \<open>The ledger (ledger.rs)\<close>

record route_table =
  rt_revision :: nat
  rt_routes :: "(string \<times> route_ownership) list"
  rt_providers :: "(string \<times> string) list"
  rt_auth_slots :: "(string \<times> string) list"

definition route_table_default :: route_table where
  "route_table_default = \<lparr>rt_revision = 0, rt_routes = [], rt_providers = [], rt_auth_slots = []\<rparr>"

definition snapshot_route :: "string \<Rightarrow> route_table \<Rightarrow> route_ownership option" where
  "snapshot_route route_id t = map_of (rt_routes t) route_id"

definition snapshot_provider :: "string \<Rightarrow> route_table \<Rightarrow> route_ownership option" where
  "snapshot_provider provider_id t =
     Option.bind (map_of (rt_providers t) provider_id) (map_of (rt_routes t))"

definition snapshot_auth_slot :: "string \<Rightarrow> route_table \<Rightarrow> route_ownership option" where
  "snapshot_auth_slot auth_slot_id t =
     Option.bind (map_of (rt_auth_slots t) auth_slot_id) (map_of (rt_routes t))"

record ledger_state =
  ls_table :: route_table
  ls_requests :: "(string \<times> usage_context) list"

definition ledger_new :: ledger_state where
  "ledger_new = \<lparr>ls_table = route_table_default, ls_requests = []\<rparr>"

text \<open>\<open>collect\_claims\<close> stops at the first claim over the limit.\<close>

fun collect_loop :: "route_claim list \<Rightarrow> route_claim list \<Rightarrow> provider_route_error + route_claim list" where
  "collect_loop collected [] = Inr collected"
| "collect_loop collected (claim # claims) =
     (if length collected = MAX_PROVIDER_ROUTE_CLAIMS_PER_BATCH then Inl ClaimBatchTooLarge
      else collect_loop (collected @ [claim]) claims)"

definition collect_claims :: "route_claim list \<Rightarrow> provider_route_error + route_claim list" where
  "collect_claims claims =
     and_then (collect_loop [] claims) (\<lambda>collected.
       if collected = [] then Inl EmptyClaimBatch else Inr collected)"

definition claim_step ::
  "string set \<times> string set \<times> string set \<Rightarrow> route_claim \<Rightarrow>
   provider_route_error + string set \<times> string set \<times> string set" where
  "claim_step seen claim = (case seen of (providers, routes, auth_slots) \<Rightarrow>
     if pc_provider_id claim \<in> providers then Inl DuplicateProviderId
     else if pc_route_id claim \<in> routes then Inl DuplicateRouteId
     else if pc_auth_slot_id claim \<in> auth_slots then Inl DuplicateAuthSlotId
     else Inr (insert (pc_provider_id claim) providers, insert (pc_route_id claim) routes,
               insert (pc_auth_slot_id claim) auth_slots))"

definition validate_registration :: "route_table \<Rightarrow> route_claim list \<Rightarrow> provider_route_error + unit" where
  "validate_registration t claims =
     and_then (try_fold claim_step ({}, {}, {}) claims) (\<lambda>_.
       if list_ex (\<lambda>c. map_of (rt_providers t) (pc_provider_id c) \<noteq> None) claims then Inl ProviderIdCollision
       else if list_ex (\<lambda>c. map_of (rt_routes t) (pc_route_id c) \<noteq> None) claims then Inl RouteIdCollision
       else if list_ex (\<lambda>c. map_of (rt_auth_slots t) (pc_auth_slot_id c) \<noteq> None) claims
       then Inl AuthSlotIdCollision
       else case checked_add 64 (length (rt_routes t)) (length claims) of
           None \<Rightarrow> Inl RouteCapacityExceeded
         | Some n \<Rightarrow> if n > MAX_PROVIDER_ROUTE_CLAIMS then Inl RouteCapacityExceeded else Inr ())"

definition insert_claim :: "route_owner \<Rightarrow> route_claim \<Rightarrow> route_table \<Rightarrow> route_table" where
  "insert_claim owner claim t =
     t\<lparr>rt_providers := AList.update (pc_provider_id claim) (pc_route_id claim) (rt_providers t),
       rt_auth_slots := AList.update (pc_auth_slot_id claim) (pc_route_id claim) (rt_auth_slots t),
       rt_routes := AList.update (pc_route_id claim) \<lparr>ow_owner = owner, ow_claim = claim\<rparr> (rt_routes t)\<rparr>"

definition register_owner_claims ::
  "route_owner \<Rightarrow> route_claim list \<Rightarrow> ledger_state \<Rightarrow>
   ((provider_route_error + route_table) \<times> ledger_state) option" where
  "register_owner_claims owner claims s =
     (if po_manager_family owner \<noteq> Providers then Some (Inl WrongManagerFamily, s)
      else case and_then (collect_claims claims) (\<lambda>claims.
               and_then (validate_registration (ls_table s) claims) (\<lambda>_. Inr claims)) of
          Inl error \<Rightarrow> Some (Inl error, s)
        | Inr claims \<Rightarrow>
            (case checked_add 64 (rt_revision (ls_table s)) 1 of
               None \<Rightarrow> None
             | Some revision \<Rightarrow>
                 let published = fold (insert_claim owner) claims ((ls_table s)\<lparr>rt_revision := revision\<rparr>) in
                 Some (Inr published, s\<lparr>ls_table := published\<rparr>)))"

definition validate_expected_owner :: "route_owner \<Rightarrow> route_owner \<Rightarrow> provider_route_error + unit" where
  "validate_expected_owner stamped expected =
     (if stamped = expected then Inr ()
      else if matches_except_generation stamped expected then Inl StaleGeneration
      else Inl OwnerMismatch)"

definition mint_model_route_lease ::
  "seal \<Rightarrow> route_owner \<Rightarrow> string \<Rightarrow> string \<Rightarrow> ledger_state \<Rightarrow> provider_route_error + route_lease" where
  "mint_model_route_lease self_seal owner route_id current_model s =
     and_then (ok_or (map_of (rt_routes (ls_table s)) route_id) UnknownRoute) (\<lambda>ownership.
     and_then (validate_expected_owner (ow_owner ownership) owner) (\<lambda>_.
       Inr \<lparr>ml_seal = self_seal, ml_ownership = ownership, ml_current_model = current_model\<rparr>))"

definition validate_lease :: "seal \<Rightarrow> route_owner \<Rightarrow> route_lease \<Rightarrow> provider_route_error + unit" where
  "validate_lease self_seal expected_owner lease =
     (if \<not> lease_belongs_to self_seal lease then Inl ForeignStamp
      else validate_expected_owner (ow_owner (ml_ownership lease)) expected_owner)"

definition mint_usage_context ::
  "seal \<Rightarrow> route_owner \<Rightarrow> route_lease \<Rightarrow> string \<Rightarrow> string \<Rightarrow> string \<Rightarrow> string option \<Rightarrow>
   usage_stamp list \<Rightarrow> ledger_state \<Rightarrow>
   (provider_route_error + usage_context) \<times> usage_stamp list \<times> ledger_state" where
  "mint_usage_context self_seal owner lease request_id turn_id requested_model requested_alias stamps s =
     (case validate_lease self_seal owner lease of
        Inl error \<Rightarrow> (Inl error, stamps, s)
      | Inr _ \<Rightarrow>
          if map_of (ls_requests s) request_id \<noteq> None then (Inl RequestAlreadyRegistered, stamps, s)
          else if length (ls_requests s) \<ge> MAX_USAGE_CONTEXTS_PER_LEDGER
          then (Inl UsageContextCapacityExceeded, stamps, s)
          else
            (case usage_context_new self_seal lease request_id turn_id requested_model requested_alias stamps of
               (context, stamps) \<Rightarrow>
                 (Inr context, stamps, s\<lparr>ls_requests := AList.update request_id context (ls_requests s)\<rparr>)))"

definition validate_request_and_turn ::
  "usage_context \<Rightarrow> string \<Rightarrow> string \<Rightarrow> provider_route_error + unit" where
  "validate_request_and_turn context request_id turn_id =
     (if uc_request_id context \<noteq> request_id then Inl RequestMismatch
      else if uc_turn_id context \<noteq> turn_id then Inl TurnMismatch else Inr ())"

definition validate_context :: "usage_stamp list \<Rightarrow> seal \<Rightarrow> usage_context \<Rightarrow> provider_route_error + unit" where
  "validate_context stamps self_seal context =
     (if \<not> context_belongs_to stamps self_seal context then Inl ForeignStamp else Inr ())"

text \<open>The live record both transitions need.\<close>

definition live_context ::
  "seal \<Rightarrow> usage_context \<Rightarrow> string \<Rightarrow> string \<Rightarrow> usage_stamp list \<Rightarrow> ledger_state \<Rightarrow>
   provider_route_error + usage_context" where
  "live_context self_seal context request_id turn_id stamps s =
     and_then (validate_request_and_turn context request_id turn_id) (\<lambda>_.
     and_then (validate_context stamps self_seal context) (\<lambda>_.
       if context_is_terminal stamps context then Inl RequestAlreadyTerminal
       else and_then (ok_or (map_of (ls_requests s) request_id) StaleUsageContext) (\<lambda>live.
         if \<not> same_snapshot live context then Inl StaleUsageContext else Inr live)))"

definition record_resolved_model ::
  "seal \<Rightarrow> usage_context \<Rightarrow> string \<Rightarrow> string \<Rightarrow> string \<Rightarrow> usage_stamp list \<Rightarrow> ledger_state \<Rightarrow>
   (provider_route_error + usage_context) \<times> ledger_state" where
  "record_resolved_model self_seal context request_id turn_id resolved_model stamps s =
     (case live_context self_seal context request_id turn_id stamps s of
        Inl error \<Rightarrow> (Inl error, s)
      | Inr live \<Rightarrow>
          if uc_resolved_model live \<noteq> None then (Inl ResolvedModelAlreadyRecorded, s)
          else
            let updated = with_resolved_model resolved_model context in
            (Inr updated, s\<lparr>ls_requests := AList.update request_id updated (ls_requests s)\<rparr>))"

definition mint_terminal_sample ::
  "seal \<Rightarrow> usage_context \<Rightarrow> string \<Rightarrow> string \<Rightarrow> usage_counters \<Rightarrow> usage_stamp list \<Rightarrow> ledger_state \<Rightarrow>
   ((provider_route_error + usage_sample) \<times> usage_stamp list \<times> ledger_state) option" where
  "mint_terminal_sample self_seal context request_id turn_id counters stamps s =
     (case live_context self_seal context request_id turn_id stamps s of
        Inl error \<Rightarrow> Some (Inl error, stamps, s)
      | Inr live \<Rightarrow>
          Option.bind (mark_terminal context stamps) (\<lambda>stamps.
          Option.bind (map_of (ls_requests s) request_id) (\<lambda>removed.
            if \<not> same_request_instance removed context then None
            else Some (Inr \<lparr>sm_context = context, sm_counters = counters\<rparr>, stamps,
                       s\<lparr>ls_requests := AList.delete request_id (ls_requests s)\<rparr>))))"

subsection \<open>Processes\<close>

text \<open>
  A process holds any number of ledgers. Leases and contexts cannot be forged, so a caller can only
  pass those it was given; the world keeps them, and the samples minted, in the order they were made.
\<close>

record route_world =
  rw_ledgers :: "ledger_state list"
  rw_stamps :: "usage_stamp list"
  rw_leases :: "route_lease list"
  rw_contexts :: "usage_context list"
  rw_samples :: "usage_sample list"

datatype route_op =
    OpNewLedger
  | OpRegister nat route_owner "route_claim list"
  | OpLease nat route_owner string string
  | OpContext nat route_owner nat string string string "string option"
  | OpResolve nat nat string string string
  | OpSample nat nat string string usage_counters

fun op_enabled :: "route_op \<Rightarrow> route_world \<Rightarrow> bool" where
  "op_enabled OpNewLedger w = True"
| "op_enabled (OpRegister l _ _) w = (l < length (rw_ledgers w))"
| "op_enabled (OpLease l _ _ _) w = (l < length (rw_ledgers w))"
| "op_enabled (OpContext l _ i _ _ _ _) w = (l < length (rw_ledgers w) \<and> i < length (rw_leases w))"
| "op_enabled (OpResolve l i _ _ _) w = (l < length (rw_ledgers w) \<and> i < length (rw_contexts w))"
| "op_enabled (OpSample l i _ _ _) w = (l < length (rw_ledgers w) \<and> i < length (rw_contexts w))"

definition put_ledger :: "nat \<Rightarrow> ledger_state \<Rightarrow> route_world \<Rightarrow> route_world" where
  "put_ledger l s w = w\<lparr>rw_ledgers := (rw_ledgers w)[l := s]\<rparr>"

fun keep :: "'e + 'a \<Rightarrow> 'a list \<Rightarrow> 'a list" where
  "keep (Inl _) xs = xs"
| "keep (Inr x) xs = xs @ [x]"

fun route_apply :: "route_op \<Rightarrow> route_world \<Rightarrow> route_world option" where
  "route_apply OpNewLedger w = Some (w\<lparr>rw_ledgers := rw_ledgers w @ [ledger_new]\<rparr>)"
| "route_apply (OpRegister l owner claims) w =
     (case register_owner_claims owner claims (rw_ledgers w ! l) of
        None \<Rightarrow> None | Some (r, s) \<Rightarrow> Some (put_ledger l s w))"
| "route_apply (OpLease l owner route_id model) w =
     Some (w\<lparr>rw_leases := keep (mint_model_route_lease l owner route_id model (rw_ledgers w ! l)) (rw_leases w)\<rparr>)"
| "route_apply (OpContext l owner i request_id turn_id model alias) w =
     (case mint_usage_context l owner (rw_leases w ! i) request_id turn_id model alias (rw_stamps w)
             (rw_ledgers w ! l) of
        (r, stamps, s) \<Rightarrow>
          Some ((put_ledger l s w)\<lparr>rw_stamps := stamps, rw_contexts := keep r (rw_contexts w)\<rparr>))"
| "route_apply (OpResolve l i request_id turn_id model) w =
     (case record_resolved_model l (rw_contexts w ! i) request_id turn_id model (rw_stamps w) (rw_ledgers w ! l) of
        (r, s) \<Rightarrow> Some ((put_ledger l s w)\<lparr>rw_contexts := keep r (rw_contexts w)\<rparr>))"
| "route_apply (OpSample l i request_id turn_id counters) w =
     (case mint_terminal_sample l (rw_contexts w ! i) request_id turn_id counters (rw_stamps w)
             (rw_ledgers w ! l) of
        None \<Rightarrow> None
      | Some (r, stamps, s) \<Rightarrow>
          Some ((put_ledger l s w)\<lparr>rw_stamps := stamps, rw_samples := keep r (rw_samples w)\<rparr>))"

text \<open>A state of \<open>None\<close> is a panic.\<close>

inductive route_step :: "route_world option \<Rightarrow> route_world option \<Rightarrow> bool" where
  route_stepI: "op_enabled op w \<Longrightarrow> route_step (Some w) (route_apply op w)"

inductive_cases route_stepE: "route_step x y"

definition route_start :: "route_world option \<Rightarrow> bool" where
  "route_start x \<longleftrightarrow> x = Some \<lparr>rw_ledgers = [], rw_stamps = [], rw_leases = [], rw_contexts = [], rw_samples = []\<rparr>"

subsection \<open>The route table\<close>

text \<open>The three indexes of a table in the order of the registrations: the provider and slot indexes are
  those of the routes, and no key occurs twice in any of them.\<close>

definition table_ok :: "route_table \<Rightarrow> bool" where
  "table_ok t \<longleftrightarrow>
     distinct (map fst (rt_routes t)) \<and> distinct (map fst (rt_providers t)) \<and>
     distinct (map fst (rt_auth_slots t)) \<and>
     rt_providers t = map (\<lambda>(r, ow). (pc_provider_id (ow_claim ow), r)) (rt_routes t) \<and>
     rt_auth_slots t = map (\<lambda>(r, ow). (pc_auth_slot_id (ow_claim ow), r)) (rt_routes t) \<and>
     (\<forall>(r, ow)\<in>set (rt_routes t). pc_route_id (ow_claim ow) = r \<and> po_manager_family (ow_owner ow) = Providers) \<and>
     length (rt_routes t) \<le> MAX_PROVIDER_ROUTE_CLAIMS \<and> rt_revision t \<le> length (rt_routes t)"

lemma table_ok_default: "table_ok route_table_default"
  by (simp add: table_ok_def route_table_default_def)

lemma update_fresh: "map_of m k = None \<Longrightarrow> AList.update k v m = m @ [(k, v)]"
  by (induction m) auto

lemma collect_loop_Inr:
  "collect_loop collected claims = Inr cs \<Longrightarrow> length collected \<le> 256 \<Longrightarrow>
     cs = collected @ claims \<and> length cs \<le> 256"
proof (induction claims arbitrary: collected)
  case (Cons c claims)
  then have "length collected < 256" "collect_loop (collected @ [c]) claims = Inr cs"
    by (auto simp: MAX_PROVIDER_ROUTE_CLAIMS_PER_BATCH_def split: if_splits)
  with Cons.IH [of "collected @ [c]"] show ?case by auto
qed auto

lemma collect_claims_Inr:
  assumes "collect_claims claims = Inr cs"
  shows "cs = claims \<and> claims \<noteq> [] \<and> length claims \<le> 256"
proof -
  from assms obtain xs where "collect_loop [] claims = Inr xs" "xs \<noteq> []" "cs = xs"
    by (auto simp: collect_claims_def split: if_splits)
  with collect_loop_Inr [of "[]" claims xs] show ?thesis by auto
qed

lemma claim_step_Inr:
  "claim_step (P, R, A) c = Inr y \<longleftrightarrow> pc_provider_id c \<notin> P \<and> pc_route_id c \<notin> R \<and> pc_auth_slot_id c \<notin> A \<and>
     y = (insert (pc_provider_id c) P, insert (pc_route_id c) R, insert (pc_auth_slot_id c) A)"
  by (auto simp: claim_step_def)

lemma claim_fold_distinct:
  "try_fold claim_step (P, R, A) cs = Inr x \<Longrightarrow>
     distinct (map pc_provider_id cs) \<and> set (map pc_provider_id cs) \<inter> P = {} \<and>
     distinct (map pc_route_id cs) \<and> set (map pc_route_id cs) \<inter> R = {} \<and>
     distinct (map pc_auth_slot_id cs) \<and> set (map pc_auth_slot_id cs) \<inter> A = {}"
proof (induction cs arbitrary: P R A)
  case (Cons c cs)
  from Cons.prems have fresh: "pc_provider_id c \<notin> P" "pc_route_id c \<notin> R" "pc_auth_slot_id c \<notin> A"
    and rest: "try_fold claim_step (insert (pc_provider_id c) P, insert (pc_route_id c) R,
      insert (pc_auth_slot_id c) A) cs = Inr x"
    by (auto simp: claim_step_Inr)
  from Cons.IH [OF rest] fresh show ?case by auto
qed simp

text \<open>A batch that passes: it has new ids only, and there is room for it.\<close>

lemma validate_registration_Inr:
  assumes "validate_registration t cs = Inr u"
  shows "distinct (map pc_provider_id cs)" "distinct (map pc_route_id cs)" "distinct (map pc_auth_slot_id cs)"
    "\<forall>c\<in>set cs. map_of (rt_providers t) (pc_provider_id c) = None \<and> map_of (rt_routes t) (pc_route_id c) = None \<and>
       map_of (rt_auth_slots t) (pc_auth_slot_id c) = None"
    "length (rt_routes t) + length cs \<le> MAX_PROVIDER_ROUTE_CLAIMS"
proof -
  from assms obtain x where x: "try_fold claim_step ({}, {}, {}) cs = Inr x"
    by (auto simp: validate_registration_def)
  from claim_fold_distinct [of "{}" "{}" "{}" cs x] x
  show "distinct (map pc_provider_id cs)" "distinct (map pc_route_id cs)" "distinct (map pc_auth_slot_id cs)"
    by simp_all
  from assms x show "\<forall>c\<in>set cs. map_of (rt_providers t) (pc_provider_id c) = None \<and>
      map_of (rt_routes t) (pc_route_id c) = None \<and> map_of (rt_auth_slots t) (pc_auth_slot_id c) = None"
    "length (rt_routes t) + length cs \<le> MAX_PROVIDER_ROUTE_CLAIMS"
    by (auto simp: validate_registration_def list_ex_iff split: if_splits option.splits)
qed

text \<open>Inserting new claims appends to the three indexes.\<close>

lemma insert_claims:
  assumes "distinct (map pc_provider_id cs)" "distinct (map pc_route_id cs)" "distinct (map pc_auth_slot_id cs)"
    and "\<forall>c\<in>set cs. map_of (rt_providers t) (pc_provider_id c) = None \<and>
       map_of (rt_routes t) (pc_route_id c) = None \<and> map_of (rt_auth_slots t) (pc_auth_slot_id c) = None"
  shows "fold (insert_claim owner) cs t =
    t\<lparr>rt_providers := rt_providers t @ map (\<lambda>c. (pc_provider_id c, pc_route_id c)) cs,
      rt_auth_slots := rt_auth_slots t @ map (\<lambda>c. (pc_auth_slot_id c, pc_route_id c)) cs,
      rt_routes := rt_routes t @ map (\<lambda>c. (pc_route_id c, \<lparr>ow_owner = owner, ow_claim = c\<rparr>)) cs\<rparr>"
  using assms
proof (induction cs arbitrary: t)
  case (Cons c cs)
  then have step: "insert_claim owner c t =
    t\<lparr>rt_providers := rt_providers t @ [(pc_provider_id c, pc_route_id c)],
      rt_auth_slots := rt_auth_slots t @ [(pc_auth_slot_id c, pc_route_id c)],
      rt_routes := rt_routes t @ [(pc_route_id c, \<lparr>ow_owner = owner, ow_claim = c\<rparr>)]\<rparr>"
    by (simp add: insert_claim_def update_fresh)
  have "\<forall>d\<in>set cs. map_of (rt_providers (insert_claim owner c t)) (pc_provider_id d) = None \<and>
       map_of (rt_routes (insert_claim owner c t)) (pc_route_id d) = None \<and>
       map_of (rt_auth_slots (insert_claim owner c t)) (pc_auth_slot_id d) = None"
  proof
    fix d assume d: "d \<in> set cs"
    with Cons.prems(1-3) have "pc_provider_id d \<noteq> pc_provider_id c \<and> pc_route_id d \<noteq> pc_route_id c \<and>
        pc_auth_slot_id d \<noteq> pc_auth_slot_id c"
      by (simp add: image_iff) metis
    with d Cons.prems(4) show "map_of (rt_providers (insert_claim owner c t)) (pc_provider_id d) = None \<and>
        map_of (rt_routes (insert_claim owner c t)) (pc_route_id d) = None \<and>
        map_of (rt_auth_slots (insert_claim owner c t)) (pc_auth_slot_id d) = None"
      by (simp add: step map_of_eq_None_iff)
  qed
  with Cons.IH [of "insert_claim owner c t"] Cons.prems step show ?case by simp
qed simp

text \<open>A registration either changes nothing or appends a whole batch of new claims of one owner.\<close>

lemma register_cases:
  assumes ok: "table_ok (ls_table s)"
  obtains (refused) e where "register_owner_claims owner claims s = Some (Inl e, s)"
  | (accepted) t where "register_owner_claims owner claims s = Some (Inr t, s\<lparr>ls_table := t\<rparr>)" "table_ok t"
      "rt_revision t = Suc (rt_revision (ls_table s))"
      "rt_routes t = rt_routes (ls_table s) @ map (\<lambda>c. (pc_route_id c, \<lparr>ow_owner = owner, ow_claim = c\<rparr>)) claims"
proof (cases "po_manager_family owner = Providers \<and> collect_claims claims = Inr claims \<and>
    validate_registration (ls_table s) claims = Inr ()")
  case False
  have "collect_claims claims = Inr cs \<Longrightarrow> cs = claims" for cs using collect_claims_Inr by blast
  with False have "\<exists>e. register_owner_claims owner claims s = Some (Inl e, s)"
    by (cases "collect_claims claims"; cases "validate_registration (ls_table s) claims")
      (auto simp: register_owner_claims_def)
  then show thesis using refused by blast
next
  case True
  then have own: "po_manager_family owner = Providers" and cs: "claims \<noteq> []"
    and v: "validate_registration (ls_table s) claims = Inr ()"
    using collect_claims_Inr by auto
  note new = validate_registration_Inr [OF v]
  let ?r = "(ls_table s)\<lparr>rt_revision := Suc (rt_revision (ls_table s))\<rparr>"
  let ?t = "fold (insert_claim owner) claims ?r"
  have rev: "checked_add 64 (rt_revision (ls_table s)) 1 = Some (Suc (rt_revision (ls_table s)))"
    using ok by (auto simp: table_ok_def checked_add_def MAX_PROVIDER_ROUTE_CLAIMS_def)
  have t: "?t = ?r\<lparr>
      rt_providers := rt_providers (ls_table s) @ map (\<lambda>c. (pc_provider_id c, pc_route_id c)) claims,
      rt_auth_slots := rt_auth_slots (ls_table s) @ map (\<lambda>c. (pc_auth_slot_id c, pc_route_id c)) claims,
      rt_routes := rt_routes (ls_table s) @ map (\<lambda>c. (pc_route_id c, \<lparr>ow_owner = owner, ow_claim = c\<rparr>)) claims\<rparr>"
    using insert_claims [OF new(1-3), of ?r owner] new(4) by simp
  have run: "register_owner_claims owner claims s = Some (Inr ?t, s\<lparr>ls_table := ?t\<rparr>)"
    unfolding register_owner_claims_def using True own
    by (simp add: rev [unfolded One_nat_def] Let_def del: checked_add_eq_Some)
  have keys: "set (map pc_route_id claims) \<inter> set (map fst (rt_routes (ls_table s))) = {}"
    "set (map pc_provider_id claims) \<inter> set (map fst (rt_providers (ls_table s))) = {}"
    "set (map pc_auth_slot_id claims) \<inter> set (map fst (rt_auth_slots (ls_table s))) = {}"
    using new(4) by (auto simp: map_of_eq_None_iff)
  have distinct_new: "distinct (map fst (rt_routes ?t))" "distinct (map fst (rt_providers ?t))"
    "distinct (map fst (rt_auth_slots ?t))"
    using keys new(1-3) ok by (simp_all add: t table_ok_def comp_def Int_commute del: set_map) (auto simp: comp_def)
  have "Suc (rt_revision (ls_table s)) \<le> length (rt_routes (ls_table s)) + length claims"
    using ok cs by (cases claims) (auto simp: table_ok_def)
  then have "table_ok ?t"
    using distinct_new own new(5) ok unfolding table_ok_def t by (simp add: comp_def) auto
  with run t show thesis by (intro accepted [of ?t]) simp_all
qed

subsection \<open>The invariant of a process\<close>

definition same_request :: "usage_context \<Rightarrow> usage_context \<Rightarrow> bool" where
  "same_request c d \<longleftrightarrow> uc_lease c = uc_lease d \<and> uc_request_id c = uc_request_id d \<and>
     uc_turn_id c = uc_turn_id d \<and> uc_requested_model c = uc_requested_model d \<and>
     uc_requested_alias c = uc_requested_alias d"

text \<open>No context of the same request instance knows a resolved model that \<open>c\<close> does not.\<close>

definition latest :: "usage_context list \<Rightarrow> usage_context \<Rightarrow> bool" where
  "latest contexts c \<longleftrightarrow> (\<forall>d\<in>set contexts. uc_stamp d = uc_stamp c \<longrightarrow>
     uc_resolved_model d = None \<or> uc_resolved_model d = uc_resolved_model c)"

definition requests_ok ::
  "nat \<Rightarrow> usage_stamp list \<Rightarrow> usage_context list \<Rightarrow> (string \<times> usage_context) list \<Rightarrow> bool" where
  "requests_ok l stamps contexts reqs \<longleftrightarrow>
     distinct (map fst reqs) \<and> length reqs \<le> MAX_USAGE_CONTEXTS_PER_LEDGER \<and>
     distinct (map (uc_stamp \<circ> snd) reqs) \<and>
     (\<forall>(k, c)\<in>set reqs. uc_request_id c = k \<and> c \<in> set contexts \<and> us_ledger (stamps ! uc_stamp c) = l \<and>
        \<not> us_terminal (stamps ! uc_stamp c) \<and> latest contexts c)"

definition contexts_ok :: "route_lease list \<Rightarrow> usage_stamp list \<Rightarrow> usage_context list \<Rightarrow> bool" where
  "contexts_ok leases stamps contexts \<longleftrightarrow> (\<forall>c\<in>set contexts.
     uc_stamp c < length stamps \<and> us_ledger (stamps ! uc_stamp c) = ml_seal (uc_lease c) \<and>
     uc_lease c \<in> set leases \<and>
     (\<forall>d\<in>set contexts. uc_stamp d = uc_stamp c \<longrightarrow> same_request c d))"

definition samples_ok :: "usage_stamp list \<Rightarrow> usage_context list \<Rightarrow> usage_sample list \<Rightarrow> bool" where
  "samples_ok stamps contexts samples \<longleftrightarrow>
     distinct (map (uc_stamp \<circ> sm_context) samples) \<and>
     (\<forall>i<length stamps. us_terminal (stamps ! i) \<longleftrightarrow> i \<in> set (map (uc_stamp \<circ> sm_context) samples)) \<and>
     (\<forall>sm\<in>set samples. sm_context sm \<in> set contexts \<and> latest contexts (sm_context sm))"

definition stamps_covered :: "usage_stamp list \<Rightarrow> ledger_state list \<Rightarrow> bool" where
  "stamps_covered stamps ledgers \<longleftrightarrow> (\<forall>i<length stamps. us_ledger (stamps ! i) < length ledgers \<and>
     (us_terminal (stamps ! i) \<or>
      i \<in> set (map (uc_stamp \<circ> snd) (ls_requests (ledgers ! us_ledger (stamps ! i))))))"

definition leases_ok :: "route_lease list \<Rightarrow> ledger_state list \<Rightarrow> bool" where
  "leases_ok leases ledgers \<longleftrightarrow> (\<forall>le\<in>set leases. ml_seal le < length ledgers \<and>
     (pc_route_id (ow_claim (ml_ownership le)), ml_ownership le)
       \<in> set (rt_routes (ls_table (ledgers ! ml_seal le))))"

fun route_inv :: "route_world option \<Rightarrow> bool" where
  "route_inv None = False"
| "route_inv (Some w) \<longleftrightarrow>
     (\<forall>l<length (rw_ledgers w). table_ok (ls_table (rw_ledgers w ! l)) \<and>
        requests_ok l (rw_stamps w) (rw_contexts w) (ls_requests (rw_ledgers w ! l))) \<and>
     contexts_ok (rw_leases w) (rw_stamps w) (rw_contexts w) \<and>
     samples_ok (rw_stamps w) (rw_contexts w) (rw_samples w) \<and>
     stamps_covered (rw_stamps w) (rw_ledgers w) \<and> leases_ok (rw_leases w) (rw_ledgers w)"

lemmas route_inv_parts = requests_ok_def contexts_ok_def samples_ok_def stamps_covered_def leases_ok_def

lemma same_snapshot_eq: "same_snapshot a b \<longleftrightarrow> a = b"
proof
  assume "same_snapshot a b"
  then show "a = b"
    by (cases a; cases b; cases "uc_lease a"; cases "uc_lease b")
      (auto simp: same_snapshot_def same_request_instance_def same_stamp_def)
qed (simp add: same_snapshot_def same_request_instance_def same_stamp_def)

text \<open>A transition only succeeds on the context that is the live record of its request.\<close>

lemma live_context_Inr:
  assumes "live_context l c request_id turn_id stamps s = Inr live"
  shows "live = c" "map_of (ls_requests s) request_id = Some c" "uc_request_id c = request_id"
    "uc_turn_id c = turn_id" "\<not> us_terminal (stamps ! uc_stamp c)" "us_ledger (stamps ! uc_stamp c) = l"
  using assms
  by (auto simp: live_context_def validate_request_and_turn_def validate_context_def context_belongs_to_def
      context_is_terminal_def same_snapshot_eq split: if_splits)

lemma put_ledger_simps [simp]:
  "rw_ledgers (put_ledger l s w) = (rw_ledgers w)[l := s]" "rw_stamps (put_ledger l s w) = rw_stamps w"
  "rw_leases (put_ledger l s w) = rw_leases w" "rw_contexts (put_ledger l s w) = rw_contexts w"
  "rw_samples (put_ledger l s w) = rw_samples w"
  by (simp_all add: put_ledger_def)

text \<open>An operation that fails leaves the process as it was.\<close>

lemma put_same [simp]: "put_ledger l (rw_ledgers w ! l) w = w"
  by (simp add: put_ledger_def)

lemma inv_new_ledger: "route_inv (Some w) \<Longrightarrow> route_inv (route_apply OpNewLedger w)"
  by (auto simp: route_inv_parts nth_append less_Suc_eq ledger_new_def table_ok_default)

lemma inv_register:
  assumes inv: "route_inv (Some w)" and l: "l < length (rw_ledgers w)"
  shows "route_inv (route_apply (OpRegister l owner claims) w)"
proof -
  let ?s = "rw_ledgers w ! l"
  have "table_ok (ls_table ?s)" using inv l by simp
  then show ?thesis
  proof (cases rule: register_cases [of _ owner claims])
    case (refused e)
    with inv show ?thesis by simp
  next
    case (accepted t)
    let ?new = "(rw_ledgers w)[l := ?s\<lparr>ls_table := t\<rparr>]"
    have same: "ls_requests (?new ! i) = ls_requests (rw_ledgers w ! i)" for i
      using l by (cases "i = l"; cases "i < length (rw_ledgers w)") auto
    have routes: "set (rt_routes (ls_table (rw_ledgers w ! i))) \<subseteq> set (rt_routes (ls_table (?new ! i)))" for i
      using l accepted(4) by (cases "i = l"; cases "i < length (rw_ledgers w)") auto
    have tables: "table_ok (ls_table (?new ! i))" if "i < length (rw_ledgers w)" for i
      using inv l accepted(2) that by (cases "i = l") auto
    have "leases_ok (rw_leases w) ?new"
      using inv routes by (fastforce simp: leases_ok_def)
    moreover have "stamps_covered (rw_stamps w) ?new" using inv same by (simp add: stamps_covered_def)
    ultimately show ?thesis using inv accepted(1) same tables by simp
  qed
qed

lemma inv_lease:
  assumes inv: "route_inv (Some w)" and l: "l < length (rw_ledgers w)"
  shows "route_inv (route_apply (OpLease l owner route_id model) w)"
proof (cases "mint_model_route_lease l owner route_id model (rw_ledgers w ! l)")
  case (Inl e)
  with inv show ?thesis by simp
next
  case (Inr le)
  then have le: "ml_seal le = l" "map_of (rt_routes (ls_table (rw_ledgers w ! l))) route_id = Some (ml_ownership le)"
    by (auto simp: mint_model_route_lease_def)
  have "table_ok (ls_table (rw_ledgers w ! l))" using inv l by simp
  with map_of_SomeD [OF le(2)] have "(pc_route_id (ow_claim (ml_ownership le)), ml_ownership le)
      \<in> set (rt_routes (ls_table (rw_ledgers w ! l)))"
    by (auto simp: table_ok_def)
  then have "leases_ok (rw_leases w @ [le]) (rw_ledgers w)" using inv l le(1) by (auto simp: leases_ok_def)
  moreover have "contexts_ok (rw_leases w @ [le]) (rw_stamps w) (rw_contexts w)"
    using inv by (auto simp: contexts_ok_def)
  ultimately show ?thesis using inv Inr by simp
qed

text \<open>Requests keep their invariant when the other components change.\<close>

lemma requests_ok_cong:
  assumes "requests_ok l stamps contexts reqs"
    and "\<And>k c. (k, c) \<in> set reqs \<Longrightarrow> stamps' ! uc_stamp c = stamps ! uc_stamp c \<and> c \<in> set contexts' \<and> latest contexts' c"
  shows "requests_ok l stamps' contexts' reqs"
  using assms by (fastforce simp: requests_ok_def)

lemma latest_append [simp]:
  "latest (cs @ [d]) c \<longleftrightarrow> latest cs c \<and>
     (uc_stamp d = uc_stamp c \<longrightarrow> uc_resolved_model d = None \<or> uc_resolved_model d = uc_resolved_model c)"
  by (auto simp: latest_def)

lemma same_request_sym: "same_request c d \<Longrightarrow> same_request d c"
  by (simp add: same_request_def)

lemma contexts_ok_snoc:
  assumes "contexts_ok leases stamps cs" and "uc_stamp c < length stamps"
    and "us_ledger (stamps ! uc_stamp c) = ml_seal (uc_lease c)" and "uc_lease c \<in> set leases"
    and "\<And>d. d \<in> set cs \<Longrightarrow> uc_stamp d = uc_stamp c \<Longrightarrow> same_request c d"
  shows "contexts_ok leases stamps (cs @ [c])"
proof -
  have refl: "same_request c c" by (simp add: same_request_def)
  show ?thesis unfolding contexts_ok_def
  proof
    fix e assume "e \<in> set (cs @ [c])"
    then consider "e \<in> set cs" | "e = c" by auto
    then show "uc_stamp e < length stamps \<and> us_ledger (stamps ! uc_stamp e) = ml_seal (uc_lease e) \<and>
        uc_lease e \<in> set leases \<and> (\<forall>d\<in>set (cs @ [c]). uc_stamp d = uc_stamp e \<longrightarrow> same_request e d)"
    proof cases
      case 1
      with assms(1) assms(5) [OF 1] show ?thesis by (auto simp: contexts_ok_def intro: same_request_sym)
    next
      case 2
      with assms refl show ?thesis by auto
    qed
  qed
qed

text \<open>A new context has a stamp of its own.\<close>

lemma inv_context:
  assumes inv: "route_inv (Some w)" and l: "l < length (rw_ledgers w)" and i: "i < length (rw_leases w)"
  shows "route_inv (route_apply (OpContext l owner i request_id turn_id model alias) w)"
proof -
  let ?s = "rw_ledgers w ! l" and ?le = "rw_leases w ! i" and ?n = "length (rw_stamps w)"
  let ?c = "\<lparr>uc_lease = ?le, uc_request_id = request_id, uc_turn_id = turn_id, uc_requested_model = model,
    uc_requested_alias = alias, uc_resolved_model = None, uc_stamp = ?n\<rparr>"
  let ?stamps = "rw_stamps w @ [\<lparr>us_ledger = l, us_terminal = False\<rparr>]"
  let ?reqs = "ls_requests ?s @ [(request_id, ?c)]"
  show ?thesis
  proof (cases "validate_lease l owner ?le = Inr () \<and> map_of (ls_requests ?s) request_id = None \<and>
      length (ls_requests ?s) < MAX_USAGE_CONTEXTS_PER_LEDGER")
    case False
    then have "\<exists>e. mint_usage_context l owner ?le request_id turn_id model alias (rw_stamps w) ?s =
        (Inl e, rw_stamps w, ?s)"
      by (cases "validate_lease l owner ?le") (auto simp: mint_usage_context_def)
    with inv show ?thesis by auto
  next
    case True
    then have run: "mint_usage_context l owner ?le request_id turn_id model alias (rw_stamps w) ?s =
        (Inr ?c, ?stamps, ?s\<lparr>ls_requests := ?reqs\<rparr>)"
      by (simp add: mint_usage_context_def usage_context_new_def usage_stamp_new_def update_fresh)
    have seal: "ml_seal ?le = l" using True by (auto simp: validate_lease_def lease_belongs_to_def split: if_splits)
    have parts: "contexts_ok (rw_leases w) (rw_stamps w) (rw_contexts w)"
      "samples_ok (rw_stamps w) (rw_contexts w) (rw_samples w)" "stamps_covered (rw_stamps w) (rw_ledgers w)"
      "leases_ok (rw_leases w) (rw_ledgers w)"
      "\<And>j. j < length (rw_ledgers w) \<Longrightarrow>
        requests_ok j (rw_stamps w) (rw_contexts w) (ls_requests (rw_ledgers w ! j))"
      using inv by simp_all
    have old: "uc_stamp c < ?n" if "c \<in> set (rw_contexts w)" for c
      using parts(1) that by (simp add: contexts_ok_def)
    have fresh: "latest (rw_contexts w) ?c" using old by (fastforce simp: latest_def)
    have reqs: "requests_ok j ?stamps (rw_contexts w @ [?c]) (ls_requests (rw_ledgers w ! j))"
      if "j < length (rw_ledgers w)" for j
    proof (rule requests_ok_cong [OF parts(5) [OF that]])
      fix k c assume "(k, c) \<in> set (ls_requests (rw_ledgers w ! j))"
      with parts(5) [OF that] have c: "c \<in> set (rw_contexts w)" "latest (rw_contexts w) c"
        by (auto simp: requests_ok_def)
      with old [OF c(1)] show "?stamps ! uc_stamp c = rw_stamps w ! uc_stamp c \<and> c \<in> set (rw_contexts w @ [?c]) \<and>
          latest (rw_contexts w @ [?c]) c"
        by (simp add: nth_append)
    qed
    have "uc_stamp c < ?n" if "(k, c) \<in> set (ls_requests ?s)" for k c
      using parts(5) [OF l] that old by (auto simp: requests_ok_def)
    then have "?n \<notin> (\<lambda>x. uc_stamp (snd x)) ` set (ls_requests ?s)" by fastforce
    then have new: "requests_ok l ?stamps (rw_contexts w @ [?c]) ?reqs"
      using reqs [OF l] True fresh
      by (auto simp: requests_ok_def map_of_eq_None_iff nth_append)
    have requests: "requests_ok j ?stamps (rw_contexts w @ [?c])
        (ls_requests ((rw_ledgers w)[l := ?s\<lparr>ls_requests := ?reqs\<rparr>] ! j))" if "j < length (rw_ledgers w)" for j
      using new reqs [OF that] that by (cases "j = l") auto
    have tables: "table_ok (ls_table ((rw_ledgers w)[l := ?s\<lparr>ls_requests := ?reqs\<rparr>] ! j))"
      if "j < length (rw_ledgers w)" for j
      using inv that by (cases "j = l") auto
    have "contexts_ok (rw_leases w) ?stamps (rw_contexts w @ [?c])"
    proof (rule contexts_ok_snoc)
      show "contexts_ok (rw_leases w) ?stamps (rw_contexts w)"
        using parts(1) by (auto simp: contexts_ok_def nth_append)
      show "same_request ?c d" if "d \<in> set (rw_contexts w)" "uc_stamp d = uc_stamp ?c" for d
        using old [OF that(1)] that(2) by simp
    qed (use seal i in simp_all)
    moreover have "samples_ok ?stamps (rw_contexts w @ [?c]) (rw_samples w)"
    proof -
      have "uc_stamp (sm_context sm) < ?n" if "sm \<in> set (rw_samples w)" for sm
        using parts(2) that old by (auto simp: samples_ok_def)
      then show ?thesis using parts(2) by (fastforce simp: samples_ok_def nth_append less_Suc_eq)
    qed
    moreover have "stamps_covered ?stamps ((rw_ledgers w)[l := ?s\<lparr>ls_requests := ?reqs\<rparr>])"
      using parts(3) l by (auto simp: stamps_covered_def nth_append nth_list_update less_Suc_eq)
    moreover have "leases_ok (rw_leases w) ((rw_ledgers w)[l := ?s\<lparr>ls_requests := ?reqs\<rparr>])"
      using parts(4) l by (auto simp: leases_ok_def nth_list_update)
    ultimately show ?thesis using run requests tables by simp
  qed
qed

text \<open>Recording the resolved model: the new snapshot replaces the live one.\<close>

lemma update_same_key:
  assumes "distinct (map fst m)" and "map_of m k = Some v"
  shows "AList.update k v' m = map (\<lambda>(a, b). if a = k then (k, v') else (a, b)) m"
  using assms by (induction m) (auto intro!: map_idI [symmetric] simp: image_iff)

lemma stamp_key:
  assumes "distinct (map (uc_stamp \<circ> snd) reqs)" and "(k, c) \<in> set reqs" "(k', c') \<in> set reqs"
    and "uc_stamp c = uc_stamp c'"
  shows "k = k' \<and> c = c'"
  using assms by (induction reqs) (auto simp: image_iff)

lemma requests_ok_update:
  assumes r: "requests_ok l stamps contexts reqs" and live: "map_of reqs k = Some c"
    and c': "c' = c\<lparr>uc_resolved_model := Some m\<rparr>" "uc_resolved_model c = None"
  shows "requests_ok l stamps (contexts @ [c']) (AList.update k c' reqs)"
proof -
  let ?f = "\<lambda>(a, b). if a = k then (k, c') else (a, b)"
  have kc: "(k, c) \<in> set reqs" using live by (rule map_of_SomeD)
  have upd: "AList.update k c' reqs = map ?f reqs"
    using update_same_key [OF _ live] r by (simp add: requests_ok_def)
  have only: "b = c" if "(k, b) \<in> set reqs" for b
    using that live r map_of_is_SomeI [of reqs k b] by (simp add: requests_ok_def)
  have fsts: "map fst (map ?f reqs) = map fst reqs" by (induction reqs) auto
  have stamps': "map (uc_stamp \<circ> snd) (map ?f reqs) = map (uc_stamp \<circ> snd) reqs"
    using only c'(1) by (auto intro!: map_cong)
  have other: "uc_stamp b \<noteq> uc_stamp c" if "(a, b) \<in> set reqs" "a \<noteq> k" for a b
    using stamp_key [OF _ that(1) kc] r that by (auto simp: requests_ok_def)
  have "\<forall>(a, b)\<in>set (map ?f reqs). uc_request_id b = a \<and> b \<in> set (contexts @ [c']) \<and>
      us_ledger (stamps ! uc_stamp b) = l \<and> \<not> us_terminal (stamps ! uc_stamp b) \<and> latest (contexts @ [c']) b"
  proof (clarify)
    fix a b assume "(a, b) \<in> set (map ?f reqs)"
    then consider "a = k" "b = c'" | "a \<noteq> k" "(a, b) \<in> set reqs" by (auto split: if_splits)
    then show "uc_request_id b = a \<and> b \<in> set (contexts @ [c']) \<and> us_ledger (stamps ! uc_stamp b) = l \<and>
        \<not> us_terminal (stamps ! uc_stamp b) \<and> latest (contexts @ [c']) b"
    proof cases
      case 1
      with r kc c' show ?thesis by (fastforce simp: requests_ok_def latest_def)
    next
      case 2
      with other [OF 2(2,1)] r c'(1) show ?thesis by (auto simp: requests_ok_def)
    qed
  qed
  then show ?thesis using r unfolding requests_ok_def upd fsts stamps' by simp
qed

lemma inv_resolve:
  assumes inv: "route_inv (Some w)" and l: "l < length (rw_ledgers w)" and i: "i < length (rw_contexts w)"
  shows "route_inv (route_apply (OpResolve l i request_id turn_id model) w)"
proof -
  let ?s = "rw_ledgers w ! l" and ?c = "rw_contexts w ! i"
  show ?thesis
  proof (cases "live_context l ?c request_id turn_id (rw_stamps w) ?s")
    case (Inl e)
    with inv show ?thesis by (simp add: record_resolved_model_def)
  next
    case (Inr live)
    note live = live_context_Inr [OF Inr]
    show ?thesis
    proof (cases "uc_resolved_model ?c = None")
      case False
      with inv Inr live(1) show ?thesis by (simp add: record_resolved_model_def)
    next
      case True
      let ?u = "?c\<lparr>uc_resolved_model := Some model\<rparr>"
      let ?reqs = "AList.update request_id ?u (ls_requests ?s)"
      let ?new = "(rw_ledgers w)[l := ?s\<lparr>ls_requests := ?reqs\<rparr>]"
      have run: "record_resolved_model l ?c request_id turn_id model (rw_stamps w) ?s =
          (Inr ?u, ?s\<lparr>ls_requests := ?reqs\<rparr>)"
        using Inr live(1) True by (simp add: record_resolved_model_def with_resolved_model_def Let_def)
      have parts: "contexts_ok (rw_leases w) (rw_stamps w) (rw_contexts w)"
        "samples_ok (rw_stamps w) (rw_contexts w) (rw_samples w)" "stamps_covered (rw_stamps w) (rw_ledgers w)"
        "leases_ok (rw_leases w) (rw_ledgers w)"
        "\<And>j. j < length (rw_ledgers w) \<Longrightarrow>
          requests_ok j (rw_stamps w) (rw_contexts w) (ls_requests (rw_ledgers w ! j))"
        using inv by simp_all
      have c: "?c \<in> set (rw_contexts w)" using i by simp
      then have in_stamps: "uc_stamp ?c < length (rw_stamps w)" using parts(1) by (simp add: contexts_ok_def)
      have cf: "uc_stamp ?c < length (rw_stamps w)" "us_ledger (rw_stamps w ! uc_stamp ?c) = ml_seal (uc_lease ?c)"
        "uc_lease ?c \<in> set (rw_leases w)"
        "\<And>d. d \<in> set (rw_contexts w) \<Longrightarrow> uc_stamp d = uc_stamp ?c \<Longrightarrow> same_request ?c d"
        using parts(1) c unfolding contexts_ok_def by blast+
      have new: "requests_ok l (rw_stamps w) (rw_contexts w @ [?u]) ?reqs"
        by (rule requests_ok_update [OF parts(5) [OF l] live(2) refl True])
      have rest: "requests_ok j (rw_stamps w) (rw_contexts w @ [?u]) (ls_requests (rw_ledgers w ! j))"
        if "j < length (rw_ledgers w)" "j \<noteq> l" for j
      proof (rule requests_ok_cong [OF parts(5) [OF that(1)]])
        fix k d assume "(k, d) \<in> set (ls_requests (rw_ledgers w ! j))"
        with parts(5) [OF that(1)] have "d \<in> set (rw_contexts w)" "us_ledger (rw_stamps w ! uc_stamp d) = j"
          "latest (rw_contexts w) d" by (auto simp: requests_ok_def)
        with live(6) that(2) show "rw_stamps w ! uc_stamp d = rw_stamps w ! uc_stamp d \<and>
            d \<in> set (rw_contexts w @ [?u]) \<and> latest (rw_contexts w @ [?u]) d"
          by auto
      qed
      have requests: "requests_ok j (rw_stamps w) (rw_contexts w @ [?u]) (ls_requests (?new ! j))"
        if "j < length (rw_ledgers w)" for j
        using new rest that by (cases "j = l") auto
      have tables: "table_ok (ls_table (?new ! j))" if "j < length (rw_ledgers w)" for j
        using inv that by (cases "j = l") auto
      have "contexts_ok (rw_leases w) (rw_stamps w) (rw_contexts w @ [?u])"
      proof (rule contexts_ok_snoc [OF parts(1)])
        show "same_request ?u d" if "d \<in> set (rw_contexts w)" "uc_stamp d = uc_stamp ?u" for d
          using cf(4) [OF that(1)] that(2) by (simp add: same_request_def)
      qed (use cf in simp_all)
      moreover have "uc_stamp ?u \<noteq> uc_stamp (sm_context sm)" if "sm \<in> set (rw_samples w)" for sm
        using parts(2) that live(5) in_stamps by (auto simp: samples_ok_def)
      then have "latest (rw_contexts w @ [?u]) (sm_context sm)" if "sm \<in> set (rw_samples w)" for sm
        using parts(2) that by (simp add: samples_ok_def)
      then have "samples_ok (rw_stamps w) (rw_contexts w @ [?u]) (rw_samples w)"
        using parts(2) by (simp add: samples_ok_def)
      moreover have "stamps_covered (rw_stamps w) ?new"
      proof -
        have "set (map (uc_stamp \<circ> snd) ?reqs) = set (map (uc_stamp \<circ> snd) (ls_requests ?s))"
        proof -
          have only: "b = ?c" if "(request_id, b) \<in> set (ls_requests ?s)" for b
            using that live(2) parts(5) [OF l] map_of_is_SomeI [of "ls_requests ?s" request_id b]
            by (simp add: requests_ok_def)
          have "map (uc_stamp \<circ> snd) ?reqs = map (uc_stamp \<circ> snd) (ls_requests ?s)"
            using update_same_key [OF _ live(2), of ?u] parts(5) [OF l] only
            by (auto simp: requests_ok_def intro!: map_cong)
          then show ?thesis by simp
        qed
        then show ?thesis using parts(3) l by (auto simp: stamps_covered_def nth_list_update)
      qed
      moreover have "leases_ok (rw_leases w) ?new"
        using parts(4) l by (auto simp: leases_ok_def nth_list_update)
      ultimately show ?thesis using run requests tables by simp
    qed
  qed
qed

text \<open>A sample ends the request instance: its stamp turns terminal and the live record goes.\<close>

lemma inv_sample:
  assumes inv: "route_inv (Some w)" and l: "l < length (rw_ledgers w)" and i: "i < length (rw_contexts w)"
  shows "route_inv (route_apply (OpSample l i request_id turn_id counters) w)"
proof -
  let ?s = "rw_ledgers w ! l" and ?c = "rw_contexts w ! i"
  let ?n = "uc_stamp ?c"
  show ?thesis
  proof (cases "live_context l ?c request_id turn_id (rw_stamps w) ?s")
    case (Inl e)
    with inv show ?thesis by (simp add: mint_terminal_sample_def)
  next
    case (Inr live)
    note live = live_context_Inr [OF Inr]
    let ?stamps = "(rw_stamps w)[?n := (rw_stamps w ! ?n)\<lparr>us_terminal := True\<rparr>]"
    let ?reqs = "AList.delete request_id (ls_requests ?s)"
    let ?new = "(rw_ledgers w)[l := ?s\<lparr>ls_requests := ?reqs\<rparr>]"
    let ?sm = "\<lparr>sm_context = ?c, sm_counters = counters\<rparr>"
    have run: "mint_terminal_sample l ?c request_id turn_id counters (rw_stamps w) ?s =
        Some (Inr ?sm, ?stamps, ?s\<lparr>ls_requests := ?reqs\<rparr>)"
      using Inr live by (simp add: mint_terminal_sample_def mark_terminal_def context_is_terminal_def
          same_request_instance_def)
    have parts: "contexts_ok (rw_leases w) (rw_stamps w) (rw_contexts w)"
      "samples_ok (rw_stamps w) (rw_contexts w) (rw_samples w)" "stamps_covered (rw_stamps w) (rw_ledgers w)"
      "leases_ok (rw_leases w) (rw_ledgers w)"
      "\<And>j. j < length (rw_ledgers w) \<Longrightarrow>
        requests_ok j (rw_stamps w) (rw_contexts w) (ls_requests (rw_ledgers w ! j))"
      using inv by simp_all
    have n: "?n < length (rw_stamps w)" using parts(1) i by (simp add: contexts_ok_def)
    have kc: "(request_id, ?c) \<in> set (ls_requests ?s)" using live(2) by (rule map_of_SomeD)
    have differ: "uc_stamp d \<noteq> ?n" if "(k, d) \<in> set (ls_requests (rw_ledgers w ! j))" "j < length (rw_ledgers w)"
      "j \<noteq> l \<or> k \<noteq> request_id" for j k d
    proof (cases "j = l")
      case True
      with that stamp_key [OF _ _ kc, of k d] parts(5) [OF l] show ?thesis by (auto simp: requests_ok_def)
    next
      case False
      with that(1) parts(5) [OF that(2)] live(6) show ?thesis by (auto simp: requests_ok_def)
    qed
    have del: "requests_ok l (rw_stamps w) (rw_contexts w) ?reqs"
      using parts(5) [OF l]
      by (auto simp: requests_ok_def AList.delete_eq distinct_map_filter
          intro: order_trans [OF length_filter_le])
    have requests: "requests_ok j ?stamps (rw_contexts w) (ls_requests (?new ! j))"
      if "j < length (rw_ledgers w)" for j
    proof (cases "j = l")
      case True
      have "requests_ok l ?stamps (rw_contexts w) ?reqs"
      proof (rule requests_ok_cong [OF del])
        fix k d assume kd: "(k, d) \<in> set ?reqs"
        with differ [OF _ l, of k d] del show "?stamps ! uc_stamp d = rw_stamps w ! uc_stamp d \<and>
            d \<in> set (rw_contexts w) \<and> latest (rw_contexts w) d"
          by (auto simp: requests_ok_def AList.delete_eq)
      qed
      with True l show ?thesis by simp
    next
      case False
      have "requests_ok j ?stamps (rw_contexts w) (ls_requests (rw_ledgers w ! j))"
      proof (rule requests_ok_cong [OF parts(5) [OF that]])
        fix k d assume kd: "(k, d) \<in> set (ls_requests (rw_ledgers w ! j))"
        with differ [OF kd that] False parts(5) [OF that]
        show "?stamps ! uc_stamp d = rw_stamps w ! uc_stamp d \<and> d \<in> set (rw_contexts w) \<and> latest (rw_contexts w) d"
          by (auto simp: requests_ok_def)
      qed
      with False show ?thesis by simp
    qed
    have tables: "table_ok (ls_table (?new ! j))" if "j < length (rw_ledgers w)" for j
      using inv that by (cases "j = l") auto
    have ledger: "us_ledger (?stamps ! j) = us_ledger (rw_stamps w ! j)" for j
      using n by (cases "j = ?n") auto
    have "contexts_ok (rw_leases w) ?stamps (rw_contexts w)"
      using parts(1) by (simp add: contexts_ok_def ledger)
    moreover have "samples_ok ?stamps (rw_contexts w) (rw_samples w @ [?sm])"
    proof -
      have "?n \<notin> set (map (uc_stamp \<circ> sm_context) (rw_samples w))"
        using parts(2) live(5) n by (auto simp: samples_ok_def)
      moreover have "latest (rw_contexts w) ?c" using parts(5) [OF l] kc by (auto simp: requests_ok_def)
      moreover have "us_terminal (?stamps ! j) \<longleftrightarrow> j = ?n \<or> us_terminal (rw_stamps w ! j)"
        if "j < length (rw_stamps w)" for j
        using n that by (cases "j = ?n") auto
      ultimately show ?thesis using parts(2) i by (auto simp: samples_ok_def)
    qed
    moreover have "stamps_covered ?stamps ?new"
    proof -
      have "j \<in> set (map (uc_stamp \<circ> snd) (ls_requests (?new ! us_ledger (rw_stamps w ! j))))"
        if "j < length (rw_stamps w)" "j \<noteq> ?n" "\<not> us_terminal (rw_stamps w ! j)" for j
      proof -
        from parts(3) that obtain k d where d: "(k, d) \<in> set (ls_requests (rw_ledgers w ! us_ledger (rw_stamps w ! j)))"
          "uc_stamp d = j" by (auto simp: stamps_covered_def)
        have "k \<noteq> request_id" if here: "us_ledger (rw_stamps w ! j) = l"
        proof
          assume "k = request_id"
          with d(1) here parts(5) [OF l] live(2) have "d = ?c"
            using map_of_is_SomeI [of "ls_requests ?s" k d] by (simp add: requests_ok_def)
          with d(2) \<open>j \<noteq> ?n\<close> show False by simp
        qed
        with d l show ?thesis
          by (cases "us_ledger (rw_stamps w ! j) = l") (force simp: AList.delete_eq)+
      qed
      then have "us_terminal (?stamps ! j) \<or>
          j \<in> set (map (uc_stamp \<circ> snd) (ls_requests (?new ! us_ledger (?stamps ! j))))"
        if "j < length (rw_stamps w)" for j
        using that n by (cases "j = ?n"; cases "us_terminal (rw_stamps w ! j)") (simp_all add: ledger del: set_map)
      then show ?thesis using parts(3) by (simp add: stamps_covered_def ledger)
    qed
    moreover have "leases_ok (rw_leases w) ?new"
      using parts(4) l by (auto simp: leases_ok_def nth_list_update)
    ultimately show ?thesis using run requests tables by simp
  qed
qed

lemma route_apply_inv: "op_enabled op w \<Longrightarrow> route_inv (Some w) \<Longrightarrow> route_inv (route_apply op w)"
  by (cases op)
    (simp_all only: op_enabled.simps inv_new_ledger inv_register inv_lease inv_context inv_resolve inv_sample)

lemma route_inv_start: "route_start x \<Longrightarrow> route_inv x"
  by (auto simp: route_start_def route_inv_parts)

interpretation routing: invariant_system route_start route_step route_inv
proof unfold_locales
  show "route_start x \<Longrightarrow> route_inv x" for x by (rule route_inv_start)
  show "route_inv x \<Longrightarrow> route_step x y \<Longrightarrow> route_inv y" for x y
    by (elim route_stepE) (auto intro: route_apply_inv simp del: route_inv.simps)
qed

subsection \<open>What the ledger guarantees\<close>

text \<open>Lookups through the two secondary indexes.\<close>

lemma table_lookup:
  assumes ok: "table_ok t"
  shows "snapshot_provider p t = Some ow \<longleftrightarrow>
      snapshot_route (pc_route_id (ow_claim ow)) t = Some ow \<and> pc_provider_id (ow_claim ow) = p"
    "snapshot_auth_slot a t = Some ow \<longleftrightarrow>
      snapshot_route (pc_route_id (ow_claim ow)) t = Some ow \<and> pc_auth_slot_id (ow_claim ow) = a"
proof -
  have keys: "distinct (map fst (rt_routes t))" "distinct (map fst (rt_providers t))"
    "distinct (map fst (rt_auth_slots t))"
    and prov: "rt_providers t = map (\<lambda>(r, ow). (pc_provider_id (ow_claim ow), r)) (rt_routes t)"
    and auth: "rt_auth_slots t = map (\<lambda>(r, ow). (pc_auth_slot_id (ow_claim ow), r)) (rt_routes t)"
    and own: "\<And>r ow. (r, ow) \<in> set (rt_routes t) \<Longrightarrow> pc_route_id (ow_claim ow) = r"
    using ok by (auto simp: table_ok_def)
  have route: "map_of (rt_routes t) r = Some ow \<longleftrightarrow> (r, ow) \<in> set (rt_routes t)" for r ow
    using keys(1) by (rule map_of_eq_Some_iff)
  have "map_of (rt_providers t) p = Some r \<longleftrightarrow> (\<exists>ow. (r, ow) \<in> set (rt_routes t) \<and> pc_provider_id (ow_claim ow) = p)"
    for r using map_of_eq_Some_iff [OF keys(2)] by (auto simp: prov)
  then show "snapshot_provider p t = Some ow \<longleftrightarrow>
      snapshot_route (pc_route_id (ow_claim ow)) t = Some ow \<and> pc_provider_id (ow_claim ow) = p"
    using own route keys(1)
    by (auto simp: snapshot_provider_def snapshot_route_def bind_eq_Some_conv dest: eq_key_imp_eq_value)
  have "map_of (rt_auth_slots t) a = Some r \<longleftrightarrow> (\<exists>ow. (r, ow) \<in> set (rt_routes t) \<and> pc_auth_slot_id (ow_claim ow) = a)"
    for r using map_of_eq_Some_iff [OF keys(3)] by (auto simp: auth)
  then show "snapshot_auth_slot a t = Some ow \<longleftrightarrow>
      snapshot_route (pc_route_id (ow_claim ow)) t = Some ow \<and> pc_auth_slot_id (ow_claim ow) = a"
    using own route keys(1)
    by (auto simp: snapshot_auth_slot_def snapshot_route_def bind_eq_Some_conv dest: eq_key_imp_eq_value)
qed

text \<open>C32. In every process that only uses the ledgers' operations, no operation panics, and in every
  ledger a provider id and an authentication slot lead to the route that claims them and to no other, all
  registered owners are of the Providers family, there are at most 4096 routes and 4096 live contexts,
  and the ownership in every lease that was handed out is still the registered one.\<close>

theorem route_ownership_unique:
  assumes "reach route_start route_step x"
  shows "\<exists>w. x = Some w \<and>
    (\<forall>s\<in>set (rw_ledgers w). \<forall>ow key.
       (snapshot_provider key (ls_table s) = Some ow) =
         (snapshot_route (pc_route_id (ow_claim ow)) (ls_table s) = Some ow \<and> pc_provider_id (ow_claim ow) = key) \<and>
       (snapshot_auth_slot key (ls_table s) = Some ow) =
         (snapshot_route (pc_route_id (ow_claim ow)) (ls_table s) = Some ow \<and> pc_auth_slot_id (ow_claim ow) = key) \<and>
       (snapshot_route key (ls_table s) = Some ow \<longrightarrow>
         pc_route_id (ow_claim ow) = key \<and> po_manager_family (ow_owner ow) = Providers) \<and>
       length (rt_routes (ls_table s)) \<le> 4096 \<and> length (ls_requests s) \<le> 4096) \<and>
    (\<forall>le\<in>set (rw_leases w).
       snapshot_route (pc_route_id (ow_claim (ml_ownership le))) (ls_table (rw_ledgers w ! ml_seal le)) =
         Some (ml_ownership le))"
proof -
  have inv: "route_inv x" by (rule routing.reach_inv [OF assms])
  then obtain w where w: "x = Some w" by (cases x) auto
  have ok: "table_ok (ls_table s)" "length (ls_requests s) \<le> 4096" if "s \<in> set (rw_ledgers w)" for s
    using inv w that by (auto simp: in_set_conv_nth requests_ok_def MAX_USAGE_CONTEXTS_PER_LEDGER_def)
  have route: "snapshot_route r t = Some ow \<longleftrightarrow> (r, ow) \<in> set (rt_routes t)" if "table_ok t" for r t ow
    using that by (simp add: snapshot_route_def table_ok_def map_of_eq_Some_iff)
  have "leases_ok (rw_leases w) (rw_ledgers w)" using inv w by simp
  then have leases: "\<forall>le\<in>set (rw_leases w).
      snapshot_route (pc_route_id (ow_claim (ml_ownership le))) (ls_table (rw_ledgers w ! ml_seal le)) =
        Some (ml_ownership le)"
    using ok(1) route by (simp add: leases_ok_def)
  have own: "pc_route_id (ow_claim ow) = key \<and> po_manager_family (ow_owner ow) = Providers"
    if "table_ok t" "snapshot_route key t = Some ow" for t key ow
    using that route [OF that(1), of key ow] by (auto simp: table_ok_def)
  have few: "length (rt_routes t) \<le> 4096" if "table_ok t" for t
    using that by (simp add: table_ok_def MAX_PROVIDER_ROUTE_CLAIMS_def)
  have "\<forall>s\<in>set (rw_ledgers w). \<forall>ow key.
      (snapshot_route key (ls_table s) = Some ow \<longrightarrow>
        pc_route_id (ow_claim ow) = key \<and> po_manager_family (ow_owner ow) = Providers)"
    using own [OF ok(1)] by blast
  with w leases few [OF ok(1)] ok(2) table_lookup [OF ok(1)] show ?thesis by simp
qed

definition sample_owner :: route_owner where
  "sample_owner = \<lparr>po_manager_family = Providers, po_manager_artifact = \<lparr>ar_version = ''1'', ar_digest = ''d''\<rparr>,
     po_pack_id = ''p'', po_pack_source = ''s'', po_pack_artifact = \<lparr>ar_version = ''1'', ar_digest = ''d''\<rparr>,
     po_generation = 1\<rparr>"

definition sample_claim :: route_claim where
  "sample_claim = \<lparr>pc_provider_id = ''pr'', pc_route_id = ''r'', pc_auth_slot_id = ''a'',
     pc_endpoint_fingerprint = ''e'', pc_auth_fingerprint = ''f''\<rparr>"

definition sample_counters :: usage_counters where
  "sample_counters = \<lparr>cn_input_tokens = Some 3, cn_output_tokens = None, cn_cache_read_tokens = None,
     cn_cache_write_tokens = None\<rparr>"

fun route_run :: "route_op list \<Rightarrow> route_world \<Rightarrow> route_world option" where
  "route_run [] w = Some w"
| "route_run (op # ops) w =
     (if op_enabled op w then Option.bind (route_apply op w) (route_run ops) else None)"

lemma route_run_reach:
  "reach route_start route_step (Some w) \<Longrightarrow> route_run ops w = Some w' \<Longrightarrow> reach route_start route_step (Some w')"
proof (induction ops arbitrary: w)
  case (Cons op ops)
  then obtain v where v: "op_enabled op w" "route_apply op w = Some v" "route_run ops v = Some w'"
    by (auto simp: bind_eq_Some_conv split: if_splits)
  have "reach route_start route_step (Some v)"
    using reach_step [OF Cons.prems(1) route_stepI [OF v(1)]] v(2) by simp
  with v(3) Cons.IH show ?case by blast
qed simp

definition empty_world :: route_world where
  "empty_world = \<lparr>rw_ledgers = [], rw_stamps = [], rw_leases = [], rw_contexts = [], rw_samples = []\<rparr>"

lemma empty_reach: "reach route_start route_step (Some empty_world)"
  by (rule reach_init) (simp add: route_start_def empty_world_def)

text \<open>One request from registration to its sample.\<close>

lemmas ledger_eval = empty_world_def put_ledger_def register_owner_claims_def collect_claims_def
  validate_registration_def claim_step_def insert_claim_def mint_model_route_lease_def
  validate_expected_owner_def mint_usage_context_def usage_context_new_def usage_stamp_new_def
  validate_lease_def lease_belongs_to_def live_context_def validate_request_and_turn_def
  validate_context_def context_belongs_to_def context_is_terminal_def same_snapshot_eq
  record_resolved_model_def with_resolved_model_def mint_terminal_sample_def mark_terminal_def
  same_request_instance_def ledger_new_def route_table_default_def
  MAX_PROVIDER_ROUTE_CLAIMS_PER_BATCH_def MAX_PROVIDER_ROUTE_CLAIMS_def MAX_USAGE_CONTEXTS_PER_LEDGER_def

definition sample_ops :: "route_op list" where
  "sample_ops = [OpNewLedger, OpRegister 0 sample_owner [sample_claim], OpLease 0 sample_owner ''r'' ''m'',
     OpContext 0 sample_owner 0 ''q'' ''t'' ''m'' None, OpResolve 0 0 ''q'' ''t'' ''m2'',
     OpSample 0 1 ''q'' ''t'' sample_counters, OpSample 0 0 ''q'' ''t'' sample_counters]"

lemma sample_ops_run:
  "\<exists>w le c sm. route_run sample_ops empty_world = Some w \<and> rw_leases w = [le] \<and> ml_seal le = 0 \<and>
     pc_route_id (ow_claim (ml_ownership le)) = ''r'' \<and> rw_samples w = [sm] \<and> rw_contexts w = [c, sm_context sm] \<and>
     uc_stamp c = 0 \<and> uc_stamp (sm_context sm) = 0 \<and> length (rw_stamps w) = 1"
  by (simp add: sample_ops_def ledger_eval sample_owner_def sample_claim_def checked_add_def Let_def)

theorem route_ownership_unique_witness:
  "\<exists>w le. route_run sample_ops empty_world = Some w \<and> rw_leases w = [le] \<and>
     snapshot_route ''r'' (ls_table (rw_ledgers w ! 0)) = Some (ml_ownership le)"
proof -
  obtain w le where w: "route_run sample_ops empty_world = Some w" "rw_leases w = [le]" "ml_seal le = 0"
    "pc_route_id (ow_claim (ml_ownership le)) = ''r''"
    using sample_ops_run by blast
  from route_ownership_unique [OF route_run_reach [OF empty_reach w(1)]] w show ?thesis by auto
qed

text \<open>C31. Usage is counted exactly once. Along every use of any number of ledgers, no two samples belong
  to the same request instance, and an instance is terminal exactly when its sample was minted; until
  then its ledger holds a live record for it. All snapshots of an instance agree on the lease, the ids and
  the requested model, at most one resolved model is ever recorded for it, and the sample carries the
  latest.\<close>

theorem usage_sampled_once:
  assumes "reach route_start route_step (Some w)"
  shows "distinct (map (uc_stamp \<circ> sm_context) (rw_samples w)) \<and>
    (\<forall>i<length (rw_stamps w).
       (us_terminal (rw_stamps w ! i) = (\<exists>sm\<in>set (rw_samples w). uc_stamp (sm_context sm) = i)) \<and>
       (us_terminal (rw_stamps w ! i) \<or>
        (\<exists>(k, c)\<in>set (ls_requests (rw_ledgers w ! us_ledger (rw_stamps w ! i))). uc_stamp c = i))) \<and>
    (\<forall>sm\<in>set (rw_samples w). \<forall>c\<in>set (rw_contexts w). uc_stamp c = uc_stamp (sm_context sm) \<longrightarrow>
       same_request c (sm_context sm) \<and>
       (uc_resolved_model c = None \<or> uc_resolved_model c = uc_resolved_model (sm_context sm)))"
proof -
  have inv: "route_inv (Some w)" by (rule routing.reach_inv [OF assms])
  then have parts: "samples_ok (rw_stamps w) (rw_contexts w) (rw_samples w)"
    "contexts_ok (rw_leases w) (rw_stamps w) (rw_contexts w)" "stamps_covered (rw_stamps w) (rw_ledgers w)"
    by simp_all
  have "same_request c (sm_context sm)" "uc_resolved_model c = None \<or> uc_resolved_model c = uc_resolved_model (sm_context sm)"
    if "sm \<in> set (rw_samples w)" "c \<in> set (rw_contexts w)" "uc_stamp c = uc_stamp (sm_context sm)" for sm c
  proof -
    from parts(1) that(1) have sm: "sm_context sm \<in> set (rw_contexts w)" "latest (rw_contexts w) (sm_context sm)"
      by (simp_all add: samples_ok_def)
    show "same_request c (sm_context sm)" using parts(2) sm(1) that(2,3) unfolding contexts_ok_def by metis
    show "uc_resolved_model c = None \<or> uc_resolved_model c = uc_resolved_model (sm_context sm)"
      using sm(2) that(2,3) unfolding latest_def by blast
  qed
  moreover have "(us_terminal (rw_stamps w ! i) = (\<exists>sm\<in>set (rw_samples w). uc_stamp (sm_context sm) = i)) \<and>
      (us_terminal (rw_stamps w ! i) \<or>
       (\<exists>(k, c)\<in>set (ls_requests (rw_ledgers w ! us_ledger (rw_stamps w ! i))). uc_stamp c = i))"
    if "i < length (rw_stamps w)" for i
    using parts(1,3) that by (fastforce simp: samples_ok_def stamps_covered_def)
  moreover have "distinct (map (uc_stamp \<circ> sm_context) (rw_samples w))" using parts(1) by (simp add: samples_ok_def)
  ultimately show ?thesis by blast
qed

theorem usage_sampled_once_witness:
  "\<exists>w sm. route_run sample_ops empty_world = Some w \<and> rw_samples w = [sm] \<and>
     us_terminal (rw_stamps w ! uc_stamp (sm_context sm))"
proof -
  obtain w sm where w: "route_run sample_ops empty_world = Some w" "rw_samples w = [sm]"
    "uc_stamp (sm_context sm) = 0" "length (rw_stamps w) = 1"
    using sample_ops_run by blast
  from usage_sampled_once [OF route_run_reach [OF empty_reach w(1)]] w show ?thesis by simp
qed

end
