(* ===== verification/Strict_Json.thy ===== *)
theory Strict_Json
  imports Identifiers "HOL-Library.AList"
begin

section \<open>Strict bounded JSON of the authority documents\<close>

text \<open>
  \<open>mcode-config/src/parse.rs\<close> and the field helpers of \<open>authority.rs\<close>. \<open>serde\_json\<close> turns the bytes of a
  file into calls of the visitor; \<open>reading\<close> is that sequence of calls, with a \<open>Fail\<close> at every place where
  the deserializer reports a syntax error instead of the next call. The visitor of the code consumes it
  and stops at the first violation of its limits. \<open>parse\_strict\_value\_iff\<close> states which readings it accepts.
\<close>

subsection \<open>Values and readings\<close>

text \<open>\<open>serde\_json::Value\<close>: \<open>VUInt\<close> is a number with \<open>as\_u64()\<close>, \<open>VNumber\<close> any other; the members of an
  object have distinct names.\<close>

datatype json_value =
    VNull
  | VBool bool
  | VUInt nat
  | VNumber string
  | VString string
  | VArray "json_value list"
  | VObject "(string \<times> json_value) list"

datatype reading =
    RFail
  | RNull
  | RBool bool
  | RUInt nat
  | RNumber string
  | RString string
  | RSeq items
  | RMap members
and items =
    ItemsEnd
  | ItemsFail
  | Item reading items
and members =
    MembersEnd
  | MembersFail
  | MemberNoValue string
  | Member string reading members

record parse_limits =
  max_depth :: nat
  max_nodes :: nat

datatype violation = ViolTooDeep | ViolTooManyNodes | ViolDuplicateKey

record parse_state =
  ps_limits :: parse_limits
  ps_nodes :: nat
  ps_violation :: "violation option"

text \<open>The error of the deserializer carries no information; only the recorded violation is read.\<close>

type_synonym 'a visit = "(parse_state, unit, 'a) sx"

definition parse_reject :: "violation \<Rightarrow> 'a visit" where
  "parse_reject kind s =
     (Inl (), if ps_violation s = None then s\<lparr>ps_violation := Some kind\<rparr> else s)"

definition count_node :: "unit visit" where
  "count_node s =
     (case checked_add 64 (ps_nodes s) 1 of
        None \<Rightarrow> parse_reject ViolTooManyNodes s
      | Some n \<Rightarrow>
          let t = s\<lparr>ps_nodes := n\<rparr> in
          if n > max_nodes (ps_limits t) then parse_reject ViolTooManyNodes t else (Inr (), t))"

definition enter_value :: "nat \<Rightarrow> unit visit" where
  "enter_value depth s =
     (if depth > max_depth (ps_limits s) then parse_reject ViolTooDeep s else count_node s)"

definition child_depth_of :: "nat \<Rightarrow> nat visit" where
  "child_depth_of depth s =
     (case checked_add 64 depth 1 of None \<Rightarrow> parse_reject ViolTooDeep s | Some d \<Rightarrow> (Inr d, s))"

fun visit_value :: "nat \<Rightarrow> reading \<Rightarrow> json_value visit"
  and visit_seq :: "nat \<Rightarrow> json_value list \<Rightarrow> items \<Rightarrow> json_value visit"
  and visit_map :: "nat \<Rightarrow> string set \<Rightarrow> (string \<times> json_value) list \<Rightarrow> members \<Rightarrow> json_value visit"
where
  "visit_value depth r = sx_bind (enter_value depth) (\<lambda>_.
     case r of
       RFail \<Rightarrow> sx_fail ()
     | RNull \<Rightarrow> sx_return VNull
     | RBool b \<Rightarrow> sx_return (VBool b)
     | RUInt n \<Rightarrow> sx_return (VUInt n)
     | RNumber n \<Rightarrow> sx_return (VNumber n)
     | RString s \<Rightarrow> sx_return (VString s)
     | RSeq elements \<Rightarrow>
         sx_bind (child_depth_of depth) (\<lambda>child_depth. visit_seq child_depth [] elements)
     | RMap entries \<Rightarrow>
         sx_bind (child_depth_of depth) (\<lambda>child_depth. visit_map child_depth {} [] entries))"
| "visit_seq child_depth values ItemsEnd = sx_return (VArray values)"
| "visit_seq child_depth values ItemsFail = sx_fail ()"
| "visit_seq child_depth values (Item r rest) =
     sx_bind (visit_value child_depth r) (\<lambda>value. visit_seq child_depth (values @ [value]) rest)"
| "visit_map child_depth keys values MembersEnd = sx_return (VObject values)"
| "visit_map child_depth keys values MembersFail = sx_fail ()"
| "visit_map child_depth keys values (MemberNoValue key) =
     sx_bind count_node (\<lambda>_.
       if key \<in> keys then parse_reject ViolDuplicateKey else sx_fail ())"
| "visit_map child_depth keys values (Member key r rest) =
     sx_bind count_node (\<lambda>_.
       if key \<in> keys then parse_reject ViolDuplicateKey
       else sx_bind (visit_value child_depth r) (\<lambda>value.
         visit_map child_depth (insert key keys) (AList.update key value values) rest))"

definition classify_parse_failure :: "violation option \<Rightarrow> config_error" where
  "classify_parse_failure v =
     (case v of
        None \<Rightarrow> InvalidJson
      | Some ViolTooDeep \<Rightarrow> TooDeep
      | Some ViolTooManyNodes \<Rightarrow> TooManyNodes
      | Some ViolDuplicateKey \<Rightarrow> DuplicateKey)"

text \<open>
  What the development takes from \<open>serde\_json\<close> and \<open>std::str\<close>, for a type \<open>'b\<close> of file contents: whether
  the bytes are UTF-8, the reading of the bytes with the result of \<open>Deserializer::end\<close>, the compact
  text of a value followed by a line feed, and the number of bytes.
\<close>

record 'b json_codec =
  jc_utf8 :: "'b \<Rightarrow> bool"
  jc_reading :: "'b \<Rightarrow> reading \<times> bool"
  jc_to_vec :: "json_value \<Rightarrow> 'b option"
  jc_len :: "'b \<Rightarrow> nat"

definition parse_strict_value :: "'b json_codec \<Rightarrow> 'b \<Rightarrow> parse_limits \<Rightarrow> config_error + json_value" where
  "parse_strict_value codec bytes limits =
     (if \<not> jc_utf8 codec bytes then Inl NonUtf8
      else case visit_value 1 (fst (jc_reading codec bytes))
                  \<lparr>ps_limits = limits, ps_nodes = 0, ps_violation = None\<rparr> of
          (Inl _, s) \<Rightarrow> Inl (classify_parse_failure (ps_violation s))
        | (Inr value, _) \<Rightarrow> if \<not> snd (jc_reading codec bytes) then Inl InvalidJson else Inr value)"

subsection \<open>Fields of an object (authority.rs)\<close>

definition exact_object :: "json_value \<Rightarrow> string list \<Rightarrow> config_error + (string \<times> json_value) list" where
  "exact_object value names =
     (case value of
        VObject object \<Rightarrow>
          if length object \<noteq> length names \<or> \<not> list_all (\<lambda>f. map_of object f \<noteq> None) names
          then Inl AuthorityValidation else Inr object
      | _ \<Rightarrow> Inl AuthorityValidation)"

fun as_str :: "json_value \<Rightarrow> string option" where
  "as_str (VString s) = Some s"
| "as_str _ = None"

fun as_u64 :: "json_value \<Rightarrow> nat option" where
  "as_u64 (VUInt n) = Some n"
| "as_u64 _ = None"

text \<open>\<open>Map::remove\<close> on the object the caller holds by \<open>&mut\<close>.\<close>

definition take_value :: "string \<Rightarrow> ((string \<times> json_value) list, config_error, json_value) sx" where
  "take_value field object =
     (case map_of object field of
        None \<Rightarrow> (Inl AuthorityValidation, object)
      | Some v \<Rightarrow> (Inr v, AList.delete field object))"

definition take_string :: "string \<Rightarrow> ((string \<times> json_value) list, config_error, string) sx" where
  "take_string field = sx_bind (take_value field) (\<lambda>v. sx_lift (ok_or (as_str v) AuthorityValidation))"

definition take_u32 :: "string \<Rightarrow> ((string \<times> json_value) list, config_error, nat) sx" where
  "take_u32 field = sx_bind (take_value field) (\<lambda>v.
     sx_lift (ok_or (Option.bind (as_u64 v) (\<lambda>n. if n < 2 ^ 32 then Some n else None)) AuthorityValidation))"

definition take_positive_u64 :: "string \<Rightarrow> ((string \<times> json_value) list, config_error, nat) sx" where
  "take_positive_u64 field = sx_bind (take_value field) (\<lambda>v.
     sx_bind (sx_lift (ok_or (as_u64 v) AuthorityValidation)) (\<lambda>n.
       if n = 0 \<or> n > i64_max then sx_fail AuthorityValidation else sx_return n))"

definition take_positive_revision :: "string \<Rightarrow> ((string \<times> json_value) list, config_error, nat) sx" where
  "take_positive_revision field =
     sx_bind (take_positive_u64 field) (\<lambda>n. sx_lift (authority_revision_new n))"

text \<open>\<open>sx\_eval\<close> runs the body of a function that owns the object.\<close>

definition sx_eval :: "('s, 'e, 'a) sx \<Rightarrow> 's \<Rightarrow> 'e + 'a" where
  "sx_eval f s = fst (f s)"

definition parse_active :: "(string \<Rightarrow> string option) \<Rightarrow> json_value \<Rightarrow> config_error + artifact_ref" where
  "parse_active semver value =
     and_then (exact_object value [''version'', ''digest'']) (sx_eval
       (sx_bind (take_string ''version'') (\<lambda>v.
        sx_bind (sx_lift (canonical_version_parse semver v)) (\<lambda>version.
        sx_bind (take_string ''digest'') (\<lambda>d.
        sx_bind (sx_lift (sha256_digest_parse d)) (\<lambda>digest.
        sx_return \<lparr>ar_version = version, ar_digest = digest\<rparr>))))))"

definition parse_trust_high_water :: "json_value \<Rightarrow> config_error + trust_high_water" where
  "parse_trust_high_water value =
     and_then (exact_object value [''sequence'', ''manifestDigest'']) (sx_eval
       (sx_bind (take_positive_u64 ''sequence'') (\<lambda>sequence.
        sx_bind (take_string ''manifestDigest'') (\<lambda>d.
        sx_bind (sx_lift (sha256_digest_parse d)) (\<lambda>digest.
        sx_lift (trust_high_water_new sequence digest))))))"

subsection \<open>Which readings are accepted\<close>

text \<open>The reading of a value, its number of nodes (values and member names) and its depth.\<close>

fun items_of :: "reading list \<Rightarrow> items" where
  "items_of [] = ItemsEnd"
| "items_of (r # rs) = Item r (items_of rs)"

fun members_of :: "(string \<times> reading) list \<Rightarrow> members" where
  "members_of [] = MembersEnd"
| "members_of ((k, r) # rs) = Member k r (members_of rs)"

fun reading_of :: "json_value \<Rightarrow> reading" where
  "reading_of VNull = RNull"
| "reading_of (VBool b) = RBool b"
| "reading_of (VUInt n) = RUInt n"
| "reading_of (VNumber n) = RNumber n"
| "reading_of (VString s) = RString s"
| "reading_of (VArray vs) = RSeq (items_of (map reading_of vs))"
| "reading_of (VObject kvs) = RMap (members_of (map (\<lambda>(k, v). (k, reading_of v)) kvs))"

fun value_nodes :: "json_value \<Rightarrow> nat" where
  "value_nodes (VArray vs) = Suc (sum_list (map value_nodes vs))"
| "value_nodes (VObject kvs) = Suc (sum_list (map (\<lambda>(k, v). Suc (value_nodes v)) kvs))"
| "value_nodes _ = 1"

fun value_depth :: "json_value \<Rightarrow> nat" where
  "value_depth (VArray vs) = Suc (foldr (\<lambda>v. max (value_depth v)) vs 0)"
| "value_depth (VObject kvs) = Suc (foldr (\<lambda>(k, v). max (value_depth v)) kvs 0)"
| "value_depth _ = 1"

fun keys_distinct :: "json_value \<Rightarrow> bool" where
  "keys_distinct (VArray vs) \<longleftrightarrow> list_all keys_distinct vs"
| "keys_distinct (VObject kvs) \<longleftrightarrow> distinct (map fst kvs) \<and> list_all (\<lambda>(k, v). keys_distinct v) kvs"
| "keys_distinct _ \<longleftrightarrow> True"

declare visit_value.simps(1) [simp del]

lemma foldr_max_le:
  fixes f :: "'a \<Rightarrow> nat"
  shows "foldr (\<lambda>x. max (f x)) xs 0 \<le> n \<longleftrightarrow> (\<forall>x\<in>set xs. f x \<le> n)"
  by (induction xs) auto

lemma foldr_max_pair_le:
  fixes f :: "'b \<Rightarrow> nat"
  shows "foldr (\<lambda>(k, v). max (f v)) kvs 0 \<le> n \<longleftrightarrow> (\<forall>(k, v)\<in>set kvs. f v \<le> n)"
  by (induction kvs) auto

lemma value_nodes_pos [simp]: "0 < value_nodes v"
  by (cases v) simp_all

lemma value_depth_pos [simp]: "0 < value_depth v"
  by (cases v) simp_all

text \<open>The limits are values of \<open>usize\<close>, with room for the child depth.\<close>

definition limits_ok :: "parse_limits \<Rightarrow> bool" where
  "limits_ok l \<longleftrightarrow> max_depth l + 1 < 2 ^ 64 \<and> max_nodes l < 2 ^ 64"

definition advance :: "nat \<Rightarrow> parse_state \<Rightarrow> parse_state" where
  "advance n s = s\<lparr>ps_nodes := ps_nodes s + n\<rparr>"

lemma advance_simps [simp]:
  "ps_limits (advance n s) = ps_limits s" "ps_nodes (advance n s) = ps_nodes s + n"
  "advance 0 s = s" "advance m (advance n s) = advance (n + m) s"
  by (simp_all add: advance_def)

lemma count_node_iff:
  assumes "limits_ok (ps_limits s)"
  shows "count_node s = (Inr u, t) \<longleftrightarrow> ps_nodes s + 1 \<le> max_nodes (ps_limits s) \<and> t = advance 1 s"
  using assms
  by (auto simp: count_node_def parse_reject_def limits_ok_def advance_def Let_def split: option.splits if_splits)

lemma enter_value_iff:
  assumes "limits_ok (ps_limits s)"
  shows "enter_value depth s = (Inr u, t) \<longleftrightarrow>
    depth \<le> max_depth (ps_limits s) \<and> ps_nodes s + 1 \<le> max_nodes (ps_limits s) \<and> t = advance 1 s"
  using count_node_iff [OF assms] by (auto simp: enter_value_def parse_reject_def)

lemma enter_value_run:
  assumes "limits_ok (ps_limits s)" "depth \<le> max_depth (ps_limits s)" "Suc (ps_nodes s) \<le> max_nodes (ps_limits s)"
  shows "enter_value depth s = (Inr (), advance (Suc 0) s)"
  using enter_value_iff [OF assms(1), of depth "()" "advance (Suc 0) s"] assms(2,3) by simp

lemma child_depth_iff:
  assumes "limits_ok (ps_limits s)" "depth \<le> max_depth (ps_limits s)"
  shows "child_depth_of depth s = (Inr d, t) \<longleftrightarrow> d = depth + 1 \<and> t = s"
  using assms by (auto simp: child_depth_of_def limits_ok_def parse_reject_def split: option.splits)

lemma parse_reject_not_Inr [simp]: "parse_reject k s \<noteq> (Inr x, t)"
  by (simp add: parse_reject_def)

text \<open>The part of a value's acceptance that concerns one value at a depth, given the nodes before.\<close>

definition fits :: "nat \<Rightarrow> json_value \<Rightarrow> parse_state \<Rightarrow> bool" where
  "fits depth v s \<longleftrightarrow> keys_distinct v \<and> depth + value_depth v \<le> Suc (max_depth (ps_limits s)) \<and>
     ps_nodes s + value_nodes v \<le> max_nodes (ps_limits s)"

definition fits_all :: "nat \<Rightarrow> json_value list \<Rightarrow> parse_state \<Rightarrow> bool" where
  "fits_all depth vs s \<longleftrightarrow> list_all keys_distinct vs \<and>
     (\<forall>v\<in>set vs. depth + value_depth v \<le> Suc (max_depth (ps_limits s))) \<and>
     ps_nodes s + sum_list (map value_nodes vs) \<le> max_nodes (ps_limits s)"

lemma fits_all_Cons:
  "fits_all d (v # vs) s \<longleftrightarrow> fits d v s \<and> fits_all d vs (advance (value_nodes v) s)"
  by (auto simp: fits_all_def fits_def add.assoc)

lemma fits_array:
  "fits depth (VArray vs) s \<longleftrightarrow>
     depth \<le> max_depth (ps_limits s) \<and> ps_nodes s + 1 \<le> max_nodes (ps_limits s) \<and>
     fits_all (depth + 1) vs (advance 1 s)"
proof -
  have "depth + value_depth (VArray vs) \<le> Suc m \<longleftrightarrow>
      depth \<le> m \<and> (\<forall>v\<in>set vs. depth + 1 + value_depth v \<le> Suc m)" for m
  proof -
    have "depth + value_depth (VArray vs) \<le> Suc m \<longleftrightarrow> depth \<le> m \<and> foldr (\<lambda>v. max (value_depth v)) vs 0 \<le> m - depth"
      by auto
    also have "\<dots> \<longleftrightarrow> depth \<le> m \<and> (\<forall>v\<in>set vs. value_depth v \<le> m - depth)"
      by (simp add: foldr_max_le)
    also have "\<dots> \<longleftrightarrow> depth \<le> m \<and> (\<forall>v\<in>set vs. depth + 1 + value_depth v \<le> Suc m)"
      by auto
    finally show ?thesis .
  qed
  then show ?thesis by (auto simp: fits_def fits_all_def)
qed

definition fits_members :: "nat \<Rightarrow> string set \<Rightarrow> (string \<times> json_value) list \<Rightarrow> parse_state \<Rightarrow> bool" where
  "fits_members depth keys kvs s \<longleftrightarrow>
     distinct (map fst kvs) \<and> fst ` set kvs \<inter> keys = {} \<and> list_all (\<lambda>(k, v). keys_distinct v) kvs \<and>
     (\<forall>(k, v)\<in>set kvs. depth + value_depth v \<le> Suc (max_depth (ps_limits s))) \<and>
     ps_nodes s + sum_list (map (\<lambda>(k, v). Suc (value_nodes v)) kvs) \<le> max_nodes (ps_limits s)"

lemma fits_members_Cons:
  "fits_members d keys ((k, v) # kvs) s \<longleftrightarrow>
     k \<notin> keys \<and> ps_nodes s + 1 \<le> max_nodes (ps_limits s) \<and> fits d v (advance 1 s) \<and>
     fits_members d (insert k keys) kvs (advance (Suc (value_nodes v)) s)"
  by (auto simp: fits_members_def fits_def add.assoc)

lemma fits_object:
  "fits depth (VObject kvs) s \<longleftrightarrow>
     depth \<le> max_depth (ps_limits s) \<and> ps_nodes s + 1 \<le> max_nodes (ps_limits s) \<and>
     fits_members (depth + 1) {} kvs (advance 1 s)"
proof -
  have "depth + value_depth (VObject kvs) \<le> Suc m \<longleftrightarrow>
      depth \<le> m \<and> (\<forall>(k, v)\<in>set kvs. depth + 1 + value_depth v \<le> Suc m)" for m
  proof -
    have "depth + value_depth (VObject kvs) \<le> Suc m \<longleftrightarrow>
        depth \<le> m \<and> foldr (\<lambda>(k, v). max (value_depth v)) kvs 0 \<le> m - depth"
      by auto
    also have "\<dots> \<longleftrightarrow> depth \<le> m \<and> (\<forall>(k, v)\<in>set kvs. value_depth v \<le> m - depth)"
      by (simp add: foldr_max_pair_le)
    also have "\<dots> \<longleftrightarrow> depth \<le> m \<and> (\<forall>(k, v)\<in>set kvs. depth + 1 + value_depth v \<le> Suc m)"
      by fastforce
    finally show ?thesis .
  qed
  then show ?thesis by (auto simp: fits_def fits_members_def)
qed

lemma reading_of_inject_shape:
  "items_of (map reading_of vs) = ItemsEnd \<longleftrightarrow> vs = []"
  "members_of (map (\<lambda>(k, v). (k, reading_of v)) kvs) = MembersEnd \<longleftrightarrow> kvs = []"
  by (cases vs, simp_all, cases kvs, auto)

lemma update_new: "k \<notin> fst ` set kvs \<Longrightarrow> AList.update k v kvs = kvs @ [(k, v)]"
  by (induction kvs) auto

text \<open>What an accepting visit has read.\<close>

abbreviation member_reading :: "string \<times> json_value \<Rightarrow> string \<times> reading" where
  "member_reading \<equiv> \<lambda>(k, v). (k, reading_of v)"

abbreviation member_nodes :: "string \<times> json_value \<Rightarrow> nat" where
  "member_nodes \<equiv> \<lambda>(k, v). Suc (value_nodes v)"

lemma visit_sound:
  "\<lbrakk>visit_value depth r s = (Inr v, t); limits_ok (ps_limits s)\<rbrakk> \<Longrightarrow>
     r = reading_of v \<and> fits depth v s \<and> t = advance (value_nodes v) s"
  "\<lbrakk>visit_seq depth vals its s = (Inr v, t); limits_ok (ps_limits s); ps_nodes s \<le> max_nodes (ps_limits s)\<rbrakk> \<Longrightarrow>
     \<exists>vs. v = VArray (vals @ vs) \<and> its = items_of (map reading_of vs) \<and> fits_all depth vs s \<and>
          t = advance (sum_list (map value_nodes vs)) s"
  "\<lbrakk>visit_map depth keys pairs mems s = (Inr v, t); limits_ok (ps_limits s);
    ps_nodes s \<le> max_nodes (ps_limits s); keys = fst ` set pairs\<rbrakk> \<Longrightarrow>
     \<exists>kvs. v = VObject (pairs @ kvs) \<and> mems = members_of (map member_reading kvs) \<and>
          fits_members depth keys kvs s \<and> t = advance (sum_list (map member_nodes kvs)) s"
proof (induction depth r and depth vals its and depth keys pairs mems arbitrary: s v t and s v t and s v t
    rule: visit_value_visit_seq_visit_map.induct)
  case (1 depth r)
  note lim = 1(4)
  from 1(3) obtain u where enter: "depth \<le> max_depth (ps_limits s)" "ps_nodes s + 1 \<le> max_nodes (ps_limits s)"
    by (auto simp: visit_value.simps(1) [of depth] enter_value_iff [OF lim])
  show ?case
  proof (cases r)
    case (RSeq elements)
    from 1(3) RSeq have "visit_seq (depth + 1) [] elements (advance 1 s) = (Inr v, t)"
      using enter lim by (auto simp: visit_value.simps(1) [of depth] enter_value_iff [OF lim] child_depth_iff)
    from 1(1) [OF RSeq this] lim enter obtain vs where "v = VArray vs" "elements = items_of (map reading_of vs)"
      "fits_all (depth + 1) vs (advance 1 s)" "t = advance (sum_list (map value_nodes vs)) (advance 1 s)"
      by auto
    with RSeq enter show ?thesis by (simp add: fits_array)
  next
    case (RMap entries)
    from 1(3) RMap have "visit_map (depth + 1) {} [] entries (advance 1 s) = (Inr v, t)"
      using enter lim by (auto simp: visit_value.simps(1) [of depth] enter_value_iff [OF lim] child_depth_iff)
    from 1(2) [OF RMap this] lim enter obtain kvs where "v = VObject kvs" "entries = members_of (map member_reading kvs)"
      "fits_members (depth + 1) {} kvs (advance 1 s)" "t = advance (sum_list (map member_nodes kvs)) (advance 1 s)"
      by auto
    with RMap enter show ?thesis by (simp add: fits_object)
  qed (use 1(3) enter in \<open>auto simp: visit_value.simps(1) [of depth] enter_value_iff [OF lim] fits_def\<close>)
next
  case (2 depth vals)
  then show ?case by (auto simp: fits_all_def intro: exI [of _ "[]"])
next
  case (3 depth vals)
  then show ?case by simp
next
  case (4 depth vals r rest)
  from 4(3) obtain w u where w: "visit_value depth r s = (Inr w, u)" "visit_seq depth (vals @ [w]) rest u = (Inr v, t)"
    by auto
  from 4(1) [OF w(1) 4(4)] have a: "r = reading_of w" "fits depth w s" "u = advance (value_nodes w) s" by auto
  from a have "limits_ok (ps_limits u)" "ps_nodes u \<le> max_nodes (ps_limits u)" using 4(4) by (auto simp: fits_def)
  from 4(2) [OF w(2) this] obtain vs where "v = VArray ((vals @ [w]) @ vs)" "rest = items_of (map reading_of vs)"
    "fits_all depth vs u" "t = advance (sum_list (map value_nodes vs)) u" by auto
  with a show ?case by (intro exI [of _ "w # vs"]) (simp add: fits_all_Cons)
next
  case (5 depth keys pairs)
  then show ?case by (auto simp: fits_members_def intro: exI [of _ "[]"])
next
  case (6 depth keys pairs)
  then show ?case by simp
next
  case (7 depth keys pairs key)
  then show ?case by (auto split: if_splits)
next
  case (8 depth keys pairs key r rest)
  note lim = 8(4)
  from 8(3) lim have count: "ps_nodes s + 1 \<le> max_nodes (ps_limits s)" "key \<notin> keys"
    by (auto simp: count_node_iff split: if_splits)
  from 8(3) lim obtain w u where w: "visit_value depth r (advance 1 s) = (Inr w, u)"
    "visit_map depth (insert key keys) (AList.update key w pairs) rest u = (Inr v, t)"
    by (auto simp: count_node_iff split: if_splits)
  from 8(1) [OF count(2) w(1)] lim have a: "r = reading_of w" "fits depth w (advance 1 s)" "u = advance (value_nodes w) (advance 1 s)"
    by auto
  have new: "AList.update key w pairs = pairs @ [(key, w)]" using 8(6) count(2) by (simp add: update_new)
  from a have u: "limits_ok (ps_limits u)" "ps_nodes u \<le> max_nodes (ps_limits u)" using lim by (auto simp: fits_def)
  have "insert key keys = fst ` set (AList.update key w pairs)" using 8(6) new by auto
  from 8(2) [OF count(2) w(2) u this] obtain kvs where "v = VObject (AList.update key w pairs @ kvs)"
    "rest = members_of (map member_reading kvs)" "fits_members depth (insert key keys) kvs u"
    "t = advance (sum_list (map member_nodes kvs)) u" by auto
  with a new count show ?case by (intro exI [of _ "(key, w) # kvs"]) (simp add: fits_members_Cons)
qed

lemma visit_complete_seq:
  assumes "\<And>w s depth. w \<in> set vs \<Longrightarrow> limits_ok (ps_limits s) \<Longrightarrow> fits depth w s \<Longrightarrow>
      visit_value depth (reading_of w) s = (Inr w, advance (value_nodes w) s)"
    and "limits_ok (ps_limits s)" and "fits_all depth vs s"
  shows "visit_seq depth vals (items_of (map reading_of vs)) s =
    (Inr (VArray (vals @ vs)), advance (sum_list (map value_nodes vs)) s)"
  using assms
proof (induction vs arbitrary: vals s)
  case Nil
  then show ?case by (simp add: sx_return_def)
next
  case (Cons w vs)
  from Cons.prems(3) have w: "fits depth w s" "fits_all depth vs (advance (value_nodes w) s)"
    by (auto simp: fits_all_Cons)
  have "visit_value depth (reading_of w) s = (Inr w, advance (value_nodes w) s)"
    using Cons.prems(1,2) w(1) by simp
  moreover have "visit_seq depth (vals @ [w]) (items_of (map reading_of vs)) (advance (value_nodes w) s) =
      (Inr (VArray ((vals @ [w]) @ vs)), advance (sum_list (map value_nodes vs)) (advance (value_nodes w) s))"
    by (rule Cons.IH) (use Cons.prems w in auto)
  ultimately show ?case by (simp add: sx_bind_def)
qed

lemma visit_complete_map:
  assumes "\<And>k w s depth. (k, w) \<in> set kvs \<Longrightarrow> limits_ok (ps_limits s) \<Longrightarrow> fits depth w s \<Longrightarrow>
      visit_value depth (reading_of w) s = (Inr w, advance (value_nodes w) s)"
    and "limits_ok (ps_limits s)" and "fits_members depth (fst ` set pairs) kvs s"
  shows "visit_map depth (fst ` set pairs) pairs (members_of (map member_reading kvs)) s =
    (Inr (VObject (pairs @ kvs)), advance (sum_list (map member_nodes kvs)) s)"
  using assms
proof (induction kvs arbitrary: pairs s)
  case Nil
  then show ?case by (simp add: sx_return_def)
next
  case (Cons kv kvs)
  obtain k w where kv: "kv = (k, w)" by (cases kv)
  from Cons.prems(3) have w: "k \<notin> fst ` set pairs" "ps_nodes s + 1 \<le> max_nodes (ps_limits s)" "fits depth w (advance 1 s)"
    "fits_members depth (insert k (fst ` set pairs)) kvs (advance (Suc (value_nodes w)) s)"
    by (auto simp: fits_members_Cons kv)
  have c: "count_node s = (Inr (), advance 1 s)" using w(2) Cons.prems(2) by (simp add: count_node_iff)
  have v: "visit_value depth (reading_of w) (advance 1 s) = (Inr w, advance (Suc (value_nodes w)) s)"
    using Cons.prems(1) [of k w "advance 1 s"] Cons.prems(2) w(3) by (simp add: kv)
  have "visit_map depth (fst ` set (pairs @ [(k, w)])) (pairs @ [(k, w)]) (members_of (map member_reading kvs))
        (advance (Suc (value_nodes w)) s) =
      (Inr (VObject ((pairs @ [(k, w)]) @ kvs)), advance (sum_list (map member_nodes kvs)) (advance (Suc (value_nodes w)) s))"
    by (rule Cons.IH) (use Cons.prems w in \<open>auto simp: kv\<close>)
  then show ?case using w(1) c v by (simp add: sx_bind_def kv update_new)
qed

lemma visit_complete:
  "\<lbrakk>limits_ok (ps_limits s); fits depth v s\<rbrakk> \<Longrightarrow>
     visit_value depth (reading_of v) s = (Inr v, advance (value_nodes v) s)"
proof (induction v arbitrary: depth s)
  case (VArray vs)
  from VArray.prems have f: "depth \<le> max_depth (ps_limits s)" "ps_nodes s + 1 \<le> max_nodes (ps_limits s)"
    "fits_all (depth + 1) vs (advance 1 s)" by (auto simp: fits_array)
  have e: "enter_value depth s = (Inr (), advance 1 s)" using f VArray.prems by (simp add: enter_value_iff)
  have c: "child_depth_of depth (advance 1 s) = (Inr (depth + 1), advance 1 s)" using f VArray.prems by (simp add: child_depth_iff)
  have "visit_seq (depth + 1) [] (items_of (map reading_of vs)) (advance 1 s) =
      (Inr (VArray ([] @ vs)), advance (sum_list (map value_nodes vs)) (advance 1 s))"
    by (rule visit_complete_seq) (use VArray f in auto)
  with e c show ?case by (simp add: visit_value.simps(1) [of depth] sx_bind_def)
next
  case (VObject kvs)
  from VObject.prems have f: "depth \<le> max_depth (ps_limits s)" "ps_nodes s + 1 \<le> max_nodes (ps_limits s)"
    "fits_members (depth + 1) {} kvs (advance 1 s)" by (auto simp: fits_object)
  have e: "enter_value depth s = (Inr (), advance 1 s)" using f VObject.prems by (simp add: enter_value_iff)
  have c: "child_depth_of depth (advance 1 s) = (Inr (depth + 1), advance 1 s)" using f VObject.prems by (simp add: child_depth_iff)
  have "visit_map (depth + 1) {} [] (members_of (map member_reading kvs)) (advance 1 s) =
      (Inr (VObject ([] @ kvs)), advance (sum_list (map member_nodes kvs)) (advance 1 s))"
    using visit_complete_map [of kvs "advance 1 s" "depth + 1" "[]"] VObject f by simp
  with e c show ?case by (simp add: visit_value.simps(1) [of depth] sx_bind_def)
qed (simp_all add: visit_value.simps(1) sx_bind_def sx_return_def fits_def enter_value_run)

text \<open>The acceptance of a text by \<open>parse\_strict\_value\<close>.\<close>

definition within_limits :: "parse_limits \<Rightarrow> json_value \<Rightarrow> bool" where
  "within_limits l v \<longleftrightarrow> keys_distinct v \<and> value_depth v \<le> max_depth l \<and> value_nodes v \<le> max_nodes l"

lemma parse_strict_value_iff:
  assumes "limits_ok limits"
  shows "parse_strict_value codec bytes limits = Inr v \<longleftrightarrow>
    jc_utf8 codec bytes \<and> jc_reading codec bytes = (reading_of v, True) \<and> within_limits limits v"
proof -
  let ?s = "\<lparr>ps_limits = limits, ps_nodes = 0, ps_violation = None\<rparr>"
  have fits: "fits 1 v ?s \<longleftrightarrow> within_limits limits v" for v by (auto simp: fits_def within_limits_def)
  have "(\<exists>t. visit_value 1 r ?s = (Inr v, t)) \<longleftrightarrow> r = reading_of v \<and> within_limits limits v" for r
    using visit_sound(1) [of 1 r ?s v] visit_complete [of ?s 1 v] assms fits by auto
  note run = this
  obtain r e where r: "jc_reading codec bytes = (r, e)" by fastforce
  show ?thesis
  proof (cases "visit_value 1 r ?s")
    case (Pair res t)
    with run [of r] r show ?thesis
      by (cases res) (auto simp: parse_strict_value_def dest: sym [of "visit_value _ _ _"])
  qed
qed

end
