(* ===== verification/Authority_Documents.thy ===== *)
theory Authority_Documents
  imports Strict_Json
begin

section \<open>The two persisted authority documents\<close>

text \<open>
  \<open>mcode-config/src/root_composition.rs\<close> and \<open>pack_installation.rs\<close>: which Packs make up the program, and
  what one installed Pack consists of. Both are JSON files that are read strictly and replaced by a
  compare-and-swap on their revision under the lock of \<open>secure_fs/owned_file.rs\<close>. The lemmas show that
  every constructible value is written to a text that reads back to itself within the parse limits, that
  reading yields constructible values only, and that any history of replacements, with failing file
  operations, is a history of numbered versions.
\<close>

subsection \<open>Root composition\<close>

definition MAX_ROOT_COMPOSITION_BYTES :: nat where "MAX_ROOT_COMPOSITION_BYTES = 64 * 1024"
definition ROOT_COMPOSITION_KIND :: string where "ROOT_COMPOSITION_KIND = ''mcode-root-composition''"
definition ROOT_COMPOSITION_FORMAT_VERSION :: nat where "ROOT_COMPOSITION_FORMAT_VERSION = 1"
definition MAX_SELECTIONS :: nat where "MAX_SELECTIONS = 256"

definition composition_limits :: parse_limits where
  "composition_limits = \<lparr>max_depth = 8, max_nodes = 2048\<rparr>"

record default_route =
  dr_provider_id :: string
  dr_model_id :: string

definition default_route_new :: "string \<Rightarrow> string \<Rightarrow> config_error + default_route" where
  "default_route_new provider_id model_id =
     and_then (validate_model_id model_id) (\<lambda>_.
       Inr \<lparr>dr_provider_id = provider_id, dr_model_id = model_id\<rparr>)"

definition validate_themes :: "string list \<Rightarrow> config_error + unit" where
  "validate_themes themes =
     (if length themes > MAX_SELECTIONS \<or> any_window2 (\<lambda>a b. a \<ge> b) themes
      then Inl AuthorityValidation else Inr ())"

text \<open>\<open>UiSelection\<close> is its list of themes.\<close>

definition ui_selection_new :: "string list \<Rightarrow> config_error + string list" where
  "ui_selection_new themes = and_then (validate_themes themes) (\<lambda>_. Inr themes)"

record root_composition =
  rc_default_route :: "default_route option"
  rc_providers :: "string list"
  rc_usage :: "string list"
  rc_ui :: "string list"
  rc_singletons :: "string option list"

definition validate_ordered_unique :: "string list \<Rightarrow> config_error + unit" where
  "validate_ordered_unique vals =
     (if length vals > MAX_SELECTIONS then Inl AuthorityValidation
      else try_fold (\<lambda>_ (index, value).
             if value \<in> set (take index vals) then Inl AuthorityValidation else Inr ()) ()
             (List.enumerate 0 vals))"

definition root_composition_new ::
  "default_route option \<Rightarrow> string list \<Rightarrow> string list \<Rightarrow> string list \<Rightarrow> config_error + root_composition" where
  "root_composition_new route providers usage ui =
     and_then (validate_ordered_unique providers) (\<lambda>_.
     and_then (validate_ordered_unique usage) (\<lambda>_.
       Inr \<lparr>rc_default_route = route, rc_providers = providers, rc_usage = usage, rc_ui = ui,
            rc_singletons = [None, None]\<rparr>))"

definition root_composition_empty :: root_composition where
  "root_composition_empty =
     \<lparr>rc_default_route = None, rc_providers = [], rc_usage = [], rc_ui = [], rc_singletons = [None, None]\<rparr>"

definition set_default_route :: "default_route option \<Rightarrow> root_composition \<Rightarrow> root_composition" where
  "set_default_route route c = c\<lparr>rc_default_route := route\<rparr>"

definition set_providers :: "string list \<Rightarrow> (root_composition, config_error, unit) sx" where
  "set_providers providers c =
     (case validate_ordered_unique providers of
        Inl e \<Rightarrow> (Inl e, c) | Inr _ \<Rightarrow> (Inr (), c\<lparr>rc_providers := providers\<rparr>))"

definition set_usage :: "string list \<Rightarrow> (root_composition, config_error, unit) sx" where
  "set_usage usage c =
     (case validate_ordered_unique usage of
        Inl e \<Rightarrow> (Inl e, c) | Inr _ \<Rightarrow> (Inr (), c\<lparr>rc_usage := usage\<rparr>))"

definition set_ui :: "string list \<Rightarrow> root_composition \<Rightarrow> root_composition" where
  "set_ui ui c = c\<lparr>rc_ui := ui\<rparr>"

fun find_position :: "'a \<Rightarrow> 'a list \<Rightarrow> nat option" where
  "find_position x [] = None"
| "find_position x (y # ys) = (if y = x then Some 0 else map_option Suc (find_position x ys))"

definition singleton_index :: "plugin_family \<Rightarrow> config_error + nat" where
  "singleton_index family = ok_or (find_position family singleton_families) AuthorityValidation"

definition singleton_of :: "plugin_family \<Rightarrow> root_composition \<Rightarrow> config_error + string option" where
  "singleton_of family c = and_then (singleton_index family) (\<lambda>index. Inr (rc_singletons c ! index))"

definition set_singleton :: "plugin_family \<Rightarrow> string option \<Rightarrow> (root_composition, config_error, unit) sx" where
  "set_singleton family pack c =
     (case singleton_index family of
        Inl e \<Rightarrow> (Inl e, c)
      | Inr index \<Rightarrow> (Inr (), c\<lparr>rc_singletons := (rc_singletons c)[index := pack]\<rparr>))"

record root_document =
  rd_revision :: nat
  rd_composition :: root_composition

text \<open>The \<open>Serialize\<close> instances, as the values that \<open>serde\_json\<close> writes.\<close>

definition default_route_value :: "default_route \<Rightarrow> json_value" where
  "default_route_value r =
     VObject [(''providerId'', VString (dr_provider_id r)), (''modelId'', VString (dr_model_id r))]"

definition nullable :: "('a \<Rightarrow> json_value) \<Rightarrow> 'a option \<Rightarrow> json_value" where
  "nullable f x = (case x of None \<Rightarrow> VNull | Some v \<Rightarrow> f v)"

definition pack_list_value :: "string list \<Rightarrow> json_value" where
  "pack_list_value packs = VArray (map VString packs)"

definition ui_selection_value :: "string list \<Rightarrow> json_value" where
  "ui_selection_value ui = VObject [(''themes'', pack_list_value ui)]"

definition singletons_value :: "root_composition \<Rightarrow> config_error + json_value" where
  "singletons_value c =
     and_then (try_fold (\<lambda>kvs family.
         and_then (singleton_index family) (\<lambda>index.
           Inr (kvs @ [(directory_name family, nullable VString (rc_singletons c ! index))]))) []
         singleton_families)
       (\<lambda>kvs. Inr (VObject kvs))"

definition root_document_value :: "root_document \<Rightarrow> config_error + json_value" where
  "root_document_value d =
     and_then (singletons_value (rd_composition d)) (\<lambda>singletons.
       Inr (VObject
         [(''formatVersion'', VUInt ROOT_COMPOSITION_FORMAT_VERSION),
          (''kind'', VString ROOT_COMPOSITION_KIND),
          (''revision'', VUInt (rd_revision d)),
          (''defaultRoute'', nullable default_route_value (rc_default_route (rd_composition d))),
          (''providers'', pack_list_value (rc_providers (rd_composition d))),
          (''usage'', pack_list_value (rc_usage (rd_composition d))),
          (''ui'', ui_selection_value (rc_ui (rd_composition d))),
          (''singletons'', singletons)]))"

definition serialize_root_document :: "'b json_codec \<Rightarrow> root_document \<Rightarrow> config_error + 'b" where
  "serialize_root_document codec d =
     (case root_document_value d of
        Inl _ \<Rightarrow> Inl Serialization
      | Inr v \<Rightarrow>
          and_then (ok_or (jc_to_vec codec v) Serialization) (\<lambda>bytes.
            if jc_len codec bytes > MAX_ROOT_COMPOSITION_BYTES then Inl Serialization else Inr bytes))"

definition parse_pack_id :: "json_value \<Rightarrow> config_error + string" where
  "parse_pack_id value = and_then (ok_or (as_str value) AuthorityValidation) pack_id_parse"

text \<open>\<open>iter().map(f).collect::<Result<Vec<_>, _>>()\<close>.\<close>

definition try_collect :: "('a \<Rightarrow> 'e + 'b) \<Rightarrow> 'a list \<Rightarrow> 'e + 'b list" where
  "try_collect f xs = try_fold (\<lambda>acc x. and_then (f x) (\<lambda>y. Inr (acc @ [y]))) [] xs"

definition parse_pack_list :: "json_value \<Rightarrow> config_error + string list" where
  "parse_pack_list value =
     (case value of
        VArray vals \<Rightarrow>
          if length vals > MAX_SELECTIONS then Inl AuthorityValidation else try_collect parse_pack_id vals
      | _ \<Rightarrow> Inl AuthorityValidation)"

definition parse_ordered_list :: "json_value \<Rightarrow> config_error + string list" where
  "parse_ordered_list value =
     and_then (parse_pack_list value) (\<lambda>vals.
     and_then (validate_ordered_unique vals) (\<lambda>_. Inr vals))"

definition take_nullable ::
  "string \<Rightarrow> (json_value \<Rightarrow> config_error + 'a) \<Rightarrow> ((string \<times> json_value) list, config_error, 'a option) sx" where
  "take_nullable field parse = sx_bind (take_value field) (\<lambda>v.
     case v of VNull \<Rightarrow> sx_return None
     | _ \<Rightarrow> sx_lift (and_then (parse v) (\<lambda>x. Inr (Some x))))"

definition parse_default_route :: "json_value \<Rightarrow> config_error + default_route" where
  "parse_default_route value =
     and_then (exact_object value [''providerId'', ''modelId'']) (sx_eval
       (sx_bind (take_string ''providerId'') (\<lambda>p.
        sx_bind (sx_lift (provider_id_parse p)) (\<lambda>provider_id.
        sx_bind (take_string ''modelId'') (\<lambda>m.
        sx_lift (default_route_new provider_id m))))))"

definition parse_ui :: "json_value \<Rightarrow> config_error + string list" where
  "parse_ui value =
     and_then (exact_object value [''themes'']) (sx_eval
       (sx_bind (take_value ''themes'') (\<lambda>v.
        sx_bind (sx_lift (parse_pack_list v)) (\<lambda>themes.
        sx_lift (ui_selection_new themes)))))"

definition parse_singletons :: "json_value \<Rightarrow> config_error + string option list" where
  "parse_singletons value =
     and_then (exact_object value (map directory_name singleton_families)) (sx_eval
       (sx_fold (\<lambda>selections (index, family).
          sx_bind (take_nullable (directory_name family) parse_pack_id) (\<lambda>pack.
            sx_return (selections[index := pack])))
          [None, None] (List.enumerate 0 singleton_families)))"

definition parse_root_document_value :: "json_value \<Rightarrow> config_error + root_document" where
  "parse_root_document_value value =
     and_then (exact_object value
         [''formatVersion'', ''kind'', ''revision'', ''defaultRoute'', ''providers'', ''usage'', ''ui'',
          ''singletons'']) (sx_eval
       (sx_bind (take_u32 ''formatVersion'') (\<lambda>format_version.
        if format_version \<noteq> ROOT_COMPOSITION_FORMAT_VERSION then sx_fail AuthorityValidation
        else sx_bind (take_string ''kind'') (\<lambda>kind.
        if kind \<noteq> ROOT_COMPOSITION_KIND then sx_fail AuthorityValidation
        else sx_bind (take_positive_u64 ''revision'') (\<lambda>r.
        sx_bind (sx_lift (authority_revision_new r)) (\<lambda>revision.
        sx_bind (take_nullable ''defaultRoute'' parse_default_route) (\<lambda>route.
        sx_bind (take_value ''providers'') (\<lambda>p.
        sx_bind (sx_lift (parse_ordered_list p)) (\<lambda>providers.
        sx_bind (take_value ''usage'') (\<lambda>u.
        sx_bind (sx_lift (parse_ordered_list u)) (\<lambda>usage.
        sx_bind (take_value ''ui'') (\<lambda>v.
        sx_bind (sx_lift (parse_ui v)) (\<lambda>ui.
        sx_bind (take_value ''singletons'') (\<lambda>w.
        sx_bind (sx_lift (parse_singletons w)) (\<lambda>singletons.
        sx_bind (sx_lift (root_composition_new route providers usage ui)) (\<lambda>composition.
        sx_return \<lparr>rd_revision = revision,
                   rd_composition = composition\<lparr>rc_singletons := singletons\<rparr>\<rparr>))))))))))))))))"

definition parse_root_document :: "'b json_codec \<Rightarrow> 'b \<Rightarrow> config_error + root_document" where
  "parse_root_document codec bytes =
     and_then (parse_strict_value codec bytes composition_limits) parse_root_document_value"

subsection \<open>Pack installation\<close>

definition MAX_PACK_INSTALLATION_BYTES :: nat where "MAX_PACK_INSTALLATION_BYTES = 4 * 1024 * 1024"
definition PACK_INSTALLATION_KIND :: string where "PACK_INSTALLATION_KIND = ''mcode-pack-installation''"
definition PACK_INSTALLATION_FORMAT_VERSION :: nat where "PACK_INSTALLATION_FORMAT_VERSION = 1"
definition MAX_PACK_INVENTORY_ENTRIES :: nat where "MAX_PACK_INVENTORY_ENTRIES = 4096"
definition PACK_COMPONENT_BUNDLE_PATH :: string where "PACK_COMPONENT_BUNDLE_PATH = ''component.wasm''"

definition installation_limits :: parse_limits where
  "installation_limits = \<lparr>max_depth = 8, max_nodes = 5 * MAX_PACK_INVENTORY_ENTRIES + 64\<rparr>"

definition valid_bundle_component :: "string \<Rightarrow> bool" where
  "valid_bundle_component bytes \<longleftrightarrow>
     1 \<le> length bytes \<and> length bytes \<le> 128 \<and>
     (bytes \<noteq> [] \<and> is_ascii_alphanumeric (hd bytes)) \<and>
     (bytes \<noteq> [] \<and> is_ascii_alphanumeric (last bytes)) \<and>
     list_all (\<lambda>b. is_ascii_lowercase b \<or> is_ascii_digit b \<or> b \<in> set ''._-'') bytes \<and>
     \<not> is_windows_device_name bytes"

text \<open>\<open>str::split\<close> by one byte.\<close>

fun split_on :: "char \<Rightarrow> string \<Rightarrow> string list" where
  "split_on c [] = [[]]"
| "split_on c (x # xs) =
     (if x = c then [] # split_on c xs
      else case split_on c xs of [] \<Rightarrow> [[x]] | p # ps \<Rightarrow> (x # p) # ps)"

definition bundle_path_parse :: "string \<Rightarrow> config_error + string" where
  "bundle_path_parse value =
     (if \<not> (1 \<le> length value \<and> length value \<le> 512) \<or> \<not> list_all is_ascii_byte value
      then Inl AuthorityValidation
      else let components = split_on CHR ''/'' value in
        if components = [] \<or> length components > 128 \<or> hd components = ''data'' \<or>
           list_ex (\<lambda>c. \<not> valid_bundle_component c \<or> c = ''installation.json'') components
        then Inl AuthorityValidation else Inr value)"

record inventory_entry =
  ie_path :: string
  ie_digest :: string

record pack_installation =
  pi_family :: plugin_family
  pi_pack_id :: string
  pi_source :: string
  pi_selected :: artifact_ref
  pi_trust_high_water :: trust_high_water
  pi_inventory :: "inventory_entry list"

definition validate_inventory :: "inventory_entry list \<Rightarrow> config_error + unit" where
  "validate_inventory inventory =
     (if inventory = [] \<or> length inventory > MAX_PACK_INVENTORY_ENTRIES \<or>
         any_window2 (\<lambda>a b. ie_path a \<ge> ie_path b) inventory
      then Inl AuthorityValidation else Inr ())"

definition pack_installation_new ::
  "plugin_family \<Rightarrow> string \<Rightarrow> string \<Rightarrow> artifact_ref \<Rightarrow> trust_high_water \<Rightarrow> inventory_entry list \<Rightarrow>
   config_error + pack_installation" where
  "pack_installation_new family pack_id source selected trust inventory =
     and_then (validate_inventory inventory) (\<lambda>_.
       Inr \<lparr>pi_family = family, pi_pack_id = pack_id, pi_source = source, pi_selected = selected,
            pi_trust_high_water = trust, pi_inventory = inventory\<rparr>)"

definition component_digest :: "pack_installation \<Rightarrow> string option" where
  "component_digest i =
     (case binary_search_by (\<lambda>entry. cmp (ie_path entry) PACK_COMPONENT_BUNDLE_PATH) (pi_inventory i) of
        Inr index \<Rightarrow> Some (ie_digest (pi_inventory i ! index))
      | Inl _ \<Rightarrow> None)"

record installation_document =
  id_revision :: nat
  id_installation :: pack_installation

definition artifact_ref_value :: "artifact_ref \<Rightarrow> json_value" where
  "artifact_ref_value a =
     VObject [(''version'', VString (ar_version a)), (''digest'', VString (ar_digest a))]"

definition trust_high_water_value :: "trust_high_water \<Rightarrow> json_value" where
  "trust_high_water_value t =
     VObject [(''sequence'', VUInt (th_sequence t)), (''manifestDigest'', VString (th_manifest_digest t))]"

definition inventory_entry_value :: "inventory_entry \<Rightarrow> json_value" where
  "inventory_entry_value e = VObject [(''path'', VString (ie_path e)), (''digest'', VString (ie_digest e))]"

definition installation_document_value :: "installation_document \<Rightarrow> json_value" where
  "installation_document_value d = (let i = id_installation d in VObject
     [(''formatVersion'', VUInt PACK_INSTALLATION_FORMAT_VERSION),
      (''kind'', VString PACK_INSTALLATION_KIND),
      (''revision'', VUInt (id_revision d)),
      (''family'', VString (directory_name (pi_family i))),
      (''packId'', VString (pi_pack_id i)),
      (''source'', VString (pi_source i)),
      (''selected'', artifact_ref_value (pi_selected i)),
      (''trustHighWater'', trust_high_water_value (pi_trust_high_water i)),
      (''inventory'', VArray (map inventory_entry_value (pi_inventory i)))])"

definition serialize_installation_document :: "'b json_codec \<Rightarrow> installation_document \<Rightarrow> config_error + 'b" where
  "serialize_installation_document codec d =
     and_then (ok_or (jc_to_vec codec (installation_document_value d)) Serialization) (\<lambda>bytes.
       if jc_len codec bytes > MAX_PACK_INSTALLATION_BYTES then Inl Serialization else Inr bytes)"

definition parse_inventory_entry :: "json_value \<Rightarrow> config_error + inventory_entry" where
  "parse_inventory_entry value =
     and_then (exact_object value [''path'', ''digest'']) (sx_eval
       (sx_bind (take_string ''path'') (\<lambda>p.
        sx_bind (sx_lift (bundle_path_parse p)) (\<lambda>path.
        sx_bind (take_string ''digest'') (\<lambda>d.
        sx_bind (sx_lift (sha256_digest_parse d)) (\<lambda>digest.
        sx_return \<lparr>ie_path = path, ie_digest = digest\<rparr>))))))"

definition parse_inventory :: "json_value \<Rightarrow> config_error + inventory_entry list" where
  "parse_inventory value =
     and_then (case value of VArray vals \<Rightarrow> Inr vals | _ \<Rightarrow> Inl AuthorityValidation) (\<lambda>vals.
     and_then (try_collect parse_inventory_entry vals) (\<lambda>entries.
     and_then (validate_inventory entries) (\<lambda>_. Inr entries)))"

definition parse_installation_document_value ::
  "(string \<Rightarrow> string option) \<Rightarrow> plugin_family \<Rightarrow> string \<Rightarrow> json_value \<Rightarrow> config_error + installation_document" where
  "parse_installation_document_value semver expected_family expected_pack_id value =
     and_then (exact_object value
         [''formatVersion'', ''kind'', ''revision'', ''family'', ''packId'', ''source'', ''selected'',
          ''trustHighWater'', ''inventory'']) (sx_eval
       (sx_bind (take_u32 ''formatVersion'') (\<lambda>format_version.
        if format_version \<noteq> PACK_INSTALLATION_FORMAT_VERSION then sx_fail AuthorityValidation
        else sx_bind (take_string ''kind'') (\<lambda>kind.
        if kind \<noteq> PACK_INSTALLATION_KIND then sx_fail AuthorityValidation
        else sx_bind (take_string ''family'') (\<lambda>family.
        if family \<noteq> directory_name expected_family then sx_fail AuthorityValidation
        else sx_bind (take_string ''packId'') (\<lambda>p.
        sx_bind (sx_lift (pack_id_parse p)) (\<lambda>pack_id.
        if pack_id \<noteq> expected_pack_id then sx_fail AuthorityValidation
        else sx_bind (take_positive_revision ''revision'') (\<lambda>revision.
        sx_bind (take_string ''source'') (\<lambda>s.
        sx_bind (sx_lift (source_binding_id_parse s)) (\<lambda>source.
        sx_bind (take_value ''selected'') (\<lambda>a.
        sx_bind (sx_lift (parse_active semver a)) (\<lambda>selected.
        sx_bind (take_value ''trustHighWater'') (\<lambda>t.
        sx_bind (sx_lift (parse_trust_high_water t)) (\<lambda>trust.
        sx_bind (take_value ''inventory'') (\<lambda>v.
        sx_bind (sx_lift (parse_inventory v)) (\<lambda>inventory.
        sx_bind (sx_lift (pack_installation_new expected_family expected_pack_id source selected trust inventory))
          (\<lambda>installation.
        sx_return \<lparr>id_revision = revision, id_installation = installation\<rparr>)))))))))))))))))"

text \<open>The path is resolved before the bytes are parsed; \<open>pack\_installation\_json\<close> rejects ids that are no
  Pack id.\<close>

definition parse_installation_document ::
  "(string \<Rightarrow> string option) \<Rightarrow> 'b json_codec \<Rightarrow> plugin_family \<Rightarrow> string \<Rightarrow> 'b \<Rightarrow>
   config_error + installation_document" where
  "parse_installation_document semver codec family pack_id bytes =
     and_then (pack_installation_json family pack_id) (\<lambda>_.
     and_then (parse_strict_value codec bytes installation_limits)
       (parse_installation_document_value semver family pack_id))"

subsection \<open>Owned files\<close>

text \<open>
  \<open>locked\_update\_owned\_file\<close> holds the persistent lock from \<open>Transaction::begin\<close> to the end, so an update is
  one step on the content of the file. The native layer may fail at the lock, at the read, before the
  new file is renamed into place, or after (\<open>verify\_published\<close>, \<open>sync\_directory\<close>): every update is given
  what happens to it.
\<close>

datatype native_outcome =
    NativeOk
  | BeginFails config_error
  | ReadFails config_error
  | ReplaceFails config_error
  | PublishedButFails config_error

fun begin_error :: "native_outcome \<Rightarrow> config_error option" where
  "begin_error (BeginFails e) = Some e" | "begin_error _ = None"

definition native_read :: "('b \<Rightarrow> nat) \<Rightarrow> nat \<Rightarrow> native_outcome \<Rightarrow> 'b option \<Rightarrow> config_error + 'b option" where
  "native_read len maximum_bytes n file =
     (case n of
        ReadFails e \<Rightarrow> Inl e
      | _ \<Rightarrow>
          (case file of
             None \<Rightarrow> Inr None
           | Some bytes \<Rightarrow> if len bytes > maximum_bytes then Inl Oversized else Inr (Some bytes)))"

fun native_replace :: "native_outcome \<Rightarrow> 'b \<Rightarrow> ('b option, config_error, unit) sx" where
  "native_replace (ReplaceFails e) bytes file = (Inl e, file)"
| "native_replace (PublishedButFails e) bytes file = (Inl e, Some bytes)"
| "native_replace _ bytes file = (Inr (), Some bytes)"

text \<open>The callback also returns the value its caller keeps in \<open>written\<close>.\<close>

definition locked_update_owned_file ::
  "('b \<Rightarrow> nat) \<Rightarrow> native_outcome \<Rightarrow> nat \<Rightarrow> ('b option \<Rightarrow> config_error + 'b \<times> 'd) \<Rightarrow>
   ('b option, config_error, 'd) sx" where
  "locked_update_owned_file len n maximum_bytes update file =
     (case begin_error n of
        Some e \<Rightarrow> (Inl e, file)
      | None \<Rightarrow>
          (case and_then (native_read len maximum_bytes n file) update of
             Inl e \<Rightarrow> (Inl e, file)
           | Inr (replacement, written) \<Rightarrow>
               if len replacement > maximum_bytes then (Inl Oversized, file)
               else sx_bind (native_replace n replacement) (\<lambda>_. sx_return written) file))"

text \<open>The closure that both documents pass: parse the current document, compare, advance, serialize.\<close>

definition compare_and_swap ::
  "('b \<Rightarrow> config_error + 'd) \<Rightarrow> ('d \<Rightarrow> nat) \<Rightarrow> (nat \<Rightarrow> 'd) \<Rightarrow> ('d \<Rightarrow> config_error + 'b) \<Rightarrow> nat \<Rightarrow> 'b option \<Rightarrow>
   config_error + 'b \<times> 'd" where
  "compare_and_swap parse revision_of document serialize expected_revision current =
     and_then (case current of
         Some bytes \<Rightarrow> and_then (parse bytes) (\<lambda>d. Inr (revision_of d))
       | None \<Rightarrow> Inr 0) (\<lambda>current_revision.
       if current_revision \<noteq> expected_revision then Inl RevisionConflict
       else and_then (checked_next current_revision) (\<lambda>next_revision.
         let d = document next_revision in
         and_then (serialize d) (\<lambda>bytes. Inr (bytes, d))))"

definition replace_root_composition ::
  "'b json_codec \<Rightarrow> native_outcome \<Rightarrow> nat \<Rightarrow> root_composition \<Rightarrow> ('b option, config_error, root_document) sx" where
  "replace_root_composition codec n expected_revision composition =
     locked_update_owned_file (jc_len codec) n MAX_ROOT_COMPOSITION_BYTES
       (compare_and_swap (parse_root_document codec) rd_revision
          (\<lambda>r. \<lparr>rd_revision = r, rd_composition = composition\<rparr>)
          (serialize_root_document codec) expected_revision)"

definition read_root_composition ::
  "'b json_codec \<Rightarrow> native_outcome \<Rightarrow> 'b option \<Rightarrow> config_error + root_document option" where
  "read_root_composition codec n file =
     and_then (native_read (jc_len codec) MAX_ROOT_COMPOSITION_BYTES n file) (\<lambda>bytes.
       case bytes of
         None \<Rightarrow> Inr None
       | Some b \<Rightarrow> and_then (parse_root_document codec b) (\<lambda>d. Inr (Some d)))"

definition replace_pack_installation ::
  "(string \<Rightarrow> string option) \<Rightarrow> 'b json_codec \<Rightarrow> native_outcome \<Rightarrow> plugin_family \<Rightarrow> string \<Rightarrow> nat \<Rightarrow>
   pack_installation \<Rightarrow> ('b option, config_error, installation_document) sx" where
  "replace_pack_installation semver codec n family pack_id expected_revision installation file =
     (case pack_installation_json family pack_id of
        Inl e \<Rightarrow> (Inl e, file)
      | Inr _ \<Rightarrow>
          if pi_family installation \<noteq> family \<or> pi_pack_id installation \<noteq> pack_id
          then (Inl AuthorityValidation, file)
          else locked_update_owned_file (jc_len codec) n MAX_PACK_INSTALLATION_BYTES
            (compare_and_swap (parse_installation_document semver codec family pack_id) id_revision
               (\<lambda>r. \<lparr>id_revision = r, id_installation = installation\<rparr>)
               (serialize_installation_document codec) expected_revision) file)"

definition read_pack_installation ::
  "(string \<Rightarrow> string option) \<Rightarrow> 'b json_codec \<Rightarrow> native_outcome \<Rightarrow> plugin_family \<Rightarrow> string \<Rightarrow> 'b option \<Rightarrow>
   config_error + installation_document option" where
  "read_pack_installation semver codec n family pack_id file =
     and_then (pack_installation_json family pack_id) (\<lambda>_.
     and_then (native_read (jc_len codec) MAX_PACK_INSTALLATION_BYTES n file) (\<lambda>bytes.
       case bytes of
         None \<Rightarrow> Inr None
       | Some b \<Rightarrow> and_then (parse_installation_document semver codec family pack_id b) (\<lambda>d. Inr (Some d))))"

subsection \<open>Constructible values\<close>

definition id_ok :: "(string \<Rightarrow> 'e + string) \<Rightarrow> string \<Rightarrow> bool" where
  "id_ok parse s \<longleftrightarrow> is_ok (parse s)"

lemma id_ok_pack: "id_ok pack_id_parse s \<longleftrightarrow> pack_id_parse s = Inr s"
  unfolding id_ok_def is_ok_iff using pack_id.parse_verbatim by blast

lemma id_ok_provider: "id_ok provider_id_parse s \<longleftrightarrow> provider_id_parse s = Inr s"
  unfolding id_ok_def is_ok_iff using provider_id.parse_verbatim by blast

lemma id_ok_source: "id_ok source_binding_id_parse s \<longleftrightarrow> source_binding_id_parse s = Inr s"
  unfolding id_ok_def is_ok_iff using source_binding_id.parse_verbatim by blast

lemma digest_verbatim: "sha256_digest_parse s = Inr t \<Longrightarrow> t = s"
  by (simp add: sha256_digest_parse_def split: if_splits)

lemma version_verbatim: "canonical_version_parse semver s = Inr t \<Longrightarrow> t = s"
  by (auto simp: canonical_version_parse_def split: if_splits)

lemma bundle_path_verbatim: "bundle_path_parse s = Inr t \<Longrightarrow> t = s"
  by (auto simp: bundle_path_parse_def Let_def split: if_splits)

lemma id_ok_digest: "id_ok sha256_digest_parse s \<longleftrightarrow> sha256_digest_parse s = Inr s"
  unfolding id_ok_def is_ok_iff using digest_verbatim by blast

lemma id_ok_version: "id_ok (canonical_version_parse semver) s \<longleftrightarrow> canonical_version_parse semver s = Inr s"
  unfolding id_ok_def is_ok_iff using version_verbatim by blast

lemma id_ok_bundle_path: "id_ok bundle_path_parse s \<longleftrightarrow> bundle_path_parse s = Inr s"
  unfolding id_ok_def is_ok_iff using bundle_path_verbatim by blast

lemmas id_ok_simps = id_ok_pack id_ok_provider id_ok_source id_ok_digest id_ok_version id_ok_bundle_path

text \<open>The values that the constructors and setters of \<open>RootComposition\<close> can build.\<close>

definition selection_ok :: "string list \<Rightarrow> bool" where
  "selection_ok packs \<longleftrightarrow> list_all (id_ok pack_id_parse) packs \<and> length packs \<le> 256 \<and> distinct packs"

definition themes_ok :: "string list \<Rightarrow> bool" where
  "themes_ok packs \<longleftrightarrow> list_all (id_ok pack_id_parse) packs \<and> length packs \<le> 256 \<and> sorted_wrt (<) packs"

definition route_ok :: "default_route \<Rightarrow> bool" where
  "route_ok r \<longleftrightarrow> id_ok provider_id_parse (dr_provider_id r) \<and> is_ok (validate_model_id (dr_model_id r))"

definition composition_ok :: "root_composition \<Rightarrow> bool" where
  "composition_ok c \<longleftrightarrow>
     pred_option route_ok (rc_default_route c) \<and> selection_ok (rc_providers c) \<and> selection_ok (rc_usage c) \<and>
     themes_ok (rc_ui c) \<and> length (rc_singletons c) = 2 \<and>
     list_all (pred_option (id_ok pack_id_parse)) (rc_singletons c)"

definition artifact_ok :: "(string \<Rightarrow> string option) \<Rightarrow> artifact_ref \<Rightarrow> bool" where
  "artifact_ok semver a \<longleftrightarrow>
     id_ok (canonical_version_parse semver) (ar_version a) \<and> id_ok sha256_digest_parse (ar_digest a)"

definition trust_ok :: "trust_high_water \<Rightarrow> bool" where
  "trust_ok t \<longleftrightarrow> 1 \<le> th_sequence t \<and> th_sequence t \<le> i64_max \<and> id_ok sha256_digest_parse (th_manifest_digest t)"

definition inventory_ok :: "inventory_entry list \<Rightarrow> bool" where
  "inventory_ok es \<longleftrightarrow> es \<noteq> [] \<and> length es \<le> 4096 \<and> sorted_wrt (<) (map ie_path es) \<and>
     list_all (\<lambda>e. id_ok bundle_path_parse (ie_path e) \<and> id_ok sha256_digest_parse (ie_digest e)) es"

definition installation_ok :: "(string \<Rightarrow> string option) \<Rightarrow> pack_installation \<Rightarrow> bool" where
  "installation_ok semver i \<longleftrightarrow>
     id_ok pack_id_parse (pi_pack_id i) \<and> id_ok source_binding_id_parse (pi_source i) \<and>
     artifact_ok semver (pi_selected i) \<and> trust_ok (pi_trust_high_water i) \<and> inventory_ok (pi_inventory i)"

text \<open>The loops of the two files.\<close>

lemma try_fold_check:
  "try_fold (\<lambda>_ x. if P x then Inl e else Inr ()) () xs = Inr () \<longleftrightarrow> (\<forall>x\<in>set xs. \<not> P x)"
  by (induction xs) auto

lemma validate_ordered_unique_iff:
  "validate_ordered_unique vals = Inr u \<longleftrightarrow> length vals \<le> 256 \<and> distinct vals"
proof -
  have "try_fold (\<lambda>_ (index, value). if value \<in> set (take index vals) then Inl AuthorityValidation else Inr ()) ()
        (List.enumerate 0 vals) = Inr () \<longleftrightarrow> (\<forall>i<length vals. vals ! i \<notin> set (take i vals))"
    using try_fold_check [of "\<lambda>(index, value). value \<in> set (take index vals)" AuthorityValidation "List.enumerate 0 vals"]
    by (simp add: case_prod_unfold in_set_enumerate_eq all_set_conv_all_nth nth_enumerate_eq)
  also have "\<dots> \<longleftrightarrow> distinct vals"
  proof
    assume "\<forall>i<length vals. vals ! i \<notin> set (take i vals)"
    then show "distinct vals"
      unfolding distinct_conv_nth in_set_conv_nth
      by (metis length_take linorder_neqE_nat min.absorb4 nth_take)
  next
    assume "distinct vals"
    then show "\<forall>i<length vals. vals ! i \<notin> set (take i vals)"
      by (auto simp: in_set_conv_nth distinct_conv_nth)
  qed
  finally show ?thesis by (simp add: validate_ordered_unique_def MAX_SELECTIONS_def)
qed

lemma validate_themes_iff:
  "validate_themes themes = Inr u \<longleftrightarrow> length themes \<le> 256 \<and> sorted_wrt (<) themes"
  using not_any_window2_sorted [of id themes]
  by (auto simp: validate_themes_def MAX_SELECTIONS_def)

lemma validate_inventory_iff:
  "validate_inventory es = Inr u \<longleftrightarrow> es \<noteq> [] \<and> length es \<le> 4096 \<and> sorted_wrt (<) (map ie_path es)"
  using not_any_window2_sorted [of ie_path es]
  by (auto simp: validate_inventory_def MAX_PACK_INVENTORY_ENTRIES_def)

lemma try_collect_iff: "try_collect f xs = Inr ys \<longleftrightarrow> list_all2 (\<lambda>x y. f x = Inr y) xs ys"
proof -
  have "try_fold (\<lambda>acc x. and_then (f x) (\<lambda>y. Inr (acc @ [y]))) acc xs = Inr ys \<longleftrightarrow>
      (\<exists>zs. ys = acc @ zs \<and> list_all2 (\<lambda>x y. f x = Inr y) xs zs)" for acc
  proof (induction xs arbitrary: acc)
    case Nil
    then show ?case by auto
  next
    case (Cons x xs)
    then show ?case by (auto simp: list_all2_Cons1)
  qed
  from this [of "[]"] show ?thesis by (simp add: try_collect_def)
qed

lemma try_collect_map:
  assumes "\<And>x. x \<in> set xs \<Longrightarrow> f (g x) = Inr x"
  shows "try_collect f (map g xs) = Inr xs"
  using assms by (auto simp: try_collect_iff list_all2_conv_all_nth)

lemma pack_list_roundtrip:
  assumes "list_all (id_ok pack_id_parse) ps" "length ps \<le> 256"
  shows "parse_pack_list (pack_list_value ps) = Inr ps"
  using assms try_collect_map [of ps parse_pack_id VString]
  by (simp add: parse_pack_list_def pack_list_value_def parse_pack_id_def MAX_SELECTIONS_def list_all_iff id_ok_simps)

lemma pack_list_ok:
  assumes "parse_pack_list v = Inr ps"
  shows "list_all (id_ok pack_id_parse) ps \<and> length ps \<le> 256"
proof -
  from assms obtain vs where vs: "v = VArray vs" "length vs \<le> 256" "list_all2 (\<lambda>x y. parse_pack_id x = Inr y) vs ps"
    by (auto simp: parse_pack_list_def MAX_SELECTIONS_def try_collect_iff split: json_value.splits if_splits)
  have "id_ok pack_id_parse p" if "parse_pack_id x = Inr p" for x p
    using that pack_id.parse_idem by (auto simp: parse_pack_id_def id_ok_def is_ok_iff)
  with vs(3) have "list_all (id_ok pack_id_parse) ps" by (auto simp: list_all2_conv_all_nth list_all_length)
  with vs show ?thesis by (simp add: list_all2_lengthD)
qed

text \<open>Every constructor and setter keeps the value constructible; a rejected setter changes nothing.\<close>

lemma composition_constructors:
  "composition_ok root_composition_empty"
  "\<lbrakk>root_composition_new route providers usage ui = Inr c; pred_option route_ok route; themes_ok ui;
    list_all (id_ok pack_id_parse) providers; list_all (id_ok pack_id_parse) usage\<rbrakk> \<Longrightarrow> composition_ok c"
  "\<lbrakk>id_ok provider_id_parse p; default_route_new p mdl = Inr r\<rbrakk> \<Longrightarrow> route_ok r"
  "\<lbrakk>list_all (id_ok pack_id_parse) themes; ui_selection_new themes = Inr ui\<rbrakk> \<Longrightarrow> themes_ok ui"
  by (auto simp: composition_ok_def root_composition_empty_def root_composition_new_def selection_ok_def
      themes_ok_def validate_ordered_unique_iff default_route_new_def route_ok_def is_ok_iff
      ui_selection_new_def validate_themes_iff)

lemma composition_setters:
  assumes "composition_ok c"
  shows "pred_option route_ok route \<Longrightarrow> composition_ok (set_default_route route c)"
    and "themes_ok ui \<Longrightarrow> composition_ok (set_ui ui c)"
    and "list_all (id_ok pack_id_parse) ps \<Longrightarrow> set_providers ps c = (r, d) \<Longrightarrow> composition_ok d \<and> (\<not> is_ok r \<longrightarrow> d = c)"
    and "list_all (id_ok pack_id_parse) ps \<Longrightarrow> set_usage ps c = (r, d) \<Longrightarrow> composition_ok d \<and> (\<not> is_ok r \<longrightarrow> d = c)"
    and "pred_option (id_ok pack_id_parse) pack \<Longrightarrow> set_singleton family pack c = (r, d) \<Longrightarrow>
      composition_ok d \<and> (\<not> is_ok r \<longrightarrow> d = c)"
  using assms
  by (auto simp: composition_ok_def set_default_route_def set_ui_def set_providers_def set_usage_def
      set_singleton_def selection_ok_def validate_ordered_unique_iff list_all_iff
      split: sum.splits dest!: set_update_subset_insert [THEN subsetD])

lemma singleton_index_eq: "singleton_index family =
  (case family of Web \<Rightarrow> Inr 0 | Mcp \<Rightarrow> Inr 1 | _ \<Rightarrow> Inl AuthorityValidation)"
  by (cases family) (simp_all add: singleton_index_def singleton_families_def)

lemma singletons_value_eq:
  "singletons_value c = Inr (VObject [(''web'', nullable VString (rc_singletons c ! 0)),
                                      (''mcp'', nullable VString (rc_singletons c ! 1))])"
  by (simp add: singletons_value_def singleton_families_def singleton_index_eq)

text \<open>A set singleton is read back and the other keeps its value.\<close>

lemma set_singleton_reads:
  assumes "composition_ok c" "set_singleton family pack c = (Inr u, d)"
  shows "singleton_of family d = Inr pack \<and> (other \<noteq> family \<longrightarrow> singleton_of other d = singleton_of other c)"
  using assms by (cases family; cases other)
    (auto simp: set_singleton_def singleton_of_def singleton_index_eq composition_ok_def)

subsection \<open>Round trips\<close>

lemma sx_eval_eq: "sx_eval f s = Inr x \<longleftrightarrow> (\<exists>t. f s = (Inr x, t))"
  by (cases "f s") (auto simp: sx_eval_def)

lemma take_value_run:
  "take_value field object = (Inr v, t) \<longleftrightarrow> map_of object field = Some v \<and> t = AList.delete field object"
  by (auto simp: take_value_def split: option.splits)

lemma take_string_run:
  "take_string field object = (Inr x, t) \<longleftrightarrow>
     map_of object field = Some (VString x) \<and> t = AList.delete field object"
proof -
  have "as_str v = Some x \<longleftrightarrow> v = VString x" for v by (cases v) auto
  then show ?thesis by (auto simp: take_string_def take_value_run)
qed

lemma as_u64_eq: "as_u64 v = Some n \<longleftrightarrow> v = VUInt n"
  by (cases v) auto

lemma take_u32_run:
  "take_u32 field object = (Inr n, t) \<longleftrightarrow>
     map_of object field = Some (VUInt n) \<and> n < 2 ^ 32 \<and> t = AList.delete field object"
  by (auto simp: take_u32_def take_value_run as_u64_eq bind_eq_Some_conv split: if_splits)

lemma sx_if_run:
  "(if c then sx_fail e else f) s = (Inr x, t) \<longleftrightarrow> \<not> c \<and> f s = (Inr x, t)"
  by simp

lemma take_positive_u64_run:
  "take_positive_u64 field object = (Inr n, t) \<longleftrightarrow>
     map_of object field = Some (VUInt n) \<and> 1 \<le> n \<and> n \<le> i64_max \<and> t = AList.delete field object"
  by (auto simp: take_positive_u64_def take_value_run as_u64_eq sx_if_run)

lemma authority_revision_iff: "authority_revision_new n = Inr m \<longleftrightarrow> n \<le> i64_max \<and> m = n"
  by (auto simp: authority_revision_new_def)

lemma take_positive_revision_run:
  "take_positive_revision field object = (Inr n, t) \<longleftrightarrow>
     map_of object field = Some (VUInt n) \<and> 1 \<le> n \<and> n \<le> i64_max \<and> t = AList.delete field object"
  by (auto simp: take_positive_revision_def take_positive_u64_run authority_revision_iff)

lemma take_nullable_run:
  "take_nullable field parse object = (Inr x, t) \<longleftrightarrow>
     (\<exists>v. map_of object field = Some v \<and> t = AList.delete field object \<and>
       (if v = VNull then x = None else \<exists>y. parse v = Inr y \<and> x = Some y))"
proof -
  have "(case v of VNull \<Rightarrow> sx_return None | _ \<Rightarrow> sx_lift (and_then (parse v) (\<lambda>x. Inr (Some x)))) s = (Inr x, t) \<longleftrightarrow>
      t = s \<and> (if v = VNull then x = None else \<exists>y. parse v = Inr y \<and> x = Some y)" for v s
    by (cases v) auto
  then show ?thesis unfolding take_nullable_def sx_bind_run take_value_run by blast
qed

lemmas take_runs = take_value_run take_string_run take_u32_run take_positive_u64_run
  take_positive_revision_run take_nullable_run

lemma exact_object_eq:
  "exact_object v names = Inr object \<longleftrightarrow>
     v = VObject object \<and> length object = length names \<and> list_all (\<lambda>f. map_of object f \<noteq> None) names"
  by (auto simp: exact_object_def split: json_value.splits if_splits)

lemma delete_other: "k \<noteq> l \<Longrightarrow> map_of (AList.delete k xs) l = map_of xs l"
  by (simp add: AList.delete_conv')

text \<open>Reading yields constructible values only.\<close>

lemma parse_default_route_ok: "parse_default_route v = Inr r \<Longrightarrow> route_ok r"
  using provider_id.parse_idem
  by (auto simp: parse_default_route_def sx_eval_eq take_runs default_route_new_def route_ok_def id_ok_def is_ok_iff)

lemma parse_pack_id_ok: "parse_pack_id v = Inr p \<Longrightarrow> id_ok pack_id_parse p"
  using pack_id.parse_idem by (auto simp: parse_pack_id_def id_ok_def is_ok_iff)

lemma parse_ordered_list_ok: "parse_ordered_list v = Inr ps \<Longrightarrow> selection_ok ps"
  using pack_list_ok by (auto simp: parse_ordered_list_def selection_ok_def validate_ordered_unique_iff)

lemma parse_ui_ok: "parse_ui v = Inr ps \<Longrightarrow> themes_ok ps"
  using pack_list_ok
  by (auto simp: parse_ui_def sx_eval_eq take_runs ui_selection_new_def themes_ok_def validate_themes_iff)

lemma parse_singletons_ok:
  assumes "parse_singletons v = Inr ss"
  shows "length ss = 2 \<and> list_all (pred_option (id_ok pack_id_parse)) ss"
  using assms parse_pack_id_ok
  by (auto simp: parse_singletons_def singleton_families_def sx_eval_eq take_runs numeral_2_eq_2 split: if_splits)

lemma parse_root_document_value_ok:
  assumes "parse_root_document_value v = Inr d"
  shows "composition_ok (rd_composition d) \<and> 1 \<le> rd_revision d \<and> rd_revision d \<le> i64_max"
proof -
  from assms obtain rev' rv p u ui w route ps us uis ss where d:
    "1 \<le> rev'" "rev' \<le> i64_max" "if rv = VNull then route = None else \<exists>y. parse_default_route rv = Inr y \<and> route = Some y"
    "parse_ordered_list p = Inr ps" "parse_ordered_list u = Inr us" "parse_ui ui = Inr uis"
    "parse_singletons w = Inr ss"
    "d = \<lparr>rd_revision = rev', rd_composition = \<lparr>rc_default_route = route, rc_providers = ps, rc_usage = us,
       rc_ui = uis, rc_singletons = ss\<rparr>\<rparr>"
    by (auto simp: parse_root_document_value_def sx_eval_eq take_runs sx_if_run root_composition_new_def
        authority_revision_iff split del: if_split)
  have "pred_option route_ok route" using d(3) parse_default_route_ok by (auto split: if_splits)
  with d parse_ordered_list_ok parse_ui_ok parse_singletons_ok show ?thesis by (simp add: composition_ok_def)
qed

text \<open>Every constructible value is written to a value that reads back to itself, within the limits.\<close>

lemmas run_simps = sx_eval_def sx_bind_def sx_lift_def sx_return_def sx_fail_def take_value_def
  take_string_def take_u32_def take_positive_u64_def take_positive_revision_def

lemma route_roundtrip:
  assumes "route_ok r"
  shows "parse_default_route (default_route_value r) = Inr r"
  using assms
  by (simp add: parse_default_route_def default_route_value_def exact_object_def run_simps default_route_new_def
      route_ok_def id_ok_simps is_ok_iff)

lemma ordered_list_roundtrip: "selection_ok ps \<Longrightarrow> parse_ordered_list (pack_list_value ps) = Inr ps"
  by (simp add: parse_ordered_list_def pack_list_roundtrip selection_ok_def validate_ordered_unique_iff)

lemma ui_roundtrip: "themes_ok ps \<Longrightarrow> parse_ui (ui_selection_value ps) = Inr ps"
  by (simp add: parse_ui_def ui_selection_value_def exact_object_def run_simps pack_list_roundtrip
      themes_ok_def ui_selection_new_def validate_themes_iff)

lemma take_nullable_roundtrip:
  assumes "map_of object field = Some (nullable f x)"
    and "\<And>v. x = Some v \<Longrightarrow> parse (f v) = Inr v \<and> f v \<noteq> VNull"
  shows "take_nullable field parse object = (Inr x, AList.delete field object)"
  using assms by (cases x) (simp_all add: take_nullable_run nullable_def)

lemma singletons_roundtrip:
  assumes "length ss = 2" and "list_all (pred_option (id_ok pack_id_parse)) ss"
  shows "parse_singletons (VObject [(''web'', nullable VString (ss ! 0)), (''mcp'', nullable VString (ss ! 1))]) = Inr ss"
proof -
  from assms(1) obtain a b where ss: "ss = [a, b]" by (auto simp: numeral_2_eq_2 length_Suc_conv)
  have ok: "parse_pack_id (VString p) = Inr p \<and> VString p \<noteq> VNull" if "x = Some p" "x \<in> set ss" for x p
    using assms(2) that by (auto simp: parse_pack_id_def list_all_iff id_ok_simps)
  let ?o = "[(''web'', nullable VString a), (''mcp'', nullable VString b)]"
  have w: "take_nullable ''web'' parse_pack_id ?o = (Inr a, AList.delete ''web'' ?o)"
    by (rule take_nullable_roundtrip) (use ok [of a] in \<open>auto simp: ss\<close>)
  have m: "take_nullable ''mcp'' parse_pack_id (AList.delete ''web'' ?o) =
      (Inr b, AList.delete ''mcp'' (AList.delete ''web'' ?o))"
    by (rule take_nullable_roundtrip) (use ok [of b] in \<open>auto simp: ss\<close>)
  show ?thesis
    using w m
    by (simp add: parse_singletons_def singleton_families_def exact_object_def ss sx_eval_def sx_bind_def sx_return_def)
qed

lemma default_route_value_not_null: "default_route_value r \<noteq> VNull"
  by (simp add: default_route_value_def)

lemma pack_list_limits:
  "value_nodes (pack_list_value ps) = Suc (length ps)"
  "value_depth (pack_list_value ps) = (if ps = [] then 1 else 2)"
  "keys_distinct (pack_list_value ps)"
proof -
  have "foldr (\<lambda>v. max (value_depth v)) (map VString ps) 0 = (if ps = [] then 0 else 1)"
    by (induction ps) auto
  then show "value_depth (pack_list_value ps) = (if ps = [] then 1 else 2)"
    by (simp add: pack_list_value_def)
qed (simp_all add: pack_list_value_def list_all_iff comp_def sum_list_triv)

lemma root_document_roundtrip:
  assumes ok: "composition_ok (rd_composition d)" and rev': "1 \<le> rd_revision d" "rd_revision d \<le> i64_max"
  obtains v where "root_document_value d = Inr v" and "parse_root_document_value v = Inr d"
    and "within_limits composition_limits v"
proof -
  obtain r c where d: "d = \<lparr>rd_revision = r, rd_composition = c\<rparr>" by (cases d)
  obtain route ps us uis ss where c: "c = \<lparr>rc_default_route = route, rc_providers = ps, rc_usage = us, rc_ui = uis,
      rc_singletons = ss\<rparr>" by (cases c)
  note ok = ok [unfolded d c composition_ok_def, simplified]
  let ?kvs = "[(''formatVersion'', VUInt 1), (''kind'', VString ROOT_COMPOSITION_KIND), (''revision'', VUInt r),
     (''defaultRoute'', nullable default_route_value route), (''providers'', pack_list_value ps),
     (''usage'', pack_list_value us), (''ui'', ui_selection_value uis),
     (''singletons'', VObject [(''web'', nullable VString (ss ! 0)), (''mcp'', nullable VString (ss ! 1))])]"
  have v: "root_document_value d = Inr (VObject ?kvs)"
    by (simp add: root_document_value_def d c singletons_value_eq ROOT_COMPOSITION_FORMAT_VERSION_def)
  have route: "take_nullable ''defaultRoute'' parse_default_route
      [(''defaultRoute'', nullable default_route_value route), (''providers'', pack_list_value ps),
       (''usage'', pack_list_value us), (''ui'', ui_selection_value uis),
       (''singletons'', VObject [(''web'', nullable VString (ss ! 0)), (''mcp'', nullable VString (ss ! 1))])] =
      (Inr route, [(''providers'', pack_list_value ps), (''usage'', pack_list_value us), (''ui'', ui_selection_value uis),
       (''singletons'', VObject [(''web'', nullable VString (ss ! 0)), (''mcp'', nullable VString (ss ! 1))])])"
    using ok by (subst take_nullable_roundtrip)
      (auto intro: route_roundtrip simp: default_route_value_not_null)
  have lists: "parse_ordered_list (pack_list_value ps) = Inr ps" "parse_ordered_list (pack_list_value us) = Inr us"
    "parse_ui (ui_selection_value uis) = Inr uis"
    "parse_singletons (VObject [(''web'', nullable VString (ss ! 0)), (''mcp'', nullable VString (ss ! 1))]) = Inr ss"
    using ok by (simp_all add: ordered_list_roundtrip ui_roundtrip singletons_roundtrip del: One_nat_def)
  have new: "root_composition_new route ps us uis = Inr \<lparr>rc_default_route = route, rc_providers = ps, rc_usage = us,
      rc_ui = uis, rc_singletons = [None, None]\<rparr>"
    using ok by (simp add: root_composition_new_def selection_ok_def validate_ordered_unique_iff)
  have "parse_root_document_value (VObject ?kvs) = Inr d"
    using rev' route lists new
    by (simp add: parse_root_document_value_def exact_object_def run_simps d c ROOT_COMPOSITION_FORMAT_VERSION_def
        authority_revision_new_def)
  moreover have "within_limits composition_limits (VObject ?kvs)"
    using ok by (auto simp: within_limits_def composition_limits_def pack_list_limits ui_selection_value_def
        selection_ok_def themes_ok_def nullable_def default_route_value_def split: option.split)
  ultimately show ?thesis using that v by blast
qed

text \<open>The same for the installation document.\<close>

lemma artifact_roundtrip: "artifact_ok semver a \<Longrightarrow> parse_active semver (artifact_ref_value a) = Inr a"
  by (simp add: parse_active_def artifact_ref_value_def exact_object_def run_simps artifact_ok_def id_ok_simps)

lemma trust_roundtrip: "trust_ok t \<Longrightarrow> parse_trust_high_water (trust_high_water_value t) = Inr t"
  by (simp add: parse_trust_high_water_def trust_high_water_value_def exact_object_def run_simps trust_ok_def
      id_ok_simps trust_high_water_new_def)

lemma inventory_entry_roundtrip:
  "id_ok bundle_path_parse (ie_path e) \<Longrightarrow> id_ok sha256_digest_parse (ie_digest e) \<Longrightarrow>
   parse_inventory_entry (inventory_entry_value e) = Inr e"
  by (simp add: parse_inventory_entry_def inventory_entry_value_def exact_object_def run_simps id_ok_simps)

lemma inventory_roundtrip:
  assumes "inventory_ok es"
  shows "parse_inventory (VArray (map inventory_entry_value es)) = Inr es"
  using assms try_collect_map [of es parse_inventory_entry inventory_entry_value]
  by (simp add: parse_inventory_def inventory_ok_def validate_inventory_iff list_all_iff inventory_entry_roundtrip)

lemma parse_active_ok: "parse_active semver v = Inr a \<Longrightarrow> artifact_ok semver a"
  using version_verbatim digest_verbatim
  by (fastforce simp: parse_active_def sx_eval_eq take_runs artifact_ok_def id_ok_simps)

lemma parse_trust_ok: "parse_trust_high_water v = Inr t \<Longrightarrow> trust_ok t"
  using digest_verbatim
  by (fastforce simp: parse_trust_high_water_def sx_eval_eq take_runs trust_ok_def id_ok_simps trust_high_water_new_def
      split: if_splits)

lemma parse_inventory_ok:
  assumes "parse_inventory v = Inr es"
  shows "inventory_ok es"
proof -
  from assms obtain vs where vs: "list_all2 (\<lambda>x y. parse_inventory_entry x = Inr y) vs es" "validate_inventory es = Inr ()"
    by (auto simp: parse_inventory_def try_collect_iff split: json_value.splits)
  have "id_ok bundle_path_parse (ie_path e) \<and> id_ok sha256_digest_parse (ie_digest e)"
    if "parse_inventory_entry x = Inr e" for x e
    using that bundle_path_verbatim digest_verbatim
    by (fastforce simp: parse_inventory_entry_def sx_eval_eq take_runs id_ok_simps)
  with vs show ?thesis
    by (auto simp: inventory_ok_def validate_inventory_iff list_all2_conv_all_nth list_all_length)
qed

lemma pack_id_ok: "pack_id_parse s = Inr t \<Longrightarrow> id_ok pack_id_parse t"
  using pack_id.parse_idem by (auto simp: id_ok_def)

lemma source_ok: "source_binding_id_parse s = Inr t \<Longrightarrow> id_ok source_binding_id_parse t"
  using source_binding_id.parse_idem by (auto simp: id_ok_def)

lemma directory_name_inj: "directory_name f = directory_name g \<longleftrightarrow> f = g"
  by (cases f; cases g) simp_all

lemma parse_installation_document_value_ok:
  assumes "parse_installation_document_value semver family pack_id v = Inr d"
  shows "installation_ok semver (id_installation d) \<and> pi_family (id_installation d) = family \<and>
    pi_pack_id (id_installation d) = pack_id \<and> 1 \<le> id_revision d \<and> id_revision d \<le> i64_max"
  using assms
  unfolding parse_installation_document_value_def and_then_eq_Inr sx_eval_eq sx_bind_run take_runs sx_run_simps
    sx_if_run pack_installation_new_def
  by (elim exE conjE, unfold not_not sum.inject, hypsubst,
      simp (no_asm) only: installation_ok_def installation_document.select_convs pack_installation.select_convs simp_thms)
    (intro conjI; (assumption | erule pack_id_ok source_ok parse_active_ok parse_trust_ok parse_inventory_ok))

lemma inventory_limits:
  "value_nodes (VArray (map inventory_entry_value es)) = Suc (5 * length es)"
  "value_depth (VArray (map inventory_entry_value es)) \<le> 3"
  "keys_distinct (VArray (map inventory_entry_value es))"
proof -
  have "foldr (\<lambda>v. max (value_depth v)) (map inventory_entry_value es) 0 \<le> 2"
    by (simp add: foldr_max_le inventory_entry_value_def)
  then show "value_depth (VArray (map inventory_entry_value es)) \<le> 3" by simp
qed (simp_all add: inventory_entry_value_def list_all_iff comp_def sum_list_triv)

lemma installation_document_roundtrip:
  assumes ok: "installation_ok semver (id_installation d)" and rev': "1 \<le> id_revision d" "id_revision d \<le> i64_max"
    and bound: "pi_family (id_installation d) = family" "pi_pack_id (id_installation d) = pack_id"
  shows "parse_installation_document_value semver family pack_id (installation_document_value d) = Inr d"
    and "within_limits installation_limits (installation_document_value d)"
proof -
  obtain r i where d: "d = \<lparr>id_revision = r, id_installation = i\<rparr>" by (cases d)
  obtain src sel tr inv where i: "i = \<lparr>pi_family = family, pi_pack_id = pack_id, pi_source = src, pi_selected = sel,
      pi_trust_high_water = tr, pi_inventory = inv\<rparr>" using bound by (cases i) (simp add: d)
  note ok = ok [unfolded d i installation_ok_def, simplified]
  have new: "pack_installation_new family pack_id src sel tr inv = Inr i"
    using ok by (simp add: pack_installation_new_def i inventory_ok_def validate_inventory_iff)
  show "parse_installation_document_value semver family pack_id (installation_document_value d) = Inr d"
    using ok rev' new
    by (simp add: parse_installation_document_value_def installation_document_value_def Let_def exact_object_def
        run_simps PACK_INSTALLATION_FORMAT_VERSION_def authority_revision_new_def d i
        artifact_roundtrip trust_roundtrip inventory_roundtrip id_ok_simps)
  show "within_limits installation_limits (installation_document_value d)"
    using ok inventory_limits [of inv]
    by (auto simp: within_limits_def installation_limits_def installation_document_value_def Let_def d i
        artifact_ref_value_def trust_high_water_value_def MAX_PACK_INVENTORY_ENTRIES_def inventory_ok_def
        simp del: value_nodes.simps(1) value_depth.simps(1) keys_distinct.simps(1))
qed

lemma component_digest_exact:
  assumes "inventory_ok (pi_inventory i)"
  shows "component_digest i = Some digest \<longleftrightarrow> \<lparr>ie_path = ''component.wasm'', ie_digest = digest\<rparr> \<in> set (pi_inventory i)"
proof -
  have sorted: "sorted_wrt (<) (map ie_path (pi_inventory i))" using assms by (simp add: inventory_ok_def)
  have unique: "x = y" if "x \<in> set (pi_inventory i)" "y \<in> set (pi_inventory i)" "ie_path x = ie_path y" for x y
    using sorted that by (metis distinct_map inj_onD strict_sorted_iff)
  have path: "cmp (ie_path e) PACK_COMPONENT_BUNDLE_PATH = cmp (ie_path e) ''component.wasm''" for e
    by (simp add: PACK_COMPONENT_BUNDLE_PATH_def)
  show ?thesis
  proof (cases "binary_search_by (\<lambda>e. cmp (ie_path e) ''component.wasm'') (pi_inventory i)")
    case (Inl k)
    then show ?thesis
      using binary_search_correct [OF sorted, of "''component.wasm''"]
      by (force simp: component_digest_def path)
  next
    case (Inr k)
    then have k: "k < length (pi_inventory i)" "ie_path (pi_inventory i ! k) = ''component.wasm''"
      using binary_search_correct [OF sorted, of "''component.wasm''"] by simp_all
    have "component_digest i = Some (ie_digest (pi_inventory i ! k))" using Inr by (simp add: component_digest_def path)
    moreover have "\<lparr>ie_path = ''component.wasm'', ie_digest = digest\<rparr> \<in> set (pi_inventory i) \<longleftrightarrow>
        ie_digest (pi_inventory i ! k) = digest"
    proof
      assume "\<lparr>ie_path = ''component.wasm'', ie_digest = digest\<rparr> \<in> set (pi_inventory i)"
      then have "\<lparr>ie_path = ''component.wasm'', ie_digest = digest\<rparr> = pi_inventory i ! k"
        by (rule unique) (simp_all add: k)
      then show "ie_digest (pi_inventory i ! k) = digest" by (metis inventory_entry.select_convs(2))
    next
      assume "ie_digest (pi_inventory i ! k) = digest"
      then have "\<lparr>ie_path = ''component.wasm'', ie_digest = digest\<rparr> = pi_inventory i ! k"
        using k(2) by (cases "pi_inventory i ! k") simp
      then show "\<lparr>ie_path = ''component.wasm'', ie_digest = digest\<rparr> \<in> set (pi_inventory i)"
        using k(1) by simp
    qed
    ultimately show ?thesis by simp
  qed
qed

subsection \<open>What is assumed of the serializer\<close>

text \<open>Numbers that are not \<open>u64\<close> values do not occur in the documents.\<close>

fun whole_numbers :: "json_value \<Rightarrow> bool" where
  "whole_numbers (VNumber n) \<longleftrightarrow> False"
| "whole_numbers (VArray vs) \<longleftrightarrow> list_all whole_numbers vs"
| "whole_numbers (VObject kvs) \<longleftrightarrow> list_all (\<lambda>(k, v). whole_numbers v) kvs"
| "whole_numbers _ \<longleftrightarrow> True"

text \<open>\<open>serde\_json::to\_vec\<close> followed by a line feed is UTF-8 that \<open>serde\_json::Deserializer\<close> reads as the
  value that was written, up to the end.\<close>

definition codec_ok :: "'b json_codec \<Rightarrow> bool" where
  "codec_ok codec \<longleftrightarrow> (\<forall>v b. whole_numbers v \<and> jc_to_vec codec v = Some b \<longrightarrow>
     jc_utf8 codec b \<and> jc_reading codec b = (reading_of v, True))"

text \<open>An instance whose bytes are the values themselves and whose length counts their nodes.\<close>

definition value_codec :: "json_value json_codec" where
  "value_codec = \<lparr>jc_utf8 = (\<lambda>_. True), jc_reading = (\<lambda>v. (reading_of v, True)), jc_to_vec = Some,
                  jc_len = value_nodes\<rparr>"

lemma value_codec_ok: "codec_ok value_codec"
  by (simp add: codec_ok_def value_codec_def)

lemma parse_written:
  assumes "codec_ok codec" "whole_numbers v" "jc_to_vec codec v = Some bytes" "limits_ok limits" "within_limits limits v"
  shows "parse_strict_value codec bytes limits = Inr v"
  using assms by (simp add: parse_strict_value_iff codec_ok_def)

lemma limits_of_documents: "limits_ok composition_limits" "limits_ok installation_limits"
  by (simp_all add: limits_ok_def composition_limits_def installation_limits_def MAX_PACK_INVENTORY_ENTRIES_def)

lemma documents_whole_numbers:
  "root_document_value d = Inr v \<Longrightarrow> whole_numbers v"
  "whole_numbers (installation_document_value e)"
  by (auto simp: root_document_value_def singletons_value_eq nullable_def default_route_value_def pack_list_value_def
      ui_selection_value_def installation_document_value_def Let_def artifact_ref_value_def trust_high_water_value_def
      inventory_entry_value_def list_all_iff split: option.splits)

lemma root_reads_back:
  assumes codec: "codec_ok codec" and ok: "composition_ok c" "1 \<le> r" "r \<le> i64_max"
    and bytes: "serialize_root_document codec \<lparr>rd_revision = r, rd_composition = c\<rparr> = Inr b"
  shows "parse_root_document codec b = Inr \<lparr>rd_revision = r, rd_composition = c\<rparr>"
    and "jc_len codec b \<le> MAX_ROOT_COMPOSITION_BYTES"
proof -
  let ?d = "\<lparr>rd_revision = r, rd_composition = c\<rparr>"
  obtain v where v: "root_document_value ?d = Inr v" "parse_root_document_value v = Inr ?d"
    "within_limits composition_limits v"
    by (rule root_document_roundtrip [of ?d]) (use ok in auto)
  from bytes v(1) have b: "jc_to_vec codec v = Some b" "jc_len codec b \<le> MAX_ROOT_COMPOSITION_BYTES"
    by (auto simp: serialize_root_document_def split: if_splits)
  show "parse_root_document codec b = Inr ?d"
    using parse_written [OF codec documents_whole_numbers(1) [OF v(1)] b(1) limits_of_documents(1) v(3)] v(2)
    by (simp add: parse_root_document_def)
  show "jc_len codec b \<le> MAX_ROOT_COMPOSITION_BYTES" by (rule b(2))
qed

lemma pack_installation_json_ok:
  assumes "id_ok pack_id_parse p"
  obtains path where "pack_installation_json family p = Inr path"
  using assms
  by (auto simp: id_ok_simps pack_id_parse_def pack_installation_json_def pack_dir_def validate_portable_id_def split: if_splits)

lemma installation_reads_back:
  assumes codec: "codec_ok codec" and ok: "installation_ok semver i" "1 \<le> r" "r \<le> i64_max"
    and bytes: "serialize_installation_document codec \<lparr>id_revision = r, id_installation = i\<rparr> = Inr b"
  shows "parse_installation_document semver codec (pi_family i) (pi_pack_id i) b = Inr \<lparr>id_revision = r, id_installation = i\<rparr>"
    and "jc_len codec b \<le> MAX_PACK_INSTALLATION_BYTES"
proof -
  let ?d = "\<lparr>id_revision = r, id_installation = i\<rparr>"
  from bytes have b: "jc_to_vec codec (installation_document_value ?d) = Some b" "jc_len codec b \<le> MAX_PACK_INSTALLATION_BYTES"
    by (auto simp: serialize_installation_document_def split: if_splits)
  have "id_ok pack_id_parse (pi_pack_id i)" using ok(1) by (simp add: installation_ok_def)
  then obtain path where path: "pack_installation_json (pi_family i) (pi_pack_id i) = Inr path"
    by (rule pack_installation_json_ok)
  have "parse_strict_value codec b installation_limits = Inr (installation_document_value ?d)"
    by (rule parse_written [OF codec documents_whole_numbers(2) b(1) limits_of_documents(2)])
      (rule installation_document_roundtrip(2), use ok in auto)
  moreover have "parse_installation_document_value semver (pi_family i) (pi_pack_id i) (installation_document_value ?d) = Inr ?d"
    by (rule installation_document_roundtrip(1)) (use ok in auto)
  ultimately show "parse_installation_document semver codec (pi_family i) (pi_pack_id i) b = Inr ?d"
    using path by (simp add: parse_installation_document_def)
  show "jc_len codec b \<le> MAX_PACK_INSTALLATION_BYTES" by (rule b(2))
qed

subsection \<open>Files of numbered versions\<close>

text \<open>
  The abstract specification of both files: the list of the versions that were ever published, numbered
  from one. \<open>fails\<close> says why a version cannot be written.
\<close>

definition versioned_replace ::
  "(nat \<Rightarrow> 'v \<Rightarrow> 'd) \<Rightarrow> (nat \<Rightarrow> 'v \<Rightarrow> config_error option) \<Rightarrow> native_outcome \<Rightarrow> nat \<Rightarrow> 'v \<Rightarrow> ('v list, config_error, 'd) sx" where
  "versioned_replace version_doc fails n expected v versions =
     (let next = Suc (length versions) in
      case n of
        BeginFails e \<Rightarrow> (Inl e, versions)
      | ReadFails e \<Rightarrow> (Inl e, versions)
      | _ \<Rightarrow>
          if expected \<noteq> length versions then (Inl RevisionConflict, versions)
          else if next > i64_max then (Inl RevisionExhausted, versions)
          else case fails next v of
            Some e \<Rightarrow> (Inl e, versions)
          | None \<Rightarrow>
              (case n of
                 ReplaceFails e \<Rightarrow> (Inl e, versions)
               | PublishedButFails e \<Rightarrow> (Inl e, versions @ [v])
               | _ \<Rightarrow> (Inr (version_doc next v), versions @ [v])))"

text \<open>A sequence of requests, with the responses.\<close>

fun serve :: "('q \<Rightarrow> ('s, 'e, 'd) sx) \<Rightarrow> 'q list \<Rightarrow> 's \<Rightarrow> ('e + 'd) list \<times> 's" where
  "serve handle [] s = ([], s)"
| "serve handle (q # qs) s =
     (case handle q s of (r, t) \<Rightarrow> (case serve handle qs t of (rs, u) \<Rightarrow> (r # rs, u)))"

lemma serve_refines:
  assumes "\<And>q s a. q \<in> set qs \<Longrightarrow> R s a \<Longrightarrow> fst (f q s) = fst (g q a) \<and> R (snd (f q s)) (snd (g q a))"
    and "R s a"
  shows "fst (serve f qs s) = fst (serve g qs a) \<and> R (snd (serve f qs s)) (snd (serve g qs a))"
  using assms
proof (induction qs arbitrary: s a)
  case Nil
  then show ?case by simp
next
  case (Cons q qs)
  have "fst (f q s) = fst (g q a)" "R (snd (f q s)) (snd (g q a))" using Cons.prems by auto
  moreover from this have "fst (serve f qs (snd (f q s))) = fst (serve g qs (snd (g q a))) \<and>
      R (snd (serve f qs (snd (f q s)))) (snd (serve g qs (snd (g q a))))"
    using Cons.IH Cons.prems by auto
  ultimately show ?case by (simp add: case_prod_unfold)
qed

text \<open>What a document module promises: a version it writes is read back, and fits the file.\<close>

locale document_store =
  fixes parse :: "'b \<Rightarrow> config_error + 'd" and revision_of :: "'d \<Rightarrow> nat" and version_doc :: "nat \<Rightarrow> 'v \<Rightarrow> 'd"
    and serialize :: "'d \<Rightarrow> config_error + 'b" and len :: "'b \<Rightarrow> nat" and bound :: nat and valid :: "'v \<Rightarrow> bool"
  assumes reads_back: "\<lbrakk>valid v; 1 \<le> r; r \<le> i64_max; serialize (version_doc r v) = Inr b\<rbrakk> \<Longrightarrow> parse b = Inr (version_doc r v)"
    and fits_bound: "\<lbrakk>valid v; 1 \<le> r; r \<le> i64_max; serialize (version_doc r v) = Inr b\<rbrakk> \<Longrightarrow> len b \<le> bound"
    and revision_make: "revision_of (version_doc r v) = r"
begin

definition replace :: "native_outcome \<Rightarrow> nat \<Rightarrow> 'v \<Rightarrow> ('b option, config_error, 'd) sx" where
  "replace n expected v =
     locked_update_owned_file len n bound (compare_and_swap parse revision_of (\<lambda>r. version_doc r v) serialize expected)"

definition holds_versions :: "'b option \<Rightarrow> 'v list \<Rightarrow> bool" where
  "holds_versions file versions \<longleftrightarrow> length versions \<le> i64_max \<and>
     (case file of
        None \<Rightarrow> versions = []
      | Some b \<Rightarrow> versions \<noteq> [] \<and> len b \<le> bound \<and> parse b = Inr (version_doc (length versions) (last versions)))"

lemma replace_refines:
  assumes "valid v" and "holds_versions file versions"
  defines "fails \<equiv> \<lambda>r v. case serialize (version_doc r v) of Inl e \<Rightarrow> Some e | Inr _ \<Rightarrow> None"
  shows "fst (replace n expected v file) = fst (versioned_replace version_doc fails n expected v versions) \<and>
    holds_versions (snd (replace n expected v file)) (snd (versioned_replace version_doc fails n expected v versions))"
proof -
  let ?f = "compare_and_swap parse revision_of (\<lambda>r. version_doc r v) serialize expected"
  have len: "length versions \<le> i64_max" using assms(2) by (simp add: holds_versions_def)
  have read: "native_read len bound n file = (case n of ReadFails e \<Rightarrow> Inl e | _ \<Rightarrow> Inr file)"
    using assms(2) by (auto simp: native_read_def holds_versions_def split: native_outcome.split option.splits)
  have current: "?f file =
      (if length versions \<noteq> expected then Inl RevisionConflict
       else and_then (checked_next (length versions)) (\<lambda>r.
         and_then (serialize (version_doc r v)) (\<lambda>bytes. Inr (bytes, version_doc r v))))"
    using assms(2)
    by (auto simp: compare_and_swap_def holds_versions_def revision_make Let_def split: option.splits)
  show ?thesis
  proof (cases "expected = length versions \<and> Suc (length versions) \<le> i64_max")
    case True
    then have nxt: "checked_next (length versions) = Inr (Suc (length versions))" by (simp add: checked_next_def)
    show ?thesis
    proof (cases "serialize (version_doc (Suc (length versions)) v)")
      case (Inl e)
      with True nxt current read assms(2) show ?thesis
        by (cases n) (auto simp: replace_def locked_update_owned_file_def versioned_replace_def fails_def Let_def)
    next
      case (Inr bytes)
      have rbk: "parse bytes = Inr (version_doc (Suc (length versions)) v)" "len bytes \<le> bound"
        using reads_back [OF assms(1) _ _ Inr] fits_bound [OF assms(1) _ _ Inr] True by auto
      have new: "holds_versions (Some bytes) (versions @ [v])"
        using True rbk by (simp add: holds_versions_def)
      show ?thesis
        using True nxt current read assms(2) Inr rbk new
        by (cases n) (auto simp: replace_def locked_update_owned_file_def versioned_replace_def fails_def Let_def
            sx_bind_def sx_return_def)
    qed
  next
    case False
    then show ?thesis
      using current read assms(2) len
      by (cases n) (auto simp: replace_def locked_update_owned_file_def versioned_replace_def fails_def Let_def
          checked_next_def)
  qed
qed

lemma start_holds: "holds_versions None []"
  by (simp add: holds_versions_def)

end

text \<open>The two documents are such modules whenever the serializer is faithful.\<close>

lemma root_store:
  assumes "codec_ok codec"
  shows "document_store (parse_root_document codec) rd_revision (\<lambda>r c. \<lparr>rd_revision = r, rd_composition = c\<rparr>)
    (serialize_root_document codec) (jc_len codec) MAX_ROOT_COMPOSITION_BYTES composition_ok"
  by unfold_locales (use root_reads_back [OF assms] in auto)

lemma installation_store:
  assumes "codec_ok codec"
  shows "document_store (parse_installation_document semver codec family pack_id) id_revision
    (\<lambda>r i. \<lparr>id_revision = r, id_installation = i\<rparr>) (serialize_installation_document codec) (jc_len codec)
    MAX_PACK_INSTALLATION_BYTES (\<lambda>i. installation_ok semver i \<and> pi_family i = family \<and> pi_pack_id i = pack_id)"
  by unfold_locales (use installation_reads_back [OF assms] in auto)

interpretation root_files: document_store "parse_root_document value_codec" rd_revision
  "\<lambda>r c. \<lparr>rd_revision = r, rd_composition = c\<rparr>" "serialize_root_document value_codec" "jc_len value_codec"
  MAX_ROOT_COMPOSITION_BYTES composition_ok
  by (rule root_store [OF value_codec_ok])

definition write_error :: "('d \<Rightarrow> config_error + 'b) \<Rightarrow> (nat \<Rightarrow> 'v \<Rightarrow> 'd) \<Rightarrow> nat \<Rightarrow> 'v \<Rightarrow> config_error option" where
  "write_error serialize version_doc r v = (case serialize (version_doc r v) of Inl e \<Rightarrow> Some e | Inr _ \<Rightarrow> None)"

text \<open>The specification of a replacement of the installation of one Pack.\<close>

definition versioned_installation ::
  "(nat \<Rightarrow> pack_installation \<Rightarrow> config_error option) \<Rightarrow> plugin_family \<Rightarrow> string \<Rightarrow> native_outcome \<Rightarrow> nat \<Rightarrow>
   pack_installation \<Rightarrow> (pack_installation list, config_error, installation_document) sx" where
  "versioned_installation fails family pack_id n expected i versions =
     (if pi_family i \<noteq> family \<or> pi_pack_id i \<noteq> pack_id then (Inl AuthorityValidation, versions)
      else versioned_replace (\<lambda>r i. \<lparr>id_revision = r, id_installation = i\<rparr>) fails n expected i versions)"

definition latest_version :: "(nat \<Rightarrow> 'v \<Rightarrow> 'd) \<Rightarrow> 'v list \<Rightarrow> 'd option" where
  "latest_version version_doc versions =
     (if versions = [] then None else Some (version_doc (length versions) (last versions)))"

lemma root_file_refines:
  fixes codec :: "'b json_codec"
  assumes codec: "codec_ok codec" and valid: "list_all (\<lambda>(n, e, c). composition_ok c) requests"
  defines "mk \<equiv> \<lambda>r c. \<lparr>rd_revision = r, rd_composition = c\<rparr>"
  defines "file \<equiv> serve (\<lambda>(n, e, c). replace_root_composition codec n e c) requests None"
  defines "spec \<equiv> serve (\<lambda>(n, e, c). versioned_replace mk (write_error (serialize_root_document codec) mk) n e c) requests []"
  shows "fst file = fst spec \<and> read_root_composition codec NativeOk (snd file) = Inr (latest_version mk (snd spec))"
proof -
  note store = root_store [OF codec, folded mk_def]
  let ?R = "document_store.holds_versions (parse_root_document codec) mk (jc_len codec) MAX_ROOT_COMPOSITION_BYTES"
  have op: "replace_root_composition codec n e c =
      document_store.replace (parse_root_document codec) rd_revision mk (serialize_root_document codec) (jc_len codec)
        MAX_ROOT_COMPOSITION_BYTES n e c" for n e c
    unfolding document_store.replace_def [OF store] by (simp add: replace_root_composition_def mk_def)
  have "fst file = fst spec \<and> ?R (snd file) (snd spec)"
    unfolding file_def spec_def
  proof (rule serve_refines)
    show "?R None []" by (rule document_store.start_holds [OF store])
  next
    fix q and f :: "'b option" and vs
    assume q: "q \<in> set requests" and R: "?R f vs"
    obtain n e c where nec: "q = (n, e, c)" by (cases q)
    with valid q have "composition_ok c" by (auto simp: list_all_iff)
    from document_store.replace_refines [OF store this R, of n e]
    show "fst ((case q of (n, e, c) \<Rightarrow> replace_root_composition codec n e c) f) =
        fst ((case q of (n, e, c) \<Rightarrow> versioned_replace mk (write_error (serialize_root_document codec) mk) n e c) vs) \<and>
      ?R (snd ((case q of (n, e, c) \<Rightarrow> replace_root_composition codec n e c) f))
         (snd ((case q of (n, e, c) \<Rightarrow> versioned_replace mk (write_error (serialize_root_document codec) mk) n e c) vs))"
      by (simp add: nec op write_error_def [abs_def])
  qed
  then show ?thesis
    by (auto simp: document_store.holds_versions_def [OF store] read_root_composition_def native_read_def latest_version_def
        split: option.splits)
qed

lemma installation_file_refines:
  fixes codec :: "'b json_codec" and family :: plugin_family
  assumes codec: "codec_ok codec" and pack: "id_ok pack_id_parse pack_id"
    and valid: "list_all (\<lambda>(n, e, i). installation_ok semver i) requests"
  defines "mk \<equiv> \<lambda>r i. \<lparr>id_revision = r, id_installation = i\<rparr>"
  defines "file \<equiv> serve (\<lambda>(n, e, i). replace_pack_installation semver codec n family pack_id e i) requests None"
  defines "spec \<equiv> serve (\<lambda>(n, e, i).
     versioned_installation (write_error (serialize_installation_document codec) mk) family pack_id n e i) requests []"
  shows "fst file = fst spec \<and>
    read_pack_installation semver codec NativeOk family pack_id (snd file) = Inr (latest_version mk (snd spec))"
proof -
  note store = installation_store [OF codec, of semver family pack_id, folded mk_def]
  obtain path where path: "pack_installation_json family pack_id = Inr path" using pack by (rule pack_installation_json_ok)
  let ?R = "document_store.holds_versions (parse_installation_document semver codec family pack_id) mk (jc_len codec)
    MAX_PACK_INSTALLATION_BYTES"
  let ?fails = "write_error (serialize_installation_document codec) mk"
  have op: "replace_pack_installation semver codec n family pack_id e i =
      document_store.replace (parse_installation_document semver codec family pack_id) id_revision mk
        (serialize_installation_document codec) (jc_len codec) MAX_PACK_INSTALLATION_BYTES n e i"
    if "pi_family i = family" "pi_pack_id i = pack_id" for n e i
    unfolding document_store.replace_def [OF store]
    using that by (simp add: replace_pack_installation_def mk_def path fun_eq_iff)
  have "fst file = fst spec \<and> ?R (snd file) (snd spec)"
    unfolding file_def spec_def
  proof (rule serve_refines)
    show "?R None []" by (rule document_store.start_holds [OF store])
  next
    fix q and f :: "'b option" and vs
    assume q: "q \<in> set requests" and R: "?R f vs"
    obtain n e i where nei: "q = (n, e, i)" by (cases q)
    with valid q have ok: "installation_ok semver i" by (auto simp: list_all_iff)
    show "fst ((case q of (n, e, i) \<Rightarrow> replace_pack_installation semver codec n family pack_id e i) f) =
        fst ((case q of (n, e, i) \<Rightarrow> versioned_installation ?fails family pack_id n e i) vs) \<and>
      ?R (snd ((case q of (n, e, i) \<Rightarrow> replace_pack_installation semver codec n family pack_id e i) f))
         (snd ((case q of (n, e, i) \<Rightarrow> versioned_installation ?fails family pack_id n e i) vs))"
    proof (cases "pi_family i = family \<and> pi_pack_id i = pack_id")
      case True
      with ok have "installation_ok semver i \<and> pi_family i = family \<and> pi_pack_id i = pack_id" by simp
      from document_store.replace_refines [OF store this R, of n e] True
      show ?thesis by (simp add: nei op versioned_installation_def write_error_def [abs_def] mk_def [symmetric])
    next
      case False
      with R show ?thesis by (simp add: nei replace_pack_installation_def versioned_installation_def path)
    qed
  qed
  then show ?thesis
    by (auto simp: document_store.holds_versions_def [OF store] read_pack_installation_def native_read_def
        latest_version_def path split: option.splits)
qed

text \<open>C34. Authority documents round trip. Every constructible root composition and Pack installation with a
  positive revision is written to a JSON value within the depth and node limits of its reader that reads
  back as the same document (and any file the serializer makes of it does so); conversely whatever is read
  is constructible, carries a positive revision, and, for an installation, is bound to the family and Pack
  of its path.\<close>

theorem authority_documents_roundtrip:
  assumes "codec_ok codec"
  shows "(composition_ok c \<and> 1 \<le> r \<and> r \<le> i64_max \<longrightarrow>
      (\<exists>v. root_document_value \<lparr>rd_revision = r, rd_composition = c\<rparr> = Inr v \<and> within_limits composition_limits v \<and>
           parse_root_document_value v = Inr \<lparr>rd_revision = r, rd_composition = c\<rparr>) \<and>
      (serialize_root_document codec \<lparr>rd_revision = r, rd_composition = c\<rparr> = Inr bytes \<longrightarrow>
        parse_root_document codec bytes = Inr \<lparr>rd_revision = r, rd_composition = c\<rparr>)) \<and>
    (installation_ok semver i \<and> 1 \<le> r \<and> r \<le> i64_max \<longrightarrow>
      within_limits installation_limits (installation_document_value \<lparr>id_revision = r, id_installation = i\<rparr>) \<and>
      parse_installation_document_value semver (pi_family i) (pi_pack_id i)
        (installation_document_value \<lparr>id_revision = r, id_installation = i\<rparr>) = Inr \<lparr>id_revision = r, id_installation = i\<rparr> \<and>
      (serialize_installation_document codec \<lparr>id_revision = r, id_installation = i\<rparr> = Inr bytes \<longrightarrow>
        parse_installation_document semver codec (pi_family i) (pi_pack_id i) bytes =
          Inr \<lparr>id_revision = r, id_installation = i\<rparr>)) \<and>
    (parse_root_document codec bytes = Inr d \<longrightarrow>
      composition_ok (rd_composition d) \<and> 1 \<le> rd_revision d \<and> rd_revision d \<le> i64_max) \<and>
    (parse_installation_document semver codec family pack_id bytes = Inr e \<longrightarrow>
      installation_ok semver (id_installation e) \<and> pi_family (id_installation e) = family \<and>
      pi_pack_id (id_installation e) = pack_id \<and> 1 \<le> id_revision e \<and> id_revision e \<le> i64_max)"
proof (intro conjI impI; (elim conjE)?)
  assume "composition_ok c" "1 \<le> r" "r \<le> i64_max"
  then show "\<exists>v. root_document_value \<lparr>rd_revision = r, rd_composition = c\<rparr> = Inr v \<and> within_limits composition_limits v \<and>
      parse_root_document_value v = Inr \<lparr>rd_revision = r, rd_composition = c\<rparr>"
    by (auto intro: root_document_roundtrip [of "\<lparr>rd_revision = r, rd_composition = c\<rparr>"])
qed (use root_reads_back(1) [OF assms] installation_reads_back(1) [OF assms]
    installation_document_roundtrip [of semver "\<lparr>id_revision = r, id_installation = i\<rparr>"]
    parse_root_document_value_ok parse_installation_document_value_ok in
    \<open>auto simp: parse_root_document_def parse_installation_document_def\<close>)

text \<open>C33. Authority files are numbered versions. Whatever sequence of replacements is asked of a file that did
  not exist, with any expected revisions and any failures of the native layer, the answers are those of an
  append-only list of versions: a replacement is accepted only when its expectation is the number of the
  last version, it then gets the next number, a rejected one changes nothing, and the file always reads
  back as the last version, also after a failure that came too late to keep the version from being
  published. This holds for the root composition and for the installation of each Pack.\<close>

theorem authority_files_versioned:
  fixes codec :: "'b json_codec" and family :: plugin_family
  assumes "codec_ok codec" and "id_ok pack_id_parse pack_id"
    and "list_all (\<lambda>(n, e, c). composition_ok c) roots"
    and "list_all (\<lambda>(n, e, i). installation_ok semver i) installations"
  defines "root \<equiv> \<lambda>r c. \<lparr>rd_revision = r, rd_composition = c\<rparr>"
  defines "inst \<equiv> \<lambda>r i. \<lparr>id_revision = r, id_installation = i\<rparr>"
  shows "(\<exists>answers file versions.
      serve (\<lambda>(n, e, c). replace_root_composition codec n e c) roots None = (answers, file) \<and>
      serve (\<lambda>(n, e, c). versioned_replace root (write_error (serialize_root_document codec) root) n e c) roots [] =
        (answers, versions) \<and>
      read_root_composition codec NativeOk file = Inr (latest_version root versions)) \<and>
    (\<exists>answers file versions.
      serve (\<lambda>(n, e, i). replace_pack_installation semver codec n family pack_id e i) installations None = (answers, file) \<and>
      serve (\<lambda>(n, e, i). versioned_installation (write_error (serialize_installation_document codec) inst) family pack_id n e i)
        installations [] = (answers, versions) \<and>
      read_pack_installation semver codec NativeOk family pack_id file = Inr (latest_version inst versions))"
  using root_file_refines [OF assms(1,3)] installation_file_refines [OF assms(1,2,4), of family]
  by (simp add: root_def inst_def prod_eq_iff)

definition sample_digest :: string where
  "sample_digest = ''sha256:'' @ replicate 64 CHR ''0''"

definition sample_installation :: pack_installation where
  "sample_installation =
     \<lparr>pi_family = Providers, pi_pack_id = ''openai'', pi_source = ''official'',
      pi_selected = \<lparr>ar_version = ''1.0.0'', ar_digest = sample_digest\<rparr>,
      pi_trust_high_water = \<lparr>th_sequence = 1, th_manifest_digest = sample_digest\<rparr>,
      pi_inventory = [\<lparr>ie_path = ''component.wasm'', ie_digest = sample_digest\<rparr>]\<rparr>"

lemma sample_document_ids:
  "pack_id_parse ''openai'' = Inr ''openai''" "source_binding_id_parse ''official'' = Inr ''official''"
  "canonical_version_parse Some ''1.0.0'' = Inr ''1.0.0''" "sha256_digest_parse sample_digest = Inr sample_digest"
  "bundle_path_parse ''component.wasm'' = Inr ''component.wasm''"
proof -
  show "pack_id_parse ''openai'' = Inr ''openai''"
    by (simp add: pack_id_parse_def is_valid_portable_id_def is_safe_path_component_def is_windows_device_name_def
        is_id_separator_def ascii_defs utf8_chars_ascii is_ascii_byte_def is_control_char_def unsafe_path_bytes_def
        trim_end_dots_and_spaces_def eq_ignore_ascii_case_def to_ascii_lowercase_def is_com_or_lpt_device_def
        split_ascii_prefix_def is_char_boundary_def is_continuation_def utf8_width_def next_code_point_def Let_def)
  show "source_binding_id_parse ''official'' = Inr ''official''"
    by (simp add: source_binding_id_parse_def is_dos_reserved_def ascii_defs Let_def)
  show "canonical_version_parse Some ''1.0.0'' = Inr ''1.0.0''"
    by (simp add: canonical_version_parse_def is_ascii_byte_def)
  show "sha256_digest_parse sample_digest = Inr sample_digest"
    by (simp add: sha256_digest_parse_def is_valid_sha256_digest_def sample_digest_def is_lower_hex_def ascii_defs
        list_all_iff)
  show "bundle_path_parse ''component.wasm'' = Inr ''component.wasm''"
    by (simp add: bundle_path_parse_def valid_bundle_component_def is_windows_device_name_def Let_def ascii_defs
        is_ascii_byte_def trim_end_dots_and_spaces_def eq_ignore_ascii_case_def to_ascii_lowercase_def
        is_com_or_lpt_device_def split_ascii_prefix_def is_char_boundary_def matches_dos_device_unit_def device_units_def
        utf8_encode_def)
qed

lemma sample_installation_ok: "installation_ok Some sample_installation"
  by (simp add: installation_ok_def sample_installation_def artifact_ok_def trust_ok_def inventory_ok_def id_ok_def
      sample_document_ids i64_max_def)

theorem authority_documents_roundtrip_witness:
  "(\<exists>v. root_document_value \<lparr>rd_revision = 1, rd_composition = root_composition_empty\<rparr> = Inr v \<and>
      parse_root_document_value v = Inr \<lparr>rd_revision = 1, rd_composition = root_composition_empty\<rparr>) \<and>
   parse_installation_document_value Some Providers ''openai''
     (installation_document_value \<lparr>id_revision = 3, id_installation = sample_installation\<rparr>) =
     Inr \<lparr>id_revision = 3, id_installation = sample_installation\<rparr>"
proof -
  have r: "composition_ok root_composition_empty \<and> 1 \<le> (1 :: nat) \<and> 1 \<le> i64_max"
    using composition_constructors(1) by (simp add: i64_max_def)
  have i: "installation_ok Some sample_installation \<and> 1 \<le> (3 :: nat) \<and> 3 \<le> i64_max"
    using sample_installation_ok by (simp add: i64_max_def)
  from authority_documents_roundtrip [OF value_codec_ok, THEN conjunct1, THEN mp, OF r]
  have "\<exists>v. root_document_value \<lparr>rd_revision = 1, rd_composition = root_composition_empty\<rparr> = Inr v \<and>
      parse_root_document_value v = Inr \<lparr>rd_revision = 1, rd_composition = root_composition_empty\<rparr>"
    by blast
  moreover from authority_documents_roundtrip [OF value_codec_ok, THEN conjunct2, THEN conjunct1, THEN mp, OF i]
  have "parse_installation_document_value Some (pi_family sample_installation) (pi_pack_id sample_installation)
      (installation_document_value \<lparr>id_revision = 3, id_installation = sample_installation\<rparr>) =
      Inr \<lparr>id_revision = 3, id_installation = sample_installation\<rparr>"
    by blast
  ultimately show ?thesis by (simp add: sample_installation_def)
qed

text \<open>Three replacements: accepted, published although the directory could not be synced, and stale.\<close>

definition sample_requests :: "'v \<Rightarrow> (native_outcome \<times> nat \<times> 'v) list" where
  "sample_requests v = [(NativeOk, 0, v), (PublishedButFails Io, 1, v), (NativeOk, 1, v)]"

theorem authority_files_versioned_witness:
  "(\<exists>d. serve (\<lambda>(n, e, c). replace_root_composition value_codec n e c) (sample_requests root_composition_empty) None =
        ([Inr \<lparr>rd_revision = 1, rd_composition = root_composition_empty\<rparr>, Inl Io, Inl RevisionConflict], Some d)) \<and>
   fst (serve (\<lambda>(n, e, i). replace_pack_installation Some value_codec n Providers ''openai'' e i)
        (sample_requests sample_installation) None) =
     [Inr \<lparr>id_revision = 1, id_installation = sample_installation\<rparr>, Inl Io, Inl RevisionConflict]"
proof -
  have valid: "list_all (\<lambda>(n, e, c). composition_ok c) (sample_requests root_composition_empty)"
    "list_all (\<lambda>(n, e, i). installation_ok Some i) (sample_requests sample_installation)"
    using composition_constructors(1) sample_installation_ok by (simp_all add: sample_requests_def)
  have pack: "id_ok pack_id_parse ''openai''" by (simp add: id_ok_def sample_document_ids)
  note claim = authority_files_versioned [OF value_codec_ok pack valid, of Providers]
  have root: "write_error (serialize_root_document value_codec) (\<lambda>r c. \<lparr>rd_revision = r, rd_composition = c\<rparr>) r
      root_composition_empty = None" for r
    by (simp add: write_error_def serialize_root_document_def root_document_value_def singletons_value_eq value_codec_def
        root_composition_empty_def nullable_def pack_list_value_def ui_selection_value_def MAX_ROOT_COMPOSITION_BYTES_def)
  have inst: "write_error (serialize_installation_document value_codec) (\<lambda>r i. \<lparr>id_revision = r, id_installation = i\<rparr>) r
      sample_installation = None" for r
    by (simp add: write_error_def serialize_installation_document_def installation_document_value_def value_codec_def
        sample_installation_def artifact_ref_value_def trust_high_water_value_def inventory_entry_value_def
        MAX_PACK_INSTALLATION_BYTES_def Let_def)
  have bound: "pi_family sample_installation = Providers" "pi_pack_id sample_installation = ''openai''"
    by (simp_all add: sample_installation_def)
  from claim obtain answers content where
    a: "serve (\<lambda>(n, e, c). replace_root_composition value_codec n e c) (sample_requests root_composition_empty) None = (answers, content)"
      "answers = [Inr \<lparr>rd_revision = 1, rd_composition = root_composition_empty\<rparr>, Inl Io, Inl RevisionConflict]"
      "read_root_composition value_codec NativeOk content = Inr (Some \<lparr>rd_revision = 2, rd_composition = root_composition_empty\<rparr>)"
    and b: "fst (serve (\<lambda>(n, e, i). replace_pack_installation Some value_codec n Providers ''openai'' e i)
        (sample_requests sample_installation) None) =
      [Inr \<lparr>id_revision = 1, id_installation = sample_installation\<rparr>, Inl Io, Inl RevisionConflict]"
    by (auto simp: sample_requests_def versioned_replace_def versioned_installation_def root inst bound i64_max_def
        latest_version_def Let_def)
  from a(3) obtain d where "content = Some d" by (cases content) (auto simp: read_root_composition_def native_read_def)
  with a(1,2) b show ?thesis by blast
qed

end
