(* ===== verification/Pack_Selection.thy ===== *)
theory Pack_Selection
  imports Authority_Documents Fence
begin

section \<open>Configured Pack selections and activations\<close>

text \<open>
  \<open>mcode-plugin-host/src/pack_selection.rs\<close> and \<open>pack_activation.rs\<close>: the authority publishes root
  compositions in revision order, issues each family client a stamp for the Packs that are configured now,
  and an activation that was prepared for a stamp is committed only if its selection and its generation are
  still current. Loading and instantiating a Pack is a parameter. The mutex makes each operation one step;
  no step panics, so it is never poisoned. The hexadecimal spelling is shared with
  \<open>mcode-config/src/transaction\_id.rs\<close>.
\<close>

subsection \<open>Random identifiers\<close>

definition LOWER_HEX :: string where "LOWER_HEX = ''0123456789abcdef''"

fun hex_bytes :: "string \<Rightarrow> string" where
  "hex_bytes [] = []"
| "hex_bytes (byte # bytes) =
     LOWER_HEX ! (of_char byte div 16) # LOWER_HEX ! (of_char byte mod 16) # hex_bytes bytes"

definition TRANSACTION_ID_PREFIX :: string where "TRANSACTION_ID_PREFIX = ''tx1-''"

text \<open>The argument is the answer of the operating system's random source.\<close>

definition transaction_id_generate :: "string option \<Rightarrow> config_error + string" where
  "transaction_id_generate random =
     and_then (ok_or random Random) (\<lambda>bytes. Inr (TRANSACTION_ID_PREFIX @ hex_bytes bytes))"

definition strip_prefix :: "string \<Rightarrow> string \<Rightarrow> string option" where
  "strip_prefix p s = (if take (length p) s = p then Some (drop (length p) s) else None)"

definition parse_persistent :: "string \<Rightarrow> string option" where
  "parse_persistent value =
     Option.bind (strip_prefix TRANSACTION_ID_PREFIX value) (\<lambda>suffix.
       if length suffix \<noteq> 16 * 2 \<or> \<not> list_all is_lower_hex suffix then None else Some value)"

definition PACK_SELECTION_PREFIX :: string where "PACK_SELECTION_PREFIX = ''psel1-''"
definition PACK_SELECTION_RANDOM_BYTES :: nat where "PACK_SELECTION_RANDOM_BYTES = 16"
definition PACK_SELECTION_MINT_ATTEMPTS :: nat where "PACK_SELECTION_MINT_ATTEMPTS = 8"

definition encode_stamp :: "string \<Rightarrow> string" where
  "encode_stamp random = PACK_SELECTION_PREFIX @ hex_bytes random"

lemma hex_digit_inj: "a < 16 \<Longrightarrow> b < 16 \<Longrightarrow> LOWER_HEX ! a = LOWER_HEX ! b \<longleftrightarrow> a = b"
  using nth_eq_iff_index_eq [of LOWER_HEX a b] by (simp add: LOWER_HEX_def)

lemma hex_digit_lower:
  assumes "a < 16"
  shows "is_lower_hex (LOWER_HEX ! a)"
proof -
  have "list_all is_lower_hex LOWER_HEX" by (simp add: LOWER_HEX_def is_lower_hex_def ascii_defs)
  with assms show ?thesis by (simp add: list_all_length LOWER_HEX_def)
qed

lemma nibble [simp]: "(of_char c :: nat) div 16 < 16"
  using nat_of_char_less_256 [of c] by (simp del: nat_of_char_less_256)

lemma hex_bytes_inj: "length xs = length ys \<Longrightarrow> hex_bytes xs = hex_bytes ys \<longleftrightarrow> xs = ys"
proof (induction xs ys rule: list_induct2)
  case Nil
  then show ?case by simp
next
  case (Cons x xs y ys)
  have "(of_char x :: nat) = of_char y"
    if "(of_char x :: nat) div 16 = of_char y div 16" "(of_char x :: nat) mod 16 = of_char y mod 16"
    using that by (metis div_mult_mod_eq)
  then have "x = y" if "(of_char x :: nat) div 16 = of_char y div 16" "(of_char x :: nat) mod 16 = of_char y mod 16"
    using that by simp
  with Cons show ?case by (auto simp: hex_digit_inj)
qed

lemma hex_bytes_format: "length (hex_bytes xs) = 2 * length xs \<and> list_all is_lower_hex (hex_bytes xs)"
  by (induction xs) (auto simp: hex_digit_lower)

text \<open>Generated transaction ids are accepted by the parser of persistent ids, and different random bytes
  give different ids and stamps.\<close>

lemma transaction_id_accepted:
  assumes "transaction_id_generate (Some bytes) = Inr t" and "length bytes = 16"
  shows "parse_persistent t = Some t \<and> length t = 36"
  using assms hex_bytes_format [of bytes]
  by (auto simp: transaction_id_generate_def parse_persistent_def strip_prefix_def TRANSACTION_ID_PREFIX_def)

lemma encode_stamp_inj: "length xs = length ys \<Longrightarrow> encode_stamp xs = encode_stamp ys \<longleftrightarrow> xs = ys"
  by (simp add: encode_stamp_def hex_bytes_inj)

subsection \<open>The authority\<close>

datatype pack_configuration_error =
    ConfigurationClosed | RevisionRegression | ConfigurationRevisionConflict | ConfigurationUnavailable

datatype pack_selection_issue_error = IssueUnavailable

datatype selection_activation_error = SelInvalidSelection | SelUnavailable

record authority_state =
  au_closed :: bool
  au_document :: "root_document option"
  au_projection :: "string list list"
  au_live_stamps :: "string set"

record configured_selection =
  cs_stamp :: string
  cs_revision :: nat
  cs_pack_ids :: "string list"

text \<open>\<open>family\_index\<close> and the singleton of \<open>project\<close> panic when their \<open>expect\<close> fails.\<close>

definition family_index :: "plugin_family \<Rightarrow> nat option" where
  "family_index family = find_position family all_families"

definition empty_projection :: "string list list" where
  "empty_projection = replicate (length all_families) []"

definition project_family :: "root_composition \<Rightarrow> plugin_family \<Rightarrow> string list option" where
  "project_family c family =
     (case family of
        Providers \<Rightarrow> Some (rc_providers c)
      | Usage \<Rightarrow> Some (rc_usage c)
      | Ui \<Rightarrow> Some (rc_ui c)
      | _ \<Rightarrow> (case singleton_of family c of
                 Inl _ \<Rightarrow> None
               | Inr None \<Rightarrow> Some []
               | Inr (Some p) \<Rightarrow> Some [p]))"

definition project :: "root_composition \<Rightarrow> string list list option" where
  "project c = those (map (project_family c) all_families)"

definition authority_new :: authority_state where
  "authority_new =
     \<lparr>au_closed = False, au_document = None, au_projection = empty_projection, au_live_stamps = {}\<rparr>"

definition document_revision :: "root_document option \<Rightarrow> nat" where
  "document_revision d = (case d of None \<Rightarrow> 0 | Some d \<Rightarrow> rd_revision d)"

definition publish ::
  "root_document option \<Rightarrow> authority_state \<Rightarrow> ((pack_configuration_error + unit) \<times> authority_state) option" where
  "publish document s =
     (let target_revision = document_revision document; current_revision = document_revision (au_document s) in
      if au_closed s then Some (Inl ConfigurationClosed, s)
      else if target_revision < current_revision then Some (Inl RevisionRegression, s)
      else if target_revision = current_revision
      then Some (if document = au_document s then Inr () else Inl ConfigurationRevisionConflict, s)
      else case document of
          None \<Rightarrow> None
        | Some d \<Rightarrow>
            Option.bind (project (rd_composition d)) (\<lambda>projection.
              Some (Inr (), s\<lparr>au_projection := projection, au_document := document\<rparr>)))"

definition authority_close :: "authority_state \<Rightarrow> authority_state" where
  "authority_close s = s\<lparr>au_closed := True, au_live_stamps := {}\<rparr>"

text \<open>\<open>fill\<close> answers the n-th call of the random source.\<close>

fun mint_attempts ::
  "(nat \<Rightarrow> string option) \<Rightarrow> string set \<Rightarrow> nat \<Rightarrow> nat \<Rightarrow> pack_selection_issue_error + string" where
  "mint_attempts fill live attempt 0 = Inl IssueUnavailable"
| "mint_attempts fill live attempt (Suc n) =
     (case fill attempt of
        None \<Rightarrow> Inl IssueUnavailable
      | Some random \<Rightarrow>
          let stamp = encode_stamp random in
          if stamp \<notin> live then Inr stamp else mint_attempts fill live (Suc attempt) n)"

definition mint_stamp :: "(nat \<Rightarrow> string option) \<Rightarrow> string set \<Rightarrow> pack_selection_issue_error + string" where
  "mint_stamp fill live = mint_attempts fill live 0 PACK_SELECTION_MINT_ATTEMPTS"

definition issue ::
  "(nat \<Rightarrow> string option) \<Rightarrow> plugin_family \<Rightarrow> configured_selection option \<Rightarrow> authority_state \<Rightarrow>
   ((pack_selection_issue_error + configured_selection) \<times> configured_selection option \<times> authority_state) option" where
  "issue fill family cache s =
     (if au_closed s then Some (Inl IssueUnavailable, cache, s)
      else Option.bind (family_index family) (\<lambda>index.
        let revision = document_revision (au_document s); pack_ids = au_projection s ! index in
        case cache of
          Some cached \<Rightarrow>
            if cs_revision cached = revision \<and> cs_pack_ids cached = pack_ids
            then Some (Inr cached, cache, s)
            else (case mint_stamp fill (au_live_stamps s) of
                Inl e \<Rightarrow> Some (Inl e, cache, s)
              | Inr stamp \<Rightarrow>
                  let selection = \<lparr>cs_stamp = stamp, cs_revision = revision, cs_pack_ids = pack_ids\<rparr> in
                  Some (Inr selection, Some selection,
                        s\<lparr>au_live_stamps := insert stamp (au_live_stamps s) - {cs_stamp cached}\<rparr>))
        | None \<Rightarrow>
            (case mint_stamp fill (au_live_stamps s) of
                Inl e \<Rightarrow> Some (Inl e, cache, s)
              | Inr stamp \<Rightarrow>
                  let selection = \<lparr>cs_stamp = stamp, cs_revision = revision, cs_pack_ids = pack_ids\<rparr> in
                  Some (Inr selection, Some selection, s\<lparr>au_live_stamps := insert stamp (au_live_stamps s)\<rparr>))))"

definition release_selection :: "configured_selection option \<Rightarrow> authority_state \<Rightarrow> authority_state" where
  "release_selection cache s =
     (case cache of
        None \<Rightarrow> s
      | Some selection \<Rightarrow> s\<lparr>au_live_stamps := au_live_stamps s - {cs_stamp selection}\<rparr>)"

definition activation_is_current ::
  "plugin_family \<Rightarrow> configured_selection option \<Rightarrow> authority_state \<Rightarrow> configured_selection \<Rightarrow> bool option" where
  "activation_is_current family cache s target =
     Option.bind (family_index family) (\<lambda>index.
       Some (cache = Some target \<and> cs_revision target = document_revision (au_document s) \<and>
             cs_pack_ids target = au_projection s ! index))"

definition begin_activation ::
  "plugin_family \<Rightarrow> configured_selection option \<Rightarrow> string \<Rightarrow> authority_state \<Rightarrow>
   (selection_activation_error + configured_selection) option" where
  "begin_activation family cache selection_stamp s =
     (if au_closed s then Some (Inl SelUnavailable)
      else case cache of
          None \<Rightarrow> Some (Inl SelInvalidSelection)
        | Some target \<Rightarrow>
            if cs_stamp target \<noteq> selection_stamp then Some (Inl SelInvalidSelection)
            else Option.bind (activation_is_current family cache s target) (\<lambda>current.
              Some (if \<not> current then Inl SelInvalidSelection else Inr target)))"

definition lock_current_activation ::
  "plugin_family \<Rightarrow> configured_selection option \<Rightarrow> authority_state \<Rightarrow> configured_selection \<Rightarrow>
   (selection_activation_error + unit) option" where
  "lock_current_activation family cache s target =
     (if au_closed s then Some (Inl SelUnavailable)
      else Option.bind (activation_is_current family cache s target) (\<lambda>current.
        Some (if \<not> current then Inl SelInvalidSelection else Inr ())))"

text \<open>\<open>commit\_activation\<close> holds that lock until the commit is dropped.\<close>

definition commit_activation ::
  "plugin_family \<Rightarrow> configured_selection option \<Rightarrow> authority_state \<Rightarrow> configured_selection \<Rightarrow>
   (selection_activation_error + unit) option" where
  "commit_activation family cache s target = lock_current_activation family cache s target"

definition into_wire :: "configured_selection \<Rightarrow> string \<times> string list" where
  "into_wire c = (cs_stamp c, cs_pack_ids c)"

subsection \<open>Activation\<close>

datatype pack_activation_error = ActInvalidSelection | StaleGenerationAct | ActLimit | ActUnavailable | ActFailed

fun map_selection_error :: "selection_activation_error \<Rightarrow> pack_activation_error" where
  "map_selection_error SelInvalidSelection = ActInvalidSelection"
| "map_selection_error SelUnavailable = ActUnavailable"

fun map_commit_error :: "generation_commit_error \<Rightarrow> pack_activation_error" where
  "map_commit_error Stale = StaleGenerationAct"
| "map_commit_error Unavailable = ActUnavailable"

record 'p active_set =
  as_target :: configured_selection
  as_packs :: "'p list"

text \<open>
  A client of one family. While \<open>activate\<close> is suspended in an instantiation, \<open>ac\_pending\<close> holds its target
  and, once prepared, the packs; the exclusive borrow keeps every other operation of this client away.
\<close>

record 'p activation_client =
  ac_family :: plugin_family
  ac_cache :: "configured_selection option"
  ac_active :: "'p active_set option"
  ac_pending :: "(configured_selection \<times> 'p list option) option"

definition client_new :: "plugin_family \<Rightarrow> 'p activation_client" where
  "client_new family = \<lparr>ac_family = family, ac_cache = None, ac_active = None, ac_pending = None\<rparr>"

text \<open>\<open>activate\<close> up to its commit. \<open>prepare\<close> loads, verifies and instantiates one Pack.\<close>

definition activate_prepare ::
  "(string \<Rightarrow> pack_activation_error + 'p) \<Rightarrow> string \<Rightarrow> 'p activation_client \<Rightarrow> authority_state \<Rightarrow>
   (pack_activation_error + configured_selection \<times> 'p list option) option" where
  "activate_prepare prepare selection_stamp c s =
     (case begin_activation (ac_family c) (ac_cache c) selection_stamp s of
        None \<Rightarrow> None
      | Some (Inl e) \<Rightarrow> Some (Inl (map_selection_error e))
      | Some (Inr target) \<Rightarrow>
          Some (if pred_option (\<lambda>a. as_target a = target) (ac_active c) \<and> ac_active c \<noteq> None then Inr (target, None)
                else and_then (try_collect prepare (cs_pack_ids target)) (\<lambda>packs. Inr (target, Some packs))))"

definition activate_commit ::
  "fence \<Rightarrow> configured_selection \<Rightarrow> 'p list option \<Rightarrow> 'p activation_client \<Rightarrow> authority_state \<Rightarrow>
   ((pack_activation_error + string) \<times> 'p activation_client) option" where
  "activate_commit f target replacement c s =
     (case begin_commit f of
        Inl e \<Rightarrow> Some (Inl (map_commit_error e), c)
      | Inr _ \<Rightarrow>
          (case commit_activation (ac_family c) (ac_cache c) s target of
             None \<Rightarrow> None
           | Some (Inl e) \<Rightarrow> Some (Inl (map_selection_error e), c)
           | Some (Inr _) \<Rightarrow>
               let active = (case replacement of
                               Some packs \<Rightarrow> Some \<lparr>as_target = target, as_packs = packs\<rparr>
                             | None \<Rightarrow> ac_active c);
                   selection_stamp = (case active of None \<Rightarrow> cs_stamp target | Some a \<Rightarrow> cs_stamp (as_target a))
               in Some (Inr selection_stamp, c\<lparr>ac_active := active\<rparr>)))"

subsection \<open>Processes\<close>

text \<open>
  One authority and any number of clients, dropped ones being \<open>None\<close>. \<open>loads id p\<close> says that \<open>p\<close> is a prepared
  instance of the Pack \<open>id\<close>; whatever a successful preparation returns is one.
\<close>

record 'p selection_world =
  sw_authority :: authority_state
  sw_clients :: "'p activation_client option list"

datatype 'p selection_op =
    OpPublish "root_document option"
  | OpClient plugin_family
  | OpIssue nat "nat \<Rightarrow> string option"
  | OpDrop nat
  | OpClose
  | OpPrepare nat string "string \<Rightarrow> pack_activation_error + 'p"
  | OpCommit nat fence
  | OpAbandon nat

definition idle_client :: "nat \<Rightarrow> 'p selection_world \<Rightarrow> bool" where
  "idle_client i w \<longleftrightarrow> i < length (sw_clients w) \<and>
     (case sw_clients w ! i of None \<Rightarrow> False | Some c \<Rightarrow> ac_pending c = None)"

definition pending_client :: "nat \<Rightarrow> 'p selection_world \<Rightarrow> bool" where
  "pending_client i w \<longleftrightarrow> i < length (sw_clients w) \<and>
     (case sw_clients w ! i of None \<Rightarrow> False | Some c \<Rightarrow> ac_pending c \<noteq> None)"

definition document_ok :: "root_document \<Rightarrow> bool" where
  "document_ok d \<longleftrightarrow> composition_ok (rd_composition d) \<and> 1 \<le> rd_revision d"

fun selection_enabled :: "(string \<Rightarrow> 'p \<Rightarrow> bool) \<Rightarrow> 'p selection_op \<Rightarrow> 'p selection_world \<Rightarrow> bool" where
  "selection_enabled loads (OpPublish d) w \<longleftrightarrow> pred_option document_ok d"
| "selection_enabled loads (OpClient family) w \<longleftrightarrow> True"
| "selection_enabled loads (OpIssue i fill) w \<longleftrightarrow> idle_client i w \<and> (\<forall>n. pred_option (\<lambda>r. length r = 16) (fill n))"
| "selection_enabled loads (OpDrop i) w \<longleftrightarrow> idle_client i w"
| "selection_enabled loads OpClose w \<longleftrightarrow> True"
| "selection_enabled loads (OpPrepare i stamp prepare) w \<longleftrightarrow>
     idle_client i w \<and> (\<forall>k p. prepare k = Inr p \<longrightarrow> loads k p)"
| "selection_enabled loads (OpCommit i f) w \<longleftrightarrow> pending_client i w"
| "selection_enabled loads (OpAbandon i) w \<longleftrightarrow> pending_client i w"

definition put_client :: "nat \<Rightarrow> 'p activation_client option \<Rightarrow> 'p selection_world \<Rightarrow> 'p selection_world" where
  "put_client i c w = w\<lparr>sw_clients := (sw_clients w)[i := c]\<rparr>"

fun selection_apply :: "'p selection_op \<Rightarrow> 'p selection_world \<Rightarrow> 'p selection_world option" where
  "selection_apply (OpPublish d) w =
     (case publish d (sw_authority w) of None \<Rightarrow> None | Some (_, s) \<Rightarrow> Some (w\<lparr>sw_authority := s\<rparr>))"
| "selection_apply (OpClient family) w = Some (w\<lparr>sw_clients := sw_clients w @ [Some (client_new family)]\<rparr>)"
| "selection_apply (OpIssue i fill) w =
     (case sw_clients w ! i of
        None \<Rightarrow> Some w
      | Some c \<Rightarrow>
          (case issue fill (ac_family c) (ac_cache c) (sw_authority w) of
             None \<Rightarrow> None
           | Some (_, cache, s) \<Rightarrow> Some (put_client i (Some (c\<lparr>ac_cache := cache\<rparr>)) (w\<lparr>sw_authority := s\<rparr>))))"
| "selection_apply (OpDrop i) w =
     (case sw_clients w ! i of
        None \<Rightarrow> Some w
      | Some c \<Rightarrow> Some (put_client i None (w\<lparr>sw_authority := release_selection (ac_cache c) (sw_authority w)\<rparr>)))"
| "selection_apply OpClose w = Some (w\<lparr>sw_authority := authority_close (sw_authority w)\<rparr>)"
| "selection_apply (OpPrepare i stamp prepare) w =
     (case sw_clients w ! i of
        None \<Rightarrow> Some w
      | Some c \<Rightarrow>
          (case activate_prepare prepare stamp c (sw_authority w) of
             None \<Rightarrow> None
           | Some (Inl _) \<Rightarrow> Some w
           | Some (Inr pending) \<Rightarrow> Some (put_client i (Some (c\<lparr>ac_pending := Some pending\<rparr>)) w)))"
| "selection_apply (OpCommit i f) w =
     (case sw_clients w ! i of
        None \<Rightarrow> Some w
      | Some c \<Rightarrow>
          (case ac_pending c of
             None \<Rightarrow> Some w
           | Some (target, replacement) \<Rightarrow>
               (case activate_commit f target replacement c (sw_authority w) of
                  None \<Rightarrow> None
                | Some (_, d) \<Rightarrow> Some (put_client i (Some (d\<lparr>ac_pending := None\<rparr>)) w))))"
| "selection_apply (OpAbandon i) w =
     (case sw_clients w ! i of
        None \<Rightarrow> Some w
      | Some c \<Rightarrow> Some (put_client i (Some (c\<lparr>ac_pending := None\<rparr>)) w))"

text \<open>A state of \<open>None\<close> is a panic.\<close>

inductive selection_step ::
  "(string \<Rightarrow> 'p \<Rightarrow> bool) \<Rightarrow> 'p selection_world option \<Rightarrow> 'p selection_world option \<Rightarrow> bool"
  for loads :: "string \<Rightarrow> 'p \<Rightarrow> bool"
where
  selection_stepI: "selection_enabled loads op w \<Longrightarrow> selection_step loads (Some w) (selection_apply op w)"

inductive_cases selection_stepE: "selection_step loads x y"

definition selection_start :: "'p selection_world option \<Rightarrow> bool" where
  "selection_start x \<longleftrightarrow> x = Some \<lparr>sw_authority = authority_new, sw_clients = []\<rparr>"

subsection \<open>Invariant\<close>

lemma family_index_total: "\<exists>i<5. family_index family = Some i \<and> all_families ! i = family"
  by (cases family) (simp_all add: family_index_def all_families_def)

lemma project_total:
  assumes "composition_ok c"
  shows "\<exists>ps. project c = Some ps \<and> length ps = 5 \<and> (\<forall>i<5. project_family c (all_families ! i) = Some (ps ! i))"
proof -
  have "\<exists>ps. project_family c family = Some ps" for family
    by (cases family) (auto simp: project_family_def singleton_of_def singleton_index_eq split: option.split)
  then obtain f where f: "\<And>family. project_family c family = Some (f family)" by metis
  then have "project c = Some (map f all_families)" by (simp add: project_def all_families_def)
  then show ?thesis by (auto simp: f all_families_def nth_Cons' less_Suc_eq numeral_eq_Suc)
qed

definition configured_packs :: "root_document option \<Rightarrow> plugin_family \<Rightarrow> string list" where
  "configured_packs d family =
     (case d of None \<Rightarrow> [] | Some d \<Rightarrow> (case project_family (rd_composition d) family of None \<Rightarrow> [] | Some ps \<Rightarrow> ps))"

definition authority_inv :: "authority_state \<Rightarrow> bool" where
  "authority_inv s \<longleftrightarrow> pred_option document_ok (au_document s) \<and> length (au_projection s) = 5 \<and>
     (\<forall>i<5. au_projection s ! i = configured_packs (au_document s) (all_families ! i))"

definition cached_stamp :: "'p activation_client option \<Rightarrow> string option" where
  "cached_stamp x = Option.bind x (\<lambda>c. map_option cs_stamp (ac_cache c))"

definition client_inv :: "(string \<Rightarrow> 'p \<Rightarrow> bool) \<Rightarrow> 'p activation_client \<Rightarrow> bool" where
  "client_inv loads c \<longleftrightarrow>
     pred_option (\<lambda>a. list_all2 loads (cs_pack_ids (as_target a)) (as_packs a)) (ac_active c) \<and>
     pred_option (\<lambda>(target, replacement).
       case replacement of
         Some packs \<Rightarrow> list_all2 loads (cs_pack_ids target) packs
       | None \<Rightarrow> map_option as_target (ac_active c) = Some target) (ac_pending c)"

definition stamps_inv :: "authority_state \<Rightarrow> 'p activation_client option list \<Rightarrow> bool" where
  "stamps_inv s cs \<longleftrightarrow>
     (\<forall>i<length cs. \<forall>j<length cs. cached_stamp (cs ! i) = cached_stamp (cs ! j) \<and> cached_stamp (cs ! i) \<noteq> None \<longrightarrow> i = j) \<and>
     (\<forall>c\<in>set cs. pred_option (\<lambda>stamp. length stamp = 38) (cached_stamp c)) \<and>
     au_live_stamps s = (if au_closed s then {} else {stamp. Some stamp \<in> cached_stamp ` set cs})"

fun selection_inv :: "(string \<Rightarrow> 'p \<Rightarrow> bool) \<Rightarrow> 'p selection_world option \<Rightarrow> bool" where
  "selection_inv loads None = False"
| "selection_inv loads (Some w) =
     (authority_inv (sw_authority w) \<and> stamps_inv (sw_authority w) (sw_clients w) \<and>
      (\<forall>c. Some c \<in> set (sw_clients w) \<longrightarrow> client_inv loads c))"

lemma publish_total:
  assumes "authority_inv s" and "pred_option document_ok d"
  obtains r t where "publish d s = Some (r, t)" and "authority_inv t" and "au_closed t = au_closed s"
    and "au_live_stamps t = au_live_stamps s" and "document_revision (au_document s) \<le> document_revision (au_document t)"
    and "document_revision (au_document s) = document_revision (au_document t) \<Longrightarrow> au_document t = au_document s"
    and "au_closed s \<Longrightarrow> t = s" and "is_ok r \<Longrightarrow> au_document t = d"
proof (cases "au_closed s \<or> document_revision d \<le> document_revision (au_document s)")
  case True
  let ?r = "if au_closed s then Inl ConfigurationClosed
    else if document_revision d < document_revision (au_document s) then Inl RevisionRegression
    else if d = au_document s then Inr () else Inl ConfigurationRevisionConflict"
  have r: "publish d s = Some (?r, s)" using True by (auto simp: publish_def Let_def)
  show ?thesis by (rule that [OF r assms(1)]) (auto split: if_splits)
next
  case False
  then obtain e where e: "d = Some e" by (cases d) (auto simp: document_revision_def)
  with assms(2) have "composition_ok (rd_composition e)" by (simp add: document_ok_def)
  then obtain ps where ps: "project (rd_composition e) = Some ps" "length ps = 5"
    "\<forall>i<5. project_family (rd_composition e) (all_families ! i) = Some (ps ! i)"
    using project_total by blast
  let ?t = "s\<lparr>au_projection := ps, au_document := d\<rparr>"
  have "publish d s = Some (Inr (), ?t)" using False e ps(1) by (simp add: publish_def Let_def)
  moreover have "authority_inv ?t" using assms(2) ps e by (simp add: authority_inv_def configured_packs_def)
  ultimately show ?thesis using that [of "Inr ()" ?t] False by simp
qed

lemma mint_attempts_fresh:
  assumes "\<And>n. pred_option (\<lambda>r. length r = 16) (fill n)" and "mint_attempts fill live k n = Inr stamp"
  shows "stamp \<notin> live \<and> length stamp = 38"
  using assms(2)
proof (induction n arbitrary: k)
  case 0
  then show ?case by simp
next
  case (Suc n)
  then show ?case
    using assms(1) [of k] hex_bytes_format
    by (auto simp: Let_def encode_stamp_def PACK_SELECTION_PREFIX_def split: option.splits if_splits)
qed

lemma issue_cases:
  assumes inv: "authority_inv s" and fill: "\<And>n. pred_option (\<lambda>r. length r = 16) (fill n)"
  obtains (same) r where "issue fill family cache s = Some (r, cache, s)"
  | (fresh) selection where "issue fill family cache s = Some (Inr selection, Some selection,
        s\<lparr>au_live_stamps := insert (cs_stamp selection) (au_live_stamps s) - set_option (map_option cs_stamp cache)\<rparr>)"
      and "\<not> au_closed s" and "cs_stamp selection \<notin> au_live_stamps s" and "length (cs_stamp selection) = 38"
      and "cs_revision selection = document_revision (au_document s)"
      and "cs_pack_ids selection = configured_packs (au_document s) family"
proof (cases "au_closed s")
  case True
  then show ?thesis using same [of "Inl IssueUnavailable"] by (simp add: issue_def)
next
  case open_: False
  obtain i where i: "i < 5" "family_index family = Some i" "all_families ! i = family"
    using family_index_total by metis
  have packs: "au_projection s ! i = configured_packs (au_document s) family"
    using inv i by (auto simp: authority_inv_def)
  show ?thesis
  proof (cases "mint_stamp fill (au_live_stamps s)")
    case (Inl e)
    show ?thesis
      by (cases cache; cases "\<exists>c. cache = Some c \<and> cs_revision c = document_revision (au_document s) \<and> cs_pack_ids c = au_projection s ! i")
        (use same [of "Inl e"] same [of "Inr (the cache)"] open_ i Inl in \<open>auto simp: issue_def\<close>)
  next
    case (Inr stamp)
    then have st: "stamp \<notin> au_live_stamps s" "length stamp = 38"
      using mint_attempts_fresh [OF fill] by (auto simp: mint_stamp_def)
    let ?sel = "\<lparr>cs_stamp = stamp, cs_revision = document_revision (au_document s),
      cs_pack_ids = configured_packs (au_document s) family\<rparr>"
    show ?thesis
      by (cases cache; cases "\<exists>c. cache = Some c \<and> cs_revision c = document_revision (au_document s) \<and> cs_pack_ids c = au_projection s ! i")
        (use same [of "Inr (the cache)"] fresh [of ?sel] open_ i Inr st packs in \<open>auto simp: issue_def Let_def\<close>)
  qed
qed

text \<open>How an operation on one client changes the stamps.\<close>

lemma cached_stamp_simps [simp]:
  "cached_stamp None = None"
  "cached_stamp (Some c) = map_option cs_stamp (ac_cache c)"
  by (simp_all add: cached_stamp_def)

lemma stamps_invI:
  assumes "\<And>i j. \<lbrakk>i < length cs; j < length cs; cached_stamp (cs ! i) = cached_stamp (cs ! j); cached_stamp (cs ! i) \<noteq> None\<rbrakk> \<Longrightarrow> i = j"
    and "\<And>c. c \<in> set cs \<Longrightarrow> pred_option (\<lambda>stamp. length stamp = 38) (cached_stamp c)"
    and "au_live_stamps s = (if au_closed s then {} else {stamp. Some stamp \<in> cached_stamp ` set cs})"
  shows "stamps_inv s cs"
  using assms unfolding stamps_inv_def by blast

lemma stamps_inv_parts:
  assumes "stamps_inv s cs"
  shows "\<lbrakk>i < length cs; j < length cs; cached_stamp (cs ! i) = cached_stamp (cs ! j); cached_stamp (cs ! i) \<noteq> None\<rbrakk> \<Longrightarrow> i = j"
    and "c \<in> set cs \<Longrightarrow> pred_option (\<lambda>stamp. length stamp = 38) (cached_stamp c)"
    and "au_live_stamps s = (if au_closed s then {} else {stamp. Some stamp \<in> cached_stamp ` set cs})"
  using assms unfolding stamps_inv_def by blast+

lemma stamps_inv_keep:
  assumes "stamps_inv s cs" and "i < length cs" and "cached_stamp c = cached_stamp (cs ! i)"
    and "au_closed t = au_closed s" and "au_live_stamps t = au_live_stamps s"
  shows "stamps_inv t (cs[i := c])"
proof -
  have "map cached_stamp (cs[i := c]) = map cached_stamp cs"
    using assms(2,3) by (simp add: map_update list_update_same_conv)
  then have nth: "\<And>j. j < length cs \<Longrightarrow> cached_stamp (cs[i := c] ! j) = cached_stamp (cs ! j)"
    and set: "cached_stamp ` set (cs[i := c]) = cached_stamp ` set cs"
    by (metis length_list_update nth_map, metis list.set_map)
  show ?thesis
  proof (rule stamps_invI)
    show "j = k" if "j < length (cs[i := c])" "k < length (cs[i := c])"
      "cached_stamp (cs[i := c] ! j) = cached_stamp (cs[i := c] ! k)" "cached_stamp (cs[i := c] ! j) \<noteq> None" for j k
      using stamps_inv_parts(1) [OF assms(1), of j k] that nth by simp
    show "pred_option (\<lambda>stamp. length stamp = 38) (cached_stamp d)" if "d \<in> set (cs[i := c])" for d
    proof -
      from that set obtain e where "e \<in> set cs" "cached_stamp d = cached_stamp e" by blast
      then show ?thesis using stamps_inv_parts(2) [OF assms(1)] by metis
    qed
  qed (use stamps_inv_parts(3) [OF assms(1)] assms(4,5) set in simp)
qed

lemma stamps_inv_fresh:
  assumes inv: "stamps_inv s cs" and i: "i < length cs" and open_: "\<not> au_closed s" and c: "cached_stamp c = Some stamp"
    and fresh: "stamp \<notin> au_live_stamps s" and len: "length stamp = 38"
    and t: "au_closed t = au_closed s"
      "au_live_stamps t = insert stamp (au_live_stamps s) - set_option (cached_stamp (cs ! i))"
  shows "stamps_inv t (cs[i := c])"
proof -
  have live: "au_live_stamps s = {stamp. Some stamp \<in> cached_stamp ` set cs}" using inv open_ by (simp add: stamps_inv_def)
  have other: "cached_stamp (cs ! j) \<noteq> Some stamp" if "j < length cs" for j
    using fresh live nth_mem [OF that] by (metis (mono_tags, lifting) image_eqI mem_Collect_eq)
  note uniq = stamps_inv_parts(1) [OF inv]
  have nth: "cached_stamp (cs[i := c] ! j) = (if j = i then Some stamp else cached_stamp (cs ! j))" if "j < length cs" for j
    using that c by (simp add: nth_list_update)
  have "j = k" if "j < length cs" "k < length cs" "cached_stamp (cs[i := c] ! j) = cached_stamp (cs[i := c] ! k)"
    "cached_stamp (cs[i := c] ! j) \<noteq> None" for j k
    using that uniq [of j k] other by (auto simp: nth split: if_splits)
  moreover have "pred_option (\<lambda>stamp. length stamp = 38) (cached_stamp d)" if "d \<in> set (cs[i := c])" for d
    using that set_update_subset_insert [of cs i c] inv c len by (auto simp: stamps_inv_def)
  moreover have "au_live_stamps t = {x. Some x \<in> cached_stamp ` set (cs[i := c])}"
  proof (intro set_eqI iffI)
    fix x
    assume "x \<in> au_live_stamps t"
    then consider "x = stamp" | "x \<in> au_live_stamps s" "cached_stamp (cs ! i) \<noteq> Some x" using t(2) by auto
    then show "x \<in> {x. Some x \<in> cached_stamp ` set (cs[i := c])}"
    proof cases
      case 1
      then show ?thesis using i c by (auto simp: image_iff set_update_memI intro!: bexI [of _ c])
    next
      case 2
      then obtain j where j: "j < length cs" "cached_stamp (cs ! j) = Some x" using live by (auto simp: in_set_conv_nth)
      with 2 have "j \<noteq> i" by auto
      with j have "cs[i := c] ! j = cs ! j" "j < length (cs[i := c])" by simp_all
      with j(2) show ?thesis by (metis (mono_tags, lifting) image_eqI mem_Collect_eq nth_mem)
    qed
  next
    fix x
    assume "x \<in> {x. Some x \<in> cached_stamp ` set (cs[i := c])}"
    then obtain j where j: "j < length cs" "cached_stamp (cs[i := c] ! j) = Some x"
      by (auto simp: in_set_conv_nth)
    show "x \<in> au_live_stamps t"
    proof (cases "j = i")
      case True
      then have "x = stamp" using j(2) i c by simp
      then show ?thesis using other [OF i] t(2) by auto
    next
      case False
      with j nth have x: "cached_stamp (cs ! j) = Some x" by simp
      then have "x \<in> au_live_stamps s" using live j(1) by (auto simp: image_iff intro!: bexI [of _ "cs ! j"])
      moreover have "cached_stamp (cs ! i) \<noteq> Some x" using uniq [of i j] i j(1) x False by auto
      ultimately show ?thesis using t(2) by auto
    qed
  qed
  ultimately show ?thesis using open_ t(1) by (intro stamps_invI) simp_all
qed

lemma stamps_inv_drop:
  assumes inv: "stamps_inv s cs" and i: "i < length cs" and t: "au_closed t = au_closed s"
      "au_live_stamps t = au_live_stamps s - set_option (cached_stamp (cs ! i))"
  shows "stamps_inv t (cs[i := None])"
proof -
  note uniq = stamps_inv_parts(1) [OF inv]
  have nth: "cached_stamp (cs[i := None] ! j) = (if j = i then None else cached_stamp (cs ! j))" if "j < length cs" for j
    using that by (simp add: nth_list_update)
  have "j = k" if "j < length cs" "k < length cs" "cached_stamp (cs[i := None] ! j) = cached_stamp (cs[i := None] ! k)"
    "cached_stamp (cs[i := None] ! j) \<noteq> None" for j k
    using that uniq [of j k] by (auto simp: nth split: if_splits)
  moreover have "pred_option (\<lambda>stamp. length stamp = 38) (cached_stamp d)" if "d \<in> set (cs[i := None])" for d
    using that set_update_subset_insert [of cs i None] inv by (auto simp: stamps_inv_def)
  moreover have "{x. Some x \<in> cached_stamp ` set cs} - set_option (cached_stamp (cs ! i)) =
      {x. Some x \<in> cached_stamp ` set (cs[i := None])}"
  proof (intro set_eqI iffI)
    fix x
    assume "x \<in> {x. Some x \<in> cached_stamp ` set cs} - set_option (cached_stamp (cs ! i))"
    then obtain j where j: "j < length cs" "cached_stamp (cs ! j) = Some x" "cached_stamp (cs ! i) \<noteq> Some x"
      by (auto simp: in_set_conv_nth)
    then have "j \<noteq> i" by auto
    with j have "cs[i := None] ! j = cs ! j" "j < length (cs[i := None])" by simp_all
    with j(2) show "x \<in> {x. Some x \<in> cached_stamp ` set (cs[i := None])}"
      by (metis (mono_tags, lifting) image_eqI mem_Collect_eq nth_mem)
  next
    fix x
    assume "x \<in> {x. Some x \<in> cached_stamp ` set (cs[i := None])}"
    then obtain j where j: "j < length cs" "cached_stamp (cs[i := None] ! j) = Some x"
      by (auto simp: in_set_conv_nth)
    with nth have x: "j \<noteq> i" "cached_stamp (cs ! j) = Some x" by (auto split: if_splits)
    moreover have "cached_stamp (cs ! i) \<noteq> Some x" using uniq [of i j] i j(1) x by auto
    ultimately show "x \<in> {x. Some x \<in> cached_stamp ` set cs} - set_option (cached_stamp (cs ! i))"
      using j(1) by (auto simp: image_iff intro!: bexI [of _ "cs ! j"])
  qed
  moreover have "au_live_stamps s = (if au_closed s then {} else {x. Some x \<in> cached_stamp ` set cs})"
    by (rule stamps_inv_parts(3) [OF inv])
  ultimately show ?thesis using t by (intro stamps_invI) simp_all
qed

subsection \<open>Every operation keeps the invariant\<close>

lemma cached_new [simp]: "ac_cache (client_new family) = None"
  by (simp add: client_new_def)

lemma client_inv_cache [simp]: "client_inv loads (c\<lparr>ac_cache := x\<rparr>) = client_inv loads c"
  by (cases c) (simp add: client_inv_def cong: option.case_cong)

lemma client_inv_abandon: "client_inv loads c \<Longrightarrow> client_inv loads (c\<lparr>ac_pending := None\<rparr>)"
  by (simp add: client_inv_def)

lemma stamps_inv_append:
  assumes inv: "stamps_inv s cs"
  shows "stamps_inv s (cs @ [Some (client_new family)])"
proof (rule stamps_invI)
  show "i = j" if "i < length (cs @ [Some (client_new family)])" "j < length (cs @ [Some (client_new family)])"
    "cached_stamp ((cs @ [Some (client_new family)]) ! i) = cached_stamp ((cs @ [Some (client_new family)]) ! j)"
    "cached_stamp ((cs @ [Some (client_new family)]) ! i) \<noteq> None" for i j
    using stamps_inv_parts(1) [OF inv, of i j] that by (simp add: nth_append less_Suc_eq split: if_splits)
  show "pred_option (\<lambda>stamp. length stamp = 38) (cached_stamp c)" if "c \<in> set (cs @ [Some (client_new family)])" for c
    using that stamps_inv_parts(2) [OF inv, of c] by (cases "c \<in> set cs") auto
  show "au_live_stamps s = (if au_closed s then {} else {stamp. Some stamp \<in> cached_stamp ` set (cs @ [Some (client_new family)])})"
    unfolding stamps_inv_parts(3) [OF inv] by auto
qed

lemma selection_inv_put:
  assumes "selection_inv loads (Some w)" and "authority_inv s" and "stamps_inv s ((sw_clients w)[i := c])"
    and "\<And>d. c = Some d \<Longrightarrow> client_inv loads d"
  shows "selection_inv loads (Some (put_client i c (w\<lparr>sw_authority := s\<rparr>)))"
  using assms set_update_subset_insert [of "sw_clients w" i c] by (auto simp: put_client_def)

lemma put_client_same_authority: "put_client i c w = put_client i c (w\<lparr>sw_authority := sw_authority w\<rparr>)"
  by simp

lemma activation_is_current_eq:
  assumes "authority_inv s"
  shows "activation_is_current family cache s target = Some (cache = Some target \<and>
    cs_revision target = document_revision (au_document s) \<and> cs_pack_ids target = configured_packs (au_document s) family)"
proof -
  obtain i where "i < 5" "family_index family = Some i" "all_families ! i = family" using family_index_total by metis
  with assms show ?thesis by (auto simp: activation_is_current_def authority_inv_def)
qed

lemma activate_prepare_total:
  assumes "authority_inv s" and "client_inv loads c" and "\<And>k p. prepare k = Inr p \<Longrightarrow> loads k p" and "ac_pending c = None"
  obtains e where "activate_prepare prepare stamp c s = Some (Inl e)"
  | pending where "activate_prepare prepare stamp c s = Some (Inr pending)" and "client_inv loads (c\<lparr>ac_pending := Some pending\<rparr>)"
proof -
  have loaded: "list_all2 loads ids ps" if "try_collect prepare ids = Inr ps" for ids ps
    using that assms(3) by (auto simp: try_collect_iff elim: list_all2_mono)
  have "begin_activation (ac_family c) (ac_cache c) stamp s \<noteq> None"
    by (simp add: begin_activation_def activation_is_current_eq [OF assms(1)] split: option.split)
  then obtain r where r: "begin_activation (ac_family c) (ac_cache c) stamp s = Some r" by blast
  show ?thesis
  proof (cases r)
    case (Inl e)
    then show ?thesis using r that(1) by (simp add: activate_prepare_def)
  next
    case (Inr target)
    show ?thesis
    proof (cases "map_option as_target (ac_active c) = Some target")
      case True
      with r Inr have "activate_prepare prepare stamp c s = Some (Inr (target, None))"
        by (auto simp: activate_prepare_def)
      then show ?thesis by (rule that(2)) (use True assms(2) in \<open>auto simp: client_inv_def\<close>)
    next
      case False
      with r Inr have p: "activate_prepare prepare stamp c s =
          Some (and_then (try_collect prepare (cs_pack_ids target)) (\<lambda>packs. Inr (target, Some packs)))"
        by (cases "ac_active c") (auto simp: activate_prepare_def)
      show ?thesis
      proof (cases "try_collect prepare (cs_pack_ids target)")
        case (Inl e)
        then show ?thesis using p that(1) by simp
      next
        case (Inr packs)
        with p have "activate_prepare prepare stamp c s = Some (Inr (target, Some packs))" by simp
        then show ?thesis by (rule that(2)) (use loaded [OF Inr] assms(2) in \<open>simp add: client_inv_def\<close>)
      qed
    qed
  qed
qed

text \<open>The commit: either nothing changes, or everything is current and the target becomes the active one.\<close>

lemma activate_commit_cases:
  assumes "authority_inv s" and "client_inv loads c" and "ac_pending c = Some (target, replacement)"
  obtains (refused) e where "activate_commit f target replacement c s = Some (Inl e, c)"
  | (committed) a where "activate_commit f target replacement c s = Some (Inr (cs_stamp target), c\<lparr>ac_active := Some a\<rparr>)"
    and "as_target a = target" and "list_all2 loads (cs_pack_ids target) (as_packs a)" and "\<not> au_closed s"
    and "is_ok (begin_commit f)" and "ac_cache c = Some target"
    and "cs_revision target = document_revision (au_document s)"
    and "cs_pack_ids target = configured_packs (au_document s) (ac_family c)"
proof (cases "begin_commit f")
  case (Inl e)
  then show ?thesis using refused by (simp add: activate_commit_def)
next
  case (Inr g)
  have "commit_activation (ac_family c) (ac_cache c) s target \<noteq> None"
    by (simp add: commit_activation_def lock_current_activation_def activation_is_current_eq [OF assms(1)])
  then obtain r where r: "commit_activation (ac_family c) (ac_cache c) s target = Some r" by blast
  show ?thesis
  proof (cases r)
    case (Inl e)
    then show ?thesis using refused r Inr by (simp add: activate_commit_def)
  next
    case (Inr u)
    from r Inr have cur: "\<not> au_closed s" "ac_cache c = Some target" "cs_revision target = document_revision (au_document s)"
      "cs_pack_ids target = configured_packs (au_document s) (ac_family c)"
      by (auto simp: commit_activation_def lock_current_activation_def activation_is_current_eq [OF assms(1)] split: if_splits)
    show ?thesis
    proof (cases replacement)
      case None
      with assms(2,3) obtain a where a: "ac_active c = Some a" "as_target a = target"
        "list_all2 loads (cs_pack_ids target) (as_packs a)"
        by (auto simp: client_inv_def)
      have "c\<lparr>ac_active := Some a\<rparr> = c" using a(1) by simp
      then show ?thesis
        using committed [of a] a cur r Inr None \<open>begin_commit f = Inr g\<close> by (simp add: activate_commit_def)
    next
      case (Some packs)
      with assms(2,3) have "list_all2 loads (cs_pack_ids target) packs" by (simp add: client_inv_def)
      then show ?thesis
        using committed [of "\<lparr>as_target = target, as_packs = packs\<rparr>"] cur r Inr Some \<open>begin_commit f = Inr g\<close>
        by (simp add: activate_commit_def)
    qed
  qed
qed

lemma idle_clientE:
  assumes "idle_client i w"
  obtains c where "i < length (sw_clients w)" and "sw_clients w ! i = Some c" and "ac_pending c = None"
  using assms by (auto simp: idle_client_def split: option.splits)

lemma pending_clientE:
  assumes "pending_client i w"
  obtains c t r where "i < length (sw_clients w)" and "sw_clients w ! i = Some c" and "ac_pending c = Some (t, r)"
  using assms by (auto simp: pending_client_def split: option.splits)

lemma selection_apply_inv:
  assumes en: "selection_enabled loads op w" and inv: "selection_inv loads (Some w)"
  shows "selection_inv loads (selection_apply op w)"
proof -
  have a: "authority_inv (sw_authority w)" and st: "stamps_inv (sw_authority w) (sw_clients w)"
    and cl: "\<And>c. Some c \<in> set (sw_clients w) \<Longrightarrow> client_inv loads c" using inv by auto
  show ?thesis
  proof (cases op)
    case (OpPublish d)
    obtain r t where t: "publish d (sw_authority w) = Some (r, t)" "authority_inv t" "au_closed t = au_closed (sw_authority w)"
      "au_live_stamps t = au_live_stamps (sw_authority w)"
      by (rule publish_total [OF a, of d]) (use en OpPublish in auto)
    have "stamps_inv t (sw_clients w)"
      by (rule stamps_invI) (use stamps_inv_parts [OF st] t(3,4) in \<open>blast, blast, simp\<close>)
    with t cl show ?thesis by (simp add: OpPublish)
  next
    case (OpClient family)
    have "client_inv loads (client_new family)" by (simp add: client_inv_def client_new_def)
    then show ?thesis using a st cl by (auto simp: OpClient stamps_inv_append)
  next
    case (OpIssue i fill)
    from en OpIssue have idle: "idle_client i w" and fill: "\<And>n. pred_option (\<lambda>r. length r = 16) (fill n)" by auto
    obtain c where c: "i < length (sw_clients w)" "sw_clients w ! i = Some c" by (rule idle_clientE [OF idle])
    have inv_c: "client_inv loads (c\<lparr>ac_cache := x\<rparr>)" for x
      using cl nth_mem [OF c(1)] c(2) by simp
    show ?thesis
    proof (rule issue_cases [where s = "sw_authority w" and fill = fill and family = "ac_family c" and cache = "ac_cache c"])
      show "authority_inv (sw_authority w)" by (rule a)
      show "pred_option (\<lambda>r. length r = 16) (fill n)" for n by (rule fill)
    next
      fix r
      assume same: "issue fill (ac_family c) (ac_cache c) (sw_authority w) = Some (r, ac_cache c, sw_authority w)"
      have "stamps_inv (sw_authority w) ((sw_clients w)[i := Some (c\<lparr>ac_cache := ac_cache c\<rparr>)])"
        by (rule stamps_inv_keep [OF st c(1)]) (simp_all add: c(2))
      then show ?thesis
        using selection_inv_put [OF inv a, of i "Some (c\<lparr>ac_cache := ac_cache c\<rparr>)"] inv_c same c by (auto simp: OpIssue)
    next
      fix selection
      assume fresh: "issue fill (ac_family c) (ac_cache c) (sw_authority w) = Some (Inr selection, Some selection,
          (sw_authority w)\<lparr>au_live_stamps := insert (cs_stamp selection) (au_live_stamps (sw_authority w)) -
            set_option (map_option cs_stamp (ac_cache c))\<rparr>)"
        "\<not> au_closed (sw_authority w)" "cs_stamp selection \<notin> au_live_stamps (sw_authority w)" "length (cs_stamp selection) = 38"
      let ?t = "(sw_authority w)\<lparr>au_live_stamps := insert (cs_stamp selection) (au_live_stamps (sw_authority w)) -
          set_option (map_option cs_stamp (ac_cache c))\<rparr>"
      have "stamps_inv ?t ((sw_clients w)[i := Some (c\<lparr>ac_cache := Some selection\<rparr>)])"
        by (rule stamps_inv_fresh [OF st c(1) fresh(2) _ fresh(3,4)]) (simp_all add: c(2))
      moreover have "authority_inv ?t" using a by (simp add: authority_inv_def)
      ultimately show ?thesis
        using selection_inv_put [OF inv, of ?t i "Some (c\<lparr>ac_cache := Some selection\<rparr>)"] inv_c fresh(1) c by (auto simp: OpIssue)
    qed
  next
    case (OpDrop i)
    obtain c where c: "i < length (sw_clients w)" "sw_clients w ! i = Some c"
      by (rule idle_clientE [of i w]) (use en OpDrop in auto)
    let ?t = "release_selection (ac_cache c) (sw_authority w)"
    have t: "au_closed ?t = au_closed (sw_authority w)" "authority_inv ?t"
      "au_live_stamps ?t = au_live_stamps (sw_authority w) - set_option (cached_stamp (sw_clients w ! i))"
      using a by (auto simp: release_selection_def authority_inv_def c(2) split: option.split)
    have "stamps_inv ?t ((sw_clients w)[i := None])" by (rule stamps_inv_drop [OF st c(1) t(1,3)])
    then show ?thesis using selection_inv_put [OF inv t(2), of i None] c(2) by (simp add: OpDrop)
  next
    case OpClose
    have "stamps_inv (authority_close (sw_authority w)) (sw_clients w)"
      by (rule stamps_invI) (use stamps_inv_parts(1,2) [OF st] in \<open>auto simp: authority_close_def\<close>)
    then show ?thesis using a cl by (simp add: OpClose authority_inv_def authority_close_def)
  next
    case (OpPrepare i stamp prepare)
    obtain c where c: "i < length (sw_clients w)" "sw_clients w ! i = Some c" "ac_pending c = None"
      by (rule idle_clientE [of i w]) (use en OpPrepare in auto)
    have inv_c: "client_inv loads c" using cl nth_mem [OF c(1)] c(2) by simp
    show ?thesis
    proof (rule activate_prepare_total [OF a inv_c _ c(3), of prepare stamp])
      show "loads k p" if "prepare k = Inr p" for k p using en OpPrepare that by simp
    next
      fix e
      assume "activate_prepare prepare stamp c (sw_authority w) = Some (Inl e)"
      then show ?thesis using inv c by (simp add: OpPrepare)
    next
      fix pending
      assume p: "activate_prepare prepare stamp c (sw_authority w) = Some (Inr pending)"
        "client_inv loads (c\<lparr>ac_pending := Some pending\<rparr>)"
      have "stamps_inv (sw_authority w) ((sw_clients w)[i := Some (c\<lparr>ac_pending := Some pending\<rparr>)])"
        by (rule stamps_inv_keep [OF st c(1)]) (simp_all add: c(2))
      with p show ?thesis
        using selection_inv_put [OF inv a, of i "Some (c\<lparr>ac_pending := Some pending\<rparr>)"] c(2) by (simp add: OpPrepare)
    qed
  next
    case (OpCommit i f)
    obtain c t r where c: "i < length (sw_clients w)" "sw_clients w ! i = Some c" "ac_pending c = Some (t, r)"
      by (rule pending_clientE [of i w]) (use en OpCommit in auto)
    have inv_c: "client_inv loads c" using cl nth_mem [OF c(1)] c(2) by simp
    have put: "selection_inv loads (Some (put_client i (Some d) w))"
      if "ac_cache d = ac_cache c" "client_inv loads d" for d
    proof -
      have "stamps_inv (sw_authority w) ((sw_clients w)[i := Some d])"
        by (rule stamps_inv_keep [OF st c(1)]) (simp_all add: c(2) that(1))
      then show ?thesis using selection_inv_put [OF inv a, of i "Some d"] that(2) by simp
    qed
    show ?thesis
      using a inv_c c(3)
    proof (cases rule: activate_commit_cases [where f = f])
      case (refused e)
      then show ?thesis using put [of "c\<lparr>ac_pending := None\<rparr>"] client_inv_abandon [OF inv_c] c by (simp add: OpCommit)
    next
      case (committed x)
      have "client_inv loads (c\<lparr>ac_active := Some x, ac_pending := None\<rparr>)" using committed(2,3) by (simp add: client_inv_def)
      then show ?thesis using put [of "c\<lparr>ac_active := Some x, ac_pending := None\<rparr>"] committed(1) c by (simp add: OpCommit)
    qed
  next
    case (OpAbandon i)
    obtain c t r where c: "i < length (sw_clients w)" "sw_clients w ! i = Some c" "ac_pending c = Some (t, r)"
      by (rule pending_clientE [of i w]) (use en OpAbandon in auto)
    have "client_inv loads (c\<lparr>ac_pending := None\<rparr>)" using cl nth_mem [OF c(1)] c(2) by (simp add: client_inv_abandon)
    moreover have "stamps_inv (sw_authority w) ((sw_clients w)[i := Some (c\<lparr>ac_pending := None\<rparr>)])"
      by (rule stamps_inv_keep [OF st c(1)]) (simp_all add: c(2))
    ultimately show ?thesis
      using selection_inv_put [OF inv a, of i "Some (c\<lparr>ac_pending := None\<rparr>)"] c(2) by (simp add: OpAbandon)
  qed
qed

lemma selection_inv_start: "selection_start x \<Longrightarrow> selection_inv loads x"
  by (auto simp: selection_start_def authority_inv_def authority_new_def empty_projection_def all_families_def
      configured_packs_def stamps_inv_def numeral_eq_Suc less_Suc_eq)

interpretation selections: invariant_system selection_start "selection_step loads" "selection_inv loads" for loads
  by unfold_locales (auto simp: selection_inv_start elim!: selection_stepE intro: selection_apply_inv)

lemma selection_keeps_document:
  assumes "selection_apply op w = Some v" and "\<nexists>d. op = OpPublish d"
  shows "au_document (sw_authority v) = au_document (sw_authority w)"
proof -
  have "au_document s = au_document t" if "issue fill family cache t = Some (r, cache', s)" for fill family cache t r cache' s
    using that by (auto simp: issue_def Let_def bind_eq_Some_conv split: if_splits option.splits sum.splits)
  then show ?thesis
    using assms
    by (cases op) (auto simp: put_client_def authority_close_def release_selection_def split: option.splits sum.splits prod.splits)
qed

text \<open>C36. Selection stamps are exclusive and publications are ordered. In every process that only uses the
  authority's operations no operation panics; while the authority is open its live stamps are exactly the
  stamps that some client caches, each by one client only, and after closing there are none; the published
  projection of every family is that of the published document; and no operation lowers the published
  revision, changes the document at an equal revision, or publishes on a closed authority.\<close>

theorem selection_stamps_exclusive:
  assumes "reach selection_start (selection_step loads) x"
  shows "\<exists>w. x = Some w \<and>
    (let s = sw_authority w; cs = sw_clients w in
     au_live_stamps s = (if au_closed s then {} else {stamp. \<exists>c\<in>set cs. cached_stamp c = Some stamp}) \<and>
     (\<forall>i<length cs. \<forall>j<length cs. i \<noteq> j \<longrightarrow> cached_stamp (cs ! i) = None \<or> cached_stamp (cs ! i) \<noteq> cached_stamp (cs ! j)) \<and>
     (\<forall>family. \<exists>i. family_index family = Some i \<and> au_projection s ! i = configured_packs (au_document s) family) \<and>
     (\<forall>op. selection_enabled loads op w \<longrightarrow>
        (\<exists>v. selection_apply op w = Some v \<and>
          document_revision (au_document s) \<le> document_revision (au_document (sw_authority v)) \<and>
          (document_revision (au_document s) = document_revision (au_document (sw_authority v)) \<or> au_closed s \<longrightarrow>
             au_document (sw_authority v) = au_document s))))"
proof -
  have inv: "selection_inv loads x" by (rule selections.reach_inv [OF assms])
  then obtain w where w: "x = Some w" by (cases x) auto
  have a: "authority_inv (sw_authority w)" and st: "stamps_inv (sw_authority w) (sw_clients w)" using inv w by auto
  have step: "\<exists>v. selection_apply op w = Some v \<and>
      document_revision (au_document (sw_authority w)) \<le> document_revision (au_document (sw_authority v)) \<and>
      (document_revision (au_document (sw_authority w)) = document_revision (au_document (sw_authority v)) \<or>
       au_closed (sw_authority w) \<longrightarrow> au_document (sw_authority v) = au_document (sw_authority w))"
    if en: "selection_enabled loads op w" for op
  proof -
    from selection_apply_inv [OF en] inv w obtain v where v: "selection_apply op w = Some v"
      by (cases "selection_apply op w") auto
    show ?thesis
    proof (cases "\<exists>d. op = OpPublish d")
      case True
      then obtain d where d: "op = OpPublish d" by blast
      obtain r t where t: "publish d (sw_authority w) = Some (r, t)"
        "document_revision (au_document (sw_authority w)) \<le> document_revision (au_document t)"
        "document_revision (au_document (sw_authority w)) = document_revision (au_document t) \<Longrightarrow> au_document t = au_document (sw_authority w)"
        "au_closed (sw_authority w) \<Longrightarrow> t = sw_authority w"
        by (rule publish_total [OF a, of d]) (use en d in auto)
      with v d show ?thesis by auto
    next
      case False
      with v have "au_document (sw_authority v) = au_document (sw_authority w)" by (rule selection_keeps_document)
      with v show ?thesis by simp
    qed
  qed
  have projection: "\<exists>i. family_index family = Some i \<and> au_projection (sw_authority w) ! i = configured_packs (au_document (sw_authority w)) family"
    for family
    using family_index_total [of family] a by (auto simp: authority_inv_def)
  have live: "au_live_stamps (sw_authority w) =
      (if au_closed (sw_authority w) then {} else {stamp. \<exists>c\<in>set (sw_clients w). cached_stamp c = Some stamp})"
    unfolding stamps_inv_parts(3) [OF st] by (force simp: image_iff)
  have unique: "i \<noteq> j \<longrightarrow> cached_stamp (sw_clients w ! i) = None \<or> cached_stamp (sw_clients w ! i) \<noteq> cached_stamp (sw_clients w ! j)"
    if "i < length (sw_clients w)" "j < length (sw_clients w)" for i j
    using stamps_inv_parts(1) [OF st, of i j] that by blast
  show ?thesis using w live unique projection step by (intro exI [of _ w]) (simp only: Let_def, blast)
qed

text \<open>C35. Activations commit current selections only. Whatever happens between the preparation of an
  activation and its commit, a commit that succeeds finds the authority open, the generation current, the
  client's cached selection equal to the target, and the target's revision and Packs equal to the published
  configuration of the family; the target becomes the active set, its stamp is returned, and its packs are
  instances of exactly the configured Packs in their order. Otherwise the client is unchanged. The active
  packs of every client are always instances of the Packs of their target.\<close>

theorem activation_commits_current:
  assumes "reach selection_start (selection_step loads) (Some w)" and "Some c \<in> set (sw_clients w)"
  shows "pred_option (\<lambda>a. list_all2 loads (cs_pack_ids (as_target a)) (as_packs a)) (ac_active c) \<and>
    (\<forall>target replacement f r d.
       ac_pending c = Some (target, replacement) \<and>
       activate_commit f target replacement c (sw_authority w) = Some (r, d) \<longrightarrow>
       (\<exists>e. r = Inl e \<and> d = c) \<or>
       (\<exists>a. r = Inr (cs_stamp target) \<and> ac_active d = Some a \<and> as_target a = target \<and>
            list_all2 loads (configured_packs (au_document (sw_authority w)) (ac_family c)) (as_packs a) \<and>
            \<not> au_closed (sw_authority w) \<and> \<not> publication_closed f \<and> generation_phase (gf_state f) = GENERATION_CURRENT \<and>
            ac_cache c = Some target \<and> cs_revision target = document_revision (au_document (sw_authority w)) \<and>
            cs_pack_ids target = configured_packs (au_document (sw_authority w)) (ac_family c)))"
proof -
  have "selection_inv loads (Some w)" by (rule selections.reach_inv [OF assms(1)])
  then have a: "authority_inv (sw_authority w)" and c: "client_inv loads c" using assms(2) by auto
  have "(\<exists>e. r = Inl e \<and> d = c) \<or>
       (\<exists>a. r = Inr (cs_stamp target) \<and> ac_active d = Some a \<and> as_target a = target \<and>
            list_all2 loads (configured_packs (au_document (sw_authority w)) (ac_family c)) (as_packs a) \<and>
            \<not> au_closed (sw_authority w) \<and> \<not> publication_closed f \<and> generation_phase (gf_state f) = GENERATION_CURRENT \<and>
            ac_cache c = Some target \<and> cs_revision target = document_revision (au_document (sw_authority w)) \<and>
            cs_pack_ids target = configured_packs (au_document (sw_authority w)) (ac_family c))"
    if p: "ac_pending c = Some (target, replacement)"
      and d: "activate_commit f target replacement c (sw_authority w) = Some (r, d)" for target replacement f r d
    using a c p
  proof (cases rule: activate_commit_cases [where f = f])
    case (refused e)
    with d have "r = Inl e" "d = c" by simp_all
    then show ?thesis by blast
  next
    case (committed x)
    then have f: "\<not> publication_closed f" "generation_phase (gf_state f) = GENERATION_CURRENT"
      by (auto simp: begin_commit_def split: if_splits)
    have "r = Inr (cs_stamp target)" "ac_active d = Some x" using d committed(1) by auto
    with committed f show ?thesis by auto
  qed
  with c show ?thesis by (auto simp: client_inv_def)
qed

subsection \<open>A run\<close>

fun selection_run :: "'p selection_op list \<Rightarrow> 'p selection_world \<Rightarrow> 'p selection_world option" where
  "selection_run [] w = Some w"
| "selection_run (op # ops) w = Option.bind (selection_apply op w) (selection_run ops)"

fun enabled_run :: "(string \<Rightarrow> 'p \<Rightarrow> bool) \<Rightarrow> 'p selection_op list \<Rightarrow> 'p selection_world \<Rightarrow> bool" where
  "enabled_run loads [] w \<longleftrightarrow> True"
| "enabled_run loads (op # ops) w \<longleftrightarrow>
     selection_enabled loads op w \<and> pred_option (enabled_run loads ops) (selection_apply op w)"

lemma selection_run_reach:
  assumes "reach selection_start (selection_step loads) (Some w)" and "enabled_run loads ops w"
    and "selection_run ops w = Some v"
  shows "reach selection_start (selection_step loads) (Some v)"
  using assms
proof (induction ops arbitrary: w)
  case Nil
  then show ?case by simp
next
  case (Cons op ops)
  from Cons.prems(3) obtain u where u: "selection_apply op w = Some u" "selection_run ops u = Some v"
    by (auto simp: bind_eq_Some_conv)
  with Cons.prems(2) have e: "selection_enabled loads op w" "enabled_run loads ops u" by auto
  have "reach selection_start (selection_step loads) (Some u)"
    using reach_step [OF Cons.prems(1) selection_stepI [OF e(1)]] u(1) by simp
  then show ?case using e(2) u(2) by (rule Cons.IH)
qed

definition sample_composition :: root_composition where
  "sample_composition = root_composition_empty\<lparr>rc_providers := [''openai'']\<rparr>"

definition sample_random :: string where "sample_random = replicate 16 CHR 0x00"

definition selection_ops :: "string selection_op list" where
  "selection_ops =
     [OpPublish (Some \<lparr>rd_revision = 1, rd_composition = sample_composition\<rparr>), OpClient Providers,
      OpIssue 0 (\<lambda>_. Some sample_random), OpPrepare 0 (encode_stamp sample_random) Inr]"

definition prepared_world :: "string selection_world" where
  "prepared_world =
     (let selection = \<lparr>cs_stamp = encode_stamp sample_random, cs_revision = 1, cs_pack_ids = [''openai'']\<rparr> in
      \<lparr>sw_authority = \<lparr>au_closed = False, au_document = Some \<lparr>rd_revision = 1, rd_composition = sample_composition\<rparr>,
         au_projection = [[''openai''], [], [], [], []], au_live_stamps = {encode_stamp sample_random}\<rparr>,
       sw_clients = [Some \<lparr>ac_family = Providers, ac_cache = Some selection, ac_active = None,
                           ac_pending = Some (selection, Some [''openai''])\<rparr>]\<rparr>)"

lemma sample_composition_ok: "composition_ok sample_composition"
  by (simp add: sample_composition_def composition_ok_def root_composition_empty_def selection_ok_def themes_ok_def
      id_ok_def sample_document_ids)

lemma prepared_world_reach: "reach selection_start (selection_step (=)) (Some prepared_world)"
proof (rule selection_run_reach [where ops = selection_ops])
  show "reach selection_start (selection_step (=)) (Some \<lparr>sw_authority = authority_new, sw_clients = [] :: string activation_client option list\<rparr>)"
    by (rule reach_init) (simp add: selection_start_def)
  note eval = selection_ops_def authority_new_def publish_def document_revision_def project_def project_family_def
    all_families_def sample_composition_def root_composition_empty_def singleton_of_def singleton_index_eq
    client_new_def idle_client_def issue_def family_index_def mint_stamp_def PACK_SELECTION_MINT_ATTEMPTS_def
    put_client_def activate_prepare_def begin_activation_def activation_is_current_def try_collect_def Let_def
    numeral_eq_Suc
  show "selection_run selection_ops \<lparr>sw_authority = authority_new, sw_clients = []\<rparr> = Some prepared_world"
    by (simp add: eval prepared_world_def)
  show "enabled_run (=) selection_ops \<lparr>sw_authority = authority_new, sw_clients = []\<rparr>"
    using sample_composition_ok
    by (simp add: eval document_ok_def sample_random_def)
qed

definition ready_fence :: fence where
  "ready_fence = (fence_new 2 Providers 1)\<lparr>gf_state := GENERATION_CURRENT\<rparr>"

theorem selection_stamps_exclusive_witness:
  "\<exists>w. Some prepared_world = Some w \<and> au_live_stamps (sw_authority w) = {encode_stamp sample_random} \<and>
     (\<exists>i. family_index Providers = Some i \<and> au_projection (sw_authority w) ! i = [''openai''])"
  using selection_stamps_exclusive [OF prepared_world_reach]
  by (auto simp: Let_def prepared_world_def family_index_def all_families_def)

theorem activation_commits_current_witness:
  "\<exists>c target d. Some c \<in> set (sw_clients prepared_world) \<and>
     activate_commit ready_fence target (Some [''openai'']) c (sw_authority prepared_world) = Some (Inr (encode_stamp sample_random), d) \<and>
     map_option as_packs (ac_active d) = Some [''openai'']"
proof -
  let ?t = "\<lparr>cs_stamp = encode_stamp sample_random, cs_revision = 1, cs_pack_ids = [''openai'']\<rparr>"
  let ?c = "\<lparr>ac_family = Providers, ac_cache = Some ?t, ac_active = None, ac_pending = Some (?t, Some [''openai''])\<rparr>"
  have c: "Some ?c \<in> set (sw_clients prepared_world)" by (simp add: prepared_world_def Let_def)
  obtain d where d: "activate_commit ready_fence ?t (Some [''openai'']) ?c (sw_authority prepared_world) =
      Some (Inr (encode_stamp sample_random), d)"
    by (simp add: activate_commit_def begin_commit_def ready_fence_def fence_new_def publication_closed_def fence_consts
        generation_phase_def commit_activation_def lock_current_activation_def activation_is_current_def
        family_index_def all_families_def prepared_world_def document_revision_def Let_def)
  from activation_commits_current [OF prepared_world_reach c] d
  have "\<exists>a. ac_active d = Some a \<and>
      list_all2 (=) (configured_packs (au_document (sw_authority prepared_world)) Providers) (as_packs a)"
    by fastforce
  moreover have "configured_packs (au_document (sw_authority prepared_world)) Providers = [''openai'']"
    by (simp add: prepared_world_def configured_packs_def project_family_def sample_composition_def Let_def)
  ultimately have packs: "map_option as_packs (ac_active d) = Some [''openai'']" by (auto simp: list.rel_eq)
  show ?thesis by (intro exI conjI) (rule c, rule d, rule packs)
qed

end
