(* ===== verification/Adapter_Json.thy ===== *)
theory Adapter_Json
  imports Wire_Json
begin

section \<open>Expected request bodies and their comparison with the prepared document\<close>

text \<open>
  \<open>mcode-plugin-host/src/provider_validation/adapter/json.rs\<close>: the JSON value a contract derives from a
  request, the comparison of the guest's prepared document with it, the charge, the length and the
  bytes of the body. \<open>usize::try_from\<close> of a \<open>u32\<close> does not fail on the supported targets; the depth
  and the parent counters are \<open>u8\<close>.
\<close>

datatype adapter_error =
    InvalidContract | SourceMismatch | BodyMismatch | HeaderMismatch | CapabilityMismatch | AdapterLimit

datatype adapter_json =
    AjNull
  | AjBoolean bool
  | AjNumber string
  | AjString (aj_value: string) (aj_derived: bool)
  | AjArray "adapter_json list"
  | AjObject "(string \<times> adapter_json) list"

datatype typed_constant = ConstNull | ConstBoolean bool | ConstNumber string | ConstString string

definition ordinary_string :: "string \<Rightarrow> adapter_json" where
  "ordinary_string value = AjString value False"

definition derived_string :: "string \<Rightarrow> adapter_json" where
  "derived_string value = AjString value True"

definition from_constant :: "typed_constant \<Rightarrow> adapter_json" where
  "from_constant c = (case c of
       ConstNull \<Rightarrow> AjNull
     | ConstBoolean value \<Rightarrow> AjBoolean value
     | ConstNumber value \<Rightarrow> AjNumber value
     | ConstString value \<Rightarrow> ordinary_string value)"

definition map_source_error :: "validation_error \<Rightarrow> adapter_error" where
  "map_source_error e = (case e of InvalidArgument \<Rightarrow> SourceMismatch | Limit \<Rightarrow> AdapterLimit)"

definition map_body_error :: "validation_error \<Rightarrow> adapter_error" where
  "map_body_error e = (case e of InvalidArgument \<Rightarrow> BodyMismatch | Limit \<Rightarrow> AdapterLimit)"

definition map_limit_error :: "validation_error \<Rightarrow> adapter_error" where
  "map_limit_error e = AdapterLimit"

text \<open>\<open>Result::map_err\<close>.\<close>

definition map_err :: "('e \<Rightarrow> 'f) \<Rightarrow> 'e + 'a \<Rightarrow> 'f + 'a" where
  "map_err f r = (case r of Inl e \<Rightarrow> Inl (f e) | Inr x \<Rightarrow> Inr x)"

lemma map_err_simps [simp]:
  "map_err f (Inl e) = Inl (f e)" "map_err f (Inr x) = Inr x"
  "map_err f r = Inr x \<longleftrightarrow> r = Inr x"
  by (simp_all add: map_err_def split: sum.split)

subsection \<open>Reading a source document\<close>

text \<open>The recursion indexes the nodes directly: \<open>None\<close> is the panic of an index out of range, or a
  spent fuel. The number of nodes is enough for a validated document.\<close>

fun from_wire_node :: "nat \<Rightarrow> wire_json_node list \<Rightarrow> nat \<Rightarrow> (adapter_error + adapter_json) option" where
  "from_wire_node 0 nodes index = None"
| "from_wire_node (Suc fuel) nodes index =
     (case nth_opt nodes index of
        None \<Rightarrow> None
      | Some node \<Rightarrow> (case node of
          NullValue \<Rightarrow> Some (Inr AjNull)
        | BooleanValue value \<Rightarrow> Some (Inr (AjBoolean value))
        | NumberValue value \<Rightarrow> Some (Inr (AjNumber value))
        | StringValue value \<Rightarrow> Some (Inr (ordinary_string value))
        | ArrayValue items \<Rightarrow>
            fuel_then (fuel_fold (\<lambda>acc child.
                fuel_then (from_wire_node fuel nodes child) (\<lambda>v. Some (Inr (acc @ [v]))))
              [] items) (\<lambda>vs. Some (Inr (AjArray vs)))
        | ObjectValue flds \<Rightarrow>
            fuel_then (fuel_fold (\<lambda>acc field.
                fuel_then (from_wire_node fuel nodes (wf_value field)) (\<lambda>v. Some (Inr (acc @ [(wf_key field, v)]))))
              [] flds) (\<lambda>vs. Some (Inr (AjObject vs)))))"

definition from_wire :: "nat \<Rightarrow> wire_json_document \<Rightarrow> (adapter_error + adapter_json) option" where
  "from_wire fuel document =
     fuel_then (Some (map_err map_source_error (validate_wire_json document True))) (\<lambda>_.
       from_wire_node fuel (wd_nodes document) (wd_root document))"

text \<open>The bytes are UTF-8 by construction, so \<open>String::from_utf8\<close> succeeds.\<close>

definition canonical_wire_text :: "nat \<Rightarrow> wire_json_document \<Rightarrow> (adapter_error + string) option" where
  "canonical_wire_text fuel document =
     map_option (map_err map_source_error) (canonical_serialize_for_json_string fuel document)"

subsection \<open>Comparison\<close>

definition body_add_parent :: "nat \<Rightarrow> nat \<Rightarrow> nat list \<Rightarrow> adapter_error + nat list" where
  "body_add_parent parent child parents =
     (if child \<ge> parent \<or> child \<ge> length parents then Inl BodyMismatch
      else and_then (ok_or (checked_add 8 (parents ! child) 1) AdapterLimit) (\<lambda>n.
        let parents = parents[child := n] in
        if parents ! child \<noteq> 1 then Inl BodyMismatch else Inr parents))"

text \<open>\<open>compare_node\<close> returns the depth with the updated parent counters; the two loops over the items
  and the fields carry the largest depth, the counters and the previous key.\<close>

function (sequential) compare_node ::
  "adapter_json \<Rightarrow> wire_json_node list \<Rightarrow> nat \<Rightarrow> nat list \<Rightarrow> adapter_error + nat \<times> nat list"
and compare_items ::
  "adapter_json list \<Rightarrow> nat list \<Rightarrow> wire_json_node list \<Rightarrow> nat \<Rightarrow> nat \<Rightarrow> nat list \<Rightarrow>
   adapter_error + nat \<times> nat list"
and compare_fields ::
  "(string \<times> adapter_json) list \<Rightarrow> wire_json_field list \<Rightarrow> wire_json_node list \<Rightarrow> nat \<Rightarrow> nat \<Rightarrow>
   string option \<Rightarrow> nat list \<Rightarrow> adapter_error + nat \<times> nat list" where
  "compare_node AjNull prepared index parents =
     (case nth_opt prepared index of
        Some NullValue \<Rightarrow> Inr (1, parents) | _ \<Rightarrow> Inl BodyMismatch)"
| "compare_node (AjBoolean left) prepared index parents =
     (case nth_opt prepared index of
        Some (BooleanValue right) \<Rightarrow> if left = right then Inr (1, parents) else Inl BodyMismatch
      | _ \<Rightarrow> Inl BodyMismatch)"
| "compare_node (AjNumber left) prepared index parents =
     (case nth_opt prepared index of
        Some (NumberValue right) \<Rightarrow> if left = right then Inr (1, parents) else Inl BodyMismatch
      | _ \<Rightarrow> Inl BodyMismatch)"
| "compare_node (AjString value derived) prepared index parents =
     (case nth_opt prepared index of
        Some (StringValue actual) \<Rightarrow>
          if value = actual then
            and_then (map_err map_body_error
                (scalar_safe actual (if derived then MAX_LOGICAL_CHARGE else MAX_SAFE_TEXT_BYTES) False))
              (\<lambda>_. Inr (1, parents))
          else Inl BodyMismatch
      | _ \<Rightarrow> Inl BodyMismatch)"
| "compare_node (AjArray expected) prepared index parents =
     (case nth_opt prepared index of
        Some (ArrayValue actual) \<Rightarrow>
          if length expected = length actual then
            and_then (compare_items expected actual prepared index 0 parents) (\<lambda>(maximum, parents).
            and_then (ok_or (checked_add 8 maximum 1) AdapterLimit) (\<lambda>d. Inr (d, parents)))
          else Inl BodyMismatch
      | _ \<Rightarrow> Inl BodyMismatch)"
| "compare_node (AjObject expected) prepared index parents =
     (case nth_opt prepared index of
        Some (ObjectValue actual) \<Rightarrow>
          if length expected = length actual then
            and_then (compare_fields expected actual prepared index 0 None parents) (\<lambda>(maximum, parents).
            and_then (ok_or (checked_add 8 maximum 1) AdapterLimit) (\<lambda>d. Inr (d, parents)))
          else Inl BodyMismatch
      | _ \<Rightarrow> Inl BodyMismatch)"
| "compare_items [] items prepared index maximum parents = Inr (maximum, parents)"
| "compare_items (e # es) items prepared index maximum parents = (case items of
       [] \<Rightarrow> Inr (maximum, parents)
     | child # cs \<Rightarrow>
         and_then (body_add_parent index child parents) (\<lambda>parents.
         and_then (compare_node e prepared child parents) (\<lambda>(d, parents).
           compare_items es cs prepared index (max maximum d) parents)))"
| "compare_fields [] flds prepared index maximum previous parents = Inr (maximum, parents)"
| "compare_fields ((key, e) # es) flds prepared index maximum previous parents = (case flds of
       [] \<Rightarrow> Inr (maximum, parents)
     | field # fs \<Rightarrow>
      if key \<noteq> wf_key field \<or> (case previous of None \<Rightarrow> False | Some old \<Rightarrow> wf_key field \<le> old)
      then Inl BodyMismatch
      else
        and_then (map_err map_body_error (scalar_safe (wf_key field) 256 False)) (\<lambda>_.
        and_then (body_add_parent index (wf_value field) parents) (\<lambda>parents.
        and_then (compare_node e prepared (wf_value field) parents) (\<lambda>(d, parents).
          compare_fields es fs prepared index (max maximum d) (Some (wf_key field)) parents))))"
  by pat_completeness auto
termination
  by (relation "measure (\<lambda>x. case x of
        Inl (e, _) \<Rightarrow> 2 * size e
      | Inr (Inl (es, _)) \<Rightarrow> 2 * size_list size es + 1
      | Inr (Inr (es, _)) \<Rightarrow> 2 * size_list (size_prod (\<lambda>_. 0) size) es + 1)") auto

subsection \<open>Charge, length and bytes of the expected value\<close>

definition limit_add :: "logical_charge \<Rightarrow> nat \<Rightarrow> adapter_error + logical_charge" where
  "limit_add charge n = map_err map_limit_error (charge_add charge n)"

definition limit_string :: "logical_charge \<Rightarrow> string \<Rightarrow> adapter_error + logical_charge" where
  "limit_string charge s = map_err map_limit_error (charge_string charge s)"

fun charge_value :: "adapter_json \<Rightarrow> logical_charge \<Rightarrow> adapter_error + logical_charge"
and charge_items :: "adapter_json list \<Rightarrow> logical_charge \<Rightarrow> adapter_error + logical_charge"
and charge_fields :: "(string \<times> adapter_json) list \<Rightarrow> logical_charge \<Rightarrow> adapter_error + logical_charge" where
  "charge_value AjNull charge = limit_add charge 4"
| "charge_value (AjBoolean _) charge = and_then (limit_add charge 4) (\<lambda>charge. limit_add charge 1)"
| "charge_value (AjNumber value) charge = and_then (limit_add charge 4) (\<lambda>charge. limit_string charge value)"
| "charge_value (AjString value _) charge = and_then (limit_add charge 4) (\<lambda>charge. limit_string charge value)"
| "charge_value (AjArray items) charge =
     and_then (limit_add charge 4) (\<lambda>charge. and_then (limit_add charge 4) (charge_items items))"
| "charge_value (AjObject flds) charge =
     and_then (limit_add charge 4) (\<lambda>charge. and_then (limit_add charge 4) (charge_fields flds))"
| "charge_items [] charge = Inr charge"
| "charge_items (item # items) charge =
     and_then (limit_add charge 4) (\<lambda>charge. and_then (charge_value item charge) (charge_items items))"
| "charge_fields [] charge = Inr charge"
| "charge_fields ((key, v) # flds) charge =
     and_then (limit_string charge key) (\<lambda>charge. and_then (limit_add charge 4) (\<lambda>charge.
     and_then (charge_value v charge) (charge_fields flds)))"

definition validate_expected_charge :: "adapter_json \<Rightarrow> adapter_error + logical_charge" where
  "validate_expected_charge v =
     and_then (limit_add (charge_new MAX_LOGICAL_CHARGE) 4) (\<lambda>charge.
     and_then (limit_add charge 4) (charge_value v))"

definition length_add :: "nat \<Rightarrow> nat \<Rightarrow> adapter_error + nat" where
  "length_add left right = ok_or (checked_add 64 left right) AdapterLimit"

definition checked_length :: "nat \<Rightarrow> adapter_error + nat" where
  "checked_length n = (if n < 2 ^ 64 then Inr n else Inl AdapterLimit)"

definition serialized_string_length :: "string \<Rightarrow> adapter_error + nat" where
  "serialized_string_length s =
     try_fold (\<lambda>len byte. length_add len (if escaped_byte byte then 2 else 1)) 2 s"

fun serialized_length :: "adapter_json \<Rightarrow> adapter_error + nat"
and items_length :: "adapter_json list \<Rightarrow> nat \<Rightarrow> nat \<Rightarrow> adapter_error + nat"
and fields_length :: "(string \<times> adapter_json) list \<Rightarrow> nat \<Rightarrow> nat \<Rightarrow> adapter_error + nat" where
  "serialized_length AjNull = Inr 4"
| "serialized_length (AjBoolean b) = Inr (if b then 4 else 5)"
| "serialized_length (AjNumber s) = checked_length (length s)"
| "serialized_length (AjString s _) = serialized_string_length s"
| "serialized_length (AjArray items) = items_length items 0 2"
| "serialized_length (AjObject flds) = fields_length flds 0 2"
| "items_length [] index len = Inr len"
| "items_length (item # items) index len =
     and_then (if index \<noteq> 0 then length_add len 1 else Inr len) (\<lambda>len.
     and_then (serialized_length item) (\<lambda>n.
     and_then (length_add len n) (\<lambda>len. items_length items (Suc index) len)))"
| "fields_length [] index len = Inr len"
| "fields_length ((key, v) # flds) index len =
     and_then (if index \<noteq> 0 then length_add len 1 else Inr len) (\<lambda>len.
     and_then (serialized_string_length key) (\<lambda>n.
     and_then (length_add len n) (\<lambda>len.
     and_then (length_add len 1) (\<lambda>len.
     and_then (serialized_length v) (\<lambda>n.
     and_then (length_add len n) (\<lambda>len. fields_length flds (Suc index) len))))))"

fun serialize_value :: "adapter_json \<Rightarrow> string \<Rightarrow> string"
and serialize_items :: "adapter_json list \<Rightarrow> nat \<Rightarrow> string \<Rightarrow> string"
and serialize_fields :: "(string \<times> adapter_json) list \<Rightarrow> nat \<Rightarrow> string \<Rightarrow> string" where
  "serialize_value AjNull out = out @ ''null''"
| "serialize_value (AjBoolean b) out = out @ (if b then ''true'' else ''false'')"
| "serialize_value (AjNumber s) out = out @ s"
| "serialize_value (AjString s _) out = serialize_string s out"
| "serialize_value (AjArray items) out = serialize_items items 0 (out @ ''['') @ '']''"
| "serialize_value (AjObject flds) out = serialize_fields flds 0 (out @ ''{'') @ ''}''"
| "serialize_items [] position out = out"
| "serialize_items (item # items) position out =
     serialize_items items (Suc position)
       (serialize_value item (if position \<noteq> 0 then out @ '','' else out))"
| "serialize_fields [] position out = out"
| "serialize_fields ((key, v) # flds) position out =
     serialize_fields flds (Suc position)
       (serialize_value v (serialize_string key (if position \<noteq> 0 then out @ '','' else out) @ '':''))"

definition compare_and_serialize :: "adapter_json \<Rightarrow> wire_json_document \<Rightarrow> adapter_error + string" where
  "compare_and_serialize expected prepared =
     (let nodes = wd_nodes prepared; root = wd_root prepared in
      if nodes = [] \<or> length nodes > 262144 then Inl AdapterLimit
      else if root \<noteq> length nodes - 1 \<or> \<not> (case expected of AjObject _ \<Rightarrow> True | _ \<Rightarrow> False)
      then Inl BodyMismatch
      else
        and_then (compare_node expected nodes root (replicate (length nodes) 0)) (\<lambda>(depth, parents).
          if depth > 64 \<or> parents ! root \<noteq> 0 \<or> list_ex (\<lambda>count. count \<noteq> 1) (take root parents)
          then Inl BodyMismatch
          else
            and_then (validate_expected_charge expected) (\<lambda>_.
            and_then (serialized_length expected) (\<lambda>len.
              if \<not> (2 \<le> len \<and> len \<le> MAX_LOGICAL_CHARGE) then Inl AdapterLimit
              else let out = serialize_value expected [] in
                if length out \<noteq> len then Inl BodyMismatch else Inr out))))"

subsection \<open>The tree an expected value denotes\<close>

fun json_of :: "adapter_json \<Rightarrow> json" where
  "json_of AjNull = JNull"
| "json_of (AjBoolean b) = JBool b"
| "json_of (AjNumber s) = JNumber s"
| "json_of (AjString s _) = JString s"
| "json_of (AjArray items) = JArray (map json_of items)"
| "json_of (AjObject flds) = JObject (map (\<lambda>(k, v). (k, json_of v)) flds)"

fun expected_fine :: "adapter_json \<Rightarrow> bool" where
  "expected_fine (AjString s derived) =
     (scalar_safe s (if derived then MAX_LOGICAL_CHARGE else MAX_SAFE_TEXT_BYTES) False = Inr ())"
| "expected_fine (AjArray items) = list_all expected_fine items"
| "expected_fine (AjObject flds) =
     (sorted_wrt (<) (map fst flds) \<and>
      list_all (\<lambda>(k, v). scalar_safe k 256 False = Inr () \<and> expected_fine v) flds)"
| "expected_fine _ = True"

fun expected_charge :: "adapter_json \<Rightarrow> nat" where
  "expected_charge AjNull = 4"
| "expected_charge (AjBoolean _) = 5"
| "expected_charge (AjNumber s) = 8 + length s"
| "expected_charge (AjString s _) = 8 + length s"
| "expected_charge (AjArray items) = 8 + sum_list (map (\<lambda>v. 4 + expected_charge v) items)"
| "expected_charge (AjObject flds) =
     8 + sum_list (map (\<lambda>(k, v). 8 + length k + expected_charge v) flds)"

subsection \<open>The bytes and their number\<close>

lemma serialize_value_render:
  "serialize_value v out = out @ render (json_of v)"
  "serialize_items vs n out =
     out @ (if n = 0 then commas (map (render \<circ> json_of) vs) else comma_tail (map (render \<circ> json_of) vs))"
  "serialize_fields flds n out =
     (let rs = map (\<lambda>(k, v). quote k @ '':'' @ render (json_of v)) flds in
      out @ (if n = 0 then commas rs else comma_tail rs))"
  by (induction v out and vs n out and flds n out rule: serialize_value_serialize_items_serialize_fields.induct)
    (simp_all add: serialize_string_quote comma_tail_def comp_def split_def Let_def)

text \<open>\<open>length_add\<close> as a counter: adding the pieces one by one is adding their concatenation.\<close>

definition count_bytes :: "nat \<Rightarrow> string \<Rightarrow> adapter_error + nat" where
  "count_bytes l r = (if l + length r < 2 ^ 64 then Inr (l + length r) else Inl AdapterLimit)"

lemma length_add_eq: "length_add l n = (if l + n < 2 ^ 64 then Inr (l + n) else Inl AdapterLimit)"
  by (simp add: length_add_def checked_add_def)

lemma string_length_count: "serialized_string_length s = count_bytes 0 (quote s)"
proof -
  have "try_fold (\<lambda>len byte. length_add len (if escaped_byte byte then 2 else 1)) l s
      = (if l + length (concat (map escape_byte s)) < 2 ^ 64
         then Inr (l + length (concat (map escape_byte s))) else Inl AdapterLimit)" if "l < 2 ^ 64" for l
    using that
    by (induction s arbitrary: l) (auto simp: length_add_eq escapes_in_escape_byte)
  from this [of 2] show ?thesis
    by (auto simp: serialized_string_length_def count_bytes_def quote_def)
qed

lemma count_bytes_simps [simp]:
  "l < 2 ^ 64 \<Longrightarrow> count_bytes l [] = Inr l"
  "and_then (count_bytes l r) (\<lambda>m. count_bytes m s) = count_bytes l (r @ s)"
  by (auto simp: count_bytes_def)

lemma length_add_count: "and_then (count_bytes 0 r) (\<lambda>n. length_add l n) = count_bytes l r"
  by (auto simp: count_bytes_def length_add_eq)

lemma comma_count:
  "l < 2 ^ 64 \<Longrightarrow> (if n \<noteq> 0 then length_add l 1 else Inr l) = count_bytes l (if n = 0 then [] else '','')"
  by (simp add: count_bytes_def length_add_eq)

lemma colon_count: "length_add l 1 = count_bytes l '':''"
  by (simp add: count_bytes_def length_add_eq)

lemma and_then_assoc: "and_then (and_then r f) g = and_then r (\<lambda>x. and_then (f x) g)"
  by (cases r) simp_all

text \<open>One step of the two loops, then the loops.\<close>

lemma piece_count:
  assumes "\<And>m. m < 2 ^ 64 \<Longrightarrow> f m = count_bytes m s"
  shows "and_then (count_bytes l r) f = count_bytes l (r @ s)"
  using assms by (auto simp: count_bytes_def)

lemma value_count:
  assumes "r = count_bytes 0 s" and "\<And>m. m < 2 ^ 64 \<Longrightarrow> f m = count_bytes m t"
  shows "and_then r (\<lambda>n. and_then (length_add l n) f) = count_bytes l (s @ t)"
proof -
  have "and_then r (\<lambda>n. and_then (length_add l n) f) = and_then (count_bytes l s) f"
    unfolding assms(1) by (simp only: and_then_assoc [symmetric] length_add_count)
  then show ?thesis using assms(2) by (simp only: piece_count)
qed

definition comma_from :: "nat \<Rightarrow> string list \<Rightarrow> string" where
  "comma_from n rs = (if n = 0 then commas rs else comma_tail rs)"

lemma comma_from_simps [simp]:
  "comma_from n [] = []"
  "comma_from n (r # rs) = (if n = 0 then [] else '','') @ r @ comma_from (Suc n) rs"
  by (simp_all add: comma_from_def comma_tail_def)

lemma items_length_count:
  assumes "\<forall>v\<in>set vs. serialized_length v = count_bytes 0 (render (json_of v))" and "len < 2 ^ 64"
  shows "items_length vs n len = count_bytes len (comma_from n (map (render \<circ> json_of) vs))"
  using assms
proof (induction vs arbitrary: n len)
  case (Cons v vs)
  show ?case
    unfolding items_length.simps list.map comma_from_simps comma_count [OF Cons.prems(2)] o_apply
    by (rule piece_count, rule value_count) (use Cons in simp_all)
qed simp

lemma fields_length_count:
  assumes "\<forall>f\<in>set flds. serialized_length (snd f) = count_bytes 0 (render (json_of (snd f)))"
    and "len < 2 ^ 64"
  shows "fields_length flds n len =
    count_bytes len (comma_from n (map (\<lambda>(k, v). quote k @ '':'' @ render (json_of v)) flds))"
  using assms
proof (induction flds arbitrary: n len)
  case (Cons f flds)
  obtain k v where f: "f = (k, v)" by (cases f)
  show ?case
    unfolding f fields_length.simps list.map comma_from_simps comma_count [OF Cons.prems(2)] prod.case append_assoc
    by (rule piece_count, rule value_count [OF string_length_count], unfold colon_count,
        rule piece_count, rule value_count) (use Cons f in simp_all)
qed simp

lemma serialized_length_count: "serialized_length v = count_bytes 0 (render (json_of v))"
proof (induction v)
  case (AjArray items)
  from items_length_count [of items 2 0] AjArray show ?case
    by (simp add: comma_from_def count_bytes_def)
next
  case (AjObject flds)
  have "fields_length flds 0 2 =
      count_bytes 2 (comma_from 0 (map (\<lambda>(k, v). quote k @ '':'' @ render (json_of v)) flds))"
    by (rule fields_length_count) (use AjObject in \<open>auto simp: prod_set_simps\<close>)
  then show ?case by (simp add: comma_from_def count_bytes_def comp_def split_def)
qed (auto simp: count_bytes_def checked_length_def string_length_count)

lemma limit_add_eq:
  assumes "lc_limit c < 2 ^ 64"
  shows "limit_add c n =
    (if lc_value c + n \<le> lc_limit c then Inr (c\<lparr>lc_value := lc_value c + n\<rparr>) else Inl AdapterLimit)"
  using assms
  by (auto simp: limit_add_def charge_add_def checked_add_def map_limit_error_def Let_def ok_or_def)

lemma limit_string_eq:
  assumes "lc_limit c < 2 ^ 64"
  shows "limit_string c s = (if lc_value c + (4 + length s) \<le> lc_limit c
    then Inr (c\<lparr>lc_value := lc_value c + (4 + length s)\<rparr>) else Inl AdapterLimit)"
  using assms
  by (auto simp: limit_string_def charge_string_def charge_add_def checked_len_def checked_add_def
      map_limit_error_def Let_def ok_or_def)

lemma charge_value_eq:
  "lc_limit c < 2 ^ 64 \<Longrightarrow> lc_value c \<le> lc_limit c \<Longrightarrow> charge_value v c =
     (if lc_value c + expected_charge v \<le> lc_limit c
      then Inr (c\<lparr>lc_value := lc_value c + expected_charge v\<rparr>) else Inl AdapterLimit)"
  "lc_limit c < 2 ^ 64 \<Longrightarrow> lc_value c \<le> lc_limit c \<Longrightarrow> charge_items vs c =
     (let n = sum_list (map (\<lambda>v. 4 + expected_charge v) vs) in
      if lc_value c + n \<le> lc_limit c then Inr (c\<lparr>lc_value := lc_value c + n\<rparr>) else Inl AdapterLimit)"
  "lc_limit c < 2 ^ 64 \<Longrightarrow> lc_value c \<le> lc_limit c \<Longrightarrow> charge_fields flds c =
     (let n = sum_list (map (\<lambda>(k, v). 8 + length k + expected_charge v) flds) in
      if lc_value c + n \<le> lc_limit c then Inr (c\<lparr>lc_value := lc_value c + n\<rparr>) else Inl AdapterLimit)"
  by (induction v c and vs c and flds c rule: charge_value_charge_items_charge_fields.induct)
    (simp_all add: limit_add_eq limit_string_eq Let_def split_def)

subsection \<open>What the comparison visits\<close>

text \<open>The tree below a node whose children all precede their parents, and the nodes below it in the
  order in which the comparison reaches them.\<close>

function tree_below :: "wire_json_node list \<Rightarrow> nat \<Rightarrow> json option" where
  "tree_below nodes index =
     (case nth_opt nodes index of
        None \<Rightarrow> None
      | Some node \<Rightarrow>
          if \<not> list_all (\<lambda>c. c < index) (children node) then None
          else (case node of
              NullValue \<Rightarrow> Some JNull
            | BooleanValue b \<Rightarrow> Some (JBool b)
            | NumberValue s \<Rightarrow> Some (JNumber s)
            | StringValue s \<Rightarrow> Some (JString s)
            | ArrayValue items \<Rightarrow> map_option JArray (those (map (tree_below nodes) items))
            | ObjectValue flds \<Rightarrow>
                map_option (\<lambda>ts. JObject (zip (map wf_key flds) ts))
                  (those (map (\<lambda>f. tree_below nodes (wf_value f)) flds))))"
  by pat_completeness auto
termination
  by (relation "measure snd") (auto simp: list_all_iff split: if_splits, (drule sym, simp)+)

function descendants :: "wire_json_node list \<Rightarrow> nat \<Rightarrow> nat list" where
  "descendants nodes index =
     concat (map (\<lambda>c. c # (if c < index then descendants nodes c else [])) (children (nodes ! index)))"
  by pat_completeness auto
termination
  by (relation "measure snd") auto

declare tree_below.simps [simp del] descendants.simps [simp del]

definition below_list :: "wire_json_node list \<Rightarrow> nat list \<Rightarrow> nat list" where
  "below_list nodes cs = concat (map (\<lambda>c. c # descendants nodes c) cs)"

lemma below_list_simps [simp]:
  "below_list nodes [] = []"
  "below_list nodes (c # cs) = c # descendants nodes c @ below_list nodes cs"
  by (simp_all add: below_list_def)

lemma descendants_below:
  "list_all (\<lambda>c. c < index) (children (nodes ! index)) \<Longrightarrow>
     descendants nodes index = below_list nodes (children (nodes ! index))"
  by (subst descendants.simps)
    (auto simp: below_list_def list_all_iff intro!: arg_cong [where f = concat] map_cong)

definition mark :: "nat list \<Rightarrow> nat list \<Rightarrow> nat list" where
  "mark parents ds = fold (\<lambda>c parents. parents[c := 1]) ds parents"

lemma mark_simps [simp]:
  "mark parents [] = parents"
  "mark parents (c # ds) = mark (parents[c := 1]) ds"
  "mark parents (xs @ ys) = mark (mark parents xs) ys"
  by (simp_all add: mark_def)

lemma length_mark [simp]: "length (mark parents ds) = length parents"
  by (induction ds arbitrary: parents) simp_all

lemma mark_nth:
  "c < length parents \<Longrightarrow> mark parents ds ! c = (if c \<in> set ds then 1 else parents ! c)"
  by (induction ds arbitrary: parents) (auto simp: nth_list_update)

text \<open>Marking \<open>ds\<close> never meets a node marked before.\<close>

definition fresh :: "nat list \<Rightarrow> nat list \<Rightarrow> bool" where
  "fresh parents ds \<longleftrightarrow> distinct ds \<and> (\<forall>c\<in>set ds. c < length parents \<and> parents ! c = 0)"

lemma fresh_simps [simp]:
  "fresh parents []"
  "fresh parents (c # ds) \<longleftrightarrow> c < length parents \<and> parents ! c = 0 \<and> fresh (parents[c := 1]) ds"
  "fresh parents (xs @ ys) \<longleftrightarrow> fresh parents xs \<and> fresh (mark parents xs) ys"
proof -
  show "fresh parents (xs @ ys) \<longleftrightarrow> fresh parents xs \<and> fresh (mark parents xs) ys" for xs
    by (auto simp: fresh_def mark_nth split: if_splits)
  show "fresh parents (c # ds) \<longleftrightarrow> c < length parents \<and> parents ! c = 0 \<and> fresh (parents[c := 1]) ds"
    by (auto simp: fresh_def nth_list_update split: if_splits)
qed (simp add: fresh_def)

lemma body_add_parent_Inr:
  assumes "\<forall>c<length parents. parents ! c \<le> 1" and "parent < length parents"
  shows "body_add_parent parent child parents = Inr parents' \<longleftrightarrow>
    child < parent \<and> parents ! child = 0 \<and> parents' = parents[child := 1]"
proof (cases "child < parent")
  case True
  then have "parents ! child \<le> 1" "child < length parents" using assms by simp_all
  then have "parents ! child = 0 \<or> parents ! child = 1" by linarith
  then show ?thesis using True assms(2) by (auto simp: body_add_parent_def checked_add_def Let_def)
qed (simp add: body_add_parent_def)

lemma those_map_eq_Some:
  "those (map f xs) = Some (map g ys) \<longleftrightarrow> list_all2 (\<lambda>x y. f x = Some (g y)) xs ys"
  by (auto simp: those_eq_Some list_all2_conv_all_nth list_eq_iff_nth_eq)

definition counters :: "nat list \<Rightarrow> bool" where
  "counters parents \<longleftrightarrow> (\<forall>c<length parents. parents ! c \<le> 1)"

lemma counters_mark [simp]: "counters parents \<Longrightarrow> counters (mark parents ds)"
  by (auto simp: counters_def mark_nth)

lemma counters_update [simp]: "counters parents \<Longrightarrow> counters (parents[c := Suc 0])"
  by (cases "c < length parents") (auto simp: counters_def nth_list_update)

text \<open>What a successful comparison of one node means.\<close>

definition node_matches ::
  "adapter_json \<Rightarrow> wire_json_node list \<Rightarrow> nat \<Rightarrow> nat list \<Rightarrow> nat \<Rightarrow> nat list \<Rightarrow> bool" where
  "node_matches e nodes index parents d parents' \<longleftrightarrow>
     tree_below nodes index = Some (json_of e) \<and> expected_fine e \<and>
     d = json_depth (json_of e) \<and> d < 256 \<and>
     fresh parents (descendants nodes index) \<and> parents' = mark parents (descendants nodes index)"

definition items_match ::
  "adapter_json list \<Rightarrow> nat list \<Rightarrow> wire_json_node list \<Rightarrow> nat \<Rightarrow> nat \<Rightarrow> nat list \<Rightarrow> nat \<Rightarrow> nat list \<Rightarrow> bool" where
  "items_match es cs nodes index maximum parents d parents' \<longleftrightarrow>
     list_all (\<lambda>c. c < index) cs \<and>
     list_all2 (\<lambda>c e. tree_below nodes c = Some (json_of e)) cs es \<and>
     list_all (\<lambda>e. expected_fine e \<and> json_depth (json_of e) < 256) es \<and>
     d = fold max (map (json_depth \<circ> json_of) es) maximum \<and>
     fresh parents (below_list nodes cs) \<and> parents' = mark parents (below_list nodes cs)"

lemma items_match_simps:
  "items_match [] [] nodes index maximum parents d parents' \<longleftrightarrow> d = maximum \<and> parents' = parents"
  "items_match (e # es) (c # cs) nodes index maximum parents d parents' \<longleftrightarrow>
     c < index \<and> c < length parents \<and> parents ! c = 0 \<and>
     (\<exists>d1 ps. node_matches e nodes c (parents[c := 1]) d1 ps \<and>
        items_match es cs nodes index (max maximum d1) ps d parents')"
  by (auto simp: items_match_def node_matches_def max.commute)

lemma compare_items_Inr:
  assumes "\<And>e c ps d ps'. e \<in> set es \<Longrightarrow> c < length nodes \<Longrightarrow> length ps = length nodes \<Longrightarrow> counters ps \<Longrightarrow>
      compare_node e nodes c ps = Inr (d, ps') \<longleftrightarrow> node_matches e nodes c ps d ps'"
    and "length es = length cs" and "length parents = length nodes" and "index < length nodes"
    and "counters parents"
  shows "compare_items es cs nodes index maximum parents = Inr (d, parents') \<longleftrightarrow>
    items_match es cs nodes index maximum parents d parents'"
  using assms
proof (induction es arbitrary: cs maximum parents)
  case Nil
  then show ?case by (auto simp: items_match_simps)
next
  case (Cons e es)
  then obtain c cs' where cs: "cs = c # cs'" by (cases cs) auto
  have step: "body_add_parent index c parents = Inr ps \<longleftrightarrow>
      c < index \<and> parents ! c = 0 \<and> ps = parents[c := 1]" for ps
    using body_add_parent_Inr [of parents index c ps] Cons.prems(3-5) by (simp add: counters_def)
  have node: "compare_node e nodes c (parents[c := 1]) = Inr (d1, ps) \<longleftrightarrow>
      node_matches e nodes c (parents[c := 1]) d1 ps" if "c < index" for d1 ps
    by (rule Cons.prems(1)) (use Cons.prems that in simp_all)
  have loop: "compare_items es cs' nodes index m ps = Inr (d, parents') \<longleftrightarrow>
      items_match es cs' nodes index m ps d parents'"
    if "node_matches e nodes c (parents[c := 1]) d1 ps" for m d1 ps
    by (rule Cons.IH) (use Cons.prems cs that in \<open>simp_all add: node_matches_def\<close>)
  show ?case
    unfolding cs compare_items.simps items_match_simps list.case and_then_eq_Inr split_paired_Ex prod.case
    using Cons.prems(3,4) by (simp add: step node loop cong: conj_cong del: One_nat_def)
qed

text \<open>The loop over the fields also checks the keys.\<close>

definition keys_above :: "string option \<Rightarrow> string list \<Rightarrow> bool" where
  "keys_above previous ks \<longleftrightarrow> sorted_wrt (<) ks \<and>
     (case previous of None \<Rightarrow> True | Some old \<Rightarrow> list_all (\<lambda>k. old < k) ks)"

lemma keys_above_simps [simp]:
  "keys_above previous []"
  "keys_above previous (k # ks) \<longleftrightarrow>
     \<not> (case previous of None \<Rightarrow> False | Some old \<Rightarrow> k \<le> old) \<and> keys_above (Some k) ks"
  by (auto simp: keys_above_def not_le list_all_iff split: option.splits)

definition fields_match ::
  "(string \<times> adapter_json) list \<Rightarrow> wire_json_field list \<Rightarrow> wire_json_node list \<Rightarrow> nat \<Rightarrow> nat \<Rightarrow>
   string option \<Rightarrow> nat list \<Rightarrow> nat \<Rightarrow> nat list \<Rightarrow> bool" where
  "fields_match es fs nodes index maximum previous parents d parents' \<longleftrightarrow>
     map fst es = map wf_key fs \<and> keys_above previous (map fst es) \<and>
     list_all (\<lambda>k. scalar_safe k 256 False = Inr ()) (map fst es) \<and>
     items_match (map snd es) (map wf_value fs) nodes index maximum parents d parents'"

lemma compare_fields_Inr:
  assumes "\<And>e c ps d ps'. e \<in> snd ` set es \<Longrightarrow> c < length nodes \<Longrightarrow> length ps = length nodes \<Longrightarrow>
      counters ps \<Longrightarrow> compare_node e nodes c ps = Inr (d, ps') \<longleftrightarrow> node_matches e nodes c ps d ps'"
    and "length es = length fs" and "length parents = length nodes" and "index < length nodes"
    and "counters parents"
  shows "compare_fields es fs nodes index maximum previous parents = Inr (d, parents') \<longleftrightarrow>
    fields_match es fs nodes index maximum previous parents d parents'"
  using assms
proof (induction es arbitrary: fs maximum previous parents)
  case Nil
  then show ?case by (auto simp: fields_match_def items_match_simps)
next
  case (Cons ke es)
  obtain k e where ke: "ke = (k, e)" by (cases ke)
  from Cons.prems(2) obtain f fs' where fs: "fs = f # fs'" by (cases fs) auto
  have step: "body_add_parent index (wf_value f) parents = Inr ps \<longleftrightarrow>
      wf_value f < index \<and> parents ! wf_value f = 0 \<and> ps = parents[wf_value f := 1]" for ps
    using body_add_parent_Inr [of parents index "wf_value f" ps] Cons.prems(3-5)
    by (simp add: counters_def)
  have node: "compare_node e nodes (wf_value f) (parents[wf_value f := 1]) = Inr (d1, ps) \<longleftrightarrow>
      node_matches e nodes (wf_value f) (parents[wf_value f := 1]) d1 ps" if "wf_value f < index" for d1 ps
    by (rule Cons.prems(1)) (use Cons.prems that ke in simp_all)
  have loop: "compare_fields es fs' nodes index m p ps = Inr (d, parents') \<longleftrightarrow>
      fields_match es fs' nodes index m p ps d parents'"
    if "node_matches e nodes (wf_value f) (parents[wf_value f := 1]) d1 ps" for m d1 p ps
    by (rule Cons.IH) (use Cons.prems fs that in \<open>simp_all add: node_matches_def\<close>)
  show ?case
    unfolding fs ke compare_fields.simps list.case and_then_eq_Inr split_paired_Ex prod.case
      map_err_simps
    using Cons.prems(3,4)
    by (simp add: step node loop fields_match_def items_match_simps cong: conj_cong del: One_nat_def) blast
qed

lemma tree_below_leaf:
  assumes "index < length nodes" and "children (nodes ! index) = []"
  shows "tree_below nodes index = (case nodes ! index of
      NullValue \<Rightarrow> Some JNull
    | BooleanValue b \<Rightarrow> Some (JBool b)
    | NumberValue s \<Rightarrow> Some (JNumber s)
    | StringValue s \<Rightarrow> Some (JString s)
    | ArrayValue items \<Rightarrow> Some (JArray [])
    | ObjectValue flds \<Rightarrow> Some (JObject []))"
  using assms by (subst tree_below.simps) (auto simp: nth_opt_def split: wire_json_node.split)

lemma tree_below_array:
  assumes "index < length nodes" and "nodes ! index = ArrayValue items"
  shows "tree_below nodes index = Some t \<longleftrightarrow>
    (\<exists>ts. t = JArray ts \<and> list_all (\<lambda>c. c < index) items \<and>
      list_all2 (\<lambda>c t. tree_below nodes c = Some t) items ts)"
proof -
  have "those (map (tree_below nodes) items) = Some ts \<longleftrightarrow>
      list_all2 (\<lambda>c t. tree_below nodes c = Some t) items ts" for ts
    using those_map_eq_Some [of "tree_below nodes" items id ts] by simp
  then show ?thesis using assms by (subst tree_below.simps) (auto simp: nth_opt_def)
qed

lemma tree_below_object:
  assumes "index < length nodes" and "nodes ! index = ObjectValue flds"
  shows "tree_below nodes index = Some t \<longleftrightarrow>
    (\<exists>ts. t = JObject (zip (map wf_key flds) ts) \<and> list_all (\<lambda>c. c < index) (map wf_value flds) \<and>
      list_all2 (\<lambda>c t. tree_below nodes c = Some t) (map wf_value flds) ts)"
proof -
  have "those (map (\<lambda>f. tree_below nodes (wf_value f)) flds) = Some ts \<longleftrightarrow>
      list_all2 (\<lambda>c t. tree_below nodes c = Some t) (map wf_value flds) ts" for ts
    using those_map_eq_Some [of "\<lambda>f. tree_below nodes (wf_value f)" flds id ts]
    by (simp add: list_all2_map1)
  then show ?thesis using assms by (subst tree_below.simps) (auto simp: nth_opt_def comp_def)
qed

lemma tree_below_shape:
  assumes "tree_below nodes index = Some t"
  shows "index < length nodes \<and> (case t of
      JNull \<Rightarrow> nodes ! index = NullValue
    | JBool b \<Rightarrow> nodes ! index = BooleanValue b
    | JNumber s \<Rightarrow> nodes ! index = NumberValue s
    | JString s \<Rightarrow> nodes ! index = StringValue s
    | JArray ts \<Rightarrow> \<exists>items. nodes ! index = ArrayValue items
    | JObject fs \<Rightarrow> \<exists>flds. nodes ! index = ObjectValue flds)"
  using assms
  by (subst (asm) tree_below.simps) (auto simp: nth_opt_def split: option.splits if_splits wire_json_node.splits)

lemma fold_max_bound: "fold max xs m < (n :: nat) \<longleftrightarrow> m < n \<and> list_all (\<lambda>x. x < n) xs"
  by (induction xs arbitrary: m) auto

lemma list_all_conj: "list_all (\<lambda>x. P x \<and> Q x) xs \<longleftrightarrow> list_all P xs \<and> list_all Q xs"
  by (induction xs) auto

lemma items_match_array:
  assumes "index < length nodes" and "nodes ! index = ArrayValue cs"
  shows "(length es = length cs \<and> items_match es cs nodes index 0 parents m parents' \<and> m + 1 < 256) \<longleftrightarrow>
    node_matches (AjArray es) nodes index parents (m + 1) parents'"
proof (cases "list_all (\<lambda>c. c < index) cs")
  case True
  then have "descendants nodes index = below_list nodes cs"
    using assms descendants_below [of index nodes] by simp
  moreover have "m = fold max (map (json_depth \<circ> json_of) es) 0 \<Longrightarrow> m < 255 \<Longrightarrow>
      list_all (\<lambda>e. json_depth (json_of e) < 256) es"
    using fold_max_bound [of "map (json_depth \<circ> json_of) es" 0 255]
    by (auto simp: list_all_iff comp_def intro: less_trans)
  ultimately show ?thesis using True
    by (auto simp: items_match_def node_matches_def tree_below_array [OF assms] list_all2_map2
        comp_def list_all_iff dest: list_all2_lengthD)
next
  case False
  then show ?thesis by (auto simp: items_match_def node_matches_def tree_below_array [OF assms])
qed

lemma map_eq_zip:
  assumes "length ks = length ts"
  shows "map (\<lambda>(k, v). (k, f v)) es = zip ks ts \<longleftrightarrow> map fst es = ks \<and> ts = map (f \<circ> snd) es"
proof
  assume eq: "map (\<lambda>(k, v). (k, f v)) es = zip ks ts"
  have "map fst (map (\<lambda>(k, v). (k, f v)) es) = map fst es"
    and "map snd (map (\<lambda>(k, v). (k, f v)) es) = map (f \<circ> snd) es"
    by (simp_all add: split_def)
  with eq assms show "map fst es = ks \<and> ts = map (f \<circ> snd) es" by simp
next
  have "map (\<lambda>(k, v). (k, f v)) es = zip (map fst es) (map (f \<circ> snd) es)"
    by (induction es) auto
  then show "map fst es = ks \<and> ts = map (f \<circ> snd) es \<Longrightarrow> map (\<lambda>(k, v). (k, f v)) es = zip ks ts"
    by auto
qed

lemma object_tree:
  assumes "index < length nodes" and "nodes ! index = ObjectValue fs"
  shows "tree_below nodes index = Some (json_of (AjObject es)) \<longleftrightarrow>
    map fst es = map wf_key fs \<and> list_all (\<lambda>c. c < index) (map wf_value fs) \<and>
    list_all2 (\<lambda>c e. tree_below nodes c = Some (json_of e)) (map wf_value fs) (map snd es)"
proof -
  have "tree_below nodes index = Some (json_of (AjObject es)) \<longleftrightarrow>
      (\<exists>ts. map (\<lambda>(k, v). (k, json_of v)) es = zip (map wf_key fs) ts \<and>
        list_all (\<lambda>c. c < index) (map wf_value fs) \<and>
        list_all2 (\<lambda>c t. tree_below nodes c = Some t) (map wf_value fs) ts)"
    by (simp only: tree_below_object [OF assms] json_of.simps json.inject)
  also have "\<dots> \<longleftrightarrow> (\<exists>ts. map fst es = map wf_key fs \<and> ts = map (json_of \<circ> snd) es \<and>
        list_all (\<lambda>c. c < index) (map wf_value fs) \<and>
        list_all2 (\<lambda>c t. tree_below nodes c = Some t) (map wf_value fs) ts)"
    by (intro ex_cong1) (auto simp: map_eq_zip dest: list_all2_lengthD)
  finally show ?thesis by (simp add: list_all2_map2 comp_def)
qed

lemma fields_match_object:
  assumes "index < length nodes" and "nodes ! index = ObjectValue fs"
  shows "(length es = length fs \<and> fields_match es fs nodes index 0 None parents m parents' \<and> m + 1 < 256) \<longleftrightarrow>
    node_matches (AjObject es) nodes index parents (m + 1) parents'"
proof (cases "list_all (\<lambda>c. c < index) (map wf_value fs)")
  case True
  then have "descendants nodes index = below_list nodes (map wf_value fs)"
    using assms descendants_below [of index nodes] by simp
  moreover have "m = fold max (map (json_depth \<circ> json_of) (map snd es)) 0 \<Longrightarrow> m < 255 \<Longrightarrow>
      list_all (\<lambda>e. json_depth (json_of e) < 256) (map snd es)"
    using fold_max_bound [of "map (json_depth \<circ> json_of) (map snd es)" 0 255]
    by (auto simp: list_all_iff comp_def intro: less_trans)
  moreover have "map fst es = map wf_key fs \<Longrightarrow> length es = length fs" by (rule map_eq_imp_length_eq)
  moreover have "expected_fine (AjObject es) \<longleftrightarrow> keys_above None (map fst es) \<and>
      list_all (\<lambda>k. scalar_safe k 256 False = Inr ()) (map fst es) \<and> list_all expected_fine (map snd es)"
    by (auto simp: keys_above_def list_all_iff)
  moreover have "json_depth (json_of (AjObject es)) =
      Suc (fold max (map (json_depth \<circ> json_of) (map snd es)) 0)"
    by (simp add: comp_def split_def)
  ultimately show ?thesis using True
    unfolding items_match_def node_matches_def object_tree [OF assms] fields_match_def
    by (simp add: list_all_conj) blast
next
  case False
  then show ?thesis
    by (simp only: items_match_def node_matches_def object_tree [OF assms] fields_match_def) simp
qed

lemma compare_node_Inr:
  assumes "index < length nodes" and "length parents = length nodes" and "counters parents"
  shows "compare_node e nodes index parents = Inr (d, parents') \<longleftrightarrow>
    node_matches e nodes index parents d parents'"
  using assms
proof (induction e arbitrary: index parents d parents')
  case AjNull
  then show ?case
    by (cases "nodes ! index")
      (auto simp: nth_opt_def node_matches_def tree_below_leaf descendants.simps
        dest!: tree_below_shape)
next
  case (AjBoolean b)
  then show ?case
    by (cases "nodes ! index")
      (auto simp: nth_opt_def node_matches_def tree_below_leaf descendants.simps
        dest!: tree_below_shape)
next
  case (AjNumber s)
  then show ?case
    by (cases "nodes ! index")
      (auto simp: nth_opt_def node_matches_def tree_below_leaf descendants.simps
        dest!: tree_below_shape)
next
  case (AjString s derived)
  then show ?case
    by (cases "nodes ! index")
      (auto simp: nth_opt_def node_matches_def tree_below_leaf descendants.simps
        dest!: tree_below_shape)
next
  case (AjArray es)
  show ?case
  proof (cases "nodes ! index")
    case (ArrayValue cs)
    have loop: "compare_items es cs nodes index 0 parents = Inr (m, ps) \<longleftrightarrow>
        items_match es cs nodes index 0 parents m ps" if "length es = length cs" for m ps
      by (rule compare_items_Inr) (use AjArray that in auto)
    have "compare_node (AjArray es) nodes index parents = Inr (d, parents') \<longleftrightarrow>
        (\<exists>m. d = m + 1 \<and> (length es = length cs \<and>
           items_match es cs nodes index 0 parents m parents' \<and> m + 1 < 256))"
      using AjArray.prems(1) ArrayValue loop by (auto simp: nth_opt_def)
    also have "\<dots> \<longleftrightarrow> (\<exists>m. d = m + 1 \<and> node_matches (AjArray es) nodes index parents (m + 1) parents')"
      by (simp only: items_match_array [OF AjArray.prems(1) ArrayValue])
    also have "\<dots> \<longleftrightarrow> node_matches (AjArray es) nodes index parents d parents'"
      by (cases d) (auto simp: node_matches_def)
    finally show ?thesis .
  qed (use AjArray.prems in \<open>auto simp: nth_opt_def node_matches_def dest!: tree_below_shape\<close>)
next
  case (AjObject es)
  show ?case
  proof (cases "nodes ! index")
    case (ObjectValue fs)
    have loop: "compare_fields es fs nodes index 0 None parents = Inr (m, ps) \<longleftrightarrow>
        fields_match es fs nodes index 0 None parents m ps" if "length es = length fs" for m ps
      by (rule compare_fields_Inr) (use AjObject that in \<open>auto simp: prod_set_simps\<close>)
    have "compare_node (AjObject es) nodes index parents = Inr (d, parents') \<longleftrightarrow>
        (\<exists>m. d = m + 1 \<and> (length es = length fs \<and>
           fields_match es fs nodes index 0 None parents m parents' \<and> m + 1 < 256))"
      using AjObject.prems(1) ObjectValue loop by (auto simp: nth_opt_def)
    also have "\<dots> \<longleftrightarrow> (\<exists>m. d = m + 1 \<and> node_matches (AjObject es) nodes index parents (m + 1) parents')"
      by (simp only: fields_match_object [OF AjObject.prems(1) ObjectValue])
    also have "\<dots> \<longleftrightarrow> node_matches (AjObject es) nodes index parents d parents'"
      by (cases d) (auto simp: node_matches_def)
    finally show ?thesis .
  qed (use AjObject.prems in \<open>auto simp: nth_opt_def node_matches_def dest!: tree_below_shape\<close>)
qed

subsection \<open>All nodes visited once\<close>

definition children_below :: "wire_json_node list \<Rightarrow> bool" where
  "children_below nodes \<longleftrightarrow> (\<forall>i<length nodes. list_all (\<lambda>c. c < i) (children (nodes ! i)))"

lemma tree_below_at:
  assumes "children_below nodes"
  shows "index < fuel \<Longrightarrow> tree_at fuel nodes index = tree_below nodes index"
proof (induction index arbitrary: fuel rule: less_induct)
  case (less index)
  then obtain f where f: "fuel = Suc f" "index \<le> f" by (cases fuel) auto
  show ?case
  proof (cases "index < length nodes")
    case True
    then have below: "list_all (\<lambda>c. c < index) (children (nodes ! index))"
      using assms by (simp add: children_below_def)
    have step: "tree_at f nodes c = tree_below nodes c" if "c \<in> set (children (nodes ! index))" for c
      using less.IH [of c f] below that f(2) by (auto simp: list_all_iff)
    show ?thesis
    proof (cases "nodes ! index")
      case (ArrayValue items)
      then have "map (tree_at f nodes) items = map (tree_below nodes) items" using step by simp
      from this [THEN arg_cong, of those] show ?thesis using ArrayValue True below f(1)
        by (simp add: tree_at.simps tree_below.simps [of nodes index] nth_opt_def)
    next
      case (ObjectValue flds)
      then have "map (\<lambda>f'. tree_at f nodes (wf_value f')) flds = map (\<lambda>f'. tree_below nodes (wf_value f')) flds"
        using step by simp
      from this [THEN arg_cong, of those] show ?thesis using ObjectValue True below f(1)
        by (simp add: tree_at.simps tree_below.simps [of nodes index] nth_opt_def)
    qed (use True f(1) in \<open>simp_all add: tree_at.simps tree_below.simps nth_opt_def\<close>)
  qed (simp add: f(1) tree_at.simps tree_below.simps nth_opt_def)
qed

abbreviation node_children :: "wire_json_node list \<Rightarrow> nat \<Rightarrow> nat list" where
  "node_children nodes i \<equiv> children (nodes ! i)"

lemma tree_below_children:
  assumes "tree_below nodes index = Some t"
  shows "index < length nodes \<and>
    (\<forall>c\<in>set (node_children nodes index). c < index \<and> (\<exists>u. tree_below nodes c = Some u))"
proof -
  have idx: "index < length nodes" using tree_below_shape [OF assms] by blast
  show ?thesis
  proof (cases "nodes ! index")
    case (ArrayValue items)
    with assms idx show ?thesis
      by (fastforce simp: tree_below_array list_all_iff list_all2_iff set_zip in_set_conv_nth)
  next
    case (ObjectValue flds)
    with assms idx show ?thesis
      by (fastforce simp: tree_below_object list_all_iff list_all2_iff set_zip in_set_conv_nth)
  qed (use idx in simp_all)
qed

lemma descendants_flow:
  "tree_below nodes index = Some t \<Longrightarrow>
     mset (descendants nodes index) =
       mset (concat (map (node_children nodes) (index # descendants nodes index))) \<and>
     (\<forall>v\<in>set (descendants nodes index). v < index \<and> (\<exists>u. tree_below nodes v = Some u))"
proof (induction index arbitrary: t rule: less_induct)
  case (less index)
  note ch = tree_below_children [OF less.prems]
  define cs where "cs = node_children nodes index"
  have ds: "descendants nodes index = below_list nodes cs"
    unfolding cs_def by (rule descendants_below) (use ch in \<open>simp add: list_all_iff\<close>)
  have flow: "mset (below_list nodes ds) = mset ds + mset (concat (map (node_children nodes) (below_list nodes ds))) \<and>
      (\<forall>v\<in>set (below_list nodes ds). v < index \<and> (\<exists>u. tree_below nodes v = Some u))"
    if "set ds \<subseteq> set cs" for ds
    using that
  proof (induction ds)
    case (Cons c ds)
    then have c: "c < index" "\<exists>u. tree_below nodes c = Some u" using ch cs_def by auto
    with less.IH [of c] have "mset (descendants nodes c) =
        mset (concat (map (node_children nodes) (c # descendants nodes c)))"
      and "\<forall>v\<in>set (descendants nodes c). v < c \<and> (\<exists>u. tree_below nodes v = Some u)"
      by blast+
    then show ?case using Cons c by auto
  qed simp
  show ?case using flow [of cs] by (simp add: ds cs_def)
qed

text \<open>Counting how often a node is reached: both the nodes below the root and the whole document
  satisfy the same recurrence, which determines them from the root downwards.\<close>

lemma count_concat:
  fixes xs :: "nat list"
  assumes "set xs \<subseteq> {..<n}"
  shows "count (mset (concat (map f xs))) x = (\<Sum>v<n. count (mset xs) v * count (mset (f v)) x)"
  using assms
proof (induction xs)
  case (Cons y ys)
  have "(\<Sum>v<n. count (mset (y # ys)) v * count (mset (f v)) x) =
      (\<Sum>v<n. (if v = y then count (mset (f v)) x else 0) + count (mset ys) v * count (mset (f v)) x)"
    by (rule sum.cong) auto
  also have "\<dots> = count (mset (f y)) x + (\<Sum>v<n. count (mset ys) v * count (mset (f v)) x)"
    unfolding sum.distrib using Cons.prems by (subst sum.delta) auto
  finally show ?case using Cons by simp
qed simp

lemma flow_unique:
  fixes f :: "nat \<Rightarrow> nat list"
  assumes "\<And>x. count (mset xs) x = count R x + count (mset (concat (map f xs))) x"
    and "\<And>x. count (mset ys) x = count R x + count (mset (concat (map f ys))) x"
    and "set xs \<subseteq> {..<n}" and "set ys \<subseteq> {..<n}" and "\<And>v c. v < n \<Longrightarrow> c \<in> set (f v) \<Longrightarrow> c < v"
  shows "mset xs = mset ys"
proof (rule multiset_eqI)
  fix x
  show "count (mset xs) x = count (mset ys) x"
  proof (induction "n - x" arbitrary: x rule: less_induct)
    case less
    have "count (mset xs) v * count (mset (f v)) x = count (mset ys) v * count (mset (f v)) x"
      if "v < n" for v
    proof (cases "x \<in> set (f v)")
      case True
      then have "n - v < n - x" using assms(5) that by fastforce
      with less show ?thesis by simp
    next
      case False
      then have "count (mset (f v)) x = 0" by (metis count_mset_0_iff)
      then show ?thesis by simp
    qed
    then have "(\<Sum>v<n. count (mset xs) v * count (mset (f v)) x) =
        (\<Sum>v<n. count (mset ys) v * count (mset (f v)) x)"
      by (intro sum.cong) auto
    then show ?case using assms(1,2) count_concat [OF assms(3), of f x] count_concat [OF assms(4), of f x]
      by simp
  qed
qed

lemma mset_concat_cong:
  assumes "mset xs = mset ys"
  shows "mset (concat (map f xs)) = mset (concat (map f ys))"
proof -
  have "mset (concat (map f zs)) = sum_mset (image_mset (\<lambda>z. mset (f z)) (mset zs))" for zs
    by (induction zs) simp_all
  then show ?thesis by (simp only: assms)
qed

lemma postorder_visits:
  assumes "nodes \<noteq> []" and "root = length nodes - 1" and "tree_below nodes root = Some t"
  shows "fresh (replicate (length nodes) 0) (descendants nodes root) \<and>
      (\<forall>c<root. mark (replicate (length nodes) 0) (descendants nodes root) ! c = 1) \<longleftrightarrow>
    postorder_tree nodes"
    (is "?visits \<longleftrightarrow> _")
proof
  let ?ds = "descendants nodes root"
  have n: "root < length nodes" "length nodes = Suc root" using assms(1,2) by (cases nodes; simp)+
  have all: "mset (concat (map children nodes)) = mset (concat (map (node_children nodes) [0..<length nodes]))"
    by (subst (1) map_nth [symmetric]) (simp only: map_map comp_def)
  note flow = descendants_flow [OF assms(3)]
  {
    assume v: ?visits
    then have dist: "distinct ?ds" by (simp add: fresh_def)
    have "c \<in> set ?ds" if "c < root" for c
    proof -
      have "mark (replicate (length nodes) 0) ?ds ! c = 1" using v that by blast
      moreover have "c < length nodes" using that n(1) by simp
      ultimately show ?thesis by (simp add: mark_nth split: if_splits)
    qed
    then have "set ?ds = set [0..<root]" using flow by auto
    with dist have ds: "mset ?ds = mset [0..<root]" using set_eq_iff_mset_eq_distinct [OF dist distinct_upt] by blast
    then have "mset (root # ?ds) = mset [0..<length nodes]" by (simp add: n(2))
    then have "mset (concat (map (node_children nodes) (root # ?ds))) =
        mset (concat (map (node_children nodes) [0..<length nodes]))"
      by (rule mset_concat_cong)
    then have "mset (concat (map children nodes)) = mset [0..<length nodes - 1]"
      using flow ds all n(2) by simp
    moreover have "c < i" if "i < length nodes" "c \<in> set (node_children nodes i)" for i c
    proof -
      have "i = root \<or> i \<in> set ?ds" using that(1) n(2) \<open>set ?ds = set [0..<root]\<close> by auto
      then have "\<exists>u. tree_below nodes i = Some u" using assms(3) flow by blast
      then show ?thesis using that(2) tree_below_children by blast
    qed
    ultimately show "postorder_tree nodes" using assms(1) by (simp add: postorder_tree_def)
  }
  {
    assume p: "postorder_tree nodes"
    have "mset (root # ?ds) = mset [0..<length nodes]"
    proof (rule flow_unique [where f = "node_children nodes" and R = "{#root#}" and n = "length nodes"])
      show "count (mset (root # ?ds)) x =
          count {#root#} x + count (mset (concat (map (node_children nodes) (root # ?ds)))) x" for x
        using flow by (simp add: add.commute)
      show "count (mset [0..<length nodes]) x = count {#root#} x +
          count (mset (concat (map (node_children nodes) [0..<length nodes]))) x" for x
        using p all n(2) by (simp add: postorder_tree_def)
    qed (use p flow n in \<open>auto simp: postorder_tree_def\<close>)
    then have ds: "mset ?ds = mset [0..<root]" by (simp add: n(2))
    then have "distinct ?ds" "set ?ds = {0..<root}"
      by (metis distinct_upt mset_eq_imp_distinct_iff, metis mset_eq_setD set_upt)
    then show ?visits using n(1) by (auto simp: fresh_def mark_nth)
  }
qed

subsection \<open>The accepted bodies\<close>

lemma validate_expected_charge_Inr:
  "is_ok (validate_expected_charge e) \<longleftrightarrow> 8 + expected_charge e \<le> MAX_LOGICAL_CHARGE"
proof -
  have "expected_charge e \<ge> 4" by (cases e) simp_all
  then show ?thesis
    by (auto simp: validate_expected_charge_def charge_new_def limit_add_eq charge_value_eq max_charge_lt)
qed

lemma render_object_length: "2 \<le> length (render (json_of (AjObject flds)))"
  by simp

lemma root_matches:
  assumes "nodes \<noteq> []" and "root = length nodes - 1"
  shows "(\<exists>d ps. node_matches e nodes root (replicate (length nodes) 0) d ps \<and>
      (d \<le> 64 \<and> ps ! root = 0 \<and> list_all (\<lambda>count. count = 1) (take root ps))) \<longleftrightarrow>
    postorder_tree nodes \<and> tree_at (length nodes) nodes root = Some (json_of e) \<and>
    json_depth (json_of e) \<le> 64 \<and> expected_fine e"
proof -
  define ps where "ps = mark (replicate (length nodes) 0) (descendants nodes root)"
  have idx: "root < length nodes" using assms by (cases nodes) auto
  have len: "length ps = length nodes" by (simp add: ps_def)
  have ones: "list_all (\<lambda>count. count = 1) (take root ps) \<longleftrightarrow> (\<forall>c<root. ps ! c = 1)"
    using idx len by (auto simp: list_all_length)
  have zero: "ps ! root = 0" if "tree_below nodes root = Some (json_of e)"
    using descendants_flow [OF that] idx by (auto simp: ps_def mark_nth)
  have "(\<exists>d ps. node_matches e nodes root (replicate (length nodes) 0) d ps \<and>
        (d \<le> 64 \<and> ps ! root = 0 \<and> list_all (\<lambda>count. count = 1) (take root ps))) \<longleftrightarrow>
      tree_below nodes root = Some (json_of e) \<and> expected_fine e \<and> json_depth (json_of e) \<le> 64 \<and>
      fresh (replicate (length nodes) 0) (descendants nodes root) \<and> (\<forall>c<root. ps ! c = 1)"
    using ones zero by (auto simp: node_matches_def ps_def)
  also have "\<dots> \<longleftrightarrow> tree_below nodes root = Some (json_of e) \<and> expected_fine e \<and>
      json_depth (json_of e) \<le> 64 \<and> postorder_tree nodes"
    using postorder_visits [OF assms, of "json_of e"] by (auto simp: ps_def)
  also have "\<dots> \<longleftrightarrow> postorder_tree nodes \<and> tree_at (length nodes) nodes root = Some (json_of e) \<and>
      json_depth (json_of e) \<le> 64 \<and> expected_fine e"
  proof -
    have "tree_at (length nodes) nodes root = tree_below nodes root" if "postorder_tree nodes"
      by (rule tree_below_at) (use that idx in \<open>auto simp: children_below_def postorder_tree_def list_all_iff\<close>)
    then show ?thesis by auto
  qed
  finally show ?thesis .
qed

text \<open>C38. A prepared document is accepted for an expected body exactly when it is a postorder tree
  (root last, children before parents, every other node referenced once), its tree is the expected
  object in the same field order, the depth is at most 64, every text and key is safe (a derived
  string up to 8 MiB, an ordinary one up to 64 KiB), the keys of every object ascend strictly, and
  charge and length stay within 8 MiB; the bytes returned are the compact rendering of that tree.\<close>

theorem compare_and_serialize_exact:
  "compare_and_serialize expected prepared = Inr body \<longleftrightarrow>
     length (wd_nodes prepared) \<le> 262144 \<and> wd_root prepared = length (wd_nodes prepared) - 1 \<and>
     postorder_tree (wd_nodes prepared) \<and> (\<exists>flds. expected = AjObject flds) \<and>
     tree_at (length (wd_nodes prepared)) (wd_nodes prepared) (wd_root prepared) = Some (json_of expected) \<and>
     json_depth (json_of expected) \<le> 64 \<and> expected_fine expected \<and>
     8 + expected_charge expected \<le> 8 * 1024 * 1024 \<and>
     body = render (json_of expected) \<and> length body \<le> 8 * 1024 * 1024"
proof -
  define nodes where "nodes = wd_nodes prepared"
  define root where "root = wd_root prepared"
  define zeros :: "nat list" where "zeros = replicate (length nodes) 0"
  show ?thesis
  proof (cases "nodes \<noteq> [] \<and> length nodes \<le> 262144 \<and> root = length nodes - 1 \<and> (\<exists>flds. expected = AjObject flds)")
    case True
    then obtain flds where obj: "expected = AjObject flds" by blast
    have idx: "root < length nodes" using True by (cases nodes) auto
    have node: "compare_node expected nodes root zeros = Inr (d, ps) \<longleftrightarrow>
        node_matches expected nodes root zeros d ps" for d ps
      by (rule compare_node_Inr) (use idx in \<open>simp_all add: zeros_def counters_def\<close>)
    define tail where "tail = and_then (validate_expected_charge expected) (\<lambda>_.
      and_then (serialized_length expected) (\<lambda>len.
        if \<not> (2 \<le> len \<and> len \<le> MAX_LOGICAL_CHARGE) then Inl AdapterLimit
        else let out = serialize_value expected [] in
          if length out \<noteq> len then Inl BodyMismatch else Inr out))"
    have tail: "tail = Inr body \<longleftrightarrow> 8 + expected_charge expected \<le> MAX_LOGICAL_CHARGE \<and>
        body = render (json_of expected) \<and> length body \<le> MAX_LOGICAL_CHARGE"
      using validate_expected_charge_Inr [of expected] render_object_length [of flds]
      by (auto simp: tail_def is_ok_iff serialized_length_count count_bytes_def serialize_value_render obj
          max_charge_lt simp del: json_of.simps expected_charge.simps)
    have "compare_and_serialize expected prepared =
        and_then (compare_node expected nodes root zeros) (\<lambda>(depth, parents).
          if depth > 64 \<or> parents ! root \<noteq> 0 \<or> list_ex (\<lambda>count. count \<noteq> 1) (take root parents)
          then Inl BodyMismatch else tail)"
      using True unfolding compare_and_serialize_def tail_def Let_def nodes_def root_def zeros_def
      by (simp add: obj del: compare_node.simps serialize_value.simps serialized_length.simps)
    then have "compare_and_serialize expected prepared = Inr body \<longleftrightarrow>
        (\<exists>d ps. compare_node expected nodes root zeros = Inr (d, ps) \<and>
           (d \<le> 64 \<and> ps ! root = 0 \<and> list_all (\<lambda>count. count = 1) (take root ps))) \<and> tail = Inr body"
      by (auto simp: list_ex_iff list_all_iff not_less split: if_splits)
    then have "compare_and_serialize expected prepared = Inr body \<longleftrightarrow>
        (\<exists>d ps. node_matches expected nodes root zeros d ps \<and>
           (d \<le> 64 \<and> ps ! root = 0 \<and> list_all (\<lambda>count. count = 1) (take root ps))) \<and>
        8 + expected_charge expected \<le> MAX_LOGICAL_CHARGE \<and> body = render (json_of expected) \<and>
        length body \<le> MAX_LOGICAL_CHARGE"
      unfolding node tail .
    also have "(\<exists>d ps. node_matches expected nodes root zeros d ps \<and>
           (d \<le> 64 \<and> ps ! root = 0 \<and> list_all (\<lambda>count. count = 1) (take root ps))) \<longleftrightarrow>
        postorder_tree nodes \<and> tree_at (length nodes) nodes root = Some (json_of expected) \<and>
        json_depth (json_of expected) \<le> 64 \<and> expected_fine expected"
      unfolding zeros_def by (rule root_matches) (use True idx in simp_all)
    finally show ?thesis
      using True by (auto simp: nodes_def root_def max_charge_lt)
  next
    case False
    then show ?thesis
      by (auto simp: compare_and_serialize_def nodes_def root_def postorder_tree_def Let_def
          split: adapter_json.splits if_splits)
  qed
qed

subsection \<open>Source documents\<close>

text \<open>A validated source document is read as its tree, with every string ordinary.\<close>

fun of_json :: "json \<Rightarrow> adapter_json" where
  "of_json JNull = AjNull"
| "of_json (JBool b) = AjBoolean b"
| "of_json (JNumber s) = AjNumber s"
| "of_json (JString s) = ordinary_string s"
| "of_json (JArray ts) = AjArray (map of_json ts)"
| "of_json (JObject fs) = AjObject (map (\<lambda>(k, t). (k, of_json t)) fs)"

lemma json_of_of_json [simp]: "json_of (of_json t) = t"
  by (induction t) (auto simp: ordinary_string_def comp_def split_def prod_set_simps intro!: map_idI)

lemma fuel_fold_collect:
  assumes "list_all2 (\<lambda>x v. f x = Some (Inr v)) xs vs"
  shows "fuel_fold (\<lambda>acc x. fuel_then (f x) (\<lambda>v. Some (Inr (acc @ [g x v])))) acc xs
    = Some (Inr (acc @ map2 g xs vs))"
  using assms by (induction arbitrary: acc rule: list_all2_induct) simp_all

lemma from_wire_node_tree:
  "tree_at fuel nodes index = Some t \<Longrightarrow> from_wire_node fuel nodes index = Some (Inr (of_json t))"
proof (induction fuel arbitrary: index t)
  case 0
  then show ?case by (simp add: tree_at.simps)
next
  case (Suc fuel)
  then have idx: "index < length nodes" by (auto simp: tree_at.simps split: option.splits)
  show ?case
  proof (cases "nodes ! index")
    case (ArrayValue items)
    with Suc.prems idx obtain ts
      where ts: "map (tree_at fuel nodes) items = map Some ts" "t = JArray ts"
      by (auto simp: tree_at.simps nth_opt_def those_eq_Some)
    have "list_all2 (\<lambda>c v. from_wire_node fuel nodes c = Some (Inr v)) items (map of_json ts)"
      using map_Some_nth [OF ts(1)] Suc.IH by (auto simp: list_all2_conv_all_nth)
    from fuel_fold_collect [OF this, of "\<lambda>_ v. v" "[]"] map_Some_nth [OF ts(1)]
    show ?thesis using ArrayValue idx ts(2) by (simp add: nth_opt_def split_def)
  next
    case (ObjectValue flds)
    with Suc.prems idx obtain ts
      where ts: "map (\<lambda>f. tree_at fuel nodes (wf_value f)) flds = map Some ts"
        "t = JObject (zip (map wf_key flds) ts)"
      by (auto simp: tree_at.simps nth_opt_def those_eq_Some)
    have "list_all2 (\<lambda>f v. from_wire_node fuel nodes (wf_value f) = Some (Inr v)) flds (map of_json ts)"
      using map_Some_nth [OF ts(1)] Suc.IH by (auto simp: list_all2_conv_all_nth)
    from fuel_fold_collect [OF this, of "\<lambda>f v. (wf_key f, v)" "[]"]
    show ?thesis using ObjectValue idx ts(2) by (simp add: nth_opt_def zip_map1 zip_map2 split_def comp_def)
  qed (use Suc.prems idx in \<open>auto simp: tree_at.simps nth_opt_def\<close>)
qed

lemma from_wire_tree:
  assumes "validate_wire_json document True = Inr stats" and "length (wd_nodes document) \<le> fuel"
  shows "\<exists>t. tree_at fuel (wd_nodes document) (wd_root document) = Some t \<and>
    from_wire fuel document = Some (Inr (of_json t))"
proof -
  from validated [OF assms(1)] obtain t
    where "tree_at (length (wd_nodes document)) (wd_nodes document) (wd_root document) = Some t"
    by blast
  then have "tree_at fuel (wd_nodes document) (wd_root document) = Some t"
    using assms(2) tree_at_mono by blast
  with assms(1) from_wire_node_tree [OF this] show ?thesis by (simp add: from_wire_def)
qed

end
