(* ===== verification/Hash_Encoding.thy ===== *)
theory Hash_Encoding
  imports Wire_Json
begin

section \<open>Self-delimiting encodings\<close>

text \<open>
  What the canonical digests of \<open>catalog.rs\<close> and \<open>adapter/digest.rs\<close> share. A hasher is the list of
  bytes fed to it; a value is encoded into a string such that an encoding is never a proper prefix of
  another one, so that the concatenation of the encodings determines the values. SHA-256 itself is a
  parameter of the digests.
\<close>

subsection \<open>Lengths, big-endian integers and the digest text\<close>

definition checked_u32_len :: "nat \<Rightarrow> validation_error + nat" where
  "checked_u32_len n = (if n < 2 ^ 32 then Inr n else Inl Limit)"

text \<open>\<open>to_be_bytes\<close> of a \<open>k\<close>-byte integer.\<close>

fun be_bytes :: "nat \<Rightarrow> nat \<Rightarrow> string" where
  "be_bytes 0 n = []"
| "be_bytes (Suc k) n = be_bytes k (n div 256) @ [char_of (n mod 256)]"

definition hex_digit :: "nat \<Rightarrow> char" where
  "hex_digit n = ''0123456789abcdef'' ! n"

definition digest_text :: "string \<Rightarrow> string" where
  "digest_text bytes = fold (\<lambda>byte result.
     result @ [hex_digit (of_char byte div 16), hex_digit (of_char byte mod 16)]) bytes ''sha256:''"

text \<open>Feeding the encodings of a list of values to the hasher.\<close>

definition absorb :: "('a \<Rightarrow> 'e + string) \<Rightarrow> string \<Rightarrow> 'a list \<Rightarrow> 'e + string" where
  "absorb enc hash xs = try_fold (\<lambda>hash x. and_then (enc x) (\<lambda>b. Inr (hash @ b))) hash xs"

lemma absorb_simps [simp]:
  "absorb enc hash [] = Inr hash"
  "absorb enc hash (x # xs) = and_then (enc x) (\<lambda>b. absorb enc (hash @ b) xs)"
proof -
  show "absorb enc hash (x # xs) = and_then (enc x) (\<lambda>b. absorb enc (hash @ b) xs)"
    by (cases "enc x") (simp_all add: absorb_def)
qed (simp add: absorb_def)

lemma absorb_prefix: "absorb enc hash xs = Inr h \<longleftrightarrow> (\<exists>b. h = hash @ b \<and> absorb enc [] xs = Inr b)"
proof -
  have "absorb enc (hash @ g) xs = (case absorb enc g xs of Inl e \<Rightarrow> Inl e | Inr b \<Rightarrow> Inr (hash @ b))" for g
  proof (induction xs arbitrary: g)
    case (Cons x xs)
    then show ?case using Cons.IH [of "g @ _"] by (cases "enc x") (simp_all flip: append_assoc)
  qed simp
  from this [of "[]"] show ?thesis by (auto split: sum.splits)
qed

lemma absorb_Cons:
  "absorb enc [] (x # xs) = Inr a \<longleftrightarrow>
     (\<exists>a1 a2. enc x = Inr a1 \<and> absorb enc [] xs = Inr a2 \<and> a = a1 @ a2)"
proof (cases "enc x")
  case (Inr b)
  then show ?thesis using absorb_prefix [of enc b xs a] by auto
qed simp

subsection \<open>Cancellation\<close>

lemma length_be_bytes [simp]: "length (be_bytes k n) = k"
  by (induction k arbitrary: n) simp_all

lemma be_bytes_inject:
  "n < 256 ^ k \<Longrightarrow> m < 256 ^ k \<Longrightarrow> be_bytes k n = be_bytes k m \<longleftrightarrow> n = m"
proof (induction k arbitrary: n m)
  case (Suc k)
  have "n div 256 < 256 ^ k" "m div 256 < 256 ^ k" using Suc.prems by (simp_all add: less_mult_imp_div_less)
  from Suc.IH [OF this] have "be_bytes (Suc k) n = be_bytes (Suc k) m \<longleftrightarrow>
      n div 256 = m div 256 \<and> n mod 256 = m mod 256"
    by simp
  also have "\<dots> \<longleftrightarrow> n = m" by (metis div_mult_mod_eq)
  finally show ?case .
qed simp

lemma be_bytes_cancel:
  assumes "n < 256 ^ k" and "m < 256 ^ k"
  shows "be_bytes k n @ s = be_bytes k m @ t \<longleftrightarrow> n = m \<and> s = t"
  using be_bytes_inject [OF assms] by simp

lemma be_bytes_width [simp]:
  "n < 4294967296 \<Longrightarrow> m < 4294967296 \<Longrightarrow> be_bytes 4 n = be_bytes 4 m \<longleftrightarrow> n = m"
  "n < 18446744073709551616 \<Longrightarrow> m < 18446744073709551616 \<Longrightarrow> be_bytes 8 n = be_bytes 8 m \<longleftrightarrow> n = m"
  "n < 65536 \<Longrightarrow> m < 65536 \<Longrightarrow> be_bytes 2 n = be_bytes 2 m \<longleftrightarrow> n = m"
  using be_bytes_inject [of n 4 m] be_bytes_inject [of n 8 m] be_bytes_inject [of n 2 m] by simp_all

lemma byte_cancel [simp]:
  "n < 256 \<Longrightarrow> m < 256 \<Longrightarrow> (char_of n :: char) = char_of m \<longleftrightarrow> n = (m :: nat)"
  by (simp add: char_of_eq_iff take_bit_eq_mod)

lemma prefixed_cancel:
  assumes "length v < 4294967296" and "length w < 4294967296"
  shows "be_bytes 4 (length v) @ v @ s = be_bytes 4 (length w) @ w @ t \<longleftrightarrow> v = w \<and> s = t"
  using assms by (simp, metis append_eq_append_conv)

text \<open>The contract of an encoder on the values of its domain; encoders of lists with a known length
  follow.\<close>

locale self_delimiting =
  fixes encode :: "'a \<Rightarrow> 'e + string" and typed :: "'a \<Rightarrow> bool"
  assumes cancel: "typed x \<Longrightarrow> typed y \<Longrightarrow> encode x = Inr a \<Longrightarrow> encode y = Inr b \<Longrightarrow> a @ s = b @ t \<Longrightarrow>
    x = y \<and> s = t"
begin

lemma cancel_list:
  assumes "list_all typed xs" and "list_all typed ys" and "length xs = length ys"
    and "absorb encode [] xs = Inr a" and "absorb encode [] ys = Inr b" and "a @ s = b @ t"
  shows "xs = ys \<and> s = t"
  using assms(3,1,2,4-6)
proof (induction xs ys arbitrary: a b rule: list_induct2)
  case (Cons x xs y ys)
  from Cons.prems(3) obtain a1 a2
    where a: "encode x = Inr a1" "absorb encode [] xs = Inr a2" "a = a1 @ a2"
    by (auto simp only: absorb_Cons)
  from Cons.prems(4) obtain b1 b2
    where b: "encode y = Inr b1" "absorb encode [] ys = Inr b2" "b = b1 @ b2"
    by (auto simp only: absorb_Cons)
  have "x = y \<and> a2 @ s = b2 @ t"
    by (rule cancel [OF _ _ a(1) b(1)]) (use Cons.prems a b in auto)
  moreover have "xs = ys \<and> s = t" if "a2 @ s = b2 @ t"
    by (rule Cons.IH [OF _ _ a(2) b(2) that]) (use Cons.prems in auto)
  ultimately show ?case by blast
qed simp

end

text \<open>The digest text determines the digest bytes.\<close>

lemma digest_text_eq: "digest_text bytes = ''sha256:'' @
    concat (map (\<lambda>b. [hex_digit (of_char b div 16), hex_digit (of_char b mod 16)]) bytes)"
proof -
  have "fold (\<lambda>byte result. result @ [hex_digit (of_char byte div 16), hex_digit (of_char byte mod 16)]) bs out
      = out @ concat (map (\<lambda>b. [hex_digit (of_char b div 16), hex_digit (of_char b mod 16)]) bs)" for bs out
    by (induction bs arbitrary: out) simp_all
  then show ?thesis by (simp add: digest_text_def)
qed

lemma hex_digit_inject: "n < 16 \<Longrightarrow> m < 16 \<Longrightarrow> hex_digit n = hex_digit m \<longleftrightarrow> n = m"
proof -
  have "distinct ''0123456789abcdef''" by simp
  moreover assume "n < 16" "m < 16"
  ultimately show ?thesis unfolding hex_digit_def by (intro nth_eq_iff_index_eq) simp_all
qed

lemma digest_text_inject: "digest_text a = digest_text b \<longleftrightarrow> a = b"
proof -
  let ?f = "\<lambda>b :: char. [hex_digit (of_char b div 16), hex_digit (of_char b mod 16)]"
  have byte: "x = y" if "?f x = ?f y" for x y
  proof -
    have "(of_char x :: nat) div 16 < 16" "(of_char y :: nat) div 16 < 16"
      using nat_of_char_less_256 [of x] nat_of_char_less_256 [of y] by linarith+
    with that have "(of_char x :: nat) div 16 = of_char y div 16" "(of_char x :: nat) mod 16 = of_char y mod 16"
      by (auto simp: hex_digit_inject)
    then have "(of_char x :: nat) = of_char y" by (metis div_mult_mod_eq)
    then show ?thesis by simp
  qed
  have "concat (map ?f a) = concat (map ?f b) \<Longrightarrow> a = b"
  proof (induction a arbitrary: b)
    case Nil
    then show ?case by (cases b) simp_all
  next
    case (Cons x a)
    then obtain y c where b: "b = y # c" by (cases b) auto
    have "x = y" by (rule byte) (use Cons.prems b in simp)
    moreover have "a = c" by (rule Cons.IH) (use Cons.prems b in simp)
    ultimately show ?case by (simp add: b)
  qed
  then show ?thesis by (auto simp: digest_text_eq)
qed

end
