(* ===== verification/Provider_Catalog.thy ===== *)
theory Provider_Catalog
  imports Hash_Encoding
begin

section \<open>Provider catalogs\<close>

text \<open>
  \<open>mcode-plugin-host/src/provider_validation/catalog.rs\<close>: validation of the descriptor and of the pages
  of a guest's model catalog, and the canonical digest of a catalog. The types are those of the
  Provider interface (\<open>provider.wit\<close>). SHA-256 is a parameter: a function from the bytes fed to the
  hasher to the digest bytes.
\<close>

subsection \<open>The interface types\<close>

datatype model_selection = Exact string | Alias string
datatype capability_support = CapUnknown | CapUnsupported | CapSupported
datatype input_modality = ModalityUnknown | ModalityText | ModalityImage

record catalog_revision =
  crv_last_modified :: nat
  crv_content_digest :: string

record tool_capability =
  tcap_tools :: capability_support
  tcap_auto_choice :: capability_support
  tcap_none_choice :: capability_support
  tcap_specific_choice :: capability_support

record reasoning_capability =
  rcap_reasoning :: capability_support
  rcap_effort :: capability_support
  rcap_budget :: capability_support
  rcap_proof :: capability_support

record metadata_entry =
  me_selection :: model_selection
  me_display_name :: "string option"
  me_input_modalities :: "input_modality list"
  me_tool_capability :: tool_capability
  me_reasoning_capability :: reasoning_capability
  me_context_tokens :: "nat option"
  me_max_output_tokens :: "nat option"

record metadata_view =
  mv_revision :: catalog_revision
  mv_entries :: "metadata_entry list"

datatype catalog_source = Embedded | Verified metadata_view

record descriptor_request =
  dr_provider_id :: string
  dr_route_id :: string
  dr_catalog_source :: catalog_source

record provider_descriptor =
  pd_provider_id :: string
  pd_route_id :: string
  pd_source_revision :: "catalog_revision option"
  pd_catalog_digest :: string
  pd_model_count :: nat

record catalog_entry =
  ce_selection :: model_selection
  ce_current_model :: string
  ce_display_name :: "string option"
  ce_input_modalities :: "input_modality list"
  ce_tool_capability :: tool_capability
  ce_reasoning_capability :: reasoning_capability
  ce_context_tokens :: "nat option"
  ce_max_output_tokens :: "nat option"
  ce_completion_operation :: string

record catalog_request =
  cq_provider_id :: string
  cq_route_id :: string
  cq_catalog_source :: catalog_source
  cq_catalog_digest :: string
  cq_offset :: nat
  cq_limit :: nat

record catalog_page =
  cp_provider_id :: string
  cp_route_id :: string
  cp_source_revision :: "catalog_revision option"
  cp_catalog_digest :: string
  cp_declared_count :: nat
  cp_offset :: nat
  cp_entries :: "catalog_entry list"
  cp_next_offset :: "nat option"

record auth_request =
  ar_provider_id :: string
  ar_route_id :: string

record auth_instructions =
  ai_title :: string
  ai_steps :: "string list"

datatype auth_response = NotRequired | Instructions auth_instructions

subsection \<open>Comparisons and ordinals\<close>

definition MAX_CATALOG_ENTRIES :: nat where "MAX_CATALOG_ENTRIES = 4096"
definition MAX_CATALOG_PAGE_ENTRIES :: nat where "MAX_CATALOG_PAGE_ENTRIES = 256"

fun same_selection :: "model_selection \<Rightarrow> model_selection \<Rightarrow> bool" where
  "same_selection (Exact left) (Exact right) = (left = right)"
| "same_selection (Alias left) (Alias right) = (left = right)"
| "same_selection _ _ = False"

definition is_supported :: "capability_support \<Rightarrow> bool" where
  "is_supported v = (case v of CapSupported \<Rightarrow> True | _ \<Rightarrow> False)"

definition capability_ordinal :: "capability_support \<Rightarrow> nat" where
  "capability_ordinal v = (case v of CapUnknown \<Rightarrow> 0 | CapUnsupported \<Rightarrow> 1 | CapSupported \<Rightarrow> 2)"

definition modality_ordinal :: "input_modality \<Rightarrow> nat" where
  "modality_ordinal v = (case v of ModalityUnknown \<Rightarrow> 0 | ModalityText \<Rightarrow> 1 | ModalityImage \<Rightarrow> 2)"

definition same_tool_capability :: "tool_capability \<Rightarrow> tool_capability \<Rightarrow> bool" where
  "same_tool_capability left right \<longleftrightarrow>
     capability_ordinal (tcap_tools left) = capability_ordinal (tcap_tools right) \<and>
     capability_ordinal (tcap_auto_choice left) = capability_ordinal (tcap_auto_choice right) \<and>
     capability_ordinal (tcap_none_choice left) = capability_ordinal (tcap_none_choice right) \<and>
     capability_ordinal (tcap_specific_choice left) = capability_ordinal (tcap_specific_choice right)"

definition same_reasoning_capability :: "reasoning_capability \<Rightarrow> reasoning_capability \<Rightarrow> bool" where
  "same_reasoning_capability left right \<longleftrightarrow>
     capability_ordinal (rcap_reasoning left) = capability_ordinal (rcap_reasoning right) \<and>
     capability_ordinal (rcap_effort left) = capability_ordinal (rcap_effort right) \<and>
     capability_ordinal (rcap_budget left) = capability_ordinal (rcap_budget right) \<and>
     capability_ordinal (rcap_proof left) = capability_ordinal (rcap_proof right)"

definition same_modalities :: "input_modality list \<Rightarrow> input_modality list \<Rightarrow> bool" where
  "same_modalities left right \<longleftrightarrow> length left = length right \<and>
     list_all (\<lambda>(left, right). modality_ordinal left = modality_ordinal right) (zip left right)"

definition same_revision :: "catalog_revision \<Rightarrow> catalog_revision \<Rightarrow> bool" where
  "same_revision left right \<longleftrightarrow> crv_last_modified left = crv_last_modified right \<and>
     crv_content_digest left = crv_content_digest right"

definition same_metadata_entry :: "metadata_entry \<Rightarrow> metadata_entry \<Rightarrow> bool" where
  "same_metadata_entry left right \<longleftrightarrow>
     same_selection (me_selection left) (me_selection right) \<and>
     me_display_name left = me_display_name right \<and>
     same_modalities (me_input_modalities left) (me_input_modalities right) \<and>
     same_tool_capability (me_tool_capability left) (me_tool_capability right) \<and>
     same_reasoning_capability (me_reasoning_capability left) (me_reasoning_capability right) \<and>
     me_context_tokens left = me_context_tokens right \<and>
     me_max_output_tokens left = me_max_output_tokens right"

definition same_metadata_entries :: "metadata_entry list \<Rightarrow> metadata_entry list \<Rightarrow> bool" where
  "same_metadata_entries left right \<longleftrightarrow> length left = length right \<and>
     list_all (\<lambda>(left, right). same_metadata_entry left right) (zip left right)"

fun same_source :: "catalog_source \<Rightarrow> catalog_source \<Rightarrow> bool" where
  "same_source Embedded Embedded = True"
| "same_source (Verified left) (Verified right) =
     (same_revision (mv_revision left) (mv_revision right) \<and>
      same_metadata_entries (mv_entries left) (mv_entries right))"
| "same_source _ _ = False"

definition selection_key :: "model_selection \<Rightarrow> nat \<times> string" where
  "selection_key s = (case s of Exact v \<Rightarrow> (0, v) | Alias v \<Rightarrow> (1, v))"

definition compare_key :: "nat \<times> string \<Rightarrow> nat \<times> string \<Rightarrow> ordering" where
  "compare_key left right =
     (case cmp (fst left) (fst right) of Equal \<Rightarrow> cmp (snd left) (snd right) | o' \<Rightarrow> o')"

subsection \<open>Validation\<close>

definition validate_auth_interaction ::
  "auth_request \<Rightarrow> auth_response \<Rightarrow> string \<Rightarrow> string \<Rightarrow> validation_error + unit" where
  "validate_auth_interaction request response expected_provider expected_route =
     and_then (scalar_provider_id (ar_provider_id request)) (\<lambda>_.
     and_then (scalar_route_id (ar_route_id request)) (\<lambda>_.
       if ar_provider_id request \<noteq> expected_provider \<or> ar_route_id request \<noteq> expected_route
       then Inl InvalidArgument
       else (case response of
           NotRequired \<Rightarrow> Inr ()
         | Instructions ins \<Rightarrow>
             and_then (scalar_label (ai_title ins) 256) (\<lambda>_.
               if ai_steps ins = [] then Inl InvalidArgument
               else if length (ai_steps ins) > 32 then Inl Limit
               else try_fold (\<lambda>_ step. scalar_safe step 4096 True) () (ai_steps ins)))))"

definition validate_selection :: "model_selection \<Rightarrow> validation_error + unit" where
  "validate_selection s = (case s of Exact v \<Rightarrow> scalar_model_id v | Alias v \<Rightarrow> scalar_model_alias v)"

definition validate_modalities :: "input_modality list \<Rightarrow> validation_error + unit" where
  "validate_modalities ms =
     (if ms = [] \<or> length ms > 3 then Inl Limit
      else if length ms > 1 \<and> list_ex (\<lambda>m. m = ModalityUnknown) ms then Inl InvalidArgument
      else if any_window2 (\<lambda>a b. modality_ordinal a \<ge> modality_ordinal b) ms then Inl InvalidArgument
      else Inr ())"

definition validate_positive :: "nat option \<Rightarrow> validation_error + unit" where
  "validate_positive v = (if v = Some 0 then Inl InvalidArgument else Inr ())"

definition validate_revision :: "catalog_revision \<Rightarrow> validation_error + unit" where
  "validate_revision r =
     (if crv_last_modified r = 0 \<or> crv_last_modified r > i64_max then Inl InvalidArgument
      else scalar_digest (crv_content_digest r))"

definition validate_display_name :: "string option \<Rightarrow> validation_error + unit" where
  "validate_display_name n = (case n of None \<Rightarrow> Inr () | Some name \<Rightarrow> scalar_label name 256)"

definition validate_catalog_entry :: "catalog_entry \<Rightarrow> validation_error + unit" where
  "validate_catalog_entry entry =
     and_then (validate_selection (ce_selection entry)) (\<lambda>_.
     and_then (scalar_model_id (ce_current_model entry)) (\<lambda>_.
     and_then (validate_display_name (ce_display_name entry)) (\<lambda>_.
     and_then (validate_modalities (ce_input_modalities entry)) (\<lambda>_.
     and_then (validate_positive (ce_context_tokens entry)) (\<lambda>_.
     and_then (validate_positive (ce_max_output_tokens entry)) (\<lambda>_.
     and_then (scalar_operation_id (ce_completion_operation entry)) (\<lambda>_.
       case ce_selection entry of
         Exact model \<Rightarrow> if model \<noteq> ce_current_model entry then Inl InvalidArgument else Inr ()
       | Alias _ \<Rightarrow> Inr ())))))))"

text \<open>The state of the two loops over entries: the previous key and the payloads seen.\<close>

definition next_key ::
  "(nat \<times> string) option \<times> string set \<Rightarrow> model_selection \<Rightarrow>
   validation_error + (nat \<times> string) option \<times> string set" where
  "next_key s selection = (case s of (previous, payloads) \<Rightarrow>
     let key = selection_key selection in
     if (case previous of None \<Rightarrow> False | Some old \<Rightarrow> compare_key old key \<noteq> Less)
     then Inl InvalidArgument
     else if snd key \<in> payloads then Inl InvalidArgument
     else Inr (Some key, insert (snd key) payloads))"

definition validate_metadata_entries :: "metadata_entry list \<Rightarrow> validation_error + unit" where
  "validate_metadata_entries entries =
     and_then (try_fold (\<lambda>s entry.
         and_then (validate_selection (me_selection entry)) (\<lambda>_.
         and_then (validate_display_name (me_display_name entry)) (\<lambda>_.
         and_then (validate_modalities (me_input_modalities entry)) (\<lambda>_.
         and_then (validate_positive (me_context_tokens entry)) (\<lambda>_.
         and_then (validate_positive (me_max_output_tokens entry)) (\<lambda>_.
           next_key s (me_selection entry)))))))
       (None, {}) entries) (\<lambda>_. Inr ())"

definition validate_catalog_entries :: "catalog_entry list \<Rightarrow> validation_error + unit" where
  "validate_catalog_entries entries =
     (if length entries > MAX_CATALOG_ENTRIES then Inl Limit
      else and_then (try_fold (\<lambda>s entry.
          and_then (validate_catalog_entry entry) (\<lambda>_. next_key s (ce_selection entry)))
        (None, {}) entries) (\<lambda>_. Inr ()))"

definition validate_catalog_source :: "catalog_source \<Rightarrow> validation_error + unit" where
  "validate_catalog_source source = (case source of
       Embedded \<Rightarrow> Inr ()
     | Verified view \<Rightarrow>
         and_then (validate_revision (mv_revision view)) (\<lambda>_.
           if length (mv_entries view) > MAX_CATALOG_ENTRIES then Inl Limit
           else validate_metadata_entries (mv_entries view)))"

fun validate_source_revision :: "catalog_source \<Rightarrow> catalog_revision option \<Rightarrow> validation_error + unit" where
  "validate_source_revision Embedded None = Inr ()"
| "validate_source_revision (Verified view) (Some actual) =
     and_then (validate_revision actual) (\<lambda>_.
       if same_revision (mv_revision view) actual then Inr () else Inl InvalidArgument)"
| "validate_source_revision _ _ = Inl InvalidArgument"

definition validate_descriptor :: "descriptor_request \<Rightarrow> provider_descriptor \<Rightarrow> validation_error + unit" where
  "validate_descriptor request descriptor =
     and_then (scalar_provider_id (dr_provider_id request)) (\<lambda>_.
     and_then (scalar_route_id (dr_route_id request)) (\<lambda>_.
     and_then (validate_catalog_source (dr_catalog_source request)) (\<lambda>_.
     and_then (scalar_provider_id (pd_provider_id descriptor)) (\<lambda>_.
     and_then (scalar_route_id (pd_route_id descriptor)) (\<lambda>_.
     and_then (scalar_digest (pd_catalog_digest descriptor)) (\<lambda>_.
       if pd_model_count descriptor > MAX_CATALOG_ENTRIES then Inl Limit
       else if dr_provider_id request \<noteq> pd_provider_id descriptor \<or>
               dr_route_id request \<noteq> pd_route_id descriptor then Inl InvalidArgument
       else validate_source_revision (dr_catalog_source request) (pd_source_revision descriptor)))))))"

definition validate_catalog_request ::
  "descriptor_request \<Rightarrow> provider_descriptor \<Rightarrow> catalog_request \<Rightarrow> validation_error + unit" where
  "validate_catalog_request descriptor_request descriptor request =
     and_then (validate_descriptor descriptor_request descriptor) (\<lambda>_.
     and_then (scalar_provider_id (cq_provider_id request)) (\<lambda>_.
     and_then (scalar_route_id (cq_route_id request)) (\<lambda>_.
     and_then (scalar_digest (cq_catalog_digest request)) (\<lambda>_.
     and_then (validate_catalog_source (cq_catalog_source request)) (\<lambda>_.
       if cq_limit request = 0 \<or> cq_limit request > MAX_CATALOG_PAGE_ENTRIES then Inl Limit
       else if cq_provider_id request \<noteq> pd_provider_id descriptor \<or>
               cq_route_id request \<noteq> pd_route_id descriptor \<or>
               cq_catalog_digest request \<noteq> pd_catalog_digest descriptor \<or>
               cq_offset request > pd_model_count descriptor \<or>
               \<not> same_source (dr_catalog_source descriptor_request) (cq_catalog_source request)
       then Inl InvalidArgument
       else Inr ())))))"

definition validate_catalog_page ::
  "descriptor_request \<Rightarrow> provider_descriptor \<Rightarrow> catalog_request \<Rightarrow> catalog_page \<Rightarrow>
   validation_error + unit" where
  "validate_catalog_page descriptor_request descriptor request page =
     and_then (validate_catalog_request descriptor_request descriptor request) (\<lambda>_.
     and_then (scalar_provider_id (cp_provider_id page)) (\<lambda>_.
     and_then (scalar_route_id (cp_route_id page)) (\<lambda>_.
     and_then (scalar_digest (cp_catalog_digest page)) (\<lambda>_.
     and_then (validate_source_revision (cq_catalog_source request) (cp_source_revision page)) (\<lambda>_.
       if cp_provider_id page \<noteq> cq_provider_id request \<or> cp_route_id page \<noteq> cq_route_id request \<or>
          cp_catalog_digest page \<noteq> cq_catalog_digest request \<or>
          cp_declared_count page \<noteq> pd_model_count descriptor \<or> cp_offset page \<noteq> cq_offset request
       then Inl InvalidArgument
       else if length (cp_entries page) > cq_limit request then Inl Limit
       else
         and_then (validate_catalog_entries (cp_entries page)) (\<lambda>_.
         and_then (if length (cp_entries page) < 2 ^ 32 then Inr (length (cp_entries page)) else Inl Limit)
           (\<lambda>entry_count.
         and_then (ok_or (checked_add 32 (cp_offset page) entry_count) Limit) (\<lambda>computed.
           if computed > cp_declared_count page then Inl InvalidArgument
           else let expected_next = (if computed < cp_declared_count page then Some computed else None) in
             if expected_next \<noteq> None \<and> cp_entries page = [] then Inl InvalidArgument
             else if cp_next_offset page \<noteq> expected_next then Inl InvalidArgument
             else Inr ()))))))))"

subsection \<open>The catalog digest\<close>

text \<open>Each helper returns the bytes it appends to the hasher.\<close>

definition CATALOG_DOMAIN :: string where
  "CATALOG_DOMAIN = ''mcode-provider-catalog-v1'' @ [CHR 0x00]"

definition hash_bytes :: "string \<Rightarrow> validation_error + string" where
  "hash_bytes v = and_then (checked_u32_len (length v)) (\<lambda>n. Inr (be_bytes 4 n @ v))"

definition hash_option_string :: "string option \<Rightarrow> validation_error + string" where
  "hash_option_string v = (case v of
       None \<Rightarrow> Inr [char_of (0 :: nat)]
     | Some s \<Rightarrow> and_then (hash_bytes s) (\<lambda>b. Inr (char_of (1 :: nat) # b)))"

definition hash_option_u64 :: "nat option \<Rightarrow> string" where
  "hash_option_u64 v = (case v of
       None \<Rightarrow> [char_of (0 :: nat)] | Some n \<Rightarrow> char_of (1 :: nat) # be_bytes 8 n)"

definition hash_tool_capability :: "tool_capability \<Rightarrow> string" where
  "hash_tool_capability v = map (\<lambda>c. char_of (capability_ordinal c))
     [tcap_tools v, tcap_auto_choice v, tcap_none_choice v, tcap_specific_choice v]"

definition hash_reasoning_capability :: "reasoning_capability \<Rightarrow> string" where
  "hash_reasoning_capability v = map (\<lambda>c. char_of (capability_ordinal c))
     [rcap_reasoning v, rcap_effort v, rcap_budget v, rcap_proof v]"

definition hash_catalog_entry :: "catalog_entry \<Rightarrow> validation_error + string" where
  "hash_catalog_entry entry =
     (let (tag, payload) = selection_key (ce_selection entry) in
      and_then (hash_bytes payload) (\<lambda>payload.
      and_then (hash_bytes (ce_current_model entry)) (\<lambda>current.
      and_then (hash_option_string (ce_display_name entry)) (\<lambda>name.
      and_then (checked_u32_len (length (ce_input_modalities entry))) (\<lambda>count.
      and_then (hash_bytes (ce_completion_operation entry)) (\<lambda>operation.
        Inr ([char_of tag] @ payload @ current @ name @ be_bytes 4 count @
          map (\<lambda>m. char_of (modality_ordinal m)) (ce_input_modalities entry) @
          hash_tool_capability (ce_tool_capability entry) @
          hash_reasoning_capability (ce_reasoning_capability entry) @
          hash_option_u64 (ce_context_tokens entry) @ hash_option_u64 (ce_max_output_tokens entry) @
          operation)))))))"

definition catalog_preimage :: "string \<Rightarrow> string \<Rightarrow> catalog_entry list \<Rightarrow> validation_error + string" where
  "catalog_preimage provider_id route_id entries =
     and_then (checked_u32_len (length entries)) (\<lambda>count.
     and_then (hash_bytes provider_id) (\<lambda>provider.
     and_then (hash_bytes route_id) (\<lambda>route.
       absorb hash_catalog_entry (CATALOG_DOMAIN @ provider @ route @ be_bytes 4 count) entries)))"

definition catalog_digest ::
  "(string \<Rightarrow> string) \<Rightarrow> string \<Rightarrow> string \<Rightarrow> catalog_entry list \<Rightarrow> validation_error + string" where
  "catalog_digest sha256 provider_id route_id entries =
     and_then (scalar_provider_id provider_id) (\<lambda>_.
     and_then (scalar_route_id route_id) (\<lambda>_.
     and_then (validate_catalog_entries entries) (\<lambda>_.
     and_then (catalog_preimage provider_id route_id entries) (\<lambda>input.
       case sha256_digest_parse (digest_text (sha256 input)) of
         Inl _ \<Rightarrow> Inl InvalidArgument | Inr d \<Rightarrow> Inr d))))"

subsection \<open>The hand-written comparisons are equality\<close>

lemma ordinals_inject [simp]:
  "capability_ordinal a = capability_ordinal b \<longleftrightarrow> a = b"
  "modality_ordinal m = modality_ordinal n \<longleftrightarrow> m = n"
  by (auto simp: capability_ordinal_def modality_ordinal_def split: capability_support.splits input_modality.splits)

lemma ordinals_bytes [simp]: "capability_ordinal a < 256" "modality_ordinal m < 256"
  by (auto simp: capability_ordinal_def modality_ordinal_def split: capability_support.splits input_modality.splits)

lemma same_selection_eq [simp]: "same_selection a b \<longleftrightarrow> a = b"
  by (cases a; cases b) simp_all

lemma same_capabilities_eq [simp]:
  "same_tool_capability a b \<longleftrightarrow> a = b" "same_reasoning_capability c d \<longleftrightarrow> c = d"
  by (auto simp: same_tool_capability_def same_reasoning_capability_def)

lemma zip_all_eq:
  "length xs = length ys \<and> list_all (\<lambda>(x, y). P x y) (zip xs ys) \<longleftrightarrow> list_all2 P xs ys"
  by (auto simp: list_all2_iff list_all_iff)

lemma same_lists_eq [simp]:
  "same_modalities ms ns \<longleftrightarrow> ms = ns" "same_revision r r' \<longleftrightarrow> r = r'"
  "same_metadata_entry e f \<longleftrightarrow> e = f" "same_metadata_entries es fs \<longleftrightarrow> es = fs"
proof -
  show mods: "same_modalities ms ns \<longleftrightarrow> ms = ns" for ms ns
    unfolding same_modalities_def zip_all_eq by (simp add: list_all2_eq)
  show ents: "same_metadata_entry e f \<longleftrightarrow> e = f" for e f
    by (auto simp: same_metadata_entry_def mods)
  show "same_metadata_entries es fs \<longleftrightarrow> es = fs"
    unfolding same_metadata_entries_def zip_all_eq
    by (subst ents [abs_def]) (simp add: list_all2_eq)
qed (auto simp: same_revision_def)

lemma same_source_eq [simp]: "same_source a b \<longleftrightarrow> a = b"
  by (cases a; cases b) auto

lemma compare_key_less: "compare_key a b = Less \<longleftrightarrow> a < b"
  by (cases a; cases b) (auto simp: compare_key_def cmp_def less_prod_simp split: ordering.splits)

subsection \<open>The hashed bytes determine the catalog\<close>

definition entry_typed :: "catalog_entry \<Rightarrow> bool" where
  "entry_typed e \<longleftrightarrow> (\<forall>n. ce_context_tokens e = Some n \<longrightarrow> n < 2 ^ 64) \<and>
     (\<forall>n. ce_max_output_tokens e = Some n \<longrightarrow> n < 2 ^ 64)"

lemma checked_u32_len_Inr [simp]: "checked_u32_len n = Inr m \<longleftrightarrow> m = n \<and> n < 4294967296"
  by (auto simp: checked_u32_len_def)

lemma hash_bytes_Inr: "hash_bytes v = Inr b \<longleftrightarrow> length v < 4294967296 \<and> b = be_bytes 4 (length v) @ v"
  by (auto simp: hash_bytes_def)

lemma hash_bytes_cancel:
  assumes "hash_bytes v = Inr a" and "hash_bytes w = Inr b" and "a @ s = b @ t"
  shows "v = w \<and> s = t"
  using assms prefixed_cancel [of v w s t] unfolding hash_bytes_Inr
  by (elim conjE) (simp only: append_assoc simp_thms)

lemma option_string_cancel:
  assumes "hash_option_string v = Inr a" and "hash_option_string w = Inr b" and "a @ s = b @ t"
  shows "v = w \<and> s = t"
proof (cases "\<exists>x y. v = Some x \<and> w = Some y")
  case True
  then obtain x y a' b' where "v = Some x" "w = Some y" "hash_bytes x = Inr a'" "hash_bytes y = Inr b'"
    and "a' @ s = b' @ t"
    using assms by (auto simp: hash_option_string_def)
  then show ?thesis using hash_bytes_cancel [of x a' y b' s t] by simp
next
  case False
  then show ?thesis using assms by (cases v; cases w) (auto simp: hash_option_string_def)
qed

lemma option_u64_cancel:
  assumes "\<forall>n. v = Some n \<longrightarrow> n < 2 ^ 64" and "\<forall>n. w = Some n \<longrightarrow> n < 2 ^ 64"
    and "hash_option_u64 v @ s = hash_option_u64 w @ t"
  shows "v = w \<and> s = t"
  using assms by (auto simp: hash_option_u64_def split: option.splits)

lemma capabilities_cancel:
  "hash_tool_capability v @ s = hash_tool_capability w @ t \<Longrightarrow> v = w \<and> s = t"
  "hash_reasoning_capability c @ s = hash_reasoning_capability d @ t \<Longrightarrow> c = d \<and> s = t"
  by (auto simp: hash_tool_capability_def hash_reasoning_capability_def)

lemma modalities_cancel:
  assumes "length ms < 4294967296" and "length ns < 4294967296"
    and "be_bytes 4 (length ms) @ map (\<lambda>m. char_of (modality_ordinal m)) ms @ s
       = be_bytes 4 (length ns) @ map (\<lambda>m. char_of (modality_ordinal m)) ns @ t"
  shows "ms = ns \<and> s = t"
proof -
  have "length ms = length ns" and eq: "map (\<lambda>m. char_of (modality_ordinal m) :: char) ms @ s = map (\<lambda>m. char_of (modality_ordinal m)) ns @ t"
    using be_bytes_cancel [THEN iffD1, OF _ _ assms(3)] assms(1,2) by simp_all
  then have "map (\<lambda>m. char_of (modality_ordinal m) :: char) ms = map (\<lambda>m. char_of (modality_ordinal m)) ns \<and> s = t"
    by simp
  moreover have "inj (\<lambda>m. char_of (modality_ordinal m) :: char)" by (auto intro: injI)
  ultimately show ?thesis by (metis inj_map_eq_map)
qed

lemma selection_key_inject: "selection_key a = selection_key b \<Longrightarrow> a = b"
  by (auto simp: selection_key_def split: model_selection.splits)

lemma selection_tag: "fst (selection_key a) < 256"
  by (simp add: selection_key_def split: model_selection.split)

lemma catalog_entry_cancel:
  assumes "entry_typed x" and "entry_typed y"
    and "hash_catalog_entry x = Inr a" and "hash_catalog_entry y = Inr b" and "a @ s = b @ t"
  shows "x = y \<and> s = t"
proof -
  from assms(3) obtain p c n o' where x: "hash_bytes (snd (selection_key (ce_selection x))) = Inr p"
      "hash_bytes (ce_current_model x) = Inr c" "hash_option_string (ce_display_name x) = Inr n"
      "hash_bytes (ce_completion_operation x) = Inr o'"
      "length (ce_input_modalities x) < 4294967296"
      "a = char_of (fst (selection_key (ce_selection x))) # p @ c @ n @ be_bytes 4 (length (ce_input_modalities x)) @
          map (\<lambda>m. char_of (modality_ordinal m)) (ce_input_modalities x) @
          hash_tool_capability (ce_tool_capability x) @ hash_reasoning_capability (ce_reasoning_capability x) @
          hash_option_u64 (ce_context_tokens x) @ hash_option_u64 (ce_max_output_tokens x) @ o'"
    by (auto simp: hash_catalog_entry_def split_def Let_def)
  from assms(4) obtain p' c' n' q' where y: "hash_bytes (snd (selection_key (ce_selection y))) = Inr p'"
      "hash_bytes (ce_current_model y) = Inr c'" "hash_option_string (ce_display_name y) = Inr n'"
      "hash_bytes (ce_completion_operation y) = Inr q'"
      "length (ce_input_modalities y) < 4294967296"
      "b = char_of (fst (selection_key (ce_selection y))) # p' @ c' @ n' @ be_bytes 4 (length (ce_input_modalities y)) @
          map (\<lambda>m. char_of (modality_ordinal m)) (ce_input_modalities y) @
          hash_tool_capability (ce_tool_capability y) @ hash_reasoning_capability (ce_reasoning_capability y) @
          hash_option_u64 (ce_context_tokens y) @ hash_option_u64 (ce_max_output_tokens y) @ q'"
    by (auto simp: hash_catalog_entry_def split_def Let_def)
  note eq = assms(5) [unfolded x(6) y(6) append_Cons append_assoc list.inject]
  have tag: "fst (selection_key (ce_selection x)) = fst (selection_key (ce_selection y))"
    using eq selection_tag by simp
  note 1 = hash_bytes_cancel [OF x(1) y(1) eq [THEN conjunct2]]
  note 2 = hash_bytes_cancel [OF x(2) y(2) 1 [THEN conjunct2]]
  note 3 = option_string_cancel [OF x(3) y(3) 2 [THEN conjunct2]]
  note 4 = modalities_cancel [OF x(5) y(5) 3 [THEN conjunct2]]
  note 5 = capabilities_cancel(1) [OF 4 [THEN conjunct2]]
  note 6 = capabilities_cancel(2) [OF 5 [THEN conjunct2]]
  note typed = assms(1,2) [unfolded entry_typed_def]
  note 7 = option_u64_cancel [OF typed(1) [THEN conjunct1] typed(2) [THEN conjunct1] 6 [THEN conjunct2]]
  note 8 = option_u64_cancel [OF typed(1) [THEN conjunct2] typed(2) [THEN conjunct2] 7 [THEN conjunct2]]
  note 9 = hash_bytes_cancel [OF x(4) y(4) 8 [THEN conjunct2]]
  have "ce_selection x = ce_selection y" by (rule selection_key_inject) (use tag 1 in \<open>simp add: prod_eq_iff\<close>)
  then show ?thesis using 2 3 4 5 6 7 8 9 by simp
qed

interpretation catalog_entries: self_delimiting hash_catalog_entry entry_typed
  by unfold_locales (rule catalog_entry_cancel)

lemma catalog_preimage_inject:
  assumes "catalog_preimage p r es = Inr a" and "catalog_preimage p' r' es' = Inr a"
    and "list_all entry_typed es" and "list_all entry_typed es'"
  shows "p = p' \<and> r = r' \<and> es = es'"
proof -
  from assms(1) obtain hp hr body where x: "hash_bytes p = Inr hp" "hash_bytes r = Inr hr"
      "length es < 4294967296" "absorb hash_catalog_entry [] es = Inr body"
      "a = CATALOG_DOMAIN @ hp @ hr @ be_bytes 4 (length es) @ body"
    by (auto simp: catalog_preimage_def absorb_prefix [of _ "CATALOG_DOMAIN @ _"])
  from assms(2) obtain hp' hr' body' where y: "hash_bytes p' = Inr hp'" "hash_bytes r' = Inr hr'"
      "length es' < 4294967296" "absorb hash_catalog_entry [] es' = Inr body'"
      "a = CATALOG_DOMAIN @ hp' @ hr' @ be_bytes 4 (length es') @ body'"
    by (auto simp: catalog_preimage_def absorb_prefix [of _ "CATALOG_DOMAIN @ _"])
  have "hp @ hr @ be_bytes 4 (length es) @ body = hp' @ hr' @ be_bytes 4 (length es') @ body'"
    using x(5) y(5) by simp
  note 1 = hash_bytes_cancel [OF x(1) y(1) this]
  note 2 = hash_bytes_cancel [OF x(2) y(2) 1 [THEN conjunct2]]
  have 3: "length es = length es' \<and> body = body'"
    using 2 [THEN conjunct2] x(3) y(3) by simp
  then have "body @ [] = body' @ []" by simp
  from catalog_entries.cancel_list [OF assms(3,4) _ x(4) y(4) this] 3 have "es = es'" by blast
  with 1 2 show ?thesis by blast
qed

lemma catalog_digest_Inr:
  assumes "catalog_digest sha256 p r es = Inr d"
  shows "\<exists>a. catalog_preimage p r es = Inr a \<and> d = digest_text (sha256 a)"
  using assms by (auto simp: catalog_digest_def sha256_digest_parse_def split: sum.splits if_splits)

subsection \<open>Pages\<close>

lemma next_key_Inr:
  "next_key (previous, payloads) sel = Inr s \<longleftrightarrow>
     (\<forall>old. previous = Some old \<longrightarrow> old < selection_key sel) \<and> snd (selection_key sel) \<notin> payloads \<and>
     s = (Some (selection_key sel), insert (snd (selection_key sel)) payloads)"
  by (auto simp: next_key_def Let_def compare_key_less split: option.splits)

definition entries_ordered :: "catalog_entry list \<Rightarrow> bool" where
  "entries_ordered es \<longleftrightarrow> sorted_wrt (<) (map (selection_key \<circ> ce_selection) es) \<and>
     distinct (map (snd \<circ> selection_key \<circ> ce_selection) es) \<and>
     list_all (\<lambda>e. validate_catalog_entry e = Inr ()) es"

lemma sorted_wrt_snoc_last:
  fixes xs :: "'a::linorder list"
  shows "sorted_wrt (<) (xs @ [x]) \<longleftrightarrow> sorted_wrt (<) xs \<and> (xs \<noteq> [] \<longrightarrow> last xs < x)"
  by (induction xs rule: rev_induct) (auto simp: sorted_wrt_append)

lemma validate_catalog_entries_ordered:
  assumes "validate_catalog_entries es = Inr ()"
  shows "entries_ordered es \<and> length es \<le> 4096"
proof -
  define P where "P ys s = (entries_ordered ys \<and>
    fst s = (if ys = [] then None else Some (selection_key (ce_selection (last ys)))) \<and>
    snd s = set (map (snd \<circ> selection_key \<circ> ce_selection) ys))" for ys and s :: "(nat \<times> string) option \<times> string set"
  from assms obtain s where run: "try_fold (\<lambda>s entry.
      and_then (validate_catalog_entry entry) (\<lambda>_. next_key s (ce_selection entry))) (None, {}) es = Inr s"
    and len: "length es \<le> 4096"
    by (auto simp: validate_catalog_entries_def MAX_CATALOG_ENTRIES_def split: if_splits)
  have "P es s" using run
  proof (rule try_fold_prefix)
    show "P [] (None, {})" by (simp add: P_def entries_ordered_def)
    show "P (ys @ [x]) t" if "P ys u"
      "and_then (validate_catalog_entry x) (\<lambda>_. next_key u (ce_selection x)) = Inr t" for ys x u t
      using that by (cases u) (auto simp: P_def entries_ordered_def next_key_Inr last_map
          map_append sorted_wrt_snoc_last simp del: sorted_wrt_append split_paired_All split: if_splits)
  qed
  with len show ?thesis by (simp add: P_def)
qed

lemma page_advances:
  assumes "validate_catalog_page dreq d req page = Inr ()"
  shows "cp_offset page = cq_offset req \<and> entries_ordered (cp_entries page) \<and>
    cq_offset req + length (cp_entries page) \<le> pd_model_count d \<and>
    cp_next_offset page = (if cq_offset req + length (cp_entries page) < pd_model_count d
      then Some (cq_offset req + length (cp_entries page)) else None) \<and>
    (cp_next_offset page \<noteq> None \<longrightarrow> cp_entries page \<noteq> []) \<and>
    cp_catalog_digest page = pd_catalog_digest d"
  using assms
  by (auto simp: validate_catalog_page_def validate_catalog_request_def Let_def
      dest: validate_catalog_entries_ordered split: if_splits)

text \<open>A client that asks for the offset the last page named, until a page names none.\<close>

inductive page_walk :: "descriptor_request \<Rightarrow> provider_descriptor \<Rightarrow> nat \<Rightarrow> catalog_page list \<Rightarrow> bool"
  for dreq d where
  walk_last: "validate_catalog_page dreq d req page = Inr () \<Longrightarrow> cp_next_offset page = None \<Longrightarrow>
    page_walk dreq d (cq_offset req) [page]"
| walk_next: "validate_catalog_page dreq d req page = Inr () \<Longrightarrow> cp_next_offset page = Some n \<Longrightarrow>
    page_walk dreq d n pages \<Longrightarrow> page_walk dreq d (cq_offset req) (page # pages)"

lemma page_walk_tiles:
  "page_walk dreq d offset pages \<Longrightarrow>
     offset + length (concat (map cp_entries pages)) = pd_model_count d \<and>
     length pages \<le> Suc (pd_model_count d - offset)"
proof (induction rule: page_walk.induct)
  case (walk_last req page)
  then show ?case using page_advances [OF walk_last(1)] by (auto split: if_splits)
next
  case (walk_next req page n pages)
  from page_advances [OF walk_next(1)] walk_next(2)
  have "n = cq_offset req + length (cp_entries page)" "n < pd_model_count d" "cp_entries page \<noteq> []"
    by (auto split: if_splits)
  moreover from this(3) obtain k where "length (cp_entries page) = Suc k"
    by (cases "cp_entries page") auto
  ultimately show ?case using walk_next.IH by auto
qed

subsection \<open>A digest names one catalog\<close>

text \<open>C39. Two catalogs with the same digest are the same catalog: the same provider, route and entries in
  the same order, unless the two texts that were hashed, which differ, have the same SHA-256.\<close>

theorem catalog_digest_canonical:
  assumes "catalog_digest sha256 provider route entries = Inr d"
    and "catalog_digest sha256 provider' route' entries' = Inr d"
    and "list_all entry_typed entries" and "list_all entry_typed entries'"
  shows "(provider = provider' \<and> route = route' \<and> entries = entries') \<or>
    (\<exists>a a'. catalog_preimage provider route entries = Inr a \<and>
       catalog_preimage provider' route' entries' = Inr a' \<and> a \<noteq> a' \<and> sha256 a = sha256 a')"
proof -
  from catalog_digest_Inr [OF assms(1)] obtain a where
    a: "catalog_preimage provider route entries = Inr a" "d = digest_text (sha256 a)" by blast
  from catalog_digest_Inr [OF assms(2)] obtain a' where
    a': "catalog_preimage provider' route' entries' = Inr a'" "d = digest_text (sha256 a')" by blast
  from a(2) a'(2) have "sha256 a = sha256 a'" by (simp add: digest_text_inject)
  with catalog_preimage_inject [OF a(1) _ assms(3,4)] a(1) a'(1) show ?thesis by (cases "a = a'") auto
qed

lemma concat_map_replicate: "concat (map f (replicate n x)) = concat (replicate n (f x))"
  by (induction n) simp_all

lemma digest_text_zeros: "digest_text (replicate n CHR 0x00) = ''sha256:'' @ concat (replicate n ''00'')"
  by (simp only: digest_text_eq concat_map_replicate) (simp add: hex_digit_def)

lemma zero_digits: "length (concat (replicate n ''00'')) = 2 * n"
  "list_all is_lower_hex (concat (replicate n ''00''))"
  by (induction n) (simp_all add: is_lower_hex_def ascii_defs)

lemma empty_catalog_digest:
  assumes "p = ''p'' \<or> p = ''q''"
  shows "catalog_digest (\<lambda>_. replicate 32 CHR 0x00) p ''r'' [] =
    Inr (''sha256:'' @ concat (replicate 32 ''00''))"
  using assms
  by (auto simp: catalog_digest_def catalog_preimage_def digest_text_zeros zero_digits validate_catalog_entries_def
      scalar_provider_id_def scalar_route_id_def map_invalid_Inr is_ok_iff provider_id_parse_def
      route_id_parse_def is_visible_ascii_def ascii_defs hash_bytes_def checked_u32_len_def absorb_def
      sha256_digest_parse_def is_valid_sha256_digest_def MAX_CATALOG_ENTRIES_def Let_def)

theorem catalog_digest_canonical_witness:
  "\<exists>a a'. catalog_preimage ''p'' ''r'' [] = Inr a \<and> catalog_preimage ''q'' ''r'' [] = Inr a' \<and> a \<noteq> a'"
  using catalog_digest_canonical [OF empty_catalog_digest empty_catalog_digest, of "''p''" "''q''"] by auto

end
