(* ===== verification/Provider_Prepare.thy ===== *)
theory Provider_Prepare
  imports Provider_Catalog
begin

section \<open>The validation of a completion input\<close>

text \<open>
  \<open>mcode-plugin-host/src/provider_validation/prepare.rs\<close>: what the host checks of a completion request
  before it reaches a guest (identity, tools, the message history with its tool calls and results,
  images, reasoning proofs, tool choice, reasoning controls), and the grammar of the ordinary headers
  a guest may set. A \<open>LogicalCharge\<close> and the proof-byte counter are locals whose owner propagates the
  error, so they are returned in the result. Byte lists are lists of \<open>8 word\<close>.
\<close>

subsection \<open>The interface types\<close>

datatype image_media_type = Png | Jpeg | Gif | Webp | Tiff

record image_metadata =
  im_width :: nat
  im_height :: nat
  im_frames :: nat

record image_view =
  iv_stamp :: string
  iv_media_type :: image_media_type
  iv_bytes :: "8 word list"
  iv_metadata :: image_metadata

record proof_view =
  pv_stamp :: string
  pv_source_request_id :: string
  pv_source_turn_id :: string
  pv_source_content_index :: nat
  pv_reasoning_kind :: reasoning_kind
  pv_proof :: "8 word list"

record reasoning_block =
  rb_kind :: reasoning_kind
  rb_text :: string
  rb_proof :: "proof_view option"

record tool_call_block =
  tcb_call_id :: string
  tcb_name :: string
  tcb_arguments :: wire_json_document

datatype user_block = UserText string | UserImage image_view
datatype assistant_block = AssistantText string | AssistantReasoning reasoning_block | AssistantToolCall tool_call_block
datatype tool_result_block = ResultText string | ResultImage image_view

record result_message =
  rm_call_id :: string
  rm_blocks :: "tool_result_block list"
  rm_is_error :: bool

datatype provider_message =
    User "user_block list" | Assistant "assistant_block list" | ToolResult result_message

record tool_definition =
  td_name :: string
  td_description :: string
  td_input_schema :: wire_json_document

datatype tool_choice = ChoiceUnset | ChoiceAuto | ChoiceNone | ChoiceSpecific string
datatype reasoning_effort = EffortMinimal | EffortLow | EffortMedium | EffortHigh

record enabled_reasoning =
  er_effort :: "reasoning_effort option"
  er_budget_tokens :: "nat option"

datatype reasoning = ReasoningUnset | ReasoningDisabled | ReasoningEnabled enabled_reasoning
datatype cache_retention = CacheUnset | CacheNone | CacheRequest | CacheSession

record prepare_input =
  pi_provider_id :: string
  pi_route_id :: string
  pi_catalog_digest :: string
  pi_selection :: model_selection
  pi_current_model :: string
  pi_operation_id :: string
  pi_request_id :: string
  pi_turn_id :: string
  pi_system :: "string list"
  pi_messages :: "provider_message list"
  pi_tools :: "tool_definition list"
  pi_tool_choice :: tool_choice
  pi_reasoning :: reasoning
  pi_cache_retention :: cache_retention
  pi_max_output_tokens :: "nat option"

record ordinary_header =
  oh_name :: string
  oh_value :: string

record prepared_request =
  pr_body :: wire_json_document
  pr_ordinary_headers :: "ordinary_header list"

record selected_catalog =
  sc_provider_id :: string
  sc_route_id :: string
  sc_catalog_digest :: string
  sc_entry :: catalog_entry

datatype result_status = StatusSuccess | StatusError

record matched_result =
  mr_call_id :: string
  mr_name :: string
  mr_status :: result_status

record validated_prepare =
  vp_logical_charge :: nat
  vp_matched_tool_results :: "string \<rightharpoonup> matched_result"

subsection \<open>Limits\<close>

definition MAX_SYSTEM_PARTS :: nat where "MAX_SYSTEM_PARTS = 1024"
definition MAX_MESSAGES :: nat where "MAX_MESSAGES = 4096"
definition MAX_TOOLS :: nat where "MAX_TOOLS = 1024"
definition MAX_BLOCKS :: nat where "MAX_BLOCKS = 4096"
definition MAX_IMAGE_BYTES :: nat where "MAX_IMAGE_BYTES = 8 * 1024 * 1024"
definition MAX_PROOF_BYTES :: nat where "MAX_PROOF_BYTES = 64 * 1024"
definition MAX_PROOFS_BYTES :: nat where "MAX_PROOFS_BYTES = 256 * 1024"
definition MAX_IMAGE_DIMENSION :: nat where "MAX_IMAGE_DIMENSION = 16384"
definition MAX_IMAGE_FRAMES :: nat where "MAX_IMAGE_FRAMES = 64"
definition MAX_HEADERS :: nat where "MAX_HEADERS = 32"
definition MAX_HEADER_NAME_BYTES :: nat where "MAX_HEADER_NAME_BYTES = 64"
definition MAX_HEADER_VALUE_BYTES :: nat where "MAX_HEADER_VALUE_BYTES = 4096"

definition PERMANENT_DENY_HEADERS :: "string list" where
  "PERMANENT_DENY_HEADERS =
    [''authorization'', ''proxy-authorization'', ''cookie'', ''set-cookie'', ''x-api-key'', ''api-key'',
     ''cf-aig-authorization'', ''host'', ''content-length'', ''connection'', ''proxy-connection'',
     ''keep-alive'', ''te'', ''trailer'', ''transfer-encoding'', ''upgrade'', ''expect'',
     ''user-agent'', ''origin'', ''referer'', ''forwarded'', ''via'', ''accept-encoding'',
     ''content-encoding'', ''x-http-method-override'', ''x-method-override'', ''x-original-url'',
     ''x-rewrite-url'']"

subsection \<open>Headers\<close>

definition validate_header_name :: "string \<Rightarrow> validation_error + unit" where
  "validate_header_name name =
     (if length name > MAX_HEADER_NAME_BYTES then Inl Limit
      else if name = [] \<or> list_ex (\<lambda>b. \<not> is_ascii_lowercase b \<and> \<not> is_ascii_digit b \<and>
          b \<notin> set (''!#$%&*+-.^_|~'' @ [CHR 0x27, CHR 0x60])) name
      then Inl InvalidArgument
      else Inr ())"

definition is_blank :: "char \<Rightarrow> bool" where
  "is_blank b \<longleftrightarrow> b = CHR '' '' \<or> b = CHR 0x09"

definition validate_header_value :: "string \<Rightarrow> validation_error + unit" where
  "validate_header_value v =
     (if length v > MAX_HEADER_VALUE_BYTES then Inl Limit
      else if (v \<noteq> [] \<and> is_blank (hd v)) \<or> (v \<noteq> [] \<and> is_blank (last v)) \<or>
          list_ex (\<lambda>b. \<not> (b = CHR 0x09 \<or> (CHR '' '' \<le> b \<and> b \<le> CHR ''~''))) v
      then Inl InvalidArgument
      else Inr ())"

definition starts_with :: "string \<Rightarrow> string \<Rightarrow> bool" where
  "starts_with s p \<longleftrightarrow> take (length p) s = p"

definition denied_header :: "string \<Rightarrow> string list \<Rightarrow> bool" where
  "denied_header name reserved_names \<longleftrightarrow>
     name \<in> set PERMANENT_DENY_HEADERS \<or> starts_with name ''x-forwarded-'' \<or>
     starts_with name ''x-amz-'' \<or> name \<in> set reserved_names"

definition check_header ::
  "string list \<Rightarrow> (string \<times> string) option \<times> string set \<Rightarrow> ordinary_header \<Rightarrow>
   validation_error + (string \<times> string) option \<times> string set" where
  "check_header reserved_names s header = (case s of (previous, names) \<Rightarrow>
     and_then (validate_header_name (oh_name header)) (\<lambda>_.
     and_then (validate_header_value (oh_value header)) (\<lambda>_.
       if denied_header (oh_name header) reserved_names \<or> oh_name header \<in> names
       then Inl InvalidArgument
       else let key = (oh_name header, oh_value header) in
         if (case previous of None \<Rightarrow> False | Some old \<Rightarrow> old \<ge> key) then Inl InvalidArgument
         else Inr (Some key, insert (oh_name header) names))))"

definition validate_ordinary_headers ::
  "ordinary_header list \<Rightarrow> string list \<Rightarrow> validation_error + unit" where
  "validate_ordinary_headers headers reserved_names =
     (if length headers > MAX_HEADERS then Inl Limit
      else and_then (try_fold (check_header reserved_names) (None, {}) headers) (\<lambda>_. Inr ()))"

definition validate_prepared_request ::
  "prepared_request \<Rightarrow> string list \<Rightarrow> validation_error + unit" where
  "validate_prepared_request request reserved_names =
     and_then (validate_wire_json (pr_body request) True) (\<lambda>_.
       validate_ordinary_headers (pr_ordinary_headers request) reserved_names)"

subsection \<open>Blocks\<close>

definition validate_list_max :: "nat \<Rightarrow> nat \<Rightarrow> validation_error + unit" where
  "validate_list_max len maximum = (if len > maximum then Inl Limit else Inr ())"

definition validate_nonempty_blocks :: "nat \<Rightarrow> validation_error + unit" where
  "validate_nonempty_blocks len =
     (if len = 0 then Inl InvalidArgument else validate_list_max len MAX_BLOCKS)"

definition validate_text :: "string \<Rightarrow> logical_charge \<Rightarrow> validation_error + logical_charge" where
  "validate_text text charge =
     and_then (scalar_safe text MAX_SAFE_TEXT_BYTES True) (\<lambda>_. charge_string charge text)"

definition same_reasoning_kind :: "reasoning_kind \<Rightarrow> reasoning_kind \<Rightarrow> bool" where
  "same_reasoning_kind left right = (case (left, right) of
       (Thinking, Thinking) \<Rightarrow> True | (Summary, Summary) \<Rightarrow> True | _ \<Rightarrow> False)"

definition validate_reasoning_block ::
  "reasoning_block \<Rightarrow> catalog_entry \<Rightarrow> logical_charge \<times> nat \<Rightarrow>
   validation_error + logical_charge \<times> nat" where
  "validate_reasoning_block block selected s = (case s of (charge, proof_bytes) \<Rightarrow>
     if \<not> is_supported (rcap_reasoning (ce_reasoning_capability selected)) then Inl InvalidArgument
     else
       and_then (charge_add charge 4) (\<lambda>charge.
       and_then (validate_text (rb_text block) charge) (\<lambda>charge.
       and_then (charge_add charge 4) (\<lambda>charge.
         case rb_proof block of
           None \<Rightarrow> Inr (charge, proof_bytes)
         | Some proof \<Rightarrow>
             if \<not> same_reasoning_kind (rb_kind block) (pv_reasoning_kind proof) \<or>
                \<not> is_supported (rcap_proof (ce_reasoning_capability selected))
             then Inl InvalidArgument
             else
               and_then (scalar_stamp (pv_stamp proof) ''prf1-'') (\<lambda>_.
               and_then (scalar_request_id (pv_source_request_id proof)) (\<lambda>_.
               and_then (scalar_turn_id (pv_source_turn_id proof)) (\<lambda>_.
                 if pv_source_content_index proof > 63 then Inl InvalidArgument
                 else if pv_proof proof = [] then Inl InvalidArgument
                 else if length (pv_proof proof) > MAX_PROOF_BYTES then Inl Limit
                 else
                   and_then (checked_len (length (pv_proof proof))) (\<lambda>n.
                   and_then (ok_or (checked_add 64 proof_bytes n) Limit) (\<lambda>proof_bytes.
                     if proof_bytes > MAX_PROOFS_BYTES then Inl Limit
                     else
                       and_then (charge_string charge (pv_stamp proof)) (\<lambda>charge.
                       and_then (charge_string charge (pv_source_request_id proof)) (\<lambda>charge.
                       and_then (charge_string charge (pv_source_turn_id proof)) (\<lambda>charge.
                       and_then (charge_add charge 1) (\<lambda>charge.
                       and_then (charge_add charge 4) (\<lambda>charge.
                       and_then (charge_add charge 4) (\<lambda>charge.
                       and_then (charge_add charge n) (\<lambda>charge. Inr (charge, proof_bytes)))))))))))))))))"

definition validate_image ::
  "image_view \<Rightarrow> catalog_entry \<Rightarrow> logical_charge \<Rightarrow> validation_error + logical_charge" where
  "validate_image img selected charge =
     and_then (scalar_stamp (iv_stamp img) ''img1-'') (\<lambda>_.
       if iv_bytes img = [] then Inl InvalidArgument
       else if length (iv_bytes img) > MAX_IMAGE_BYTES then Inl Limit
       else if \<not> (1 \<le> im_width (iv_metadata img) \<and> im_width (iv_metadata img) \<le> MAX_IMAGE_DIMENSION) \<or>
               \<not> (1 \<le> im_height (iv_metadata img) \<and> im_height (iv_metadata img) \<le> MAX_IMAGE_DIMENSION) \<or>
               \<not> (1 \<le> im_frames (iv_metadata img) \<and> im_frames (iv_metadata img) \<le> MAX_IMAGE_FRAMES) \<or>
               \<not> list_ex (\<lambda>m. m = ModalityImage) (ce_input_modalities selected)
       then Inl InvalidArgument
       else
         and_then (charge_string charge (iv_stamp img)) (\<lambda>charge.
         and_then (charge_add charge 4) (\<lambda>charge.
         and_then (charge_add charge 4) (\<lambda>charge.
         and_then (checked_len (length (iv_bytes img))) (\<lambda>n.
         and_then (charge_add charge n) (\<lambda>charge.
           charge_add charge 12))))))"

definition user_block_step ::
  "catalog_entry \<Rightarrow> logical_charge \<Rightarrow> user_block \<Rightarrow> validation_error + logical_charge" where
  "user_block_step selected charge block =
     and_then (charge_add charge 4) (\<lambda>charge. case block of
         UserText text \<Rightarrow> validate_text text charge
       | UserImage img \<Rightarrow> validate_image img selected charge)"

definition result_block_step ::
  "catalog_entry \<Rightarrow> logical_charge \<Rightarrow> tool_result_block \<Rightarrow> validation_error + logical_charge" where
  "result_block_step selected charge block =
     and_then (charge_add charge 4) (\<lambda>charge. case block of
         ResultText text \<Rightarrow> validate_text text charge
       | ResultImage img \<Rightarrow> validate_image img selected charge)"

subsection \<open>Messages\<close>

text \<open>The locals of \<open>validate_messages\<close>: the queue of unanswered calls, the call ids seen, the proof
  bytes, whether there was a call, the results matched so far and the charge.\<close>

record message_state =
  ms_pending :: "(string \<times> string) list"
  ms_call_ids :: "string set"
  ms_proof_bytes :: nat
  ms_has_calls :: bool
  ms_matched :: "string \<rightharpoonup> matched_result"
  ms_charge :: logical_charge

definition assistant_block_step ::
  "string set \<Rightarrow> catalog_entry \<Rightarrow> message_state \<Rightarrow> assistant_block \<Rightarrow> validation_error + message_state" where
  "assistant_block_step defs selected s block =
     and_then (charge_add (ms_charge s) 4) (\<lambda>charge. case block of
         AssistantText text \<Rightarrow>
           and_then (validate_text text charge) (\<lambda>charge. Inr (s\<lparr>ms_charge := charge\<rparr>))
       | AssistantReasoning reasoning \<Rightarrow>
           and_then (validate_reasoning_block reasoning selected (charge, ms_proof_bytes s))
             (\<lambda>(charge, proof_bytes). Inr (s\<lparr>ms_proof_bytes := proof_bytes, ms_charge := charge\<rparr>))
       | AssistantToolCall call \<Rightarrow>
           and_then (scalar_tracking_id (tcb_call_id call)) (\<lambda>_.
           and_then (scalar_label (tcb_name call) 128) (\<lambda>_.
             if tcb_call_id call \<in> ms_call_ids s \<or> tcb_name call \<notin> defs then Inl InvalidArgument
             else
               and_then (validate_wire_json (tcb_arguments call) True) (\<lambda>statistics.
               and_then (charge_string charge (tcb_call_id call)) (\<lambda>charge.
               and_then (charge_string charge (tcb_name call)) (\<lambda>charge.
               and_then (charge_add charge (ws_logical_charge statistics)) (\<lambda>charge.
                 Inr (s\<lparr>ms_pending := ms_pending s @ [(tcb_call_id call, tcb_name call)],
                        ms_call_ids := insert (tcb_call_id call) (ms_call_ids s),
                        ms_has_calls := True, ms_charge := charge\<rparr>))))))))"

definition message_step ::
  "string set \<Rightarrow> catalog_entry \<Rightarrow> message_state \<Rightarrow> provider_message \<Rightarrow> validation_error + message_state" where
  "message_step defs selected s message =
     and_then (charge_add (ms_charge s) 4) (\<lambda>charge. case message of
         User blocks \<Rightarrow>
           if ms_pending s \<noteq> [] then Inl InvalidArgument
           else
             and_then (validate_nonempty_blocks (length blocks)) (\<lambda>_.
             and_then (charge_add charge 4) (\<lambda>charge.
             and_then (try_fold (user_block_step selected) charge blocks) (\<lambda>charge.
               Inr (s\<lparr>ms_charge := charge\<rparr>))))
       | Assistant blocks \<Rightarrow>
           if ms_pending s \<noteq> [] then Inl InvalidArgument
           else
             and_then (validate_nonempty_blocks (length blocks)) (\<lambda>_.
             and_then (charge_add charge 4) (\<lambda>charge.
               try_fold (assistant_block_step defs selected) (s\<lparr>ms_charge := charge\<rparr>) blocks))
       | ToolResult result \<Rightarrow>
           (case ms_pending s of
              [] \<Rightarrow> Inl InvalidArgument
            | (call_id, name) # pending \<Rightarrow>
                if rm_call_id result \<noteq> call_id then Inl InvalidArgument
                else
                  and_then (scalar_tracking_id (rm_call_id result)) (\<lambda>_.
                  and_then (validate_nonempty_blocks (length (rm_blocks result))) (\<lambda>_.
                  and_then (charge_string charge (rm_call_id result)) (\<lambda>charge.
                  and_then (charge_add charge 4) (\<lambda>charge.
                  and_then (try_fold (result_block_step selected) charge (rm_blocks result)) (\<lambda>charge.
                  and_then (charge_add charge 1) (\<lambda>charge.
                    let matched = \<lparr>mr_call_id = call_id, mr_name = name,
                      mr_status = (if rm_is_error result then StatusError else StatusSuccess)\<rparr> in
                    if ms_matched s call_id \<noteq> None then Inl InvalidArgument
                    else Inr (s\<lparr>ms_pending := pending, ms_matched := (ms_matched s)(call_id \<mapsto> matched),
                                ms_charge := charge\<rparr>)))))))))"

definition validate_messages ::
  "provider_message list \<Rightarrow> string set \<Rightarrow> catalog_entry \<Rightarrow> logical_charge \<Rightarrow>
   validation_error + bool \<times> (string \<rightharpoonup> matched_result) \<times> logical_charge" where
  "validate_messages messages defs selected charge =
     and_then (try_fold (message_step defs selected)
         \<lparr>ms_pending = [], ms_call_ids = {}, ms_proof_bytes = 0, ms_has_calls = False,
          ms_matched = Map.empty, ms_charge = charge\<rparr> messages) (\<lambda>s.
       if ms_pending s \<noteq> [] then Inl InvalidArgument
       else Inr (ms_has_calls s, ms_matched s, ms_charge s))"

subsection \<open>The whole input\<close>

definition validate_selected_binding :: "prepare_input \<Rightarrow> selected_catalog \<Rightarrow> validation_error + unit" where
  "validate_selected_binding input selected =
     and_then (scalar_provider_id (sc_provider_id selected)) (\<lambda>_.
     and_then (scalar_route_id (sc_route_id selected)) (\<lambda>_.
     and_then (scalar_digest (sc_catalog_digest selected)) (\<lambda>_.
       if pi_provider_id input \<noteq> sc_provider_id selected \<or> pi_route_id input \<noteq> sc_route_id selected \<or>
          pi_catalog_digest input \<noteq> sc_catalog_digest selected \<or>
          \<not> same_selection (pi_selection input) (ce_selection (sc_entry selected)) \<or>
          pi_current_model input \<noteq> ce_current_model (sc_entry selected) \<or>
          pi_operation_id input \<noteq> ce_completion_operation (sc_entry selected)
       then Inl InvalidArgument else Inr ())))"

definition validate_tool ::
  "string set \<times> logical_charge \<Rightarrow> tool_definition \<Rightarrow> validation_error + string set \<times> logical_charge" where
  "validate_tool s tool = (case s of (defs, charge) \<Rightarrow>
     and_then (scalar_label (td_name tool) 128) (\<lambda>_.
     and_then (scalar_safe (td_description tool) MAX_SAFE_TEXT_BYTES False) (\<lambda>_.
     and_then (validate_wire_json (td_input_schema tool) True) (\<lambda>schema.
       if td_name tool \<in> defs then Inl InvalidArgument
       else
         and_then (charge_string charge (td_name tool)) (\<lambda>charge.
         and_then (charge_string charge (td_description tool)) (\<lambda>charge.
         and_then (charge_add charge (ws_logical_charge schema)) (\<lambda>charge.
           Inr (insert (td_name tool) defs, charge))))))))"

definition validate_tools ::
  "tool_definition list \<Rightarrow> logical_charge \<Rightarrow> validation_error + string set \<times> logical_charge" where
  "validate_tools tools charge = try_fold validate_tool ({}, charge) tools"

definition charge_selection :: "logical_charge \<Rightarrow> model_selection \<Rightarrow> validation_error + logical_charge" where
  "charge_selection charge selection =
     and_then (charge_add charge 4) (\<lambda>charge.
     and_then (case selection of Exact v \<Rightarrow> scalar_model_id v | Alias v \<Rightarrow> scalar_model_alias v) (\<lambda>_.
       charge_string charge (case selection of Exact v \<Rightarrow> v | Alias v \<Rightarrow> v)))"

definition validate_tool_choice ::
  "prepare_input \<Rightarrow> catalog_entry \<Rightarrow> logical_charge \<Rightarrow> validation_error + logical_charge" where
  "validate_tool_choice input selected charge =
     (let cap = ce_tool_capability selected in
      and_then (charge_add charge 4) (\<lambda>charge. case pi_tool_choice input of
          ChoiceUnset \<Rightarrow> Inr charge
        | ChoiceAuto \<Rightarrow>
            if pi_tools input = [] \<or> \<not> is_supported (tcap_tools cap) \<or> \<not> is_supported (tcap_auto_choice cap)
            then Inl InvalidArgument else Inr charge
        | ChoiceNone \<Rightarrow>
            if \<not> is_supported (tcap_none_choice cap) then Inl InvalidArgument else Inr charge
        | ChoiceSpecific name \<Rightarrow>
            and_then (charge_string charge name) (\<lambda>charge.
            and_then (scalar_label name 128) (\<lambda>_.
              if length (pi_tools input) \<noteq> 1 \<or> td_name (pi_tools input ! 0) \<noteq> name \<or>
                 \<not> is_supported (tcap_tools cap) \<or> \<not> is_supported (tcap_specific_choice cap)
              then Inl InvalidArgument else Inr charge))))"

definition validate_reasoning ::
  "reasoning \<Rightarrow> catalog_entry \<Rightarrow> logical_charge \<Rightarrow> validation_error + logical_charge" where
  "validate_reasoning reasoning selected charge =
     (let cap = ce_reasoning_capability selected in
      and_then (charge_add charge 4) (\<lambda>charge. case reasoning of
          ReasoningUnset \<Rightarrow> Inr charge
        | ReasoningDisabled \<Rightarrow> if is_supported (rcap_reasoning cap) then Inr charge else Inl InvalidArgument
        | ReasoningEnabled enabled \<Rightarrow>
            if \<not> is_supported (rcap_reasoning cap) then Inl InvalidArgument
            else
              and_then (charge_add charge 4) (\<lambda>charge.
              and_then (case er_effort enabled of
                  None \<Rightarrow> Inr charge
                | Some _ \<Rightarrow> and_then (charge_add charge 4) (\<lambda>charge.
                    if \<not> is_supported (rcap_effort cap) then Inl InvalidArgument else Inr charge)) (\<lambda>charge.
              and_then (charge_add charge 4) (\<lambda>charge.
                case er_budget_tokens enabled of
                  None \<Rightarrow> Inr charge
                | Some budget \<Rightarrow> and_then (charge_add charge 8) (\<lambda>charge.
                    if budget = 0 \<or> \<not> is_supported (rcap_budget cap) then Inl InvalidArgument
                    else Inr charge))))))"

definition charge_identity :: "prepare_input \<Rightarrow> validation_error + logical_charge" where
  "charge_identity input =
     and_then (charge_string (charge_new MAX_LOGICAL_CHARGE) (pi_provider_id input)) (\<lambda>charge.
     and_then (charge_string charge (pi_route_id input)) (\<lambda>charge.
     and_then (charge_string charge (pi_catalog_digest input)) (\<lambda>charge.
     and_then (charge_selection charge (pi_selection input)) (\<lambda>charge.
     and_then (charge_string charge (pi_current_model input)) (\<lambda>charge.
     and_then (charge_string charge (pi_operation_id input)) (\<lambda>charge.
     and_then (charge_string charge (pi_request_id input)) (\<lambda>charge.
       charge_string charge (pi_turn_id input))))))))"

definition validate_identity_scalars :: "prepare_input \<Rightarrow> validation_error + unit" where
  "validate_identity_scalars input =
     and_then (scalar_provider_id (pi_provider_id input)) (\<lambda>_.
     and_then (scalar_route_id (pi_route_id input)) (\<lambda>_.
     and_then (scalar_digest (pi_catalog_digest input)) (\<lambda>_.
     and_then (scalar_model_id (pi_current_model input)) (\<lambda>_.
     and_then (scalar_operation_id (pi_operation_id input)) (\<lambda>_.
     and_then (scalar_request_id (pi_request_id input)) (\<lambda>_.
       scalar_turn_id (pi_turn_id input)))))))"

definition validate_max_output ::
  "prepare_input \<Rightarrow> catalog_entry \<Rightarrow> logical_charge \<Rightarrow> validation_error + logical_charge" where
  "validate_max_output input selected charge = (case pi_max_output_tokens input of
       None \<Rightarrow> Inr charge
     | Some maximum \<Rightarrow>
         and_then (charge_add charge 8) (\<lambda>charge.
           if maximum = 0 \<or> ce_max_output_tokens selected = None \<or>
              (case ce_max_output_tokens selected of None \<Rightarrow> False | Some limit \<Rightarrow> maximum > limit)
           then Inl InvalidArgument else Inr charge))"

definition validate_prepare_input ::
  "prepare_input \<Rightarrow> selected_catalog \<Rightarrow> validation_error + validated_prepare" where
  "validate_prepare_input input selected =
     (let entry = sc_entry selected in
      and_then (validate_selected_binding input selected) (\<lambda>_.
      and_then (validate_catalog_entries [entry]) (\<lambda>_.
      and_then (charge_identity input) (\<lambda>charge.
      and_then (validate_identity_scalars input) (\<lambda>_.
      and_then (validate_list_max (length (pi_system input)) MAX_SYSTEM_PARTS) (\<lambda>_.
      and_then (charge_add charge 4) (\<lambda>charge.
      and_then (try_fold (\<lambda>charge part.
          and_then (scalar_safe part MAX_SAFE_TEXT_BYTES False) (\<lambda>_. charge_string charge part))
        charge (pi_system input)) (\<lambda>charge.
      and_then (validate_list_max (length (pi_tools input)) MAX_TOOLS) (\<lambda>_.
      and_then (charge_add charge 4) (\<lambda>charge.
      and_then (validate_tools (pi_tools input) charge) (\<lambda>(defs, charge).
      and_then (validate_list_max (length (pi_messages input)) MAX_MESSAGES) (\<lambda>_.
      and_then (charge_add charge 4) (\<lambda>charge.
      and_then (validate_messages (pi_messages input) defs entry charge) (\<lambda>(has_calls, matched, charge).
      and_then (validate_tool_choice input entry charge) (\<lambda>charge.
      and_then (validate_reasoning (pi_reasoning input) entry charge) (\<lambda>charge.
      and_then (charge_add charge 4) (\<lambda>charge.
      and_then (charge_add charge 4) (\<lambda>charge.
      and_then (validate_max_output input entry charge) (\<lambda>charge.
        if (pi_tools input \<noteq> [] \<or> has_calls) \<and> \<not> is_supported (tcap_tools (ce_tool_capability entry))
        then Inl InvalidArgument
        else Inr \<lparr>vp_logical_charge = lc_value charge, vp_matched_tool_results = matched\<rparr>)))))))))))))))))))"

subsection \<open>The calls and results of a history\<close>

definition block_calls :: "assistant_block \<Rightarrow> (string \<times> string) list" where
  "block_calls b = (case b of AssistantToolCall c \<Rightarrow> [(tcb_call_id c, tcb_name c)] | _ \<Rightarrow> [])"

definition block_proof_bytes :: "assistant_block \<Rightarrow> nat" where
  "block_proof_bytes b = (case b of
       AssistantReasoning r \<Rightarrow> (case rb_proof r of None \<Rightarrow> 0 | Some p \<Rightarrow> length (pv_proof p)) | _ \<Rightarrow> 0)"

definition message_blocks :: "provider_message \<Rightarrow> assistant_block list" where
  "message_blocks m = (case m of Assistant blocks \<Rightarrow> blocks | _ \<Rightarrow> [])"

definition calls :: "provider_message list \<Rightarrow> (string \<times> string) list" where
  "calls ms = concat (map block_calls (concat (map message_blocks ms)))"

definition proof_total :: "provider_message list \<Rightarrow> nat" where
  "proof_total ms = sum_list (map block_proof_bytes (concat (map message_blocks ms)))"

definition is_result :: "provider_message \<Rightarrow> bool" where
  "is_result m \<longleftrightarrow> (\<exists>r. m = ToolResult r)"

definition message_results :: "provider_message \<Rightarrow> (string \<times> result_status) list" where
  "message_results m = (case m of
       ToolResult r \<Rightarrow> [(rm_call_id r, if rm_is_error r then StatusError else StatusSuccess)] | _ \<Rightarrow> [])"

definition results :: "provider_message list \<Rightarrow> (string \<times> result_status) list" where
  "results ms = concat (map message_results ms)"

text \<open>The results matched with the calls, in order.\<close>

definition matched_results :: "(string \<times> string) list \<Rightarrow> (string \<times> result_status) list \<Rightarrow> (string \<times> matched_result) list" where
  "matched_results cs rs = map2 (\<lambda>c r. (fst c, \<lparr>mr_call_id = fst c, mr_name = snd c, mr_status = snd r\<rparr>)) cs rs"

lemma history_simps [simp]:
  "calls [] = []" "calls (ms @ [m]) = calls ms @ concat (map block_calls (message_blocks m))"
  "results [] = []" "results (ms @ [m]) = results ms @ message_results m"
  "proof_total [] = 0"
  "proof_total (ms @ [m]) = proof_total ms + sum_list (map block_proof_bytes (message_blocks m))"
  by (simp_all add: calls_def results_def proof_total_def)

lemma message_parts [simp]:
  "message_blocks (User bs) = []" "message_blocks (Assistant as) = as" "message_blocks (ToolResult r) = []"
  "message_results (User bs) = []" "message_results (Assistant as) = []"
  "message_results (ToolResult r) = [(rm_call_id r, if rm_is_error r then StatusError else StatusSuccess)]"
  "is_result (ToolResult r)" "\<not> is_result (User bs)" "\<not> is_result (Assistant as)"
  by (simp_all add: message_blocks_def message_results_def is_result_def)

subsection \<open>What each step keeps\<close>

lemma charge_frames [frame_simps]:
  "charge_string c s = Inr c' \<Longrightarrow> lc_limit c' = lc_limit c"
  "validate_text t c = Inr c' \<Longrightarrow> lc_limit c' = lc_limit c"
  "validate_image img e c = Inr c' \<Longrightarrow> lc_limit c' = lc_limit c"
  by (auto simp: charge_string_def validate_text_def validate_image_def charge_add_Inr checked_len_def
      charge_string_Inr split: if_splits)

lemma block_frames [frame_simps]:
  "user_block_step e c u = Inr c' \<Longrightarrow> lc_limit c' = lc_limit c"
  "result_block_step e c r = Inr c' \<Longrightarrow> lc_limit c' = lc_limit c"
  by (auto simp: user_block_step_def result_block_step_def charge_add_Inr
      split: user_block.splits tool_result_block.splits dest!: charge_frames)

lemma fold_frames [frame_simps]:
  "try_fold (user_block_step e) c us = Inr c' \<Longrightarrow> lc_limit c' = lc_limit c"
  "try_fold (result_block_step e) c rs = Inr c' \<Longrightarrow> lc_limit c' = lc_limit c"
  by (erule try_fold_invariant; auto dest: block_frames)+

lemma reasoning_block_Inr:
  assumes "validate_reasoning_block block selected (charge, n) = Inr (charge', n')"
  shows "lc_limit charge' = lc_limit charge \<and>
    n' = n + block_proof_bytes (AssistantReasoning block) \<and> (n \<le> MAX_PROOFS_BYTES \<longrightarrow> n' \<le> MAX_PROOFS_BYTES)"
  using assms
  by (cases "rb_proof block")
    (auto simp: validate_reasoning_block_def block_proof_bytes_def charge_add_Inr charge_string_Inr
      checked_len_def split: if_splits dest!: charge_frames)

definition proofs_bounded :: "message_state \<Rightarrow> bool" where
  "proofs_bounded s \<longleftrightarrow> ms_proof_bytes s \<le> MAX_PROOFS_BYTES"

lemma assistant_block_Inr:
  assumes "assistant_block_step defs selected s b = Inr s'"
  shows "lc_limit (ms_charge s') = lc_limit (ms_charge s) \<and> ms_matched s' = ms_matched s \<and>
    ms_pending s' = ms_pending s @ block_calls b \<and>
    ms_call_ids s' = ms_call_ids s \<union> fst ` set (block_calls b) \<and>
    distinct (map fst (block_calls b)) \<and> fst ` set (block_calls b) \<inter> ms_call_ids s = {} \<and>
    snd ` set (block_calls b) \<subseteq> defs \<and>
    ms_has_calls s' = (ms_has_calls s \<or> block_calls b \<noteq> []) \<and>
    ms_proof_bytes s' = ms_proof_bytes s + block_proof_bytes b \<and>
    (proofs_bounded s \<longrightarrow> proofs_bounded s')"
proof (cases b)
  case (AssistantText t)
  with assms show ?thesis
    by (auto simp: assistant_block_step_def charge_add_Inr block_calls_def block_proof_bytes_def
        proofs_bounded_def dest!: charge_frames)
next
  case (AssistantReasoning r)
  with assms show ?thesis
    by (auto simp: assistant_block_step_def charge_add_Inr block_calls_def proofs_bounded_def
        dest!: reasoning_block_Inr)
next
  case (AssistantToolCall c)
  with assms show ?thesis
    by (auto simp: assistant_block_step_def charge_add_Inr charge_string_Inr block_calls_def
        block_proof_bytes_def proofs_bounded_def split: if_splits)
qed

lemma assistant_blocks_Inr:
  assumes "try_fold (assistant_block_step defs selected) s bs = Inr s'"
  defines "cs \<equiv> concat (map block_calls bs)"
  shows "lc_limit (ms_charge s') = lc_limit (ms_charge s) \<and> ms_matched s' = ms_matched s \<and>
    ms_pending s' = ms_pending s @ cs \<and> ms_call_ids s' = ms_call_ids s \<union> fst ` set cs \<and>
    distinct (map fst cs) \<and> fst ` set cs \<inter> ms_call_ids s = {} \<and> snd ` set cs \<subseteq> defs \<and>
    ms_has_calls s' = (ms_has_calls s \<or> cs \<noteq> []) \<and>
    ms_proof_bytes s' = ms_proof_bytes s + sum_list (map block_proof_bytes bs) \<and>
    (proofs_bounded s \<longrightarrow> proofs_bounded s')"
proof -
  define P where "P bs s' = (let cs = concat (map block_calls bs) in
    lc_limit (ms_charge s') = lc_limit (ms_charge s) \<and> ms_matched s' = ms_matched s \<and>
    ms_pending s' = ms_pending s @ cs \<and> ms_call_ids s' = ms_call_ids s \<union> fst ` set cs \<and>
    distinct (map fst cs) \<and> fst ` set cs \<inter> ms_call_ids s = {} \<and> snd ` set cs \<subseteq> defs \<and>
    ms_has_calls s' = (ms_has_calls s \<or> cs \<noteq> []) \<and>
    ms_proof_bytes s' = ms_proof_bytes s + sum_list (map block_proof_bytes bs) \<and>
    (proofs_bounded s \<longrightarrow> proofs_bounded s'))" for bs s'
  have "P bs s'" using assms(1)
  proof (rule try_fold_prefix)
    show "P [] s" by (simp add: P_def)
    show "P (ys @ [b]) u" if "P ys t" "assistant_block_step defs selected t b = Inr u" for ys b t u
    proof -
      let ?c = "concat (map block_calls ys)" and ?d = "block_calls b"
      note step = assistant_block_Inr [OF that(2)]
      note run = that(1) [unfolded P_def Let_def]
      have ids: "fst ` set ?d \<inter> (ms_call_ids s \<union> fst ` set ?c) = {}" using step run by (elim conjE) (simp only:)
      then have fresh: "fst ` set (?c @ ?d) \<inter> ms_call_ids s = {}"
        using run unfolding set_append image_Un by (elim conjE) blast
      have "distinct (map fst (?c @ ?d))"
        using step run ids unfolding map_append distinct_append set_map by (elim conjE) (intro conjI, assumption, assumption, blast)
      moreover have "snd ` set (?c @ ?d) \<subseteq> defs"
        using step run unfolding set_append image_Un by (elim conjE) (rule Un_least)
      moreover have "ms_call_ids u = ms_call_ids s \<union> fst ` set (?c @ ?d)"
        using step run unfolding set_append image_Un by (elim conjE) (simp only: Un_assoc)
      ultimately show ?thesis
        unfolding P_def Let_def map_append concat_append concat.simps list.map append_Nil2 sum_list_append
        using step run fresh by (elim conjE) simp
    qed
  qed
  then show ?thesis by (simp add: P_def cs_def Let_def)
qed

definition answered_before :: "provider_message list \<Rightarrow> bool" where
  "answered_before ms \<longleftrightarrow> (\<forall>i<length ms. \<not> is_result (ms ! i) \<longrightarrow>
     map fst (calls (take i ms)) = map fst (results (take i ms)))"

lemma answered_before_simps [simp]:
  "answered_before []"
  "answered_before (ms @ [m]) \<longleftrightarrow> answered_before ms \<and>
     (\<not> is_result m \<longrightarrow> map fst (calls ms) = map fst (results ms))"
proof -
  show "answered_before (ms @ [m]) \<longleftrightarrow> answered_before ms \<and>
      (\<not> is_result m \<longrightarrow> map fst (calls ms) = map fst (results ms))"
    unfolding answered_before_def by (auto simp: less_Suc_eq nth_append)
qed (simp add: answered_before_def)

definition history_inv :: "string set \<Rightarrow> nat \<Rightarrow> provider_message list \<Rightarrow> message_state \<Rightarrow> bool" where
  "history_inv defs limit ms s \<longleftrightarrow>
     lc_limit (ms_charge s) = limit \<and> ms_call_ids s = fst ` set (calls ms) \<and>
     distinct (map fst (calls ms)) \<and> snd ` set (calls ms) \<subseteq> defs \<and>
     ms_has_calls s = (calls ms \<noteq> []) \<and> ms_proof_bytes s = proof_total ms \<and> proofs_bounded s \<and>
     answered_before ms \<and>
     (\<exists>done. calls ms = done @ ms_pending s \<and> map fst done = map fst (results ms) \<and>
        ms_matched s = map_of (matched_results done (results ms)))"

lemma history_step_assistant:
  assumes "history_inv defs limit ms s" and "message_step defs selected s (Assistant as) = Inr s'"
  shows "history_inv defs limit (ms @ [Assistant as]) s'"
proof -
  define c where "c = (ms_charge s)\<lparr>lc_value := 8 + lc_value (ms_charge s)\<rparr>"
  from assms(2) have pend: "ms_pending s = []"
    and run: "try_fold (assistant_block_step defs selected) (s\<lparr>ms_charge := c\<rparr>) as = Inr s'"
    by (auto simp: message_step_def charge_add_Inr c_def split: if_splits)
  have c: "lc_limit c = lc_limit (ms_charge s)" by (simp add: c_def)
  let ?d = "concat (map block_calls as)"
  note inv = assms(1) [unfolded history_inv_def]
  from inv pend obtain d where d: "calls ms = d" "map fst d = map fst (results ms)"
      "ms_matched s = map_of (matched_results d (results ms))"
    by auto
  have dis: "fst ` set ?d \<inter> fst ` set (calls ms) = {}" using assistant_blocks_Inr [OF run] inv by simp
  show ?thesis
    unfolding history_inv_def history_simps message_parts
  proof (intro conjI)
    show "distinct (map fst (calls ms @ ?d))"
      unfolding map_append distinct_append set_map
      using assistant_blocks_Inr [OF run] inv dis by (intro conjI) (simp, simp, blast)
    show "snd ` set (calls ms @ ?d) \<subseteq> defs"
      unfolding set_append image_Un using assistant_blocks_Inr [OF run] inv by (intro Un_least) simp_all
    show "ms_call_ids s' = fst ` set (calls ms @ ?d)"
      unfolding set_append image_Un using assistant_blocks_Inr [OF run] inv by simp
    show "\<exists>done. calls ms @ ?d = done @ ms_pending s' \<and> map fst done = map fst (results ms @ []) \<and>
        ms_matched s' = map_of (matched_results done (results ms @ []))"
      using assistant_blocks_Inr [OF run] d pend by (intro exI [of _ d]) simp
    show "answered_before (ms @ [Assistant as])" using inv d by simp
    show "proofs_bounded s'" using assistant_blocks_Inr [OF run] inv by (simp add: proofs_bounded_def)
  qed (use assistant_blocks_Inr [OF run] inv c in simp_all)
qed

lemma history_step_user:
  assumes "history_inv defs limit ms s" and "message_step defs selected s (User us) = Inr s'"
  shows "history_inv defs limit (ms @ [User us]) s'"
proof -
  from assms(2) obtain c where pend: "ms_pending s = []"
    and s': "s' = s\<lparr>ms_charge := c\<rparr>" and c: "lc_limit c = lc_limit (ms_charge s)"
    by (auto simp: message_step_def charge_add_Inr split: if_splits dest!: fold_frames)
  then show ?thesis using assms(1) by (auto simp: history_inv_def proofs_bounded_def)
qed

lemma history_step_result:
  assumes "history_inv defs limit ms s" and "message_step defs selected s (ToolResult r) = Inr s'"
  shows "history_inv defs limit (ms @ [ToolResult r]) s'"
proof -
  define status where "status = (if rm_is_error r then StatusError else StatusSuccess)"
  from assms(2) obtain name pending c where pend: "ms_pending s = (rm_call_id r, name) # pending"
    and new: "ms_matched s (rm_call_id r) = None"
    and s': "s' = s\<lparr>ms_pending := pending, ms_matched := (ms_matched s)(rm_call_id r \<mapsto>
        \<lparr>mr_call_id = rm_call_id r, mr_name = name, mr_status = status\<rparr>), ms_charge := c\<rparr>"
    and c: "lc_limit c = lc_limit (ms_charge s)"
    by (auto simp: message_step_def charge_add_Inr status_def Let_def split: if_splits list.splits
        dest!: fold_frames charge_frames)
  note inv = assms(1) [unfolded history_inv_def]
  then obtain d where d: "calls ms = d @ ms_pending s" "map fst d = map fst (results ms)"
      "ms_matched s = map_of (matched_results d (results ms))"
    by auto
  have len: "length d = length (results ms)" using d(2) by (rule map_eq_imp_length_eq)
  have "matched_results (d @ [(rm_call_id r, name)]) (results ms @ [(rm_call_id r, status)]) =
      matched_results d (results ms) @
        [(rm_call_id r, \<lparr>mr_call_id = rm_call_id r, mr_name = name, mr_status = status\<rparr>)]"
    by (simp add: matched_results_def len)
  then have "ms_matched s' = map_of (matched_results (d @ [(rm_call_id r, name)])
      (results ms @ [(rm_call_id r, status)]))"
    using new d(3) by (auto simp: s' fun_eq_iff map_add_def split: option.split)
  then have "\<exists>done. calls ms = done @ ms_pending s' \<and>
      map fst done = map fst (results ms @ [(rm_call_id r, status)]) \<and>
      ms_matched s' = map_of (matched_results done (results ms @ [(rm_call_id r, status)]))"
    using d pend by (intro exI [of _ "d @ [(rm_call_id r, name)]"]) (simp add: s')
  then show ?thesis
    using inv c unfolding history_inv_def history_simps message_parts status_def
    by (simp add: s' proofs_bounded_def)
qed

lemma history_run:
  assumes "try_fold (message_step defs selected)
      \<lparr>ms_pending = [], ms_call_ids = {}, ms_proof_bytes = 0, ms_has_calls = False,
       ms_matched = Map.empty, ms_charge = charge\<rparr> ms = Inr s"
  shows "history_inv defs (lc_limit charge) ms s"
  using assms
proof (rule try_fold_prefix)
  show "history_inv defs (lc_limit charge) [] \<lparr>ms_pending = [], ms_call_ids = {}, ms_proof_bytes = 0,
      ms_has_calls = False, ms_matched = Map.empty, ms_charge = charge\<rparr>"
    by (simp add: history_inv_def proofs_bounded_def matched_results_def)
  show "history_inv defs (lc_limit charge) (ys @ [m]) t"
    if "history_inv defs (lc_limit charge) ys u" "message_step defs selected u m = Inr t" for ys m u t
    using that by (cases m) (blast intro: history_step_user history_step_assistant history_step_result)+
qed

lemma validate_tools_Inr:
  assumes "validate_tools tools charge = Inr (defs, charge')"
  shows "defs = td_name ` set tools \<and> distinct (map td_name tools) \<and> lc_limit charge' = lc_limit charge"
proof -
  define P where "P ts s = (fst s = td_name ` set ts \<and> distinct (map td_name ts) \<and>
    lc_limit (snd s) = lc_limit charge)" for ts :: "tool_definition list" and s :: "string set \<times> logical_charge"
  have "P tools (defs, charge')" using assms unfolding validate_tools_def
  proof (rule try_fold_prefix)
    show "P [] ({}, charge)" by (simp add: P_def)
    show "P (ys @ [t]) v" if "P ys u" "validate_tool u t = Inr v" for ys t u v
      using that by (cases u) (auto simp: P_def validate_tool_def charge_add_Inr charge_string_Inr split: if_splits)
  qed
  then show ?thesis by (simp add: P_def)
qed

lemma validate_messages_Inr:
  assumes "validate_messages ms defs selected charge = Inr (has_calls, matched, charge')"
  shows "distinct (map fst (calls ms)) \<and> snd ` set (calls ms) \<subseteq> defs \<and> answered_before ms \<and>
    map fst (results ms) = map fst (calls ms) \<and> matched = map_of (matched_results (calls ms) (results ms)) \<and>
    proof_total ms \<le> MAX_PROOFS_BYTES \<and> has_calls = (calls ms \<noteq> []) \<and> lc_limit charge' = lc_limit charge"
proof -
  from assms obtain s where run: "try_fold (message_step defs selected)
      \<lparr>ms_pending = [], ms_call_ids = {}, ms_proof_bytes = 0, ms_has_calls = False,
       ms_matched = Map.empty, ms_charge = charge\<rparr> ms = Inr s"
    and s: "ms_pending s = []" "has_calls = ms_has_calls s" "matched = ms_matched s" "charge' = ms_charge s"
    by (auto simp: validate_messages_def split: if_splits)
  show ?thesis using history_run [OF run] by (auto simp: history_inv_def proofs_bounded_def s)
qed

lemma control_frames:
  "validate_tool_choice input e c = Inr c' \<Longrightarrow> lc_limit c' = lc_limit c"
  "validate_reasoning r e c = Inr c' \<Longrightarrow> lc_limit c' = lc_limit c"
  by (auto simp: validate_tool_choice_def validate_reasoning_def charge_add_Inr charge_string_Inr Let_def
      split: tool_choice.splits reasoning.splits option.splits if_splits)

lemma identity_frame:
  "charge_identity input = Inr c \<Longrightarrow> lc_limit c = MAX_LOGICAL_CHARGE"
  by (auto simp: charge_identity_def charge_selection_def charge_add_Inr charge_string_Inr charge_new_def
      split: model_selection.splits)

lemma max_output_bound:
  assumes "charge_add c 4 = Inr c1" and "charge_add c1 4 = Inr c2" and "validate_max_output input e c2 = Inr c3"
  shows "lc_value c3 \<le> lc_limit c"
  using assms by (auto simp: validate_max_output_def charge_add_Inr split: option.splits if_splits)

lemma system_frame:
  "try_fold (\<lambda>charge part. and_then (scalar_safe part MAX_SAFE_TEXT_BYTES False) (\<lambda>_. charge_string charge part))
     c parts = Inr c' \<Longrightarrow> lc_limit c' = lc_limit c"
  by (erule try_fold_invariant) (auto simp: charge_string_Inr)

text \<open>C37. In an accepted completion input every tool call id is new and names a declared tool; at every
  user and assistant message all earlier calls have been answered; the results answer the calls one
  by one in their order, none is missing at the end, and the map handed to the adapter gives for each
  call id the name of its call and the status of its result. Tool names are distinct, the reasoning
  proofs together stay within 256 KiB and the charge of the input within 8 MiB.\<close>

theorem prepare_history_answered:
  assumes "validate_prepare_input input selected = Inr v"
  shows "distinct (map fst (calls (pi_messages input))) \<and>
    snd ` set (calls (pi_messages input)) \<subseteq> td_name ` set (pi_tools input) \<and>
    (\<forall>i<length (pi_messages input). \<not> is_result (pi_messages input ! i) \<longrightarrow>
       map fst (calls (take i (pi_messages input))) = map fst (results (take i (pi_messages input)))) \<and>
    map fst (results (pi_messages input)) = map fst (calls (pi_messages input)) \<and>
    vp_matched_tool_results v =
      map_of (matched_results (calls (pi_messages input)) (results (pi_messages input))) \<and>
    distinct (map td_name (pi_tools input)) \<and>
    proof_total (pi_messages input) \<le> 256 * 1024 \<and> vp_logical_charge v \<le> 8 * 1024 * 1024"
proof -
  from assms obtain c1 c2 c3 c4 defs c5 c6 has_calls matched c7 c8 c9 c10 c11 c12 where
      c1: "charge_identity input = Inr c1" and c2: "charge_add c1 4 = Inr c2"
    and c3: "try_fold (\<lambda>charge part. and_then (scalar_safe part MAX_SAFE_TEXT_BYTES False)
        (\<lambda>_. charge_string charge part)) c2 (pi_system input) = Inr c3"
    and c4: "charge_add c3 4 = Inr c4" and c5: "validate_tools (pi_tools input) c4 = Inr (defs, c5)"
    and c6: "charge_add c5 4 = Inr c6"
    and c7: "validate_messages (pi_messages input) defs (sc_entry selected) c6 = Inr (has_calls, matched, c7)"
    and c8: "validate_tool_choice input (sc_entry selected) c7 = Inr c8"
    and c9: "validate_reasoning (pi_reasoning input) (sc_entry selected) c8 = Inr c9"
    and c10: "charge_add c9 4 = Inr c10" and c11: "charge_add c10 4 = Inr c11"
    and c12: "validate_max_output input (sc_entry selected) c11 = Inr c12"
    and v: "v = \<lparr>vp_logical_charge = lc_value c12, vp_matched_tool_results = matched\<rparr>"
    unfolding validate_prepare_input_def Let_def
    by (auto split: if_splits)
  note tools = validate_tools_Inr [OF c5] and messages = validate_messages_Inr [OF c7]
  have "lc_limit c9 = MAX_LOGICAL_CHARGE"
    using identity_frame [OF c1] charge_add_limit [OF c2] system_frame [OF c3] charge_add_limit [OF c4] tools
      charge_add_limit [OF c6] messages control_frames(1) [OF c8] control_frames(2) [OF c9]
    by simp
  then have "lc_value c12 \<le> MAX_LOGICAL_CHARGE" using max_output_bound [OF c10 c11 c12] by simp
  then show ?thesis
    using tools messages by (simp add: v answered_before_def MAX_PROOFS_BYTES_def max_charge_lt)
qed

subsection \<open>A concrete input\<close>

definition sample_capability :: tool_capability where
  "sample_capability = \<lparr>tcap_tools = CapSupported, tcap_auto_choice = CapSupported,
     tcap_none_choice = CapUnknown, tcap_specific_choice = CapUnknown\<rparr>"

definition sample_entry :: catalog_entry where
  "sample_entry = \<lparr>ce_selection = Exact ''m'', ce_current_model = ''m'', ce_display_name = None,
     ce_input_modalities = [ModalityText], ce_tool_capability = sample_capability,
     ce_reasoning_capability = \<lparr>rcap_reasoning = CapUnknown, rcap_effort = CapUnknown,
       rcap_budget = CapUnknown, rcap_proof = CapUnknown\<rparr>,
     ce_context_tokens = None, ce_max_output_tokens = Some 9, ce_completion_operation = ''o''\<rparr>"

definition empty_object :: wire_json_document where
  "empty_object = \<lparr>wd_root = 0, wd_nodes = [ObjectValue []]\<rparr>"

definition sample_digest :: string where
  "sample_digest = ''sha256:'' @ replicate 64 (CHR ''0'')"

definition sample_history :: "provider_message list" where
  "sample_history = [User [UserText ''u''],
     Assistant [AssistantToolCall \<lparr>tcb_call_id = ''a'', tcb_name = ''t'', tcb_arguments = empty_object\<rparr>,
       AssistantToolCall \<lparr>tcb_call_id = ''b'', tcb_name = ''t'', tcb_arguments = empty_object\<rparr>],
     ToolResult \<lparr>rm_call_id = ''a'', rm_blocks = [ResultText ''x''], rm_is_error = False\<rparr>,
     ToolResult \<lparr>rm_call_id = ''b'', rm_blocks = [ResultText ''y''], rm_is_error = True\<rparr>]"

definition sample_input :: prepare_input where
  "sample_input = \<lparr>pi_provider_id = ''p'', pi_route_id = ''r'', pi_catalog_digest = sample_digest,
     pi_selection = Exact ''m'', pi_current_model = ''m'', pi_operation_id = ''o'', pi_request_id = ''q'',
     pi_turn_id = ''n'', pi_system = [''s''], pi_messages = sample_history,
     pi_tools = [\<lparr>td_name = ''t'', td_description = ''d'', td_input_schema = empty_object\<rparr>],
     pi_tool_choice = ChoiceAuto, pi_reasoning = ReasoningUnset, pi_cache_retention = CacheUnset,
     pi_max_output_tokens = Some 7\<rparr>"

definition sample_selected :: selected_catalog where
  "sample_selected = \<lparr>sc_provider_id = ''p'', sc_route_id = ''r'', sc_catalog_digest = sample_digest,
     sc_entry = sample_entry\<rparr>"

lemmas scalar_eval = scalar_provider_id_def scalar_route_id_def scalar_model_id_def scalar_model_alias_def
  scalar_operation_id_def scalar_is_valid_operation_id_def scalar_is_separator_def scalar_request_id_def
  scalar_turn_id_def scalar_tracking_id_def scalar_label_def map_invalid_Inr is_ok_iff provider_id_parse_def
  route_id_parse_def is_visible_ascii_def model_id_parse_def request_id_parse_def turn_id_parse_def
  is_tracking_id_def ascii_defs Let_def

lemma sample_scalars:
  "scalar_provider_id ''p'' = Inr ()" "scalar_route_id ''r'' = Inr ()"
  "scalar_model_id ''m'' = Inr ()" "scalar_operation_id ''o'' = Inr ()" "scalar_request_id ''q'' = Inr ()"
  "scalar_turn_id ''n'' = Inr ()" "scalar_tracking_id ''a'' = Inr ()" "scalar_tracking_id ''b'' = Inr ()"
  by (simp_all add: scalar_eval)

lemma sample_digest_valid: "scalar_digest sample_digest = Inr ()" "length sample_digest = 71"
  by (simp_all add: scalar_digest_def is_ok_iff sha256_digest_parse_def is_valid_sha256_digest_def
      sample_digest_def is_lower_hex_def ascii_defs list_all_iff)

lemma sample_texts:
  "scalar_safe ''u'' n b = (if 1 \<le> n then Inr () else Inl Limit)"
  "scalar_safe ''x'' n b = (if 1 \<le> n then Inr () else Inl Limit)"
  "scalar_safe ''y'' n b = (if 1 \<le> n then Inr () else Inl Limit)"
  "scalar_safe ''s'' n b = (if 1 \<le> n then Inr () else Inl Limit)"
  "scalar_safe ''d'' n b = (if 1 \<le> n then Inr () else Inl Limit)"
  "scalar_label ''t'' 128 = Inr ()"
  by (simp_all add: scalar_safe_def scalar_label_def is_unsafe_char_def utf8_width_def next_code_point_def)

lemma empty_object_validates: "validate_wire_json empty_object True = Inr \<lparr>ws_logical_charge = 16, ws_depth = 1\<rparr>"
  by (simp add: wire_eval empty_object_def)

lemma sample_entry_validates: "validate_catalog_entries [sample_entry] = Inr ()"
  by (simp add: validate_catalog_entries_def validate_catalog_entry_def sample_entry_def validate_selection_def
      sample_scalars validate_display_name_def validate_modalities_def validate_positive_def next_key_def
      MAX_CATALOG_ENTRIES_def Let_def)

lemmas charge_eval = charge_add_def charge_string_def charge_new_def checked_len_def checked_add_def ok_or_def
  MAX_LOGICAL_CHARGE_def MIB_def KIB_def MAX_SAFE_TEXT_BYTES_def validate_list_max_def Let_def

lemma sample_identity: "charge_identity sample_input = Inr \<lparr>lc_value = 114, lc_limit = 8388608\<rparr>"
  by (simp add: charge_identity_def sample_input_def charge_selection_def charge_eval sample_scalars sample_digest_valid)

definition sample_matched :: "string \<rightharpoonup> matched_result" where
  "sample_matched = [''a'' \<mapsto> \<lparr>mr_call_id = ''a'', mr_name = ''t'', mr_status = StatusSuccess\<rparr>,
     ''b'' \<mapsto> \<lparr>mr_call_id = ''b'', mr_name = ''t'', mr_status = StatusError\<rparr>]"

lemma sample_messages:
  "validate_messages sample_history {''t''} sample_entry \<lparr>lc_value = 157, lc_limit = 8388608\<rparr>
     = Inr (True, sample_matched, \<lparr>lc_value = 288, lc_limit = 8388608\<rparr>)"
  by (simp add: validate_messages_def sample_history_def message_step_def charge_eval user_block_step_def
      assistant_block_step_def result_block_step_def validate_text_def sample_texts sample_scalars
      empty_object_validates validate_nonempty_blocks_def MAX_BLOCKS_def sample_matched_def)

lemma sample_prepare:
  "validate_prepare_input sample_input sample_selected =
     Inr \<lparr>vp_logical_charge = 312, vp_matched_tool_results = sample_matched\<rparr>"
proof -
  have ident: "validate_identity_scalars sample_input = Inr ()"
    by (simp add: validate_identity_scalars_def sample_input_def sample_scalars sample_digest_valid)
  have bind: "validate_selected_binding sample_input sample_selected = Inr ()"
    by (simp add: validate_selected_binding_def sample_input_def sample_selected_def sample_entry_def
        sample_scalars sample_digest_valid)
  have tools: "validate_tools (pi_tools sample_input) \<lparr>lc_value = 127, lc_limit = 8388608\<rparr> =
      Inr ({''t''}, \<lparr>lc_value = 153, lc_limit = 8388608\<rparr>)"
    by (simp add: validate_tools_def validate_tool_def sample_input_def sample_texts empty_object_validates charge_eval)
  have messages: "validate_messages (pi_messages sample_input) {''t''} (sc_entry sample_selected)
      \<lparr>lc_value = 157, lc_limit = 8388608\<rparr> = Inr (True, sample_matched, \<lparr>lc_value = 288, lc_limit = 8388608\<rparr>)"
    using sample_messages by (simp add: sample_input_def sample_selected_def)
  have entry: "validate_catalog_entries [sc_entry sample_selected] = Inr ()"
    using sample_entry_validates by (simp add: sample_selected_def)
  have choice: "validate_tool_choice sample_input (sc_entry sample_selected) \<lparr>lc_value = 288, lc_limit = 8388608\<rparr> =
      Inr \<lparr>lc_value = 292, lc_limit = 8388608\<rparr>"
    by (simp add: validate_tool_choice_def sample_input_def sample_selected_def sample_entry_def
        sample_capability_def is_supported_def charge_eval)
  have reasoning: "validate_reasoning (pi_reasoning sample_input) (sc_entry sample_selected)
      \<lparr>lc_value = 292, lc_limit = 8388608\<rparr> = Inr \<lparr>lc_value = 296, lc_limit = 8388608\<rparr>"
    by (simp add: validate_reasoning_def sample_input_def charge_eval)
  have maximum: "validate_max_output sample_input (sc_entry sample_selected) \<lparr>lc_value = 304, lc_limit = 8388608\<rparr> =
      Inr \<lparr>lc_value = 312, lc_limit = 8388608\<rparr>"
    by (simp add: validate_max_output_def sample_input_def sample_selected_def sample_entry_def charge_eval)
  have system: "pi_system sample_input = [''s'']" and lens: "length (pi_tools sample_input) = 1"
      "length (pi_messages sample_input) = 4" "is_supported (tcap_tools (ce_tool_capability (sc_entry sample_selected)))"
    by (simp_all add: sample_input_def sample_history_def sample_selected_def sample_entry_def sample_capability_def
        is_supported_def)
  show ?thesis
    unfolding validate_prepare_input_def Let_def
    by (simp add: ident bind entry sample_identity tools messages choice reasoning maximum system lens
        sample_texts MAX_SYSTEM_PARTS_def MAX_TOOLS_def MAX_MESSAGES_def charge_eval)
qed

theorem prepare_history_answered_witness:
  "calls sample_history = [(''a'', ''t''), (''b'', ''t'')] \<and>
   map fst (results sample_history) = [''a'', ''b''] \<and>
   map_of (matched_results (calls sample_history) (results sample_history)) ''b'' =
     Some \<lparr>mr_call_id = ''b'', mr_name = ''t'', mr_status = StatusError\<rparr>"
proof -
  have "pi_messages sample_input = sample_history" by (simp add: sample_input_def)
  moreover have "sample_matched ''b'' = Some \<lparr>mr_call_id = ''b'', mr_name = ''t'', mr_status = StatusError\<rparr>"
    by (simp add: sample_matched_def)
  moreover have "calls sample_history = [(''a'', ''t''), (''b'', ''t'')]"
    by (simp add: calls_def sample_history_def block_calls_def)
  ultimately show ?thesis using prepare_history_answered [OF sample_prepare] by simp
qed

end
