(* ===== verification/Adapter_Contract.thy ===== *)
theory Adapter_Contract
  imports Adapter_Json Provider_Prepare
begin

section \<open>Adapter contracts\<close>

text \<open>
  \<open>mcode-plugin-host/src/provider_validation/adapter\<close>: \<open>types.rs\<close> (the closed vocabulary of a contract,
  a flat tree of nodes that says how a completion request becomes a JSON body), \<open>structure.rs\<close> (the
  structural validation), \<open>semantics.rs\<close> (the lexical and per-wire rules) and \<open>header.rs\<close> (ordinary
  headers). The validators index vectors directly and recurse over child indices: \<open>None\<close> is a panic on
  an index out of range or a spent fuel, and \<open>contract_validation_total\<close> shows that neither happens.
\<close>

subsection \<open>The vocabulary (types.rs)\<close>

datatype wire_id =
    AnthropicMessages | OpenAiCompletions | OpenAiResponses | OpenAiCodexResponses
  | AzureOpenAiResponses | GoogleGenerativeAi | GoogleVertex | MistralConversations
  | BedrockConverseStream | PiMessages

datatype model_source = RequestedSelection | CurrentModel

datatype path_segment = SegKey string | SegArrayItem

datatype collection = ColSystem | ColMessages | ColSystemMessages | ColBlocks | ColTools

datatype variant_source =
    VarModelSelection | VarSystemMessageEntry | VarMessage | VarUserBlock | VarAssistantBlock
  | VarToolResultBlock | VarToolResultStatus | VarToolChoice | VarReasoning | VarCacheRetention

datatype scalar_source =
    SrcSelectedModel | SrcSelectionKind | SrcSystemItem | SrcSystemJoined | SrcMessageRole
  | SrcBlockKind | SrcBlockText | SrcToolResultCallId | SrcToolResultIsError | SrcToolResultStatus
  | SrcToolResultName | SrcMistralToolResultContent | SrcToolCallId | SrcToolCallName
  | SrcToolCallArguments | SrcToolName | SrcToolDescription | SrcToolSchema | SrcReasoningKind
  | SrcProof | SrcImageBytes | SrcImageMediaType | SrcImageWidth | SrcImageHeight | SrcImageFrames
  | SrcImageDataUri | SrcToolChoiceKind | SrcToolChoiceName | SrcReasoningMode
  | SrcReasoningEffort | SrcReasoningBudget | SrcCacheRetention | SrcMaxOutput

datatype transform =
    TIdentity | TCheckedU32 | TCheckedU64 | TJsonSubtree | TCanonicalJsonString
  | TMistralToolResultContent | TJoinLf | TBase64StandardPadded | TBase64StandardUnpadded
  | TDataUri | TEnumToken nat

datatype presence = Required | OmitIfNone | OmitForUnset

datatype presence_source =
    PresReasoningProof | PresReasoningEffort | PresReasoningBudget | PresMaxOutput
  | PresToolChoice | PresReasoning | PresCacheRetention

datatype enum_source =
    EnumSelectionKind | EnumMessageKind | EnumUserBlockKind | EnumAssistantBlockKind
  | EnumToolResultBlockKind | EnumToolResultStatus | EnumReasoningKind | EnumImageMediaType
  | EnumToolChoice | EnumReasoningMode | EnumReasoningEffort | EnumCacheRetention

record enum_entry =
  ee_variant_ordinal :: nat
  ee_token :: string

record enum_table =
  et_source :: enum_source
  et_entries :: "enum_entry list"

record contract_array =
  ca_collection :: collection
  ca_item :: nat
  ca_min :: nat
  ca_max :: nat

record contract_case =
  cc_variant_ordinal :: nat
  cc_node :: nat

datatype node_body =
    BodyObject "nat list"
  | BodyArray contract_array
  | BodySwitch variant_source "contract_case list"
  | BodyValue scalar_source transform
  | BodyConstant typed_constant

record contract_node =
  cn_parent :: "nat option"
  cn_segment :: "path_segment option"
  cn_presence :: presence
  cn_presence_source :: "presence_source option"
  cn_body :: node_body

record contract_tree =
  ct_root :: nat
  ct_nodes :: "contract_node list"
  ct_tables :: "enum_table list"

record one_of_rule =
  or_name :: string
  or_values :: "string list"
  or_required :: bool

datatype header_rule = FixedRule string string | OneOfRule one_of_rule

record adapter_contract =
  ac_version :: nat
  ac_wire_id :: wire_id
  ac_model_source :: model_source
  ac_tree :: contract_tree
  ac_header_rules :: "header_rule list"
  ac_decoder_kind :: wire_id

text \<open>\<open>AdapterDecoderKind\<close> has the ten variants of \<open>AdapterWireId\<close> in the same order; the two enums are
  only ever compared through their ordinals and share the datatype.\<close>

definition wire_ordinal :: "wire_id \<Rightarrow> nat" where
  "wire_ordinal w = (case w of
       AnthropicMessages \<Rightarrow> 0 | OpenAiCompletions \<Rightarrow> 1 | OpenAiResponses \<Rightarrow> 2
     | OpenAiCodexResponses \<Rightarrow> 3 | AzureOpenAiResponses \<Rightarrow> 4 | GoogleGenerativeAi \<Rightarrow> 5
     | GoogleVertex \<Rightarrow> 6 | MistralConversations \<Rightarrow> 7 | BedrockConverseStream \<Rightarrow> 8 | PiMessages \<Rightarrow> 9)"

definition variant_count :: "variant_source \<Rightarrow> nat" where
  "variant_count v = (case v of
       VarModelSelection \<Rightarrow> 2 | VarSystemMessageEntry \<Rightarrow> 2 | VarUserBlock \<Rightarrow> 2
     | VarToolResultBlock \<Rightarrow> 2 | VarToolResultStatus \<Rightarrow> 2
     | VarMessage \<Rightarrow> 3 | VarAssistantBlock \<Rightarrow> 3 | VarReasoning \<Rightarrow> 3
     | VarToolChoice \<Rightarrow> 4 | VarCacheRetention \<Rightarrow> 4)"

definition enum_variant_count :: "enum_source \<Rightarrow> nat" where
  "enum_variant_count e = (case e of
       EnumSelectionKind \<Rightarrow> 2 | EnumUserBlockKind \<Rightarrow> 2 | EnumToolResultBlockKind \<Rightarrow> 2
     | EnumToolResultStatus \<Rightarrow> 2 | EnumReasoningKind \<Rightarrow> 2
     | EnumMessageKind \<Rightarrow> 3 | EnumAssistantBlockKind \<Rightarrow> 3
     | EnumToolChoice \<Rightarrow> 4 | EnumReasoningEffort \<Rightarrow> 4 | EnumCacheRetention \<Rightarrow> 4
     | EnumImageMediaType \<Rightarrow> 5 | EnumReasoningMode \<Rightarrow> 3)"

subsection \<open>Structure (structure.rs)\<close>

definition MAX_CONTRACT_NODES :: nat where "MAX_CONTRACT_NODES = 4096"
definition MAX_CONTRACT_DEPTH :: nat where "MAX_CONTRACT_DEPTH = 32"
definition MAX_PATH_DEPTH :: nat where "MAX_PATH_DEPTH = 16"
definition MAX_TABLES :: nat where "MAX_TABLES = 64"
definition MAX_HEADER_RULES :: nat where "MAX_HEADER_RULES = 32"

definition map_contract_error :: "validation_error \<Rightarrow> adapter_error" where
  "map_contract_error e = (case e of InvalidArgument \<Rightarrow> InvalidContract | Limit \<Rightarrow> AdapterLimit)"

abbreviation contract_check :: "validation_error + 'a \<Rightarrow> adapter_error + 'a" where
  "contract_check \<equiv> map_err map_contract_error"

definition collection_bound :: "collection \<Rightarrow> nat" where
  "collection_bound c = (case c of
       ColSystem \<Rightarrow> 1024 | ColTools \<Rightarrow> 1024 | ColMessages \<Rightarrow> 4096 | ColBlocks \<Rightarrow> 4096
     | ColSystemMessages \<Rightarrow> 5120)"

definition enum_source_of :: "scalar_source \<Rightarrow> enum_source option" where
  "enum_source_of s = (case s of
       SrcSelectionKind \<Rightarrow> Some EnumSelectionKind
     | SrcMessageRole \<Rightarrow> Some EnumMessageKind
     | SrcBlockKind \<Rightarrow> None
     | SrcToolResultStatus \<Rightarrow> Some EnumToolResultStatus
     | SrcReasoningKind \<Rightarrow> Some EnumReasoningKind
     | SrcImageMediaType \<Rightarrow> Some EnumImageMediaType
     | SrcToolChoiceKind \<Rightarrow> Some EnumToolChoice
     | SrcReasoningMode \<Rightarrow> Some EnumReasoningMode
     | SrcReasoningEffort \<Rightarrow> Some EnumReasoningEffort
     | SrcCacheRetention \<Rightarrow> Some EnumCacheRetention
     | _ \<Rightarrow> None)"

definition supports_canonical_arguments :: "wire_id \<Rightarrow> bool" where
  "supports_canonical_arguments w \<longleftrightarrow>
     w \<in> {OpenAiCompletions, OpenAiResponses, OpenAiCodexResponses, AzureOpenAiResponses, MistralConversations}"

definition is_block_kind_table :: "enum_source \<Rightarrow> bool" where
  "is_block_kind_table e \<longleftrightarrow> e \<in> {EnumUserBlockKind, EnumAssistantBlockKind, EnumToolResultBlockKind}"

definition enum_transform_matches :: "adapter_contract \<Rightarrow> scalar_source \<Rightarrow> transform \<Rightarrow> bool" where
  "enum_transform_matches contract source transform = (case transform of
       TEnumToken index \<Rightarrow>
         (case nth_opt (ct_tables (ac_tree contract)) index of
            None \<Rightarrow> False
          | Some table \<Rightarrow>
              if source = SrcBlockKind then is_block_kind_table (et_source table)
              else enum_source_of source = Some (et_source table))
     | _ \<Rightarrow> False)"

definition transform_legal :: "adapter_contract \<Rightarrow> scalar_source \<Rightarrow> transform \<Rightarrow> bool" where
  "transform_legal contract source transform =
     (if source \<in> {SrcSelectedModel, SrcSystemItem, SrcBlockText, SrcToolResultCallId, SrcToolResultName,
          SrcToolCallId, SrcToolCallName, SrcToolName, SrcToolDescription, SrcToolChoiceName,
          SrcToolResultIsError}
      then transform = TIdentity
      else if source \<in> {SrcSelectionKind, SrcMessageRole, SrcBlockKind, SrcToolResultStatus,
          SrcReasoningKind, SrcImageMediaType, SrcToolChoiceKind, SrcReasoningMode, SrcReasoningEffort,
          SrcCacheRetention}
      then enum_transform_matches contract source transform
      else if source \<in> {SrcImageWidth, SrcImageHeight, SrcImageFrames} then transform = TCheckedU32
      else if source \<in> {SrcReasoningBudget, SrcMaxOutput} then transform = TCheckedU64
      else if source = SrcToolCallArguments
      then transform = TJsonSubtree \<or>
        (transform = TCanonicalJsonString \<and> supports_canonical_arguments (ac_wire_id contract))
      else if source = SrcToolSchema then transform = TJsonSubtree
      else if source \<in> {SrcProof, SrcImageBytes}
      then transform \<in> {TBase64StandardPadded, TBase64StandardUnpadded}
      else if source = SrcSystemJoined then transform = TJoinLf
      else if source = SrcImageDataUri then transform = TDataUri
      else transform = TMistralToolResultContent \<and> ac_wire_id contract = MistralConversations)"

definition validate_transform ::
  "adapter_contract \<Rightarrow> scalar_source \<Rightarrow> transform \<Rightarrow> adapter_error + unit" where
  "validate_transform contract source transform =
     require (transform_legal contract source transform) InvalidContract"

definition validate_constant :: "typed_constant \<Rightarrow> adapter_error + unit" where
  "validate_constant c = (case c of
       ConstNull \<Rightarrow> Inr ()
     | ConstBoolean _ \<Rightarrow> Inr ()
     | ConstNumber v \<Rightarrow> require (is_canonical_number v) InvalidContract
     | ConstString v \<Rightarrow> contract_check (scalar_safe v (64 * 1024) False))"

definition validate_presence :: "presence \<Rightarrow> presence_source option \<Rightarrow> adapter_error + unit" where
  "validate_presence presence source = (case (presence, source) of
       (Required, None) \<Rightarrow> Inr ()
     | (OmitIfNone, Some s) \<Rightarrow>
         require (s \<in> {PresReasoningProof, PresReasoningEffort, PresReasoningBudget, PresMaxOutput}) InvalidContract
     | (OmitForUnset, Some s) \<Rightarrow>
         require (s \<in> {PresToolChoice, PresReasoning, PresCacheRetention}) InvalidContract
     | _ \<Rightarrow> Inl InvalidContract)"

text \<open>\<open>contract.tree.tables[index]\<close> is read after the bound check.\<close>

definition check_table_use ::
  "enum_table list \<Rightarrow> bool list \<Rightarrow> contract_node \<Rightarrow> adapter_error + bool list" where
  "check_table_use tables used node = (case cn_body node of
       BodyValue source (TEnumToken index) \<Rightarrow>
         if index \<ge> MAX_TABLES \<or> index \<ge> length tables then Inl InvalidContract
         else let table_source = et_source (tables ! index);
            source_matches = (if source = SrcBlockKind then is_block_kind_table table_source
              else enum_source_of source = Some table_source) in
            if \<not> source_matches then Inl InvalidContract else Inr (used[index := True])
     | _ \<Rightarrow> Inr used)"

definition check_entry ::
  "string set \<Rightarrow> nat \<times> enum_entry \<Rightarrow> adapter_error + string set" where
  "check_entry tokens x = (case x of (ordinal, entry) \<Rightarrow>
     if ee_variant_ordinal entry \<noteq> ordinal then Inl InvalidContract
     else and_then (contract_check (scalar_visible_ascii (ee_token entry) 128)) (\<lambda>_.
       if ee_token entry \<in> tokens then Inl InvalidContract else Inr (insert (ee_token entry) tokens)))"

definition check_table :: "enum_table \<Rightarrow> adapter_error + unit" where
  "check_table table =
     (if length (et_entries table) \<noteq> enum_variant_count (et_source table) \<or> length (et_entries table) > 16
      then Inl InvalidContract
      else and_then (try_fold check_entry {} (List.enumerate 0 (et_entries table))) (\<lambda>_. Inr ()))"

definition validate_tables :: "adapter_contract \<Rightarrow> adapter_error + unit" where
  "validate_tables contract =
     (let tree = ac_tree contract in
      and_then (try_fold (check_table_use (ct_tables tree)) (replicate (length (ct_tables tree)) False)
          (ct_nodes tree)) (\<lambda>used.
        if list_ex Not used then Inl InvalidContract
        else try_fold (\<lambda>_ table. check_table table) () (ct_tables tree)))"

type_synonym references = "nat list \<times> nat option list"

definition add_reference :: "nat \<Rightarrow> nat \<Rightarrow> references \<Rightarrow> adapter_error + references" where
  "add_reference parent child s = (case s of (references, expected_parent) \<Rightarrow>
     if child \<ge> parent \<or> child \<ge> length references then Inl InvalidContract
     else and_then (ok_or (checked_add 8 (references ! child) 1) AdapterLimit) (\<lambda>n.
       let references = references[child := n] in
       if references ! child \<noteq> 1 then Inl InvalidContract
       else Inr (references, expected_parent[child := Some parent])))"

text \<open>The count recurses over the kids without a bound check of its own.\<close>

fun count_scalar_source :: "nat \<Rightarrow> contract_node list \<Rightarrow> nat \<Rightarrow> scalar_source \<Rightarrow> nat option" where
  "count_scalar_source 0 nodes node source = None"
| "count_scalar_source (Suc fuel) nodes node source =
     (case nth_opt nodes node of
        None \<Rightarrow> None
      | Some n \<Rightarrow> (case cn_body n of
          BodyObject kids \<Rightarrow>
            map_option sum_list (those (map (\<lambda>c. count_scalar_source fuel nodes c source) kids))
        | BodyArray a \<Rightarrow> count_scalar_source fuel nodes (ca_item a) source
        | BodySwitch _ cases \<Rightarrow>
            map_option sum_list (those (map (\<lambda>c. count_scalar_source fuel nodes (cc_node c) source) cases))
        | BodyValue s _ \<Rightarrow> Some (if s = source then 1 else 0)
        | BodyConstant _ \<Rightarrow> Some 0))"

definition switch_source :: "node_body \<Rightarrow> variant_source option" where
  "switch_source body = (case body of BodySwitch s _ \<Rightarrow> Some s | _ \<Rightarrow> None)"

definition validate_array_item_shape ::
  "nat \<Rightarrow> contract_node list \<Rightarrow> collection \<Rightarrow> nat \<Rightarrow> (adapter_error + unit) option" where
  "validate_array_item_shape fuel nodes collection item = (case nth_opt nodes item of
       None \<Rightarrow> None
     | Some n \<Rightarrow>
         let count = count_scalar_source fuel nodes item; sw = switch_source (cn_body n) in
         map_option (\<lambda>valid. require valid InvalidContract) (case collection of
           ColSystem \<Rightarrow> map_option (\<lambda>k. k = 1) (count SrcSystemItem)
         | ColMessages \<Rightarrow> Some (sw = Some VarMessage)
         | ColSystemMessages \<Rightarrow> Some (sw = Some VarSystemMessageEntry)
         | ColBlocks \<Rightarrow> Some (sw \<in> {Some VarUserBlock, Some VarAssistantBlock, Some VarToolResultBlock})
         | ColTools \<Rightarrow> (case count SrcToolName of
               None \<Rightarrow> None
             | Some k \<Rightarrow> if k \<noteq> 1 then Some False
                 else (case count SrcToolDescription of
                     None \<Rightarrow> None
                   | Some k \<Rightarrow> if k \<noteq> 1 then Some False
                       else map_option (\<lambda>k. k = 1) (count SrcToolSchema)))))"

definition object_child ::
  "contract_node list \<Rightarrow> nat \<Rightarrow> references \<times> string option \<Rightarrow> nat \<Rightarrow>
   (adapter_error + references \<times> string option) option" where
  "object_child nodes index s child = (case s of (refs, previous) \<Rightarrow>
     fuel_then (Some (add_reference index child refs)) (\<lambda>refs.
       case nth_opt nodes child of
         None \<Rightarrow> None
       | Some n \<Rightarrow> Some (case cn_segment n of
           Some (SegKey key) \<Rightarrow>
             and_then (contract_check (scalar_safe key 128 True)) (\<lambda>_.
               if (case previous of None \<Rightarrow> False | Some old \<Rightarrow> old \<ge> key) then Inl InvalidContract
               else Inr (refs, Some key))
         | _ \<Rightarrow> Inl InvalidContract)))"

definition switch_case ::
  "contract_node list \<Rightarrow> nat \<Rightarrow> references \<Rightarrow> nat \<times> contract_case \<Rightarrow> (adapter_error + references) option" where
  "switch_case nodes index refs x = (case x of (ordinal, c) \<Rightarrow>
     if cc_variant_ordinal c \<noteq> ordinal then Some (Inl InvalidContract)
     else fuel_then (Some (add_reference index (cc_node c) refs)) (\<lambda>refs.
       case nth_opt nodes (cc_node c) of
         None \<Rightarrow> None
       | Some n \<Rightarrow> Some (if cn_segment n \<noteq> None then Inl InvalidContract else Inr refs)))"

definition validate_body ::
  "nat \<Rightarrow> adapter_contract \<Rightarrow> nat \<Rightarrow> node_body \<Rightarrow> references \<Rightarrow> (adapter_error + references) option" where
  "validate_body fuel contract index body refs =
     (let nodes = ct_nodes (ac_tree contract) in
      case body of
        BodyObject kids \<Rightarrow>
          fuel_then (fuel_fold (object_child nodes index) (refs, None) kids) (\<lambda>(refs, _). Some (Inr refs))
      | BodyArray array \<Rightarrow>
          if ca_min array > ca_max array \<or> ca_max array > 262144 \<or>
             ca_max array > collection_bound (ca_collection array) \<or>
             (ca_collection array = ColBlocks \<and> ca_min array = 0)
          then Some (Inl InvalidContract)
          else fuel_then (Some (add_reference index (ca_item array) refs)) (\<lambda>refs.
            case nth_opt nodes (ca_item array) of
              None \<Rightarrow> None
            | Some n \<Rightarrow>
                if cn_segment n \<noteq> Some SegArrayItem then Some (Inl InvalidContract)
                else fuel_then (validate_array_item_shape fuel nodes (ca_collection array) (ca_item array))
                  (\<lambda>_. Some (Inr refs)))
      | BodySwitch source cases \<Rightarrow>
          if length cases \<noteq> variant_count source then Some (Inl InvalidContract)
          else fuel_fold (switch_case nodes index) refs (List.enumerate 0 cases)
      | BodyValue source transform \<Rightarrow>
          Some (and_then (validate_transform contract source transform) (\<lambda>_. Inr refs))
      | BodyConstant c \<Rightarrow> Some (and_then (validate_constant c) (\<lambda>_. Inr refs)))"

definition body_children :: "node_body \<Rightarrow> nat list" where
  "body_children body = (case body of
       BodyObject kids \<Rightarrow> kids
     | BodyArray a \<Rightarrow> [ca_item a]
     | BodySwitch _ cases \<Rightarrow> map cc_node cases
     | _ \<Rightarrow> [])"

text \<open>The maximum over no child is 0; \<open>depths[child]\<close> is an index expression.\<close>

definition node_depth :: "node_body \<Rightarrow> nat list \<Rightarrow> (adapter_error + nat) option" where
  "node_depth body depths = (case those (map (nth_opt depths) (body_children body)) of
       None \<Rightarrow> None
     | Some ds \<Rightarrow> Some (ok_or (checked_add 8 (fold max ds 0) 1) AdapterLimit))"

definition contract_add :: "logical_charge \<Rightarrow> nat \<Rightarrow> adapter_error + logical_charge" where
  "contract_add charge n = contract_check (charge_add charge n)"

definition contract_string :: "logical_charge \<Rightarrow> string \<Rightarrow> adapter_error + logical_charge" where
  "contract_string charge s = contract_check (charge_string charge s)"

definition charge_refs :: "logical_charge \<Rightarrow> nat list \<Rightarrow> adapter_error + logical_charge" where
  "charge_refs charge refs =
     and_then (contract_add charge 4) (\<lambda>charge.
     and_then (contract_check (checked_len (length refs))) (\<lambda>n. contract_add charge (n * 4)))"

definition charge_option_ref :: "logical_charge \<Rightarrow> nat option \<Rightarrow> adapter_error + logical_charge" where
  "charge_option_ref charge v =
     and_then (contract_add charge 4) (\<lambda>charge. if v \<noteq> None then contract_add charge 4 else Inr charge)"

definition charge_body :: "logical_charge \<Rightarrow> node_body \<Rightarrow> adapter_error + logical_charge" where
  "charge_body charge body = (case body of
       BodyObject kids \<Rightarrow> charge_refs charge kids
     | BodyArray _ \<Rightarrow> contract_add charge 16
     | BodySwitch _ cases \<Rightarrow>
         and_then (contract_add charge 4) (\<lambda>charge.
         and_then (contract_add charge 4) (\<lambda>charge.
           try_fold (\<lambda>charge _. contract_add charge 5) charge cases))
     | BodyValue _ transform \<Rightarrow>
         and_then (contract_add charge 4) (\<lambda>charge.
         and_then (contract_add charge 4) (\<lambda>charge.
           case transform of TEnumToken _ \<Rightarrow> contract_add charge 2 | _ \<Rightarrow> Inr charge))
     | BodyConstant c \<Rightarrow>
         and_then (contract_add charge 4) (\<lambda>charge. case c of
             ConstNull \<Rightarrow> Inr charge
           | ConstBoolean _ \<Rightarrow> contract_add charge 1
           | ConstNumber v \<Rightarrow> contract_string charge v
           | ConstString v \<Rightarrow> contract_string charge v))"

definition charge_node :: "logical_charge \<Rightarrow> contract_node \<Rightarrow> adapter_error + logical_charge" where
  "charge_node charge node =
     and_then (charge_option_ref charge (cn_parent node)) (\<lambda>charge.
     and_then (contract_add charge 4) (\<lambda>charge.
     and_then (case cn_segment node of
         None \<Rightarrow> Inr charge
       | Some segment \<Rightarrow> and_then (contract_add charge 4) (\<lambda>charge.
           case segment of SegKey key \<Rightarrow> contract_string charge key | SegArrayItem \<Rightarrow> Inr charge)) (\<lambda>charge.
     and_then (contract_add charge 4) (\<lambda>charge.
     and_then (contract_add charge 4) (\<lambda>charge.
     and_then (if cn_presence_source node \<noteq> None then contract_add charge 4 else Inr charge) (\<lambda>charge.
     and_then (contract_add charge 4) (\<lambda>charge. charge_body charge (cn_body node))))))))"

definition charge_table :: "logical_charge \<Rightarrow> enum_table \<Rightarrow> adapter_error + logical_charge" where
  "charge_table charge table =
     and_then (contract_add charge 4) (\<lambda>charge.
     and_then (contract_add charge 4) (\<lambda>charge.
       try_fold (\<lambda>charge entry. and_then (contract_add charge 1) (\<lambda>charge.
         contract_string charge (ee_token entry))) charge (et_entries table)))"

definition charge_tree :: "adapter_contract \<Rightarrow> adapter_error + logical_charge" where
  "charge_tree contract =
     and_then (contract_add (charge_new MIB) 4) (\<lambda>charge.
     and_then (contract_add charge 4) (\<lambda>charge.
     and_then (try_fold charge_node charge (ct_nodes (ac_tree contract))) (\<lambda>charge.
     and_then (contract_add charge 4) (\<lambda>charge.
       try_fold charge_table charge (ct_tables (ac_tree contract))))))"

subsection \<open>Lexical rules (semantics.rs)\<close>

datatype lexical_scope =
    LexRoot | LexSystem | LexSystemMessageEntry | LexMessage | LexMessageEntry | LexUserBlock
  | LexAssistantBlock | LexToolResultBlock | LexTool

record root_accounting =
  ra_system_messages :: bool
  ra_system :: bool
  ra_messages :: bool
  ra_system_joined :: bool

record mistral_accounting =
  ma_normal_blocks :: nat
  ma_composites :: nat

record lexical_context =
  lx_scope :: lexical_scope
  lx_cases :: "(variant_source \<times> nat) list"
  lx_wrappers :: "presence_source list"
  lx_root_collections :: root_accounting

definition active_ordinal :: "lexical_context \<Rightarrow> variant_source \<Rightarrow> nat option" where
  "active_ordinal context source =
     map_option snd (find (\<lambda>c. fst c = source) (rev (lx_cases context)))"

definition has_wrapper :: "lexical_context \<Rightarrow> presence_source \<Rightarrow> bool" where
  "has_wrapper context source \<longleftrightarrow> source \<in> set (lx_wrappers context)"

definition in_switch :: "lexical_context \<Rightarrow> variant_source \<Rightarrow> bool" where
  "in_switch context source \<longleftrightarrow> active_ordinal context source \<noteq> None"

definition in_message_scope :: "lexical_context \<Rightarrow> bool" where
  "in_message_scope context \<longleftrightarrow> lx_scope context \<in> {LexMessage, LexMessageEntry}"

definition is_tool_result_message :: "lexical_context \<Rightarrow> bool" where
  "is_tool_result_message context \<longleftrightarrow>
     in_message_scope context \<and> active_ordinal context VarMessage = Some 2"

definition is_image_block :: "lexical_context \<Rightarrow> bool" where
  "is_image_block context \<longleftrightarrow> lx_scope context \<in> {LexUserBlock, LexToolResultBlock} \<and>
     (active_ordinal context VarUserBlock = Some 1 \<or> active_ordinal context VarToolResultBlock = Some 1)"

definition is_text_block :: "lexical_context \<Rightarrow> bool" where
  "is_text_block context = (case lx_scope context of
       LexUserBlock \<Rightarrow> active_ordinal context VarUserBlock = Some 0
     | LexAssistantBlock \<Rightarrow> active_ordinal context VarAssistantBlock \<in> {Some 0, Some 1}
     | LexToolResultBlock \<Rightarrow> active_ordinal context VarToolResultBlock = Some 0
     | _ \<Rightarrow> False)"

definition block_kind_scope :: "lexical_scope \<Rightarrow> (variant_source \<times> enum_source) option" where
  "block_kind_scope scope = (case scope of
       LexUserBlock \<Rightarrow> Some (VarUserBlock, EnumUserBlockKind)
     | LexAssistantBlock \<Rightarrow> Some (VarAssistantBlock, EnumAssistantBlockKind)
     | LexToolResultBlock \<Rightarrow> Some (VarToolResultBlock, EnumToolResultBlockKind)
     | _ \<Rightarrow> None)"

definition validate_block_kind :: "adapter_contract \<Rightarrow> transform \<Rightarrow> lexical_context \<Rightarrow> bool" where
  "validate_block_kind contract transform context =
     (case block_kind_scope (lx_scope context) of
        None \<Rightarrow> False
      | Some (variant, table_source) \<Rightarrow> (case transform of
          TEnumToken table \<Rightarrow> in_switch context variant \<and>
            (case nth_opt (ct_tables (ac_tree contract)) table of
               None \<Rightarrow> False | Some table \<Rightarrow> et_source table = table_source)
        | _ \<Rightarrow> False))"

definition is_exact_bedrock_status_table :: "adapter_contract \<Rightarrow> transform \<Rightarrow> bool" where
  "is_exact_bedrock_status_table contract transform = (case transform of
       TEnumToken index \<Rightarrow> (case nth_opt (ct_tables (ac_tree contract)) index of
           None \<Rightarrow> False
         | Some table \<Rightarrow> et_source table = EnumToolResultStatus \<and> length (et_entries table) = 2 \<and>
             ee_variant_ordinal (et_entries table ! 0) = 0 \<and> ee_token (et_entries table ! 0) = ''success'' \<and>
             ee_variant_ordinal (et_entries table ! 1) = 1 \<and> ee_token (et_entries table ! 1) = ''error'')
     | _ \<Rightarrow> False)"

definition wrapper_legal :: "presence \<Rightarrow> presence_source option \<Rightarrow> lexical_context \<Rightarrow> bool" where
  "wrapper_legal presence source context = (case (presence, source) of
       (Required, None) \<Rightarrow> True
     | (OmitIfNone, Some PresReasoningProof) \<Rightarrow>
         lx_scope context = LexAssistantBlock \<and> active_ordinal context VarAssistantBlock = Some 1
     | (OmitIfNone, Some PresReasoningEffort) \<Rightarrow>
         lx_scope context = LexRoot \<and> active_ordinal context VarReasoning = Some 2
     | (OmitIfNone, Some PresReasoningBudget) \<Rightarrow>
         lx_scope context = LexRoot \<and> active_ordinal context VarReasoning = Some 2
     | (OmitIfNone, Some PresMaxOutput) \<Rightarrow> lx_scope context = LexRoot
     | (OmitForUnset, Some PresToolChoice) \<Rightarrow> lx_scope context = LexRoot
     | (OmitForUnset, Some PresReasoning) \<Rightarrow> lx_scope context = LexRoot
     | (OmitForUnset, Some PresCacheRetention) \<Rightarrow> lx_scope context = LexRoot
     | _ \<Rightarrow> False)"

definition validate_wrapper ::
  "presence \<Rightarrow> presence_source option \<Rightarrow> lexical_context \<Rightarrow> adapter_error + unit" where
  "validate_wrapper presence source context =
     (if (case source of None \<Rightarrow> False | Some s \<Rightarrow> has_wrapper context s) then Inl InvalidContract
      else require (wrapper_legal presence source context) InvalidContract)"

definition validate_switch :: "wire_id \<Rightarrow> variant_source \<Rightarrow> lexical_context \<Rightarrow> adapter_error + unit" where
  "validate_switch wire source context = require (case source of
       VarModelSelection \<Rightarrow> lx_scope context = LexRoot
     | VarSystemMessageEntry \<Rightarrow> lx_scope context = LexSystemMessageEntry
     | VarMessage \<Rightarrow> in_message_scope context
     | VarUserBlock \<Rightarrow> lx_scope context = LexUserBlock
     | VarAssistantBlock \<Rightarrow> lx_scope context = LexAssistantBlock
     | VarToolResultBlock \<Rightarrow> lx_scope context = LexToolResultBlock
     | VarToolResultStatus \<Rightarrow>
         wire \<in> {GoogleGenerativeAi, GoogleVertex} \<and> is_tool_result_message context
     | VarToolChoice \<Rightarrow> lx_scope context = LexRoot \<and> has_wrapper context PresToolChoice
     | VarReasoning \<Rightarrow> lx_scope context = LexRoot \<and> has_wrapper context PresReasoning
     | VarCacheRetention \<Rightarrow> lx_scope context = LexRoot \<and> has_wrapper context PresCacheRetention)
     InvalidContract"

definition validate_root_collection ::
  "collection \<Rightarrow> lexical_context \<Rightarrow> adapter_error + lexical_context" where
  "validate_root_collection collection context =
     (if lx_scope context \<noteq> LexRoot then Inr context
      else let acc = lx_root_collections context;
        (valid, acc') = (case collection of
            ColSystemMessages \<Rightarrow>
              (\<not> ra_system_messages acc \<and> \<not> ra_system acc \<and> \<not> ra_messages acc \<and> \<not> ra_system_joined acc,
               acc\<lparr>ra_system_messages := True\<rparr>)
          | ColSystem \<Rightarrow> (\<not> ra_system_messages acc, acc\<lparr>ra_system := True\<rparr>)
          | ColMessages \<Rightarrow> (\<not> ra_system_messages acc, acc\<lparr>ra_messages := True\<rparr>)
          | _ \<Rightarrow> (True, acc)) in
        if valid then Inr (context\<lparr>lx_root_collections := acc'\<rparr>) else Inl InvalidContract)"

definition validate_system_joined :: "lexical_context \<Rightarrow> adapter_error + lexical_context" where
  "validate_system_joined context =
     (if lx_scope context \<noteq> LexRoot \<or> ra_system_messages (lx_root_collections context)
      then Inl InvalidContract
      else Inr (context\<lparr>lx_root_collections := (lx_root_collections context)\<lparr>ra_system_joined := True\<rparr>\<rparr>))"

definition collection_item_scope :: "collection \<Rightarrow> lexical_context \<Rightarrow> adapter_error + lexical_scope" where
  "collection_item_scope collection context = (case collection of
       ColSystem \<Rightarrow> if lx_scope context = LexRoot then Inr LexSystem else Inl InvalidContract
     | ColMessages \<Rightarrow> if lx_scope context = LexRoot then Inr LexMessage else Inl InvalidContract
     | ColSystemMessages \<Rightarrow>
         if lx_scope context = LexRoot then Inr LexSystemMessageEntry else Inl InvalidContract
     | ColTools \<Rightarrow> if lx_scope context = LexRoot then Inr LexTool else Inl InvalidContract
     | ColBlocks \<Rightarrow>
         if \<not> in_message_scope context then Inl InvalidContract
         else if active_ordinal context VarMessage = Some 0 then Inr LexUserBlock
         else if active_ordinal context VarMessage = Some 1 then Inr LexAssistantBlock
         else if active_ordinal context VarMessage = Some 2 then Inr LexToolResultBlock
         else Inl InvalidContract)"

definition scalar_legal :: "adapter_contract \<Rightarrow> scalar_source \<Rightarrow> transform \<Rightarrow> lexical_context \<Rightarrow> bool" where
  "scalar_legal contract source transform context =
     (let root = (lx_scope context = LexRoot); wire = ac_wire_id contract;
          assistant = (\<lambda>n :: nat. lx_scope context = LexAssistantBlock \<and>
            active_ordinal context VarAssistantBlock = Some n) in
      case source of
        SrcSelectedModel \<Rightarrow> root
      | SrcSystemJoined \<Rightarrow> root
      | SrcSelectionKind \<Rightarrow> in_switch context VarModelSelection
      | SrcSystemItem \<Rightarrow> lx_scope context = LexSystem
      | SrcMessageRole \<Rightarrow> in_message_scope context \<and> in_switch context VarMessage
      | SrcBlockKind \<Rightarrow> validate_block_kind contract transform context
      | SrcBlockText \<Rightarrow> is_text_block context
      | SrcToolResultCallId \<Rightarrow> is_tool_result_message context
      | SrcToolResultIsError \<Rightarrow> wire \<in> {AnthropicMessages, PiMessages} \<and> is_tool_result_message context
      | SrcToolResultStatus \<Rightarrow> wire = BedrockConverseStream \<and> is_tool_result_message context \<and>
          is_exact_bedrock_status_table contract transform
      | SrcToolResultName \<Rightarrow> wire \<in> {PiMessages, GoogleGenerativeAi, GoogleVertex, MistralConversations} \<and>
          is_tool_result_message context
      | SrcMistralToolResultContent \<Rightarrow> wire = MistralConversations \<and> is_tool_result_message context
      | SrcToolCallId \<Rightarrow> assistant 2
      | SrcToolCallName \<Rightarrow> assistant 2
      | SrcToolCallArguments \<Rightarrow> assistant 2
      | SrcToolName \<Rightarrow> lx_scope context = LexTool
      | SrcToolDescription \<Rightarrow> lx_scope context = LexTool
      | SrcToolSchema \<Rightarrow> lx_scope context = LexTool
      | SrcReasoningKind \<Rightarrow> assistant 1
      | SrcProof \<Rightarrow> assistant 1 \<and> has_wrapper context PresReasoningProof
      | SrcImageBytes \<Rightarrow> is_image_block context
      | SrcImageMediaType \<Rightarrow> is_image_block context
      | SrcImageWidth \<Rightarrow> is_image_block context
      | SrcImageHeight \<Rightarrow> is_image_block context
      | SrcImageFrames \<Rightarrow> is_image_block context
      | SrcImageDataUri \<Rightarrow> is_image_block context
      | SrcToolChoiceKind \<Rightarrow> in_switch context VarToolChoice \<and> has_wrapper context PresToolChoice
      | SrcToolChoiceName \<Rightarrow>
          active_ordinal context VarToolChoice = Some 3 \<and> has_wrapper context PresToolChoice
      | SrcReasoningMode \<Rightarrow> in_switch context VarReasoning \<and> has_wrapper context PresReasoning
      | SrcReasoningEffort \<Rightarrow> root \<and> active_ordinal context VarReasoning = Some 2 \<and>
          has_wrapper context PresReasoningEffort
      | SrcReasoningBudget \<Rightarrow> root \<and> active_ordinal context VarReasoning = Some 2 \<and>
          has_wrapper context PresReasoningBudget
      | SrcCacheRetention \<Rightarrow> in_switch context VarCacheRetention \<and> has_wrapper context PresCacheRetention
      | SrcMaxOutput \<Rightarrow> root \<and> has_wrapper context PresMaxOutput)"

definition validate_scalar ::
  "adapter_contract \<Rightarrow> scalar_source \<Rightarrow> transform \<Rightarrow> lexical_context \<Rightarrow> adapter_error + unit" where
  "validate_scalar contract source transform context =
     require (scalar_legal contract source transform context) InvalidContract"

text \<open>The walk threads the context and the stack of Mistral counters; a failure ends the validation, so
  the state it leaves behind is not returned.\<close>

type_synonym walk_state = "lexical_context \<times> mistral_accounting list"

definition bump_last ::
  "(mistral_accounting \<Rightarrow> nat) \<Rightarrow> (nat \<Rightarrow> mistral_accounting \<Rightarrow> mistral_accounting) \<Rightarrow>
   mistral_accounting list \<Rightarrow> adapter_error + mistral_accounting list" where
  "bump_last field set_field mistral =
     (if mistral = [] then Inl InvalidContract
      else and_then (ok_or (checked_add 8 (field (last mistral)) 1) InvalidContract) (\<lambda>n.
        Inr (butlast mistral @ [set_field n (last mistral)])))"

definition bump_normal :: "mistral_accounting list \<Rightarrow> adapter_error + mistral_accounting list" where
  "bump_normal = bump_last ma_normal_blocks (\<lambda>n a. a\<lparr>ma_normal_blocks := n\<rparr>)"

definition bump_composite :: "mistral_accounting list \<Rightarrow> adapter_error + mistral_accounting list" where
  "bump_composite = bump_last ma_composites (\<lambda>n a. a\<lparr>ma_composites := n\<rparr>)"

definition walk_array ::
  "(nat \<Rightarrow> walk_state \<Rightarrow> (adapter_error + walk_state) option) \<Rightarrow> adapter_contract \<Rightarrow> contract_array \<Rightarrow>
   walk_state \<Rightarrow> (adapter_error + walk_state) option" where
  "walk_array walk contract array s = (case s of (context, mistral) \<Rightarrow>
     fuel_then (Some (validate_root_collection (ca_collection array) context)) (\<lambda>context.
       if ca_collection array = ColSystemMessages \<and>
          ac_wire_id contract \<notin> {OpenAiCompletions, MistralConversations}
       then Some (Inl InvalidContract)
       else fuel_then (Some (
           if ca_collection array = ColBlocks \<and> ac_wire_id contract = MistralConversations \<and>
              is_tool_result_message context
           then bump_normal mistral else Inr mistral)) (\<lambda>mistral.
         fuel_then (Some (collection_item_scope (ca_collection array) context)) (\<lambda>scope.
         fuel_then (walk (ca_item array) (context\<lparr>lx_scope := scope\<rparr>, mistral)) (\<lambda>(after, mistral).
           Some (Inr (after\<lparr>lx_scope := lx_scope context\<rparr>, mistral)))))))"

definition walk_case ::
  "(nat \<Rightarrow> walk_state \<Rightarrow> (adapter_error + walk_state) option) \<Rightarrow> adapter_contract \<Rightarrow> variant_source \<Rightarrow>
   walk_state \<Rightarrow> contract_case \<Rightarrow> (adapter_error + walk_state) option" where
  "walk_case walk contract source s c = (case s of (context, mistral) \<Rightarrow>
     let previous_scope = lx_scope context;
       context = (if source = VarSystemMessageEntry
         then context\<lparr>lx_scope := (if cc_variant_ordinal c = 0 then LexSystem else LexMessageEntry)\<rparr>
         else context);
       context = context\<lparr>lx_cases := lx_cases context @ [(source, cc_variant_ordinal c)]\<rparr>;
       track_mistral = (ac_wire_id contract = MistralConversations \<and> source = VarMessage \<and>
         cc_variant_ordinal c = 2);
       mistral = (if track_mistral then mistral @ [\<lparr>ma_normal_blocks = 0, ma_composites = 0\<rparr>] else mistral) in
     fuel_then (walk (cc_node c) (context, mistral)) (\<lambda>(context, mistral).
     fuel_then (Some (
         if track_mistral then
           if mistral = [] then Inl InvalidContract
           else if ma_normal_blocks (last mistral) \<noteq> 0 \<or> ma_composites (last mistral) \<noteq> 1
           then Inl InvalidContract
           else Inr (butlast mistral)
         else Inr mistral)) (\<lambda>mistral.
       Some (Inr (context\<lparr>lx_cases := butlast (lx_cases context), lx_scope := previous_scope\<rparr>, mistral)))))"

definition walk_switch ::
  "(nat \<Rightarrow> walk_state \<Rightarrow> (adapter_error + walk_state) option) \<Rightarrow> adapter_contract \<Rightarrow> variant_source \<Rightarrow>
   contract_case list \<Rightarrow> walk_state \<Rightarrow> (adapter_error + walk_state) option" where
  "walk_switch walk contract source cases s =
     fuel_then (Some (validate_switch (ac_wire_id contract) source (fst s))) (\<lambda>_.
       fuel_fold (walk_case walk contract source) s cases)"

definition walk_value ::
  "adapter_contract \<Rightarrow> scalar_source \<Rightarrow> transform \<Rightarrow> walk_state \<Rightarrow> adapter_error + walk_state" where
  "walk_value contract source transform s = (case s of (context, mistral) \<Rightarrow>
     and_then (if source = SrcSystemJoined then validate_system_joined context else Inr context) (\<lambda>context.
     and_then (validate_scalar contract source transform context) (\<lambda>_.
     and_then (if source = SrcMistralToolResultContent then bump_composite mistral else Inr mistral) (\<lambda>mistral.
       Inr (context, mistral)))))"

fun walk_node ::
  "nat \<Rightarrow> adapter_contract \<Rightarrow> nat \<Rightarrow> walk_state \<Rightarrow> (adapter_error + walk_state) option" where
  "walk_node 0 contract index s = None"
| "walk_node (Suc fuel) contract index s =
     (case nth_opt (ct_nodes (ac_tree contract)) index of
        None \<Rightarrow> None
      | Some node \<Rightarrow>
          fuel_then (Some (validate_wrapper (cn_presence node) (cn_presence_source node) (fst s))) (\<lambda>_.
          fuel_then (Some (
              if cn_presence node = Required then Inr s
              else and_then (ok_or (cn_presence_source node) InvalidContract) (\<lambda>source.
                Inr ((fst s)\<lparr>lx_wrappers := lx_wrappers (fst s) @ [source]\<rparr>, snd s)))) (\<lambda>s.
          fuel_then (case cn_body node of
              BodyObject kids \<Rightarrow> fuel_fold (\<lambda>s child. walk_node fuel contract child s) s kids
            | BodyArray array \<Rightarrow> walk_array (walk_node fuel contract) contract array s
            | BodySwitch source cases \<Rightarrow> walk_switch (walk_node fuel contract) contract source cases s
            | BodyValue source transform \<Rightarrow> Some (walk_value contract source transform s)
            | BodyConstant _ \<Rightarrow> Some (Inr s)) (\<lambda>(context, mistral).
            Some (Inr (
              if cn_presence node = Required then (context, mistral)
              else (context\<lparr>lx_wrappers := butlast (lx_wrappers context)\<rparr>, mistral)))))))"

definition validate_semantics :: "nat \<Rightarrow> adapter_contract \<Rightarrow> (adapter_error + unit) option" where
  "validate_semantics fuel contract =
     fuel_then (walk_node fuel contract (ct_root (ac_tree contract))
       (\<lparr>lx_scope = LexRoot, lx_cases = [], lx_wrappers = [],
         lx_root_collections = \<lparr>ra_system_messages = False, ra_system = False, ra_messages = False,
           ra_system_joined = False\<rparr>\<rparr>, [])) (\<lambda>_. Some (Inr ()))"

subsection \<open>The whole validation\<close>

definition root_node_legal :: "contract_node \<Rightarrow> bool" where
  "root_node_legal n \<longleftrightarrow> cn_parent n = None \<and> cn_segment n = None \<and> cn_presence n = Required \<and>
     cn_presence_source n = None \<and> (case cn_body n of BodyObject _ \<Rightarrow> True | _ \<Rightarrow> False)"

definition validate_tree_node ::
  "nat \<Rightarrow> adapter_contract \<Rightarrow> references \<times> nat list \<Rightarrow> nat \<times> contract_node \<Rightarrow>
   (adapter_error + references \<times> nat list) option" where
  "validate_tree_node fuel contract s x = (case s of (refs, depths) \<Rightarrow> case x of (index, node) \<Rightarrow>
     fuel_then (Some (validate_presence (cn_presence node) (cn_presence_source node))) (\<lambda>_.
     fuel_then (validate_body fuel contract index (cn_body node) refs) (\<lambda>refs.
     fuel_then (node_depth (cn_body node) depths) (\<lambda>d. Some (Inr (refs, depths @ [d]))))))"

text \<open>\<open>path_depths[parent]\<close> and \<open>expected_parent[index]\<close> are in range after the checks before them.\<close>

definition path_step ::
  "contract_node list \<Rightarrow> nat option list \<Rightarrow> nat list \<Rightarrow> nat \<Rightarrow> adapter_error + nat list" where
  "path_step nodes expected_parent path_depths index =
     (let node = nodes ! index in
      and_then (ok_or (cn_parent node) InvalidContract) (\<lambda>parent.
        if parent \<le> index \<or> parent \<ge> length nodes \<or> expected_parent ! index \<noteq> Some parent
        then Inl InvalidContract
        else and_then (ok_or (checked_add 8 (path_depths ! parent)
            (if cn_segment node \<noteq> None then 1 else 0)) AdapterLimit) (\<lambda>d.
          Inr (path_depths[index := d]))))"

definition validate_tree :: "nat \<Rightarrow> adapter_contract \<Rightarrow> (adapter_error + unit) option" where
  "validate_tree fuel contract =
     (let tree = ac_tree contract; nodes = ct_nodes tree; root = ct_root tree in
      if nodes = [] \<or> length nodes > MAX_CONTRACT_NODES then Some (Inl AdapterLimit)
      else if root \<noteq> length nodes - 1 then Some (Inl InvalidContract)
      else if \<not> root_node_legal (nodes ! root) then Some (Inl InvalidContract)
      else if length (ct_tables tree) > MAX_TABLES then Some (Inl AdapterLimit)
      else
        fuel_then (Some (validate_tables contract)) (\<lambda>_.
        fuel_then (fuel_fold (validate_tree_node fuel contract)
            ((replicate (length nodes) 0, replicate (length nodes) None), [])
            (List.enumerate 0 nodes)) (\<lambda>((references, expected_parent), depths).
        fuel_then (Some (try_fold (path_step nodes expected_parent) (replicate (length nodes) 0)
            (rev [0..<root]))) (\<lambda>path_depths.
          if references ! root \<noteq> 0 \<or> list_ex (\<lambda>count. count \<noteq> 1) (take root references) \<or>
             list_ex (\<lambda>depth. depth > MAX_CONTRACT_DEPTH) depths \<or>
             list_ex (\<lambda>depth. \<not> (1 \<le> depth \<and> depth \<le> MAX_PATH_DEPTH)) (take root path_depths)
          then Some (Inl InvalidContract)
          else fuel_then (Some (charge_tree contract)) (\<lambda>_. validate_semantics fuel contract)))))"

definition values_step :: "string option \<Rightarrow> string \<Rightarrow> adapter_error + string option" where
  "values_step old v =
     and_then (contract_check (validate_header_value v)) (\<lambda>_.
       if (case old of None \<Rightarrow> False | Some old \<Rightarrow> old \<ge> v) then Inl InvalidContract else Inr (Some v))"

definition header_rule_step :: "string option \<Rightarrow> header_rule \<Rightarrow> adapter_error + string option" where
  "header_rule_step previous rule =
     and_then (case rule of
         FixedRule name v \<Rightarrow> and_then (contract_check (validate_header_value v)) (\<lambda>_. Inr name)
       | OneOfRule r \<Rightarrow>
           if or_values r = [] \<or> length (or_values r) > 16 then Inl InvalidContract
           else and_then (try_fold values_step None (or_values r)) (\<lambda>_. Inr (or_name r))) (\<lambda>name.
     and_then (contract_check (validate_header_name name)) (\<lambda>_.
       if denied_header name [] \<or> (case previous of None \<Rightarrow> False | Some old \<Rightarrow> old \<ge> name)
       then Inl InvalidContract else Inr (Some name)))"

definition validate_header_rules :: "header_rule list \<Rightarrow> adapter_error + unit" where
  "validate_header_rules rules =
     (if length rules > MAX_HEADER_RULES then Inl AdapterLimit
      else and_then (try_fold header_rule_step None rules) (\<lambda>_. Inr ()))"

definition validate_contract :: "nat \<Rightarrow> adapter_contract \<Rightarrow> (adapter_error + unit) option" where
  "validate_contract fuel contract =
     (if ac_version contract \<noteq> 1 \<or>
         wire_ordinal (ac_wire_id contract) \<noteq> wire_ordinal (ac_decoder_kind contract)
      then Some (Inl InvalidContract)
      else fuel_then (validate_tree fuel contract) (\<lambda>_.
        Some (validate_header_rules (ac_header_rules contract))))"

subsection \<open>Ordinary headers (header.rs)\<close>

definition map_header_error :: "validation_error \<Rightarrow> adapter_error" where
  "map_header_error e = (case e of InvalidArgument \<Rightarrow> HeaderMismatch | Limit \<Rightarrow> AdapterLimit)"

definition header_rule_match :: "ordinary_header list \<Rightarrow> nat \<Rightarrow> header_rule \<Rightarrow> adapter_error + nat" where
  "header_rule_match headers header_index rule =
     (let here = nth_opt headers header_index in
      case rule of
        FixedRule name _ \<Rightarrow>
          if (case here of None \<Rightarrow> False | Some header \<Rightarrow> oh_name header = name) then Inl HeaderMismatch
          else Inr header_index
      | OneOfRule r \<Rightarrow>
          (case (case here of None \<Rightarrow> None | Some header \<Rightarrow>
              if oh_name header = or_name r then Some header else None) of
             Some header \<Rightarrow>
               if is_ok (binary_search_by (\<lambda>v. cmp v (oh_value header)) (or_values r))
               then Inr (header_index + 1) else Inl HeaderMismatch
           | None \<Rightarrow> if or_required r then Inl HeaderMismatch else Inr header_index))"

definition validate_headers :: "header_rule list \<Rightarrow> ordinary_header list \<Rightarrow> adapter_error + unit" where
  "validate_headers rules headers =
     and_then (map_err map_header_error (validate_ordinary_headers headers [])) (\<lambda>_.
     and_then (try_fold (header_rule_match headers) 0 rules) (\<lambda>header_index.
       if header_index \<noteq> length headers then Inl HeaderMismatch else Inr ()))"

subsection \<open>Loops that may panic\<close>

lemma fuel_fold_keeps:
  assumes "P s" and "\<And>s x. x \<in> set xs \<Longrightarrow> P s \<Longrightarrow> f s x \<noteq> None \<and> (\<forall>t. f s x = Some (Inr t) \<longrightarrow> P t)"
  shows "fuel_fold f s xs \<noteq> None \<and> (\<forall>t. fuel_fold f s xs = Some (Inr t) \<longrightarrow> P t)"
  using assms
proof (induction xs arbitrary: s)
  case (Cons x xs)
  have step: "f s x \<noteq> None \<and> (\<forall>t. f s x = Some (Inr t) \<longrightarrow> P t)"
    by (rule Cons.prems(2)) (use Cons.prems(1) in simp_all)
  have "fuel_fold f t xs \<noteq> None \<and> (\<forall>u. fuel_fold f t xs = Some (Inr u) \<longrightarrow> P u)" if "P t" for t
    by (rule Cons.IH [OF that]) (use Cons.prems(2) in auto)
  with step show ?case by auto
qed simp

lemma fuel_fold_append:
  "fuel_fold f s (xs @ ys) = fuel_then (fuel_fold f s xs) (\<lambda>t. fuel_fold f t ys)"
proof (induction xs arbitrary: s)
  case (Cons x xs)
  then show ?case by (cases "f s x") (auto simp: fuel_then_def split: sum.splits)
qed simp

lemma fuel_fold_prefix:
  assumes "P [] s"
    and "\<And>ys x zs s. xs = ys @ x # zs \<Longrightarrow> P ys s \<Longrightarrow>
      f s x \<noteq> None \<and> (\<forall>t. f s x = Some (Inr t) \<longrightarrow> P (ys @ [x]) t)"
  shows "fuel_fold f s xs \<noteq> None \<and> (\<forall>t. fuel_fold f s xs = Some (Inr t) \<longrightarrow> P xs t)"
  using assms
proof (induction xs rule: rev_induct)
  case (snoc x xs)
  have "fuel_fold f s xs \<noteq> None \<and> (\<forall>t. fuel_fold f s xs = Some (Inr t) \<longrightarrow> P xs t)"
    by (rule snoc.IH) (use snoc.prems in auto)
  moreover have "f t x \<noteq> None \<and> (\<forall>u. f t x = Some (Inr u) \<longrightarrow> P (xs @ [x]) u)" if "P xs t" for t
    by (rule snoc.prems(2) [of xs x "[]"]) (use that in simp_all)
  ultimately show ?case by (auto simp: fuel_fold_append)
qed simp

lemma fuel_fold_enumerate:
  assumes "P 0 s"
    and "\<And>k s. k < length xs \<Longrightarrow> P k s \<Longrightarrow>
      f s (k, xs ! k) \<noteq> None \<and> (\<forall>t. f s (k, xs ! k) = Some (Inr t) \<longrightarrow> P (Suc k) t)"
  shows "fuel_fold f s (List.enumerate 0 xs) \<noteq> None \<and>
    (\<forall>t. fuel_fold f s (List.enumerate 0 xs) = Some (Inr t) \<longrightarrow> P (length xs) t)"
proof -
  have "fuel_fold f s (List.enumerate 0 xs) \<noteq> None \<and>
      (\<forall>t. fuel_fold f s (List.enumerate 0 xs) = Some (Inr t) \<longrightarrow> P (length (List.enumerate 0 xs)) t)"
  proof (rule fuel_fold_prefix [where P = "\<lambda>ys s. P (length ys) s"])
    fix ys x zs s
    assume eq: "List.enumerate 0 xs = ys @ x # zs" and p: "P (length ys) s"
    have "length ys < length xs" using arg_cong [OF eq, of length] by simp
    moreover have "x = (length ys, xs ! length ys)"
      using arg_cong [OF eq, of "\<lambda>l. l ! length ys"] calculation by (simp add: nth_enumerate_eq)
    ultimately show "f s x \<noteq> None \<and> (\<forall>t. f s x = Some (Inr t) \<longrightarrow> P (length (ys @ [x])) t)"
      using assms(2) [of "length ys" s] p by simp
  qed (use assms(1) in simp)
  then show ?thesis by simp
qed

subsection \<open>The references of a contract tree\<close>

abbreviation kids_of :: "contract_node list \<Rightarrow> nat \<Rightarrow> nat list" where
  "kids_of nodes i \<equiv> body_children (cn_body (nodes ! i))"

definition references_inv :: "nat \<Rightarrow> nat list list \<Rightarrow> references \<Rightarrow> bool" where
  "references_inv n kss refs \<longleftrightarrow> (case refs of (references, expected_parent) \<Rightarrow>
     length references = n \<and> length expected_parent = n \<and>
     (\<forall>c<n. references ! c = count_list (concat kss) c \<and> references ! c \<le> 1) \<and>
     (\<forall>i<length kss. \<forall>c\<in>set (kss ! i). expected_parent ! c = Some i))"

lemma add_reference_Inr:
  assumes "references_inv n (kss @ [ks]) refs" and "length kss < n"
    and "add_reference (length kss) c refs = Inr refs'"
  shows "c < length kss \<and> references_inv n (kss @ [ks @ [c]]) refs'"
proof -
  obtain r e where refs: "refs = (r, e)" by (cases refs)
  note inv = assms(1) [unfolded references_inv_def refs prod.case]
  have c: "c < length kss" and "c < n" and zero: "r ! c = 0" and refs': "refs' = (r[c := 1], e[c := Some (length kss)])"
    using assms(2,3) inv refs by (auto simp: add_reference_def Let_def split: if_splits)
  then have "count_list (concat (kss @ [ks])) c = 0" using inv by metis
  then have fresh: "c \<notin> set (concat (kss @ [ks]))" by (simp add: count_list_0_iff)
  have "expected_parent ! d = Some i" if "i < length (kss @ [ks @ [c]])" "d \<in> set ((kss @ [ks @ [c]]) ! i)"
    "expected_parent = e[c := Some (length kss)]" for i d expected_parent
  proof (cases "i = length kss")
    case True
    then show ?thesis using that inv \<open>c < n\<close> fresh by (auto simp: nth_list_update nth_append)
  next
    case False
    then have "i < length kss" and d: "d \<in> set (kss ! i)" using that by (auto simp: nth_append)
    then have "d \<noteq> c" using fresh nth_mem [of i kss] by auto
    moreover have "e ! d = Some i" using inv \<open>i < length kss\<close> d by (auto simp: nth_append)
    ultimately show ?thesis using that(3) by simp
  qed
  then show ?thesis using inv c \<open>c < n\<close> fresh zero
    by (auto simp: references_inv_def refs' nth_list_update count_list_0_iff)
qed

lemma count_total:
  assumes "\<forall>i\<le>node. list_all (\<lambda>c. c < i) (kids_of nodes i)" and "node < length nodes"
  shows "node < fuel \<Longrightarrow> count_scalar_source fuel nodes node source \<noteq> None"
  using assms
proof (induction fuel arbitrary: node)
  case (Suc fuel)
  have kid: "count_scalar_source fuel nodes c source \<noteq> None" if "c \<in> set (kids_of nodes node)" for c
  proof -
    have "c < node" using Suc.prems(2) that by (auto simp: list_all_iff)
    then show ?thesis using Suc.prems by (intro Suc.IH) auto
  qed
  have those: "those (map f xs) \<noteq> None" if "\<forall>x\<in>set xs. f x \<noteq> None" for f :: "'b \<Rightarrow> nat option" and xs
    using that by (induction xs) auto
  show ?case
  proof (cases "cn_body (nodes ! node)")
    case (BodyObject ks)
    then have "those (map (\<lambda>c. count_scalar_source fuel nodes c source) ks) \<noteq> None"
      using kid by (intro those) (simp add: body_children_def)
    then show ?thesis using BodyObject Suc.prems(3) by (simp add: nth_opt_def)
  next
    case (BodySwitch s cases)
    then have "those (map (\<lambda>c. count_scalar_source fuel nodes (cc_node c) source) cases) \<noteq> None"
      using kid by (intro those) (simp add: body_children_def)
    then show ?thesis using BodySwitch Suc.prems(3) by (simp add: nth_opt_def)
  qed (use Suc.prems(3) kid in \<open>auto simp: nth_opt_def body_children_def\<close>)
qed simp

lemma add_reference_Some:
  assumes "references_inv n (kss @ [ks]) refs" and "length kss < n"
  shows "add_reference (length kss) c refs = Inr refs' \<longrightarrow>
    c < length kss \<and> references_inv n (kss @ [ks @ [c]]) refs'"
  using add_reference_Inr [OF assms] by blast

lemma object_child_step:
  assumes "references_inv (length nodes) (kss @ [ks]) refs" and "length kss < length nodes"
  shows "object_child nodes (length kss) (refs, previous) c \<noteq> None \<and>
    (\<forall>t. object_child nodes (length kss) (refs, previous) c = Some (Inr t) \<longrightarrow>
       c < length kss \<and> references_inv (length nodes) (kss @ [ks @ [c]]) (fst t))"
proof (cases "add_reference (length kss) c refs")
  case (Inr refs')
  with add_reference_Inr [OF assms] have "c < length kss"
    and "references_inv (length nodes) (kss @ [ks @ [c]]) refs'" by blast+
  then show ?thesis using Inr assms(2)
    by (auto simp: object_child_def nth_opt_def split: option.splits path_segment.splits if_splits)
qed (simp add: object_child_def)

lemma switch_case_step:
  assumes "references_inv (length nodes) (kss @ [ks]) refs" and "length kss < length nodes"
  shows "switch_case nodes (length kss) refs (ordinal, c) \<noteq> None \<and>
    (\<forall>refs'. switch_case nodes (length kss) refs (ordinal, c) = Some (Inr refs') \<longrightarrow>
       cc_node c < length kss \<and> references_inv (length nodes) (kss @ [ks @ [cc_node c]]) refs')"
proof (cases "add_reference (length kss) (cc_node c) refs")
  case (Inr refs')
  with add_reference_Inr [OF assms] have "cc_node c < length kss"
    and "references_inv (length nodes) (kss @ [ks @ [cc_node c]]) refs'" by blast+
  then show ?thesis using Inr assms(2) by (auto simp: switch_case_def nth_opt_def split: if_splits)
qed (simp add: switch_case_def)

lemma item_shape_total:
  assumes "\<forall>i\<le>item. list_all (\<lambda>c. c < i) (kids_of nodes i)" and "item < length nodes" and "item < fuel"
  shows "validate_array_item_shape fuel nodes col item \<noteq> None"
proof -
  have "count_scalar_source fuel nodes item s \<noteq> None" for s by (rule count_total [OF assms])
  then have "\<exists>k. count_scalar_source fuel nodes item s = Some k" for s by blast
  from this [of SrcSystemItem] this [of SrcToolName] this [of SrcToolDescription] this [of SrcToolSchema]
  show ?thesis using assms(2)
    by (cases col) (auto simp: validate_array_item_shape_def nth_opt_def Let_def)
qed

lemma validate_body_step:
  assumes nodes: "nodes = ct_nodes (ac_tree contract)" and k: "length kss < length nodes"
    and fuel: "length kss \<le> fuel" and before: "\<forall>i<length kss. list_all (\<lambda>c. c < i) (kids_of nodes i)"
    and inv: "references_inv (length nodes) (kss @ [[]]) refs"
  shows "validate_body fuel contract (length kss) body refs \<noteq> None \<and>
    (\<forall>refs'. validate_body fuel contract (length kss) body refs = Some (Inr refs') \<longrightarrow>
       list_all (\<lambda>c. c < length kss) (body_children body) \<and>
       references_inv (length nodes) (kss @ [body_children body]) refs')"
proof (cases body)
  case (BodyObject ks)
  have "fuel_fold (object_child nodes (length kss)) (refs, None) ks \<noteq> None \<and>
      (\<forall>t. fuel_fold (object_child nodes (length kss)) (refs, None) ks = Some (Inr t) \<longrightarrow>
         list_all (\<lambda>c. c < length kss) ks \<and> references_inv (length nodes) (kss @ [ks]) (fst t))"
  proof (rule fuel_fold_prefix [where P = "\<lambda>ys s. list_all (\<lambda>c. c < length kss) ys \<and>
        references_inv (length nodes) (kss @ [ys]) (fst s)"])
    fix ys x zs and s :: "references \<times> string option"
    assume "list_all (\<lambda>c. c < length kss) ys \<and> references_inv (length nodes) (kss @ [ys]) (fst s)"
    then show "object_child nodes (length kss) s x \<noteq> None \<and>
        (\<forall>t. object_child nodes (length kss) s x = Some (Inr t) \<longrightarrow>
          list_all (\<lambda>c. c < length kss) (ys @ [x]) \<and> references_inv (length nodes) (kss @ [ys @ [x]]) (fst t))"
      using object_child_step [OF _ k, of ys "fst s" "snd s" x] by simp
  qed (use inv in simp)
  then show ?thesis using BodyObject
    by (auto simp: validate_body_def nodes [symmetric] body_children_def fuel_then_def Let_def split: option.splits sum.splits)
next
  case (BodyArray a)
  show ?thesis
  proof (cases "add_reference (length kss) (ca_item a) refs")
    case (Inr refs')
    with add_reference_Inr [OF inv k] have c: "ca_item a < length kss"
      and refs': "references_inv (length nodes) (kss @ [[ca_item a]]) refs'" by auto
    then have "validate_array_item_shape fuel nodes (ca_collection a) (ca_item a) \<noteq> None"
      using before k fuel by (intro item_shape_total) auto
    then obtain y where "validate_array_item_shape fuel nodes (ca_collection a) (ca_item a) = Some y" by auto
    then show ?thesis using BodyArray Inr c refs' k
      by (cases y) (auto simp: validate_body_def nodes [symmetric] body_children_def nth_opt_def Let_def split: if_splits)
  qed (simp add: BodyArray validate_body_def Let_def)
next
  case (BodySwitch source cases)
  have "fuel_fold (switch_case nodes (length kss)) refs (List.enumerate 0 cases) \<noteq> None \<and>
      (\<forall>t. fuel_fold (switch_case nodes (length kss)) refs (List.enumerate 0 cases) = Some (Inr t) \<longrightarrow>
         list_all (\<lambda>c. c < length kss) (map (cc_node \<circ> snd) (List.enumerate 0 cases)) \<and>
         references_inv (length nodes) (kss @ [map (cc_node \<circ> snd) (List.enumerate 0 cases)]) t)"
  proof (rule fuel_fold_prefix [where P = "\<lambda>ys s. list_all (\<lambda>c. c < length kss) (map (cc_node \<circ> snd) ys) \<and>
        references_inv (length nodes) (kss @ [map (cc_node \<circ> snd) ys]) s"])
    fix ys zs :: "(nat \<times> contract_case) list" and x s
    assume "list_all (\<lambda>c. c < length kss) (map (cc_node \<circ> snd) ys) \<and>
        references_inv (length nodes) (kss @ [map (cc_node \<circ> snd) ys]) s"
    then show "switch_case nodes (length kss) s x \<noteq> None \<and>
        (\<forall>t. switch_case nodes (length kss) s x = Some (Inr t) \<longrightarrow>
          list_all (\<lambda>c. c < length kss) (map (cc_node \<circ> snd) (ys @ [x])) \<and>
          references_inv (length nodes) (kss @ [map (cc_node \<circ> snd) (ys @ [x])]) t)"
      using switch_case_step [OF _ k, of "map (cc_node \<circ> snd) ys" s "fst x" "snd x"] by simp
  qed (use inv in simp)
  moreover have "map (cc_node \<circ> snd) (List.enumerate 0 cases) = map cc_node cases"
    by (simp flip: map_map)
  ultimately show ?thesis using BodySwitch
    by (auto simp: validate_body_def nodes [symmetric] body_children_def Let_def split: if_splits)
qed (use inv in \<open>auto simp: validate_body_def body_children_def\<close>)

definition ranked :: "contract_node list \<Rightarrow> nat list \<Rightarrow> bool" where
  "ranked nodes depths \<longleftrightarrow> (\<forall>i<length depths. depths ! i = Suc (fold max (map ((!) depths) (kids_of nodes i)) 0))"

lemma those_nth_opt:
  "list_all (\<lambda>c. c < length depths) ks \<Longrightarrow> those (map (nth_opt depths) ks) = Some (map ((!) depths) ks)"
  by (induction ks) (simp_all add: nth_opt_def)

lemma node_depth_step:
  assumes "list_all (\<lambda>c. c < length depths) (body_children body)"
  shows "node_depth body depths \<noteq> None \<and>
    (\<forall>d. node_depth body depths = Some (Inr d) \<longrightarrow>
       d = Suc (fold max (map ((!) depths) (body_children body)) 0))"
  using those_nth_opt [OF assms] by (auto simp: node_depth_def)

definition tree_loop_inv :: "contract_node list \<Rightarrow> nat \<Rightarrow> references \<times> nat list \<Rightarrow> bool" where
  "tree_loop_inv nodes k s \<longleftrightarrow>
     references_inv (length nodes) (map (kids_of nodes) [0..<k]) (fst s) \<and>
     length (snd s) = k \<and> ranked nodes (snd s) \<and>
     (\<forall>i<k. list_all (\<lambda>c. c < i) (kids_of nodes i))"

lemma ranked_snoc:
  assumes "ranked nodes depths" and "d = Suc (fold max (map ((!) depths) (kids_of nodes (length depths))) 0)"
    and "\<forall>i\<le>length depths. list_all (\<lambda>c. c < i) (kids_of nodes i)"
  shows "ranked nodes (depths @ [d])"
proof -
  have same: "map ((!) (depths @ [d])) (kids_of nodes i) = map ((!) depths) (kids_of nodes i)"
    if "i \<le> length depths" for i
  proof (rule map_cong [OF refl])
    fix c assume "c \<in> set (kids_of nodes i)"
    with assms(3) that have "c < i" by (auto simp: list_all_iff)
    then have "c < length depths" using that by simp
    then show "(depths @ [d]) ! c = depths ! c" by (simp add: nth_append)
  qed
  show ?thesis
    unfolding ranked_def
  proof (intro allI impI)
    fix i assume "i < length (depths @ [d])"
    then consider "i < length depths" | "i = length depths" by force
    then show "(depths @ [d]) ! i = Suc (fold max (map ((!) (depths @ [d])) (kids_of nodes i)) 0)"
    proof cases
      case 1
      then have "depths ! i = Suc (fold max (map ((!) depths) (kids_of nodes i)) 0)"
        using assms(1) by (simp only: ranked_def)
      moreover have "(depths @ [d]) ! i = depths ! i" using 1 by (simp add: nth_append)
      moreover have "i \<le> length depths" using 1 by simp
      ultimately show ?thesis by (simp only: same)
    next
      case 2
      show ?thesis unfolding 2 same [OF order_refl] nth_append_length by (rule assms(2))
    qed
  qed
qed

lemma references_inv_Nil:
  "references_inv n kss refs \<Longrightarrow> references_inv n (kss @ [[]]) refs"
  by (auto simp: references_inv_def nth_append less_Suc_eq split: prod.splits)

lemma tree_loop_step:
  assumes nodes: "nodes = ct_nodes (ac_tree contract)" and k: "k < length nodes" and fuel: "length nodes \<le> fuel"
    and inv: "tree_loop_inv nodes k s"
  shows "validate_tree_node fuel contract s (k, nodes ! k) \<noteq> None \<and>
    (\<forall>t. validate_tree_node fuel contract s (k, nodes ! k) = Some (Inr t) \<longrightarrow> tree_loop_inv nodes (Suc k) t)"
proof -
  define kss where "kss = map (kids_of nodes) [0..<k]"
  define body where "body = cn_body (nodes ! k)"
  obtain refs depths where s: "s = (refs, depths)" by (cases s)
  note inv = inv [unfolded tree_loop_inv_def s fst_conv snd_conv, folded kss_def]
  have len: "length kss = k" by (simp add: kss_def)
  have body: "validate_body fuel contract (length kss) body refs \<noteq> None \<and>
    (\<forall>refs'. validate_body fuel contract (length kss) body refs = Some (Inr refs') \<longrightarrow>
       list_all (\<lambda>c. c < length kss) (body_children body) \<and>
       references_inv (length nodes) (kss @ [body_children body]) refs')"
    by (rule validate_body_step [OF nodes]) (use inv k fuel len in \<open>auto intro: references_inv_Nil\<close>)
  show ?thesis
  proof (cases "validate_presence (cn_presence (nodes ! k)) (cn_presence_source (nodes ! k))")
    case (Inr u)
    from body obtain r where r: "validate_body fuel contract k body refs = Some r" using len by auto
    show ?thesis
    proof (cases r)
      case (Inl e)
      then show ?thesis using Inr r by (simp add: validate_tree_node_def s body_def)
    next
      case (Inr refs')
      with body r len have kids: "list_all (\<lambda>c. c < k) (body_children body)"
        and refs': "references_inv (length nodes) (kss @ [body_children body]) refs'" by auto
      have "node_depth body depths \<noteq> None \<and> (\<forall>d. node_depth body depths = Some (Inr d) \<longrightarrow>
          d = Suc (fold max (map ((!) depths) (body_children body)) 0))"
        by (rule node_depth_step) (use kids inv in simp)
      moreover have "tree_loop_inv nodes (Suc k) (refs', depths @ [d])"
        if "d = Suc (fold max (map ((!) depths) (body_children body)) 0)" for d
      proof -
        have all: "\<forall>i\<le>k. list_all (\<lambda>c. c < i) (kids_of nodes i)"
          using inv kids by (auto simp: body_def le_less)
        have "ranked nodes (depths @ [d])"
          by (rule ranked_snoc) (use inv that all in \<open>auto simp: body_def\<close>)
        then show ?thesis using refs' inv all by (simp add: tree_loop_inv_def kss_def body_def less_Suc_eq_le)
      qed
      ultimately show ?thesis
        using Inr r \<open>validate_presence _ _ = Inr u\<close>
        by (auto simp: validate_tree_node_def s body_def [symmetric] fuel_then_def split: option.splits sum.splits)
    qed
  qed (simp add: validate_tree_node_def s)
qed

lemma tree_loop:
  assumes "nodes = ct_nodes (ac_tree contract)" and "length nodes \<le> fuel"
  shows "fuel_fold (validate_tree_node fuel contract)
      ((replicate (length nodes) 0, replicate (length nodes) None), []) (List.enumerate 0 nodes) \<noteq> None \<and>
    (\<forall>t. fuel_fold (validate_tree_node fuel contract)
      ((replicate (length nodes) 0, replicate (length nodes) None), []) (List.enumerate 0 nodes) = Some (Inr t) \<longrightarrow>
      tree_loop_inv nodes (length nodes) t)"
proof (rule fuel_fold_enumerate)
  show "tree_loop_inv nodes 0 ((replicate (length nodes) 0, replicate (length nodes) None), [])"
    by (simp add: tree_loop_inv_def references_inv_def ranked_def)
qed (rule tree_loop_step [OF assms(1) _ assms(2)])

subsection \<open>The lexical walk returns\<close>

text \<open>A computation that neither panics nor runs out of fuel.\<close>

definition returns :: "'a option \<Rightarrow> bool" where
  "returns r \<longleftrightarrow> r \<noteq> None"

lemma returns_Some [simp]: "returns (Some x)"
  by (simp add: returns_def)

lemma returns_fuel_then [intro!]:
  "returns r \<Longrightarrow> (\<And>x. r = Some (Inr x) \<Longrightarrow> returns (f x)) \<Longrightarrow> returns (fuel_then r f)"
  by (auto simp: returns_def)

lemma returns_if: "(c \<Longrightarrow> returns a) \<Longrightarrow> (\<not> c \<Longrightarrow> returns b) \<Longrightarrow> returns (if c then a else b)"
  by simp

lemma returns_prod: "(\<And>x y. p = (x, y) \<Longrightarrow> returns (f x y)) \<Longrightarrow> returns (case p of (x, y) \<Rightarrow> f x y)"
  by (cases p) simp

lemma returns_triple:
  "(\<And>x y z. p = ((x, y), z) \<Longrightarrow> returns (f x y z)) \<Longrightarrow> returns (case p of ((x, y), z) \<Rightarrow> f x y z)"
  by (cases p) (simp split: prod.split)

lemmas returns_intros = returns_fuel_then returns_if returns_prod returns_Some

lemma walk_array_total:
  assumes "\<And>s. walk (ca_item a) s \<noteq> None"
  shows "walk_array walk contract a s \<noteq> None"
proof -
  have "returns (walk (ca_item a) t)" for t using assms by (simp add: returns_def)
  then have "returns (walk_array walk contract a s)"
    unfolding walk_array_def by (intro returns_intros)
  then show ?thesis by (simp add: returns_def)
qed

lemma walk_switch_total:
  assumes "\<And>c s. c \<in> set (map cc_node cases) \<Longrightarrow> walk c s \<noteq> None"
  shows "walk_switch walk contract source cases s \<noteq> None"
proof -
  have step: "walk_case walk contract source s c \<noteq> None" if "c \<in> set cases" for s c
  proof -
    have "walk (cc_node c) t \<noteq> None" for t by (rule assms) (use that in simp)
    then have "returns (walk (cc_node c) t)" for t by (simp add: returns_def)
    then have "returns (walk_case walk contract source s c)"
      unfolding walk_case_def Let_def by (intro returns_intros)
    then show ?thesis by (simp add: returns_def)
  qed
  have "fuel_fold (walk_case walk contract source) s cases \<noteq> None" by (rule fuel_fold_not_None) (rule step)
  then show ?thesis by (auto simp: walk_switch_def)
qed

lemma walk_node_total:
  assumes nodes: "nodes = ct_nodes (ac_tree contract)"
  shows "index < fuel \<Longrightarrow> index < length nodes \<Longrightarrow> \<forall>i\<le>index. list_all (\<lambda>c. c < i) (kids_of nodes i) \<Longrightarrow>
    walk_node fuel contract index s \<noteq> None"
proof (induction fuel arbitrary: index s)
  case (Suc fuel)
  define node where "node = nodes ! index"
  have kid: "walk_node fuel contract c t \<noteq> None" if "c \<in> set (body_children (cn_body node))" for c t
  proof -
    have "c < index" using Suc.prems(3) that by (auto simp: list_all_iff node_def)
    then show ?thesis using Suc.prems by (intro Suc.IH) auto
  qed
  have body: "(case cn_body node of
      BodyObject kids \<Rightarrow> fuel_fold (\<lambda>s child. walk_node fuel contract child s) t kids
    | BodyArray array \<Rightarrow> walk_array (walk_node fuel contract) contract array t
    | BodySwitch source cases \<Rightarrow> walk_switch (walk_node fuel contract) contract source cases t
    | BodyValue source transform \<Rightarrow> Some (walk_value contract source transform t)
    | BodyConstant _ \<Rightarrow> Some (Inr t)) \<noteq> None" for t
  proof (cases "cn_body node")
    case (BodyObject ks)
    then have "fuel_fold (\<lambda>s child. walk_node fuel contract child s) t ks \<noteq> None"
      using kid by (intro fuel_fold_not_None) (simp add: body_children_def)
    then show ?thesis using BodyObject by simp
  next
    case (BodyArray a)
    then have "walk_array (walk_node fuel contract) contract a t \<noteq> None"
      using kid by (intro walk_array_total) (simp add: body_children_def)
    then show ?thesis using BodyArray by simp
  next
    case (BodySwitch source cases)
    then have "walk_switch (walk_node fuel contract) contract source cases t \<noteq> None"
      using kid by (intro walk_switch_total) (simp add: body_children_def)
    then show ?thesis using BodySwitch by simp
  qed simp_all
  have some: "nth_opt (ct_nodes (ac_tree contract)) index = Some node"
    using Suc.prems(2) nodes by (simp add: node_def)
  show ?case
    unfolding walk_node.simps some option.case fuel_then_eq_None
    using body by (simp split: prod.split)
qed simp

subsection \<open>Accepted contracts\<close>

definition contract_shape :: "adapter_contract \<Rightarrow> bool" where
  "contract_shape contract \<longleftrightarrow> (let nodes = ct_nodes (ac_tree contract); root = ct_root (ac_tree contract) in
     nodes \<noteq> [] \<and> length nodes \<le> 4096 \<and> root = length nodes - 1 \<and>
     mset (concat (map (kids_of nodes) [0..<length nodes])) = mset [0..<root] \<and>
     (\<forall>i<length nodes. \<forall>c\<in>set (kids_of nodes i). c < i \<and> cn_parent (nodes ! c) = Some i) \<and>
     (\<exists>depths. length depths = length nodes \<and>
        (\<forall>i<length nodes. depths ! i = Suc (fold max (map ((!) depths) (kids_of nodes i)) 0) \<and>
           depths ! i \<le> 32)))"

lemma path_loop:
  assumes "try_fold (path_step nodes expected_parent) ps (rev [0..<root]) = Inr ps'"
  shows "\<forall>i<root. \<exists>p. cn_parent (nodes ! i) = Some p \<and> expected_parent ! i = Some p"
proof -
  define P where "P ys s = (\<forall>i\<in>set ys. \<exists>p. cn_parent (nodes ! i) = Some p \<and> expected_parent ! i = Some p)"
    for ys and s :: "nat list"
  have "P (rev [0..<root]) ps'" using assms
  proof (rule try_fold_prefix)
    show "P [] ps" by (simp add: P_def)
    show "P (ys @ [x]) t" if "P ys s" "path_step nodes expected_parent s x = Inr t" for ys x s t
      using that by (auto simp: P_def path_step_def Let_def split: if_splits)
  qed
  then show ?thesis by (simp add: P_def)
qed

lemma validate_tree_result:
  assumes nodes: "nodes = ct_nodes (ac_tree contract)"
  shows "(length nodes \<le> fuel \<longrightarrow> validate_tree fuel contract \<noteq> None) \<and>
    (length nodes \<le> fuel \<longrightarrow> validate_tree fuel contract = Some (Inr ()) \<longrightarrow> contract_shape contract)"
proof (intro conjI impI)
  assume fuel: "length nodes \<le> fuel"
  define root where "root = ct_root (ac_tree contract)"
  note loop = tree_loop [OF nodes fuel]
  have sem: "validate_semantics fuel contract \<noteq> None" if "tree_loop_inv nodes (length nodes) t" "nodes \<noteq> []"
    "root = length nodes - 1" for t
  proof -
    have "root < length nodes" using that by (cases nodes) auto
    moreover have "\<forall>i\<le>root. list_all (\<lambda>c. c < i) (kids_of nodes i)"
      using that(1) calculation by (auto simp: tree_loop_inv_def)
    ultimately have "walk_node fuel contract root s \<noteq> None" for s
      using fuel by (intro walk_node_total [OF nodes]) auto
    then show ?thesis by (auto simp: validate_semantics_def root_def)
  qed
  show "validate_tree fuel contract \<noteq> None"
  proof -
    have "returns (validate_tree fuel contract)"
      unfolding validate_tree_def Let_def nodes [symmetric] root_def [symmetric]
    proof (intro returns_fuel_then returns_if returns_triple returns_Some, goal_cases)
      case 1
      then show ?case using loop by (simp add: returns_def)
    next
      case (2 u t)
      then have "tree_loop_inv nodes (length nodes) t" "nodes \<noteq> []" "root = length nodes - 1" using loop by auto
      then have final: "returns (validate_semantics fuel contract)" using sem by (simp add: returns_def)
      obtain references expected_parent depths where t: "t = ((references, expected_parent), depths)" by (metis prod.exhaust)
      show ?case unfolding t prod.case by (intro returns_fuel_then returns_if returns_Some final)
    qed
    then show ?thesis by (simp add: returns_def)
  qed
  assume ok: "validate_tree fuel contract = Some (Inr ())"
  then obtain refs expected_parent depths ps' where
      ne: "nodes \<noteq> []" "length nodes \<le> 4096" and root: "root = length nodes - 1"
    and run: "fuel_fold (validate_tree_node fuel contract)
      ((replicate (length nodes) 0, replicate (length nodes) None), []) (List.enumerate 0 nodes)
        = Some (Inr ((refs, expected_parent), depths))"
    and path: "try_fold (path_step nodes expected_parent) (replicate (length nodes) 0) (rev [0..<root]) = Inr ps'"
    and once: "refs ! root = 0" "\<forall>count\<in>set (take root refs). count = 1" "\<forall>depth\<in>set depths. depth \<le> 32"
    unfolding validate_tree_def Let_def nodes [symmetric] root_def [symmetric]
    by (auto simp: list_ex_iff not_less MAX_CONTRACT_NODES_def MAX_CONTRACT_DEPTH_def split: if_splits)
  have idx: "root < length nodes" "length nodes = Suc root" using ne(1) root by (cases nodes; simp)+
  define kss where "kss = map (kids_of nodes) [0..<length nodes]"
  from loop run have "tree_loop_inv nodes (length nodes) ((refs, expected_parent), depths)" by simp
  note inv = this [unfolded tree_loop_inv_def fst_conv snd_conv references_inv_def prod.case, folded kss_def]
  have below: "c < i" if "i < length nodes" "c \<in> set (kids_of nodes i)" for i c
    using inv that by (auto simp: list_all_iff)
  have count: "count (mset (concat kss)) c = (if c < root then 1 else 0)" for c
  proof (cases "c < length nodes")
    case True
    then have refs: "refs ! c = count_list (concat kss) c" using inv by blast
    show ?thesis
    proof (cases "c = root")
      case False
      then have "c < root" using True idx by simp
      then have "take root refs ! c \<in> set (take root refs)" using inv idx by (intro nth_mem) simp
      then have "refs ! c = 1" using once(2) \<open>c < root\<close> by simp
      then show ?thesis using refs \<open>c < root\<close> by (simp add: count_list_mset)
    qed (use refs once(1) in \<open>simp add: count_list_mset\<close>)
  next
    case False
    have "c \<notin> set (concat kss)"
    proof
      assume "c \<in> set (concat kss)"
      then obtain i where "i < length nodes" "c \<in> set (kids_of nodes i)" by (auto simp: kss_def)
      with below False show False by fastforce
    qed
    then have "count (mset (concat kss)) c = 0" by (metis count_mset_0_iff)
    then show ?thesis using False idx by simp
  qed
  have "mset (concat kss) = mset [0..<root]"
    by (rule multiset_eqI) (simp only: count, simp add: count_mset_set')
  moreover have "cn_parent (nodes ! c) = Some i" if "i < length nodes" "c \<in> set (kids_of nodes i)" for i c
  proof -
    have "kss ! i = kids_of nodes i" "i < length kss" using that(1) by (simp_all add: kss_def)
    then have "expected_parent ! c = Some i" using inv that(2) by metis
    moreover have "c < root" using below [OF that] that(1) idx by simp
    ultimately show ?thesis using path_loop [OF path] by fastforce
  qed
  moreover have "depths ! i = Suc (fold max (map ((!) depths) (kids_of nodes i)) 0) \<and> depths ! i \<le> 32"
    if "i < length nodes" for i
  proof -
    have "i < length depths" using inv that by simp
    then have "depths ! i \<le> 32" using once(3) nth_mem by blast
    with inv that show ?thesis by (simp add: ranked_def)
  qed
  ultimately show "contract_shape contract"
    unfolding contract_shape_def Let_def nodes [symmetric] root_def [symmetric] kss_def
    using ne root below inv by blast
qed

text \<open>C40. The validation of any contract returns, whatever its tree points to (no index out of range, no
  endless descent through a cycle of nodes), and a contract it accepts is one tree of at most 4,096
  nodes and depth 32 in postorder: every node but the root is the child of exactly one later node, the
  one its parent field names.\<close>

theorem contract_validation_total:
  assumes "length (ct_nodes (ac_tree contract)) \<le> fuel"
  shows "validate_contract fuel contract \<noteq> None \<and>
    (validate_contract fuel contract = Some (Inr ()) \<longrightarrow> contract_shape contract)"
proof -
  note tree = validate_tree_result [OF refl, of contract fuel]
  show ?thesis
  proof (cases "validate_tree fuel contract")
    case None
    with tree assms show ?thesis by simp
  next
    case (Some r)
    then show ?thesis using tree assms
      by (cases r) (auto simp: validate_contract_def)
  qed
qed

definition sample_contract :: adapter_contract where
  "sample_contract = \<lparr>ac_version = 1, ac_wire_id = PiMessages, ac_model_source = CurrentModel,
     ac_tree = \<lparr>ct_root = 2, ct_nodes =
       [\<lparr>cn_parent = Some 2, cn_segment = Some (SegKey ''m''), cn_presence = Required,
          cn_presence_source = None, cn_body = BodyValue SrcSelectedModel TIdentity\<rparr>,
        \<lparr>cn_parent = Some 2, cn_segment = Some (SegKey ''n''), cn_presence = Required,
          cn_presence_source = None, cn_body = BodyConstant (ConstBoolean True)\<rparr>,
        \<lparr>cn_parent = None, cn_segment = None, cn_presence = Required,
          cn_presence_source = None, cn_body = BodyObject [0, 1]\<rparr>], ct_tables = []\<rparr>,
     ac_header_rules = [], ac_decoder_kind = PiMessages\<rparr>"

lemma sample_keys: "scalar_safe ''m'' 128 True = Inr ()" "scalar_safe ''n'' 128 True = Inr ()"
  by (simp_all add: scalar_safe_def is_unsafe_char_def utf8_width_def next_code_point_def)

lemma sample_contract_accepted: "validate_contract 3 sample_contract = Some (Inr ())"
proof -
  define nodes where "nodes = ct_nodes (ac_tree sample_contract)"
  have tree: "ct_root (ac_tree sample_contract) = 2" "ct_tables (ac_tree sample_contract) = []" "length nodes = 3"
    by (simp_all add: nodes_def sample_contract_def)
  have tables: "validate_tables sample_contract = Inr ()"
    by (simp add: validate_tables_def sample_contract_def check_table_use_def)
  have loop: "fuel_fold (validate_tree_node 3 sample_contract)
      ((replicate 3 0, replicate 3 None), []) (List.enumerate 0 nodes) =
    Some (Inr (([1, 1, 0], [Some 2, Some 2, None]), [1, 1, 2]))"
    by (simp add: nodes_def sample_contract_def validate_tree_node_def validate_presence_def validate_body_def
        validate_transform_def transform_legal_def validate_constant_def object_child_def add_reference_def
        node_depth_def body_children_def sample_keys nth_opt_def numeral_3_eq_3 checked_add_def ok_or_def
        map_err_def Let_def)
  have two: "rev [0..<2] = [1, 0 :: nat]" by (simp add: upt_rec)
  have path: "try_fold (path_step nodes [Some 2, Some 2, None]) (replicate 3 0) (rev [0..<2]) = Inr [1, 1, 0]"
    by (simp add: two nodes_def sample_contract_def path_step_def numeral_3_eq_3 checked_add_def ok_or_def Let_def)
  have charge: "\<exists>c. charge_tree sample_contract = Inr c"
    by (simp add: charge_tree_def sample_contract_def charge_node_def charge_body_def charge_option_ref_def
        charge_refs_def contract_add_def contract_string_def charge_eval map_err_def)
  have sem: "validate_semantics 3 sample_contract = Some (Inr ())"
    by (simp add: validate_semantics_def sample_contract_def numeral_3_eq_3 nth_opt_def validate_wrapper_def
       wrapper_legal_def walk_value_def validate_scalar_def scalar_legal_def Let_def)
  have legal: "root_node_legal (nodes ! 2)" and ne: "nodes \<noteq> []"
    by (simp_all add: nodes_def sample_contract_def root_node_legal_def)
  from charge obtain c where charge: "charge_tree sample_contract = Inr c" by blast
  have "validate_tree 3 sample_contract = Some (Inr ())"
    using ne
    by (simp add: validate_tree_def nodes_def [symmetric] tree tables loop path charge sem legal
        MAX_CONTRACT_NODES_def MAX_CONTRACT_DEPTH_def MAX_PATH_DEPTH_def MAX_TABLES_def take_Cons')
  moreover have "ac_version sample_contract = 1" "ac_header_rules sample_contract = []"
      "ac_wire_id sample_contract = ac_decoder_kind sample_contract"
    by (simp_all add: sample_contract_def)
  ultimately show ?thesis by (simp add: validate_contract_def validate_header_rules_def MAX_HEADER_RULES_def)
qed

theorem contract_validation_total_witness:
  "validate_contract 3 sample_contract \<noteq> None \<and> contract_shape sample_contract"
  using contract_validation_total [of sample_contract 3] sample_contract_accepted
  by (simp add: sample_contract_def)

end
