(* ===== verification/Spec2Isabelle.thy ===== *)
theory Spec2Isabelle
  imports Agent Decoder_Protocol Fence Host_Vault Route_Ledger Pack_Selection Adapter_Contract
begin

text \<open>
  Verification of MCode, a terminal coding agent in Rust (\<open>src/crates\<close>).

  \<^bold>\<open>The program.\<close> An agent (\<open>mcode-agent\<close>) runs turns: it appends the user's prompt to the history, asks a
  provider for a response over a bounded event stream (\<open>mcode-provider-api\<close>), runs the tool calls of the
  response through a registry of tools (\<open>mcode-tools\<close>), appends their results, and repeats until a response
  has no calls, while steering and follow-up messages are queued from other tasks and a token may cancel
  the turn. Provider packs are WebAssembly guests that a host (\<open>mcode-plugin-host\<close>) drives: everything a guest
  returns is validated (bounded scalars, flat wire JSON, decoder frames and events) before it is used,
  every guest belongs to a generation whose fence admits and retires activities, and a decoder reducer
  turns the guest's answers into the normalized events of one completion. The configuration crate
  (\<open>mcode-config\<close>) defines the identifiers and keeps a vault of credentials that are changed by
  revision-checked commands.

  \<^bold>\<open>The theories\<close>, each with the definitions in the order of the code and the lemmas after them:

  \<^item> \<open>Prelude\<close>: results as sums with \<open>and_then\<close> (the question mark of Rust), folds that stop at the first error,
    computations that keep their state when they fail (\<open>&mut self\<close> methods), fuel as an option, checked
    arithmetic, UTF-8 bytes, binary search, tables sorted by key; the locales \<open>invariant_system\<close> (reachable
    states and invariants) and the reservation counters.
  \<^item> \<open>Identifiers\<close>: \<open>mcode-config/src/home.rs\<close>, \<open>authority.rs\<close>, \<open>root_composition.rs\<close>, \<open>host_vault/model.rs\<close> and
    \<open>mcode-plugin-host/src/provider_routes/identity.rs\<close>: every identifier grammar and its bounds, as an
    instance of one locale of grammars; the layered portable-id check equals a byte grammar.
  \<^item> \<open>Messages\<close>: \<open>mcode-core\<close> (message.rs, events.rs, error.rs, tool.rs), the request and stream events of
    \<open>mcode-provider-api/src/provider.rs\<close>, and tool results.
  \<^item> \<open>Provider_Error\<close>: \<open>mcode-provider-api/src/error.rs\<close>: the redaction of credentials and the bound of a stored
    message.
  \<^item> \<open>Streams\<close>: \<open>mcode-provider-api/src/stream.rs\<close> (event stream with one terminal) and
    \<open>mcode-tools/src/stream.rs\<close> (tool stream).
  \<^item> \<open>Agent\<close>: \<open>mcode-agent\<close> (hooks.rs, prompt.rs, env.rs, turn.rs, agent.rs) and the registry: one response, one tool
    call, the double loop, a whole turn, with the other tasks interfering between steps.
  \<^item> \<open>Wire_Json\<close>: \<open>provider_validation/charge.rs\<close>, \<open>scalar.rs\<close>, \<open>wire_json.rs\<close>: charges, bounded scalars, flat JSON
    documents, their validation and canonical text.
  \<^item> \<open>Tool_Json\<close>: \<open>provider_validation/decoder/tool_json.rs\<close>: the JSON parser for tool arguments.
  \<^item> \<open>Decoder_Events\<close>: \<open>decoder.rs\<close> and \<open>decoder/events.rs\<close>: frames, events and the event reducer.
  \<^item> \<open>Decoder_Protocol\<close>: \<open>decoder/protocol.rs\<close>: the reducer that decides the next action.
  \<^item> \<open>Fence\<close>: \<open>generation.rs\<close> and \<open>runtime/admission.rs\<close>: the packed phase-and-count word under every interleaving
    of its atomic steps, commit windows, and the Store's admission counters.
  \<^item> \<open>Route_Ledger\<close>: \<open>provider_routes/stamps.rs\<close>, \<open>ledger.rs\<close>: the three-index route table, leases, usage contexts
    and usage samples, in processes that hold any number of ledgers.
  \<^item> \<open>Strict_Json\<close>: \<open>mcode-config/src/parse.rs\<close> and the field helpers of \<open>authority.rs\<close>: the visitor that builds
    a bounded JSON value from the calls of the deserializer.
  \<^item> \<open>Authority_Documents\<close>: \<open>root_composition.rs\<close>, \<open>pack_installation.rs\<close>, \<open>secure_fs/owned_file.rs\<close>: the two
    revision-checked authority files.
  \<^item> \<open>Pack_Selection\<close>: \<open>pack_selection.rs\<close>, \<open>pack_activation.rs\<close>, \<open>transaction_id.rs\<close>: selection stamps and the
    activations they authorize.
  \<^item> \<open>Adapter_Json\<close>: \<open>provider_validation/adapter/json.rs\<close>: the JSON value an adapter expects, built from wire JSON,
    and its comparison with a body.
  \<^item> \<open>Hash_Encoding\<close>: the length-prefixed encoding that the digests of \<open>catalog.rs\<close> hash, with the locale of
    self-delimiting encodings.
  \<^item> \<open>Provider_Catalog\<close>: \<open>provider_validation/catalog.rs\<close>: catalog entries, pages, metadata and the catalog digest.
  \<^item> \<open>Provider_Prepare\<close>: \<open>provider_validation/prepare.rs\<close>: the input of one completion and the prepared request.
  \<^item> \<open>Adapter_Contract\<close>: \<open>provider_validation/adapter\<close> (types.rs, structure.rs, semantics.rs, header.rs): the
    contracts that say how a request becomes a JSON body, their validation and the header rules.
  \<^item> \<open>Host_Vault\<close>: \<open>host_vault/model.rs\<close>, \<open>reducer.rs\<close>: the document, its validation and the commands.

  \<^bold>\<open>Correspondence.\<close> A struct is a record, an enum a datatype, \<open>Result\<close> a sum with the error on the left, \<open>Option\<close> an
  option, a \<open>&str\<close> the list of its UTF-8 bytes, an unsigned integer a natural number with \<open>checked_add\<close> at its
  width (a packed atomic word is a 64-bit word), a BTreeMap a sorted association list or a map. Methods
  that take \<open>&mut self\<close> return the new state, also when they fail. Shared state is passed explicitly; where
  threads race (event stream, fence, agent control) a step relation or a list of interfering steps ranges
  over all interleavings.

  \<^bold>\<open>What the lemmas show.\<close>
  \<^item> Agent: whatever happens, the calls of an assistant message are answered by exactly one result each, in
    order; the events follow a bracketed protocol; no queued message is lost unless another task clears
    the queues; a turn returns; a truncated response runs no tool; a turn cancelled before it starts
    only records its input.
  \<^item> Streams: at most one terminal, nothing after it, order kept, bounded queue.
  \<^item> Errors: wherever a credential is detected the offset falls in a redacted span, of which at most the key
    stays; the stored text is bounded.
  \<^item> Wire JSON: a validated document is one tree; its canonical text is that of the tree and its predicted
    length exact. Tool JSON: the parser and the serializer are inverse on the accepted texts.
  \<^item> Decoder: the accepted events are those of a well-formed list of content blocks and the terminal fits
    them; counters stay bounded; closing is final; every driver reaches the closed state.
  \<^item> Fence: the count is exact in every interleaving, retirement is final and excludes commit windows.
  \<^item> Routes: the indices of a table agree and claims are never taken over; usage is sampled exactly once.
  \<^item> Authority files: the documents round trip within the limits of their reader, and a file behaves as an
    append-only list of numbered versions. Selections: stamps are exclusive, only a current selection of a
    current generation is activated.
  \<^item> Adapter JSON: a body is accepted exactly when it encodes the expected value within the limits, and the text
    returned is that of the value.
  \<^item> Adapter contracts: the validation of any contract returns, and an accepted contract is one postorder
    tree within the bounds.
  \<^item> Catalog and prepare: a digest names one catalog, pages tile it; in an accepted history every call is answered
    once, in order, before the next message of the other kinds.
  \<^item> Vault: a simulation of two maps; documents stay valid; stale commands change nothing; versions never go
    back and revoked credentials stay revoked.

  \<^bold>\<open>Fuel and bounds.\<close> Recursive descents over flat node vectors take fuel and return an option: a validated
  document needs no more than its number of nodes, the JSON parser no more than the bytes of its text (and
  the depth bound 64), which is proved (\<open>tool_arguments_total\<close>, \<open>canonical_serialize_exact\<close>,
  \<open>contract_validation_total\<close>). The agent's loops
  take fuel; \<open>prompt_returns\<close> gives an amount that is enough. The limits are the constants of the code.

  \<^bold>\<open>Not modelled.\<close> The file system layer (\<open>secure_fs\<close>, staging, the builtin file tools), process launch, and the
  terminal are operating-system calls; Wasmtime compilation and instantiation, the regular-expression
  search, clap and serde are external crates. Where modelled code calls them they are parameters: the
  provider and the tools of a turn are arbitrary state transformers, \<open>serde_json\<close> parsing and SHA-256 are
  functions given to the definitions, the guest behind a decoder is its arbitrary answers. The wake-up of a
  waiting task is only its condition. The serialized text of the vault, the edit engine and the editor of
  the terminal UI, the evaluation of an adapter contract (policy.rs, source.rs, evaluate.rs,
  digest.rs) and the context counter are not modelled.
\<close>

end
